(* ===== verification/Prelude.thy ===== *)
theory Prelude
  imports Main
begin

text \<open>
  Shared vocabulary of the development: C++ exceptions as values, 64-bit signed arithmetic
  with its overflow case written out, the C view of a \<open>std::string\<close>, and the lemma
  collections the component theories extend.
\<close>

named_theorems db_simps \<open>unfolding rules for the database operations\<close>
named_theorems inv_intros \<open>preservation of the database invariant\<close>

section \<open>Exceptions as values\<close>

text \<open>
  What a C++ call can leave behind instead of a value. The first five constructors are
  classes derived from \<open>std::exception\<close>; \<open>Json_exception\<close> carries the numeric id the JSON
  library gives each of its errors. \<open>Undefined\<close> is not an exception: it marks an execution
  that the language gives no meaning (signed overflow, a read outside a buffer, a conversion
  out of range), and no handler of the program catches it.
\<close>

datatype exn =
    Invalid_argument string
  | Runtime_error string
  | Out_of_range string
  | Logic_error string
  | Json_exception nat string
  | Undefined string

fun what :: "exn \<Rightarrow> string" where
  "what (Invalid_argument m) = m"
| "what (Runtime_error m) = m"
| "what (Out_of_range m) = m"
| "what (Logic_error m) = m"
| "what (Json_exception n m) = m"
| "what (Undefined m) = m"

fun is_undefined :: "exn \<Rightarrow> bool" where
  "is_undefined (Undefined m) = True"
| "is_undefined (Invalid_argument m) = False"
| "is_undefined (Runtime_error m) = False"
| "is_undefined (Out_of_range m) = False"
| "is_undefined (Logic_error m) = False"
| "is_undefined (Json_exception n m) = False"

type_synonym 'a res = "exn + 'a"

text \<open>Going on with a value, or leaving with the exception.\<close>

fun res_bind :: "'a res \<Rightarrow> ('a \<Rightarrow> 'b res) \<Rightarrow> 'b res" where
  "res_bind (Inl e) f = Inl e"
| "res_bind (Inr x) f = f x"

lemma res_bind_Inr: "res_bind m f = Inr y \<longleftrightarrow> (\<exists>x. m = Inr x \<and> f x = Inr y)"
  by (cases m) auto

lemma res_bind_Inl: "res_bind m f = Inl e \<longleftrightarrow> m = Inl e \<or> (\<exists>x. m = Inr x \<and> f x = Inl e)"
  by (cases m) auto

lemma res_bind_assoc: "res_bind (res_bind m f) g = res_bind m (\<lambda>x. res_bind (f x) g)"
  by (cases m) auto

lemma res_bind_cong [fundef_cong]:
  "m = m' \<Longrightarrow> (\<And>x. m' = Inr x \<Longrightarrow> f x = g x) \<Longrightarrow> res_bind m f = res_bind m' g"
  by (cases m') auto

section \<open>Signed 64-bit integers\<close>

text \<open>
  An \<open>int64_t\<close> is an \<open>int\<close> between the two bounds. Addition and subtraction outside the
  bounds are undefined behaviour in C++, so they are an error value here, never a wrapped
  number.
\<close>

definition i64_min :: int where "i64_min = - (2 ^ 63)"
definition i64_max :: int where "i64_max = 2 ^ 63 - 1"

definition in_i64 :: "int \<Rightarrow> bool" where
  "in_i64 x \<longleftrightarrow> i64_min \<le> x \<and> x \<le> i64_max"

definition chk_i64 :: "int \<Rightarrow> int res" where
  "chk_i64 x = (if in_i64 x then Inr x else Inl (Undefined ''signed integer overflow''))"

definition add_i64 :: "int \<Rightarrow> int \<Rightarrow> int res" where
  "add_i64 a b = chk_i64 (a + b)"

definition sub_i64 :: "int \<Rightarrow> int \<Rightarrow> int res" where
  "sub_i64 a b = chk_i64 (a - b)"

text \<open>C++ division truncates towards zero.\<close>

definition trunc_div :: "int \<Rightarrow> int \<Rightarrow> int" where
  "trunc_div num den =
     (let q = \<bar>num\<bar> div \<bar>den\<bar> in if (num < 0) = (den < 0) then q else - q)"

lemma add_i64_ok [simp]: "in_i64 (a + b) \<Longrightarrow> add_i64 a b = Inr (a + b)"
  by (simp add: add_i64_def chk_i64_def)

lemma sub_i64_ok [simp]: "in_i64 (a - b) \<Longrightarrow> sub_i64 a b = Inr (a - b)"
  by (simp add: sub_i64_def chk_i64_def)

lemma add_i64_Inr: "add_i64 a b = Inr c \<longleftrightarrow> c = a + b \<and> in_i64 (a + b)"
  by (auto simp: add_i64_def chk_i64_def)

lemma sub_i64_Inr: "sub_i64 a b = Inr c \<longleftrightarrow> c = a - b \<and> in_i64 (a - b)"
  by (auto simp: sub_i64_def chk_i64_def)

lemma add_i64_Inl: "add_i64 a b = Inl e \<longleftrightarrow>
    e = Undefined ''signed integer overflow'' \<and> \<not> in_i64 (a + b)"
  by (auto simp: add_i64_def chk_i64_def)

lemma sub_i64_Inl: "sub_i64 a b = Inl e \<longleftrightarrow>
    e = Undefined ''signed integer overflow'' \<and> \<not> in_i64 (a - b)"
  by (auto simp: sub_i64_def chk_i64_def)

lemma trunc_div_nonneg: "0 \<le> a \<Longrightarrow> 0 < b \<Longrightarrow> trunc_div a b = a div b"
  by (simp add: trunc_div_def)

lemma trunc_div_neg: "a < 0 \<Longrightarrow> 0 < b \<Longrightarrow> trunc_div a b = - (- a div b)"
  by (simp add: trunc_div_def)

section \<open>Strings\<close>

text \<open>
  A \<open>std::string\<close> is a list of bytes that may hold the byte 0; handing \<open>c_str()\<close> to C code
  with length \<open>-1\<close> passes the bytes before the first 0 only.
\<close>

definition c_str :: "string \<Rightarrow> string" where
  "c_str s = takeWhile (\<lambda>c. c \<noteq> CHR 0x00) s"

definition no_nul :: "string \<Rightarrow> bool" where
  "no_nul s \<longleftrightarrow> list_all (\<lambda>c. c \<noteq> CHR 0x00) s"

lemma c_str_id [simp]: "no_nul s \<Longrightarrow> c_str s = s"
  unfolding c_str_def no_nul_def list_all_iff by simp

lemma no_nul_c_str [simp]: "no_nul (c_str s)"
  by (auto simp: no_nul_def c_str_def list_all_iff dest: set_takeWhileD)

lemma c_str_idem [simp]: "c_str (c_str s) = c_str s"
  by simp

lemma byte_less [simp]: "(of_char c :: nat) < 256"
proof -
  have "(of_char c :: nat) mod 256 < 256" by simp
  then show ?thesis by simp
qed

section \<open>Lists with keys\<close>

text \<open>Sum of an integer field over a list, and replacing the row a key names.\<close>

definition upd_by :: "('a \<Rightarrow> 'k) \<Rightarrow> 'a \<Rightarrow> 'a list \<Rightarrow> 'a list" where
  "upd_by key x xs = map (\<lambda>y. if key y = key x then x else y) xs"

lemma upd_by_Nil [simp]: "upd_by key x [] = []"
  by (simp add: upd_by_def)

lemma upd_by_Cons [simp]:
  "upd_by key x (y # ys) = (if key y = key x then x else y) # upd_by key x ys"
  by (simp add: upd_by_def)

lemma map_key_upd_by [simp]: "map key (upd_by key x xs) = map key xs"
  by (induction xs) auto

lemma length_upd_by [simp]: "length (upd_by key x xs) = length xs"
  by (simp add: upd_by_def)

lemma upd_by_absent: "key x \<notin> key ` set xs \<Longrightarrow> upd_by key x xs = xs"
  by (induction xs) auto

lemma set_upd_by: "set (upd_by key x xs) \<subseteq> insert x (set xs)"
  by (auto simp: upd_by_def)

lemma find_upd_by:
  "find (\<lambda>y. key y = k) (upd_by key x xs) =
     (if k = key x \<and> k \<in> key ` set xs then Some x else find (\<lambda>y. key y = k) xs)"
  by (induction xs) auto

lemma find_append: "find P (xs @ ys) = (case find P xs of None \<Rightarrow> find P ys | Some x \<Rightarrow> Some x)"
  by (induction xs) auto

lemma find_key_None: "find (\<lambda>y. key y = k) xs = None \<longleftrightarrow> k \<notin> key ` set xs"
  by (induction xs) auto

lemma find_Some_in: "find P xs = Some x \<Longrightarrow> x \<in> set xs \<and> P x"
  by (induction xs) (auto split: if_splits)

lemma sum_upd_by:
  fixes f :: "'a \<Rightarrow> int"
  assumes "distinct (map key xs)" "find (\<lambda>y. key y = key x) xs = Some old"
  shows "sum_list (map f (upd_by key x xs)) = sum_list (map f xs) - f old + f x"
  using assms
proof (induction xs)
  case Nil
  then show ?case by simp
next
  case (Cons y ys)
  show ?case
  proof (cases "key y = key x")
    case True
    with Cons.prems have "key x \<notin> key ` set ys" "old = y" by auto
    with True show ?thesis by (simp add: upd_by_absent)
  next
    case False
    with Cons show ?thesis by simp
  qed
qed

lemma member_le_sum_map:
  fixes f :: "'a \<Rightarrow> int"
  assumes "\<forall>x \<in> set xs. 0 \<le> f x" "y \<in> set xs"
  shows "f y \<le> sum_list (map f xs)"
  using assms
proof (induction xs)
  case Nil
  then show ?case by simp
next
  case (Cons z zs)
  have "0 \<le> sum_list (map f zs)" using Cons.prems by (intro sum_list_nonneg) auto
  with Cons show ?case by fastforce
qed

end
