(* ===== verification/Model.thy ===== *)
theory Model
  imports Prelude
begin

text \<open>
  The plain data of \<open>src/cpp/model/\<close>: \<open>Account\<close>, \<open>PaymentInstruction\<close>, \<open>MeshPacket\<close>,
  \<open>Transaction\<close> and its \<open>Status\<close>, with the two conversions between a status and its text.
  Amounts are in paise. Field names that two structs share carry a prefix here
  (\<open>pi_\<close> for \<open>PaymentInstruction\<close>, \<open>tx_\<close> for \<open>Transaction\<close>).
\<close>

record account =
  vpa :: string
  holderName :: string
  balance :: int
  version :: int

record mesh_packet =
  packetId :: string
  ttl :: int
  createdAt :: int
  ciphertext :: string

record payment =
  pi_senderVpa :: string
  pi_receiverVpa :: string
  pi_amount :: int
  pi_pinHash :: string
  pi_nonce :: string
  pi_signedAt :: int

text \<open>\<open>PaymentInstruction::operator==\<close>.\<close>

definition payment_eq :: "payment \<Rightarrow> payment \<Rightarrow> bool" where
  "payment_eq p q \<longleftrightarrow>
     pi_senderVpa p = pi_senderVpa q \<and> pi_receiverVpa p = pi_receiverVpa q \<and>
     pi_amount p = pi_amount q \<and> pi_pinHash p = pi_pinHash q \<and>
     pi_nonce p = pi_nonce q \<and> pi_signedAt p = pi_signedAt q"

lemma payment_eq_iff: "payment_eq p q \<longleftrightarrow> p = q"
  by (cases p; cases q) (auto simp: payment_eq_def)

datatype status = SETTLED | REJECTED | DUPLICATE_DROPPED | INVALID

fun statusToString :: "status \<Rightarrow> string" where
  "statusToString SETTLED = ''SETTLED''"
| "statusToString REJECTED = ''REJECTED''"
| "statusToString DUPLICATE_DROPPED = ''DUPLICATE_DROPPED''"
| "statusToString INVALID = ''INVALID''"

definition parseStatus :: "string \<Rightarrow> status" where
  "parseStatus str =
     (if str = ''SETTLED'' then SETTLED
      else if str = ''REJECTED'' then REJECTED
      else if str = ''DUPLICATE_DROPPED'' then DUPLICATE_DROPPED
      else if str = ''INVALID'' then INVALID
      else INVALID)"

lemma parse_statusToString [simp]: "parseStatus (statusToString s) = s"
  by (cases s) (simp_all add: parseStatus_def)

lemma statusToString_inj [simp]: "statusToString s = statusToString t \<longleftrightarrow> s = t"
  by (metis parse_statusToString)

lemma no_nul_statusToString [simp]: "no_nul (statusToString s)"
  by (cases s) (simp_all add: no_nul_def)

record transaction =
  tx_id :: int
  tx_packetHash :: string
  tx_senderVpa :: string
  tx_receiverVpa :: string
  tx_amount :: int
  tx_signedAt :: int
  tx_settledAt :: int
  tx_bridgeNodeId :: string
  tx_hopCount :: int
  tx_status :: status

end
