(* ===== verification/Interfaces.thy ===== *)
theory Interfaces
  imports Model
begin

text \<open>
  The contracts one component relies on and another provides, as locales. Each is
  interpreted on the model's own definitions in the theory of its provider.
\<close>

section \<open>A table of accounts\<close>

text \<open>
  What \<open>SettlementService\<close> needs of the accounts table: a lookup sees exactly the last
  row written under its key, and writing over an existing row moves the total by the
  difference of the two balances.
\<close>

locale account_store =
  fixes select :: "string \<Rightarrow> 's \<Rightarrow> account option"
    and upsert :: "account \<Rightarrow> 's \<Rightarrow> 's"
    and total :: "'s \<Rightarrow> int"
    and valid :: "'s \<Rightarrow> bool"
  assumes select_upsert: "select v (upsert a s) = (if v = vpa a then Some a else select v s)"
    and select_key: "select v s = Some a \<Longrightarrow> vpa a = v"
    and total_upsert: "valid s \<Longrightarrow> select (vpa a) s = Some old \<Longrightarrow>
          total (upsert a s) = total s - balance old + balance a"
    and valid_upsert: "valid s \<Longrightarrow> no_nul (vpa a) \<Longrightarrow> no_nul (holderName a) \<Longrightarrow>
          0 \<le> balance a \<Longrightarrow> in_i64 (balance a) \<Longrightarrow> valid (upsert a s)"
    and valid_select: "valid s \<Longrightarrow> select v s = Some a \<Longrightarrow>
          no_nul (vpa a) \<and> no_nul (holderName a) \<and> 0 \<le> balance a \<and> in_i64 (balance a)"
    and select_le_total: "valid s \<Longrightarrow> select v s = Some a \<Longrightarrow> balance a \<le> total s"
begin

lemma select_same: "select (vpa a) (upsert a s) = Some a"
  by (simp add: select_upsert)

lemma select_other: "v \<noteq> vpa a \<Longrightarrow> select v (upsert a s) = select v s"
  by (simp add: select_upsert)

text \<open>Moving an amount between two different rows keeps the total.\<close>

lemma move_total:
  assumes "valid s" "select u s = Some a" "select v s = Some b" "u \<noteq> v"
    and "vpa a' = u" "vpa b' = v" "balance a' = balance a - x" "balance b' = balance b + x"
    and "valid (upsert a' s)"
  shows "total (upsert b' (upsert a' s)) = total s"
proof -
  have "total (upsert a' s) = total s - x"
    using assms by (simp add: total_upsert)
  moreover have "select (vpa b') (upsert a' s) = Some b"
    using assms by (simp add: select_upsert)
  ultimately show ?thesis
    using assms by (simp add: total_upsert)
qed

text \<open>
  When both rows are the same one, the second write wins and the total grows: the row ends
  up with the amount added, and the subtraction is lost.
\<close>

lemma move_same_total:
  assumes "valid s" "select u s = Some a"
    and "vpa a' = u" "vpa b' = u" "balance b' = balance a + x"
    and "valid (upsert a' s)"
  shows "total (upsert b' (upsert a' s)) = total s + x"
proof -
  have "total (upsert a' s) = total s - balance a + balance a'"
    using assms by (simp add: total_upsert)
  moreover have "select (vpa b') (upsert a' s) = Some a'"
    using assms by (simp add: select_upsert)
  ultimately show ?thesis
    using assms by (simp add: total_upsert)
qed

lemma move_select:
  assumes "vpa a' = u" "vpa b' = v" "u \<noteq> v"
  shows "select u (upsert b' (upsert a' s)) = Some a'"
    and "select v (upsert b' (upsert a' s)) = Some b'"
    and "w \<noteq> u \<Longrightarrow> w \<noteq> v \<Longrightarrow> select w (upsert b' (upsert a' s)) = select w s"
  using assms by (auto simp: select_upsert)

end

section \<open>A ledger with unique keys\<close>

text \<open>Offering rows one after the other; a refused row changes nothing.\<close>

fun ins_all :: "('r \<Rightarrow> 's \<Rightarrow> string + int \<times> 's) \<Rightarrow> 'r list \<Rightarrow> 's \<Rightarrow> 's" where
  "ins_all ins [] s = s"
| "ins_all ins (r # rs) s =
     (case ins r s of Inl m \<Rightarrow> ins_all ins rs s | Inr (n, s') \<Rightarrow> ins_all ins rs s')"

text \<open>
  What the services need of the transactions table: rows are only ever appended, a key is
  accepted once, and each new row has a larger id than the rows before it.
\<close>

locale ledger =
  fixes ins :: "'r \<Rightarrow> 's \<Rightarrow> string + int \<times> 's"
    and key :: "'r \<Rightarrow> string"
    and ident :: "'r \<Rightarrow> int"
    and rows :: "'s \<Rightarrow> 'r list"
    and good :: "'s \<Rightarrow> bool"
  assumes ins_rows: "ins r s = Inr (n, s') \<Longrightarrow>
            \<exists>r'. rows s' = rows s @ [r'] \<and> key r' = key r \<and> ident r' = n"
    and ins_dup: "key r \<in> key ` set (rows s) \<Longrightarrow> \<exists>m. ins r s = Inl m"
    and ins_good: "good s \<Longrightarrow> ins r s = Inr (n, s') \<Longrightarrow> good s'"
    and good_keys: "good s \<Longrightarrow> distinct (map key (rows s))"
    and ins_fresh: "good s \<Longrightarrow> ins r s = Inr (n, s') \<Longrightarrow> x \<in> set (rows s) \<Longrightarrow> ident x < n"
begin

lemma ins_all_good: "good s \<Longrightarrow> good (ins_all ins rs s)"
  by (induction rs arbitrary: s) (auto split: sum.splits intro: ins_good)

lemma ins_all_prefix: "\<exists>new. rows (ins_all ins rs s) = rows s @ new"
proof (induction rs arbitrary: s)
  case Nil
  show ?case by simp
next
  case (Cons r rs)
  show ?case
  proof (cases "ins r s")
    case (Inl m)
    with Cons show ?thesis by simp
  next
    case (Inr p)
    then obtain n s' where p: "ins r s = Inr (n, s')" by (cases p) auto
    then obtain r' where "rows s' = rows s @ [r']" using ins_rows by blast
    moreover obtain new where "rows (ins_all ins rs s') = rows s' @ new" using Cons by blast
    ultimately show ?thesis using p by simp
  qed
qed

lemma ins_key: "ins r s = Inr (n, s') \<Longrightarrow> key r \<notin> key ` set (rows s)"
  using ins_dup by fastforce

lemma count_key_le_1:
  assumes "good s"
  shows "length (filter (\<lambda>r. key r = k) (rows s)) \<le> 1"
proof -
  have "distinct xs \<Longrightarrow> length (filter (\<lambda>x. x = k) xs) \<le> 1" for xs
    by (induction xs) (auto simp: filter_empty_conv)
  from this [OF good_keys [OF assms]] show ?thesis
    by (simp add: filter_map o_def)
qed

lemma ins_all_once:
  assumes "good s"
  shows "length (filter (\<lambda>r. key r = k) (rows (ins_all ins rs s))) \<le> 1"
  by (rule count_key_le_1) (rule ins_all_good [OF assms])

end

section \<open>A gate that lets each key through once\<close>

text \<open>Any number of claims, at any times, for any keys, in the order the lock admits them.\<close>

fun claim_all ::
    "(int \<Rightarrow> string \<Rightarrow> 's \<Rightarrow> bool \<times> 's) \<Rightarrow> (int \<times> string) list \<Rightarrow> 's \<Rightarrow> bool list \<times> 's" where
  "claim_all claim_at [] s = ([], s)"
| "claim_all claim_at ((now, k) # cs) s =
     (let (b, s1) = claim_at now k s; (bs, s2) = claim_all claim_at cs s1 in (b # bs, s2))"

locale once_gate =
  fixes claim_at :: "int \<Rightarrow> string \<Rightarrow> 's \<Rightarrow> bool \<times> 's"
    and held :: "string \<Rightarrow> 's \<Rightarrow> bool"
  assumes claim_fst: "fst (claim_at now k s) = (\<not> held k s)"
    and claim_held: "held k' (snd (claim_at now k s)) = (k' = k \<or> held k' s)"
begin

lemma claims_held: "held k (snd (claim_all claim_at cs s)) \<longleftrightarrow> held k s \<or> k \<in> snd ` set cs"
proof (induction cs arbitrary: s)
  case Nil
  then show ?case by simp
next
  case (Cons c cs)
  obtain now k' where c: "c = (now, k')" by (cases c)
  have "claim_all claim_at ((now, k') # cs) s = (fst (claim_at now k' s) # fst (claim_all claim_at cs (snd (claim_at now k' s))),
          snd (claim_all claim_at cs (snd (claim_at now k' s))))"
    by (simp add: case_prod_unfold Let_def)
  then show ?case using Cons [of "snd (claim_at now k' s)"] c by (auto simp: claim_held)
qed

lemma claims_none:
  "held k s \<Longrightarrow> length (filter (\<lambda>(b, c). b \<and> snd c = k) (zip (fst (claim_all claim_at cs s)) cs)) = 0"
proof (induction cs arbitrary: s)
  case Nil
  then show ?case by simp
next
  case (Cons c cs)
  obtain now k' where c: "c = (now, k')" by (cases c)
  have "fst (claim_all claim_at (c # cs) s) = fst (claim_at now k' s) # fst (claim_all claim_at cs (snd (claim_at now k' s)))"
    using c by (simp add: case_prod_unfold Let_def)
  then show ?case
    using Cons.IH [of "snd (claim_at now k' s)"] Cons.prems c by (auto simp: claim_held claim_fst)
qed

text \<open>Of the claims for one key, exactly one succeeds when the key was free before.\<close>

lemma claims_once:
  assumes "\<not> held k s" "k \<in> snd ` set cs"
  shows "length (filter (\<lambda>(b, c). b \<and> snd c = k) (zip (fst (claim_all claim_at cs s)) cs)) = 1"
  using assms
proof (induction cs arbitrary: s)
  case Nil
  then show ?case by simp
next
  case (Cons c cs)
  obtain now k' where c: "c = (now, k')" by (cases c)
  let ?s1 = "snd (claim_at now k' s)"
  have step: "fst (claim_all claim_at (c # cs) s) = fst (claim_at now k' s) # fst (claim_all claim_at cs ?s1)"
    using c by (simp add: case_prod_unfold Let_def)
  show ?case
  proof (cases "k' = k")
    case True
    then have "held k ?s1" by (simp add: claim_held)
    from claims_none [OF this, of cs] True Cons.prems c step show ?thesis
      by (simp add: claim_fst)
  next
    case False
    with Cons.prems c have "\<not> held k ?s1" "k \<in> snd ` set cs" by (auto simp: claim_held)
    from Cons.IH [OF this] False c step show ?thesis by simp
  qed
qed

end

end
