(* ===== verification/Database.thy ===== *)
theory Database
  imports Interfaces
begin

text \<open>
  \<open>src/cpp/model/Database.{h,cpp}\<close> and the two repositories on top of it. The tables are
  the schema of \<open>initSchema\<close>; each SQL statement of the source is one definition on the
  tables, and each C++ function is the sequence of engine calls it makes.

  The SQLite library is not part of the repository. It enters as a parameter of type
  \<open>engine\<close>: \<open>E n = None\<close> says that the \<open>n\<close>-th call into the library does what its statement
  says, \<open>E n = Some (Fault msg undoes)\<close> that it fails with message \<open>msg\<close> and its statement
  changes nothing. As SQLite documents, some failures (disk full, I/O error, out of memory,
  busy, interrupted) may also roll back the whole open transaction and leave the connection
  without one; \<open>undoes\<close> says that this one does. Nothing is assumed of \<open>E\<close> unless a lemma says
  so: \<open>healthy\<close> that no call fails, \<open>keeps_transactions\<close> that no failure rolls back.
\<close>

section \<open>Tables and connection\<close>

datatype fault = Fault (fault_message: string) (undoes_transaction: bool)

type_synonym engine = "nat \<Rightarrow> fault option"

text \<open>A row of \<open>transactions\<close> holds the status as text.\<close>

record tx_row =
  row_id :: int
  row_packetHash :: string
  row_senderVpa :: string
  row_receiverVpa :: string
  row_amount :: int
  row_signedAt :: int
  row_settledAt :: int
  row_bridgeNodeId :: string
  row_hopCount :: int
  row_status :: string

record tables =
  accounts :: "account list"
  transactions :: "tx_row list"
  seq :: int

text \<open>
  \<open>cur\<close> is the data a statement sees, \<open>saved\<close> the data to go back to when a transaction is
  open, \<open>calls\<close> the number of calls made into the engine so far.
\<close>

record database =
  cur :: tables
  saved :: "tables option"
  calls :: nat

definition empty_tables :: tables where
  "empty_tables = \<lparr>accounts = [], transactions = [], seq = 0\<rparr>"

text \<open>Back to the data before \<open>BEGIN\<close>, when a transaction is open.\<close>

definition rolled_back :: "database \<Rightarrow> database" where
  "rolled_back db = (case saved db of None \<Rightarrow> db | Some t \<Rightarrow> db\<lparr>cur := t, saved := None\<rparr>)"

definition engine_call :: "engine \<Rightarrow> database \<Rightarrow> string option \<times> database" where
  "engine_call E db =
     (let db1 = db\<lparr>calls := Suc (calls db)\<rparr> in
      case E (calls db) of
        None \<Rightarrow> (None, db1)
      | Some f \<Rightarrow> (Some (fault_message f), if undoes_transaction f then rolled_back db1 else db1))"

definition healthy :: "engine \<Rightarrow> bool" where
  "healthy E \<longleftrightarrow> (\<forall>n. E n = None)"

definition keeps_transactions :: "engine \<Rightarrow> bool" where
  "keeps_transactions E \<longleftrightarrow> (\<forall>n f. E n = Some f \<longrightarrow> \<not> undoes_transaction f)"

section \<open>The SQL statements\<close>

definition seed_rows :: "account list" where
  "seed_rows =
    [\<lparr>vpa = ''alice@demo'', holderName = ''Alice'', balance = 500000, version = 0\<rparr>,
     \<lparr>vpa = ''bob@demo'', holderName = ''Bob'', balance = 100000, version = 0\<rparr>,
     \<lparr>vpa = ''carol@demo'', holderName = ''Carol'', balance = 250000, version = 0\<rparr>,
     \<lparr>vpa = ''dave@demo'', holderName = ''Dave'', balance = 50000, version = 0\<rparr>]"

text \<open>\<open>SELECT ... FROM accounts WHERE vpa = ?\<close>, its first row.\<close>

definition sql_select_account :: "string \<Rightarrow> tables \<Rightarrow> account option" where
  "sql_select_account v t = find (\<lambda>a. vpa a = v) (accounts t)"

text \<open>
  \<open>INSERT INTO accounts ... ON CONFLICT(vpa) DO UPDATE SET holderName, balance, version\<close>
  from the excluded row: the row with that key is replaced, or the row is appended.
\<close>

definition sql_upsert_account :: "account \<Rightarrow> tables \<Rightarrow> tables" where
  "sql_upsert_account a t =
     (if vpa a \<in> vpa ` set (accounts t)
      then t\<lparr>accounts := upd_by vpa a (accounts t)\<rparr>
      else t\<lparr>accounts := accounts t @ [a]\<rparr>)"

text \<open>
  The seed \<open>INSERT\<close> has no conflict clause: one key already present fails the statement.
\<close>

definition sql_seed :: "tables \<Rightarrow> string + tables" where
  "sql_seed t =
     (if list_ex (\<lambda>a. vpa a \<in> vpa ` set (accounts t)) seed_rows
      then Inl ''UNIQUE constraint failed: accounts.vpa''
      else Inr (t\<lparr>accounts := accounts t @ seed_rows\<rparr>))"

text \<open>
  \<open>INSERT INTO transactions\<close>: \<open>packetHash\<close> is \<open>UNIQUE\<close>, and \<open>id\<close> is \<open>AUTOINCREMENT\<close>, one
  more than any id ever given out, full when that would leave the 64-bit range.
\<close>

definition sql_insert_transaction :: "tx_row \<Rightarrow> tables \<Rightarrow> string + int \<times> tables" where
  "sql_insert_transaction r t =
     (if row_packetHash r \<in> row_packetHash ` set (transactions t)
      then Inl ''UNIQUE constraint failed: transactions.packetHash''
      else if seq t = i64_max then Inl ''database or disk is full''
      else Inr (seq t + 1,
                t\<lparr>transactions := transactions t @ [r\<lparr>row_id := seq t + 1\<rparr>],
                  seq := seq t + 1\<rparr>))"

text \<open>\<open>SELECT 1 FROM transactions WHERE packetHash = ?\<close>: is there a row.\<close>

definition sql_exists_hash :: "string \<Rightarrow> tables \<Rightarrow> bool" where
  "sql_exists_hash h t \<longleftrightarrow> list_ex (\<lambda>x. row_packetHash x = h) (transactions t)"

text \<open>\<open>SELECT ... FROM transactions ORDER BY id DESC LIMIT 20\<close>.\<close>

definition sql_top20 :: "tables \<Rightarrow> tx_row list" where
  "sql_top20 t = take 20 (rev (sort_key row_id (transactions t)))"

section \<open>\<open>Database\<close>\<close>

text \<open>The texts handed to \<open>Database::execute\<close>, and what they do to the connection.\<close>

datatype sql = Begin_Immediate | Commit | Rollback | Delete_Transactions | Delete_Accounts

fun exec_sql :: "sql \<Rightarrow> database \<Rightarrow> string + database" where
  "exec_sql Begin_Immediate db =
     (case saved db of
        None \<Rightarrow> Inr (db\<lparr>saved := Some (cur db)\<rparr>)
      | Some t \<Rightarrow> Inl ''cannot start a transaction within a transaction'')"
| "exec_sql Commit db =
     (case saved db of
        None \<Rightarrow> Inl ''cannot commit - no transaction is active''
      | Some t \<Rightarrow> Inr (db\<lparr>saved := None\<rparr>))"
| "exec_sql Rollback db =
     (case saved db of
        None \<Rightarrow> Inl ''cannot rollback - no transaction is active''
      | Some t \<Rightarrow> Inr (db\<lparr>cur := t, saved := None\<rparr>))"
| "exec_sql Delete_Transactions db = Inr (db\<lparr>cur := (cur db)\<lparr>transactions := []\<rparr>\<rparr>)"
| "exec_sql Delete_Accounts db = Inr (db\<lparr>cur := (cur db)\<lparr>accounts := []\<rparr>\<rparr>)"

definition execute :: "engine \<Rightarrow> sql \<Rightarrow> database \<Rightarrow> exn option \<times> database" where
  "execute E s db =
     (case engine_call E db of
        (Some msg, db1) \<Rightarrow> (Some (Runtime_error (''SQLite execute failed: '' @ msg)), db1)
      | (None, db1) \<Rightarrow>
          (case exec_sql s db1 of
             Inl msg \<Rightarrow> (Some (Runtime_error (''SQLite execute failed: '' @ msg)), db1)
           | Inr db2 \<Rightarrow> (None, db2)))"

definition seedAccounts :: "engine \<Rightarrow> database \<Rightarrow> exn option \<times> database" where
  "seedAccounts E db =
     (case engine_call E db of
        (Some msg, db1) \<Rightarrow> (Some (Runtime_error (''Failed to seed demo accounts: '' @ msg)), db1)
      | (None, db1) \<Rightarrow>
          (case sql_seed (cur db1) of
             Inl msg \<Rightarrow> (Some (Runtime_error (''Failed to seed demo accounts: '' @ msg)), db1)
           | Inr t \<Rightarrow> (None, db1\<lparr>cur := t\<rparr>)))"

text \<open>\<open>initSchema\<close> runs on a connection that has no table yet, and leaves them empty.\<close>

definition initSchema :: "engine \<Rightarrow> database \<Rightarrow> exn option \<times> database" where
  "initSchema E db =
     (case engine_call E db of
        (Some msg, db1) \<Rightarrow> (Some (Runtime_error (''Failed to initialize schema: '' @ msg)), db1)
      | (None, db1) \<Rightarrow> (None, db1\<lparr>cur := empty_tables\<rparr>))"

definition Database_ctor :: "engine \<Rightarrow> database res" where
  "Database_ctor E =
     (case engine_call E \<lparr>cur = empty_tables, saved = None, calls = 0\<rparr> of
        (Some msg, db) \<Rightarrow>
          Inl (Runtime_error (''Failed to open SQLite in-memory database: '' @ msg))
      | (None, db) \<Rightarrow>
          (case initSchema E db of
             (Some e, db1) \<Rightarrow> Inl e
           | (None, db1) \<Rightarrow>
               (case seedAccounts E db1 of
                  (Some e, db2) \<Rightarrow> Inl e
                | (None, db2) \<Rightarrow> Inr db2)))"

definition Database_reset :: "engine \<Rightarrow> database \<Rightarrow> exn option \<times> database" where
  "Database_reset E db =
     (case execute E Delete_Transactions db of
        (Some e, db1) \<Rightarrow> (Some e, db1)
      | (None, db1) \<Rightarrow>
          (case execute E Delete_Accounts db1 of
             (Some e, db2) \<Rightarrow> (Some e, db2)
           | (None, db2) \<Rightarrow> seedAccounts E db2))"

section \<open>\<open>AccountRepository\<close>\<close>

definition findById :: "engine \<Rightarrow> string \<Rightarrow> database \<Rightarrow> account option \<times> database" where
  "findById E v db =
     (case engine_call E db of
        (Some msg, db1) \<Rightarrow> (None, db1)
      | (None, db1) \<Rightarrow>
          (case engine_call E db1 of
             (Some msg, db2) \<Rightarrow> (None, db2)
           | (None, db2) \<Rightarrow> (sql_select_account (c_str v) (cur db2), db2)))"

text \<open>
  \<open>save\<close> binds its texts through \<open>c_str()\<close>, steps the statement and looks at neither
  result: a failure leaves no trace but the unchanged table.
\<close>

definition bind_account :: "account \<Rightarrow> account" where
  "bind_account a = a\<lparr>vpa := c_str (vpa a), holderName := c_str (holderName a)\<rparr>"

definition account_save :: "engine \<Rightarrow> account \<Rightarrow> database \<Rightarrow> database" where
  "account_save E a db =
     (case engine_call E db of
        (Some msg, db1) \<Rightarrow> db1
      | (None, db1) \<Rightarrow>
          (case engine_call E db1 of
             (Some msg, db2) \<Rightarrow> db2
           | (None, db2) \<Rightarrow> db2\<lparr>cur := sql_upsert_account (bind_account a) (cur db2)\<rparr>))"

text \<open>
  \<open>findAll\<close> steps through the rows until the engine stops handing them out; the loop takes
  any result but a row as the end.
\<close>

fun fetch_rows :: "engine \<Rightarrow> 'a list \<Rightarrow> database \<Rightarrow> 'a list \<times> database" where
  "fetch_rows E [] db = ([], snd (engine_call E db))"
| "fetch_rows E (r # rs) db =
     (case engine_call E db of
        (Some msg, db1) \<Rightarrow> ([], db1)
      | (None, db1) \<Rightarrow> (case fetch_rows E rs db1 of (out, db2) \<Rightarrow> (r # out, db2)))"

definition findAll :: "engine \<Rightarrow> database \<Rightarrow> account list \<times> database" where
  "findAll E db =
     (case engine_call E db of
        (Some msg, db1) \<Rightarrow> ([], db1)
      | (None, db1) \<Rightarrow> fetch_rows E (accounts (cur db1)) db1)"

section \<open>\<open>TransactionRepository\<close>\<close>

text \<open>What \<open>save\<close> binds to the nine parameters; the id is the engine's to fill in.\<close>

definition bind_transaction :: "transaction \<Rightarrow> tx_row" where
  "bind_transaction tx = \<lparr>row_id = tx_id tx,
     row_packetHash = c_str (tx_packetHash tx),
     row_senderVpa = c_str (tx_senderVpa tx),
     row_receiverVpa = c_str (tx_receiverVpa tx),
     row_amount = tx_amount tx,
     row_signedAt = tx_signedAt tx,
     row_settledAt = tx_settledAt tx,
     row_bridgeNodeId = c_str (tx_bridgeNodeId tx),
     row_hopCount = tx_hopCount tx,
     row_status = c_str (statusToString (tx_status tx))\<rparr>"

text \<open>What \<open>findTop20ByOrderByIdDesc\<close> reads back from a row.\<close>

definition read_transaction :: "tx_row \<Rightarrow> transaction" where
  "read_transaction r = \<lparr>tx_id = row_id r, tx_packetHash = row_packetHash r,
     tx_senderVpa = row_senderVpa r, tx_receiverVpa = row_receiverVpa r,
     tx_amount = row_amount r, tx_signedAt = row_signedAt r, tx_settledAt = row_settledAt r,
     tx_bridgeNodeId = row_bridgeNodeId r, tx_hopCount = row_hopCount r,
     tx_status = parseStatus (row_status r)\<rparr>"

text \<open>\<open>save\<close> returns the transaction with the id the engine gave it.\<close>

definition transaction_save ::
    "engine \<Rightarrow> transaction \<Rightarrow> database \<Rightarrow> transaction res \<times> database" where
  "transaction_save E tx db =
     (case engine_call E db of
        (Some msg, db1) \<Rightarrow>
          (Inl (Runtime_error (''Failed to prepare tx save statement: '' @ msg)), db1)
      | (None, db1) \<Rightarrow>
          (case engine_call E db1 of
             (Some msg, db2) \<Rightarrow> (Inl (Runtime_error (''Failed to execute tx save: '' @ msg)), db2)
           | (None, db2) \<Rightarrow>
               (case sql_insert_transaction (bind_transaction tx) (cur db2) of
                  Inl msg \<Rightarrow> (Inl (Runtime_error (''Failed to execute tx save: '' @ msg)), db2)
                | Inr (n, t) \<Rightarrow> (Inr (tx\<lparr>tx_id := n\<rparr>), db2\<lparr>cur := t\<rparr>))))"

definition existsByPacketHash :: "engine \<Rightarrow> string \<Rightarrow> database \<Rightarrow> bool res \<times> database" where
  "existsByPacketHash E h db =
     (case engine_call E db of
        (Some msg, db1) \<Rightarrow> (Inl (Runtime_error ''Failed to prepare exists statement''), db1)
      | (None, db1) \<Rightarrow>
          (case engine_call E db1 of
             (Some msg, db2) \<Rightarrow> (Inr False, db2)
           | (None, db2) \<Rightarrow> (Inr (sql_exists_hash (c_str h) (cur db2)), db2)))"

definition findTop20 :: "engine \<Rightarrow> database \<Rightarrow> transaction list res \<times> database" where
  "findTop20 E db =
     (case engine_call E db of
        (Some msg, db1) \<Rightarrow> (Inl (Runtime_error ''Failed to prepare findTop20 statement''), db1)
      | (None, db1) \<Rightarrow>
          (case fetch_rows E (sql_top20 (cur db1)) db1 of
             (rows, db2) \<Rightarrow> (Inr (map read_transaction rows), db2)))"

section \<open>Well-formed tables\<close>

text \<open>
  What the schema and the code keep true of the data: keys and hashes are unique, ids are
  given out in increasing order and never exceed the counter, no stored text holds a NUL,
  and no balance is negative.
\<close>

definition account_ok :: "account \<Rightarrow> bool" where
  "account_ok a \<longleftrightarrow> no_nul (vpa a) \<and> no_nul (holderName a) \<and> 0 \<le> balance a \<and> in_i64 (balance a)"

definition accounts_ok :: "tables \<Rightarrow> bool" where
  "accounts_ok t \<longleftrightarrow> distinct (map vpa (accounts t)) \<and> list_all account_ok (accounts t)"

definition ledger_ok :: "tables \<Rightarrow> bool" where
  "ledger_ok t \<longleftrightarrow> distinct (map row_packetHash (transactions t)) \<and>
     sorted_wrt (<) (map row_id (transactions t)) \<and>
     list_all (\<lambda>r. 0 < row_id r \<and> row_id r \<le> seq t) (transactions t) \<and>
     0 \<le> seq t \<and> seq t \<le> i64_max"

definition tables_ok :: "tables \<Rightarrow> bool" where
  "tables_ok t \<longleftrightarrow> accounts_ok t \<and> ledger_ok t"

definition database_ok :: "database \<Rightarrow> bool" where
  "database_ok db \<longleftrightarrow> tables_ok (cur db) \<and> (case saved db of None \<Rightarrow> True | Some t \<Rightarrow> tables_ok t)"

definition total_balance :: "tables \<Rightarrow> int" where
  "total_balance t = sum_list (map balance (accounts t))"

lemmas table_defs = accounts_ok_def account_ok_def ledger_ok_def tables_ok_def

section \<open>The statements keep the tables well formed\<close>

lemma sql_select_key: "sql_select_account v t = Some a \<Longrightarrow> vpa a = v"
  unfolding sql_select_account_def by (drule find_Some_in) simp

lemma sql_select_in: "sql_select_account v t = Some a \<Longrightarrow> a \<in> set (accounts t)"
  unfolding sql_select_account_def by (drule find_Some_in) simp

lemma sql_select_upsert:
  "sql_select_account v (sql_upsert_account a t) =
     (if v = vpa a then Some a else sql_select_account v t)"
proof (cases "vpa a \<in> vpa ` set (accounts t)")
  case True
  then show ?thesis
    by (auto simp: sql_select_account_def sql_upsert_account_def find_upd_by)
next
  case False
  then have "find (\<lambda>x. vpa x = vpa a) (accounts t) = None" by (simp add: find_key_None)
  with False show ?thesis
    by (auto simp: sql_select_account_def sql_upsert_account_def find_append split: option.splits)
qed

lemma total_balance_upsert:
  assumes "accounts_ok t" "sql_select_account (vpa a) t = Some old"
  shows "total_balance (sql_upsert_account a t) = total_balance t - balance old + balance a"
proof -
  have "vpa a \<in> vpa ` set (accounts t)"
    using sql_select_in [OF assms(2)] sql_select_key [OF assms(2)] by (metis imageI)
  with assms show ?thesis
    by (simp add: total_balance_def sql_upsert_account_def accounts_ok_def
        sql_select_account_def sum_upd_by)
qed

lemma accounts_ok_upsert:
  assumes "accounts_ok t" "account_ok a"
  shows "accounts_ok (sql_upsert_account a t)"
  using assms set_upd_by [of vpa a "accounts t"]
  by (auto simp: accounts_ok_def sql_upsert_account_def list_all_iff)

lemma ledger_ok_upsert [simp]: "ledger_ok (sql_upsert_account a t) = ledger_ok t"
  by (simp add: ledger_ok_def sql_upsert_account_def)

lemma upsert_transactions [simp]:
  "transactions (sql_upsert_account a t) = transactions t" "seq (sql_upsert_account a t) = seq t"
  by (simp_all add: sql_upsert_account_def)

lemma select_le_total_balance:
  assumes "accounts_ok t" "sql_select_account v t = Some a"
  shows "balance a \<le> total_balance t"
proof -
  have "\<forall>x \<in> set (accounts t). 0 \<le> balance x"
    using assms(1) by (simp add: accounts_ok_def account_ok_def list_all_iff)
  moreover have "a \<in> set (accounts t)" using assms(2) by (rule sql_select_in)
  ultimately show ?thesis unfolding total_balance_def by (rule member_le_sum_map)
qed

lemma sql_insert_Inr:
  "sql_insert_transaction r t = Inr (n, t') \<longleftrightarrow>
     row_packetHash r \<notin> row_packetHash ` set (transactions t) \<and> seq t \<noteq> i64_max \<and>
     n = seq t + 1 \<and>
     t' = t\<lparr>transactions := transactions t @ [r\<lparr>row_id := seq t + 1\<rparr>], seq := seq t + 1\<rparr>"
  by (auto simp: sql_insert_transaction_def)

lemma ledger_ok_insert:
  assumes "ledger_ok t" "sql_insert_transaction r t = Inr (n, t')"
  shows "ledger_ok t'"
  using assms
  by (auto simp: ledger_ok_def sql_insert_Inr sorted_wrt_append list_all_iff)

lemma accounts_ok_insert:
  "sql_insert_transaction r t = Inr (n, t') \<Longrightarrow> accounts_ok t' = accounts_ok t"
  by (auto simp: accounts_ok_def sql_insert_Inr)

lemma total_balance_insert:
  "sql_insert_transaction r t = Inr (n, t') \<Longrightarrow> total_balance t' = total_balance t"
  by (auto simp: total_balance_def sql_insert_Inr)

interpretation acc: account_store sql_select_account sql_upsert_account total_balance accounts_ok
proof unfold_locales
  fix s :: tables and a :: account
  assume "accounts_ok s" "no_nul (vpa a)" "no_nul (holderName a)" "0 \<le> balance a" "in_i64 (balance a)"
  then show "accounts_ok (sql_upsert_account a s)"
    by (intro accounts_ok_upsert) (simp_all add: account_ok_def)
next
  fix s :: tables and v :: string and a :: account
  assume "accounts_ok s" "sql_select_account v s = Some a"
  then show "no_nul (vpa a) \<and> no_nul (holderName a) \<and> 0 \<le> balance a \<and> in_i64 (balance a)"
    using sql_select_in [of v s a] by (auto simp: accounts_ok_def account_ok_def list_all_iff)
qed (simp_all add: sql_select_upsert sql_select_key total_balance_upsert select_le_total_balance)

interpretation led: ledger sql_insert_transaction row_packetHash row_id transactions ledger_ok
proof unfold_locales
  fix r :: tx_row and s s' :: tables and n :: int
  assume ins: "sql_insert_transaction r s = Inr (n, s')"
  then show "\<exists>r'. transactions s' = transactions s @ [r'] \<and>
      row_packetHash r' = row_packetHash r \<and> row_id r' = n"
    by (auto simp: sql_insert_Inr)
  show "ledger_ok s'" if "ledger_ok s" using that ins by (rule ledger_ok_insert)
  show "row_id x < n" if "ledger_ok s" "x \<in> set (transactions s)" for x
    using that ins by (auto simp: sql_insert_Inr ledger_ok_def list_all_iff)
qed (auto simp: sql_insert_transaction_def ledger_ok_def)

section \<open>What each operation can do to the connection\<close>

lemma healthy_keeps [simp]: "healthy E \<Longrightarrow> keeps_transactions E"
  by (simp add: healthy_def keeps_transactions_def)

lemma engine_call_keeps:
  "keeps_transactions E \<Longrightarrow>
     engine_call E db = (map_option fault_message (E (calls db)), db\<lparr>calls := Suc (calls db)\<rparr>)"
  by (auto simp: engine_call_def keeps_transactions_def Let_def split: option.split)

text \<open>
  For any engine whose failures roll nothing back: each operation keeps the open transaction,
  and the data it leaves is either the data it found or what its statement makes of it.
\<close>

lemma findById_frame:
  "keeps_transactions E \<Longrightarrow> findById E v db = (r, db') \<Longrightarrow> cur db' = cur db \<and> saved db' = saved db \<and>
     (r = None \<or> r = sql_select_account (c_str v) (cur db))"
  by (auto simp: findById_def engine_call_keeps split: option.splits prod.splits)

lemma account_save_frame:
  "keeps_transactions E \<Longrightarrow> saved (account_save E a db) = saved db \<and>
   (cur (account_save E a db) = cur db \<or>
    cur (account_save E a db) = sql_upsert_account (bind_account a) (cur db))"
  by (auto simp: account_save_def engine_call_keeps split: option.splits prod.splits)

lemma transaction_save_frame:
  assumes "keeps_transactions E" "transaction_save E tx db = (r, db')"
  shows "saved db' = saved db"
    and "r = Inl e \<Longrightarrow> cur db' = cur db"
    and "r = Inr tx' \<Longrightarrow> \<exists>n. sql_insert_transaction (bind_transaction tx) (cur db) = Inr (n, cur db') \<and>
          tx' = tx\<lparr>tx_id := n\<rparr>"
  using assms(2) engine_call_keeps [OF assms(1)]
  by (auto simp: transaction_save_def split: option.splits prod.splits sum.splits)

lemma execute_frame:
  assumes "keeps_transactions E" "execute E s db = (Some e, db')"
  shows "cur db' = cur db \<and> saved db' = saved db"
  using assms(2) engine_call_keeps [OF assms(1)]
  by (auto simp: execute_def split: option.splits prod.splits sum.splits)

text \<open>A statement that succeeds did what it says, whatever the engine.\<close>

lemma engine_call_None: "engine_call E db = (None, db') \<Longrightarrow> db' = db\<lparr>calls := Suc (calls db)\<rparr>"
  by (auto simp: engine_call_def Let_def split: option.splits)

lemma execute_begin:
  "execute E Begin_Immediate db = (None, db') \<Longrightarrow>
     saved db = None \<and> saved db' = Some (cur db) \<and> cur db' = cur db"
  by (auto simp: execute_def split: option.splits prod.splits sum.splits dest!: engine_call_None)

lemma execute_commit:
  "execute E Commit db = (None, db') \<Longrightarrow> saved db' = None \<and> cur db' = cur db"
  by (auto simp: execute_def split: option.splits prod.splits sum.splits dest!: engine_call_None)

lemma execute_rollback:
  "execute E Rollback db = (None, db') \<Longrightarrow> saved db' = None \<and> saved db = Some (cur db')"
  by (auto simp: execute_def split: option.splits prod.splits sum.splits dest!: engine_call_None)

lemma execute_runtime: "execute E s db = (Some e, db') \<Longrightarrow> \<exists>m. e = Runtime_error m"
  by (auto simp: execute_def split: option.splits prod.splits sum.splits)

lemma transaction_save_runtime: "transaction_save E tx db = (Inl e, db') \<Longrightarrow> \<exists>m. e = Runtime_error m"
  by (auto simp: transaction_save_def split: option.splits prod.splits sum.splits)

text \<open>
  For every engine: \<open>books_of T\<close> says that the ledger is \<open>T\<close>, now and after a rollback. Only the
  insertion of a new row changes that.
\<close>

definition books_of :: "tx_row list \<Rightarrow> database \<Rightarrow> bool" where
  "books_of T db \<longleftrightarrow> transactions (cur db) = T \<and> (\<forall>t. saved db = Some t \<longrightarrow> transactions t = T)"

lemma books_of_calls [simp]: "books_of T (db\<lparr>calls := n\<rparr>) = books_of T db"
  by (simp add: books_of_def)

lemma engine_call_books: "books_of T db \<Longrightarrow> engine_call E db = (r, db') \<Longrightarrow> books_of T db'"
  by (auto simp: engine_call_def Let_def rolled_back_def books_of_def split: option.splits if_splits)

lemma findById_books: "books_of T db \<Longrightarrow> findById E v db = (r, db') \<Longrightarrow> books_of T db'"
  by (auto simp: findById_def split: option.splits prod.splits dest: engine_call_books)

lemma account_save_books:
  assumes "books_of T db"
  shows "books_of T (account_save E a db)"
proof -
  obtain m1 d1 m2 d2 where c: "engine_call E db = (m1, d1)" "engine_call E d1 = (m2, d2)" by fastforce
  have d: "books_of T d1" using assms c(1) by (rule engine_call_books)
  then have "books_of T d2" using c(2) by (rule engine_call_books)
  with c d show ?thesis by (auto simp: account_save_def books_of_def split: option.splits)
qed

lemma execute_books:
  assumes "books_of T db" "execute E s db = (r, db')" "s \<noteq> Delete_Transactions"
  shows "books_of T db'"
proof -
  obtain m d where c: "engine_call E db = (m, d)" by fastforce
  note d = engine_call_books [OF assms(1) c]
  have "exec_sql s d = Inr d2 \<Longrightarrow> books_of T d2" for d2
    using d assms(3) by (cases s) (auto simp: books_of_def split: option.splits)
  with assms(2) c d show ?thesis by (auto simp: execute_def split: option.splits sum.splits)
qed

lemma transaction_save_books:
  assumes "books_of T db" "c_str (tx_packetHash tx) \<in> row_packetHash ` set T"
    and "transaction_save E tx db = (r, db')"
  shows "(\<exists>e. r = Inl e) \<and> books_of T db'"
proof -
  obtain m1 d1 m2 d2 where c: "engine_call E db = (m1, d1)" "engine_call E d1 = (m2, d2)" by fastforce
  have d: "books_of T d1" using assms(1) c(1) by (rule engine_call_books)
  then have d2: "books_of T d2" using c(2) by (rule engine_call_books)
  then have "\<exists>m. sql_insert_transaction (bind_transaction tx) (cur d2) = Inl m"
    using assms(2) by (auto simp: sql_insert_transaction_def bind_transaction_def books_of_def)
  with assms(3) c d d2 show ?thesis by (auto simp: transaction_save_def split: option.splits)
qed

section \<open>A healthy start\<close>

definition seeded_tables :: tables where
  "seeded_tables = \<lparr>accounts = seed_rows, transactions = [], seq = 0\<rparr>"

lemma Database_ctor_healthy:
  "healthy E \<Longrightarrow> Database_ctor E = Inr \<lparr>cur = seeded_tables, saved = None, calls = 3\<rparr>"
  by (simp add: Database_ctor_def initSchema_def seedAccounts_def engine_call_def healthy_def
      sql_seed_def empty_tables_def seeded_tables_def seed_rows_def)

lemma seeded_ok [simp]: "tables_ok seeded_tables"
  by (simp add: table_defs seeded_tables_def seed_rows_def no_nul_def in_i64_def i64_min_def i64_max_def)

lemma seeded_accounts_ok [simp]: "accounts_ok seeded_tables"
  using seeded_ok unfolding tables_ok_def by blast

lemma seeded_total: "total_balance seeded_tables = 900000"
  by (simp add: total_balance_def seeded_tables_def seed_rows_def)

lemma seeded_simps [simp]:
  "transactions seeded_tables = []" "seq seeded_tables = 0" "accounts seeded_tables = seed_rows"
  "sql_select_account ''alice@demo'' seeded_tables =
     Some \<lparr>vpa = ''alice@demo'', holderName = ''Alice'', balance = 500000, version = 0\<rparr>"
  "sql_select_account ''bob@demo'' seeded_tables =
     Some \<lparr>vpa = ''bob@demo'', holderName = ''Bob'', balance = 100000, version = 0\<rparr>"
  by (simp_all add: seeded_tables_def seed_rows_def sql_select_account_def)

section \<open>What the repositories promise\<close>

lemma healthy_call [simp]: "healthy E \<Longrightarrow> engine_call E db = (None, db\<lparr>calls := Suc (calls db)\<rparr>)"
  by (simp add: engine_call_def healthy_def)

lemma no_fault [simp]: "E (calls db) = None \<Longrightarrow> engine_call E db = (None, db\<lparr>calls := Suc (calls db)\<rparr>)"
  by (simp add: engine_call_def)

lemma healthy_none [simp]: "healthy (\<lambda>n. None)"
  by (simp add: healthy_def)

lemma fetch_rows_healthy:
  "healthy E \<Longrightarrow> \<exists>n. fetch_rows E rs db = (rs, db\<lparr>calls := n\<rparr>)"
proof (induction rs arbitrary: db)
  case Nil
  then show ?case by auto
next
  case (Cons r rs)
  from Cons.IH [OF Cons.prems, of "db\<lparr>calls := Suc (calls db)\<rparr>"]
  obtain n where "fetch_rows E rs (db\<lparr>calls := Suc (calls db)\<rparr>) = (rs, db\<lparr>calls := n\<rparr>)"
    by auto
  with Cons.prems show ?case by auto
qed

lemma findTop20_healthy:
  "healthy E \<Longrightarrow> fst (findTop20 E db) = Inr (map read_transaction (sql_top20 (cur db)))"
  using fetch_rows_healthy [of E "sql_top20 (cur db)" "db\<lparr>calls := Suc (calls db)\<rparr>"]
  by (auto simp: findTop20_def)

lemma findAll_healthy: "healthy E \<Longrightarrow> fst (findAll E db) = accounts (cur db)"
  using fetch_rows_healthy [of E "accounts (cur db)" "db\<lparr>calls := Suc (calls db)\<rparr>"]
  by (auto simp: findAll_def)

text \<open>On a well-formed ledger, ordering by id is the order of insertion.\<close>

lemma ledger_ok_sorted: "ledger_ok t \<Longrightarrow> sort_key row_id (transactions t) = transactions t"
  by (intro sort_key_id_if_sorted)
    (auto simp: ledger_ok_def elim: sorted_wrt_mono_rel [rotated] simp: strict_sorted_iff)

lemma sql_top20_ok: "ledger_ok t \<Longrightarrow> sql_top20 t = take 20 (rev (transactions t))"
  by (simp add: sql_top20_def ledger_ok_sorted)

lemma parse_status_round [simp]: "parseStatus (c_str (statusToString s)) = s"
  by (cases s) (simp_all add: c_str_def parseStatus_def)

lemma read_bind_transaction:
  assumes "no_nul (tx_packetHash tx)" "no_nul (tx_senderVpa tx)" "no_nul (tx_receiverVpa tx)"
    "no_nul (tx_bridgeNodeId tx)"
  shows "read_transaction ((bind_transaction tx)\<lparr>row_id := n\<rparr>) = tx\<lparr>tx_id := n\<rparr>"
  using assms by (simp add: read_transaction_def bind_transaction_def)

text \<open>Round trip through the \<open>transactions\<close> table: what \<open>save\<close> stored is what
  \<open>findTop20ByOrderByIdDesc\<close> hands back first, field by field, with the id the engine gave
  it, ahead of the nineteen latest older rows in their order.\<close>

theorem transaction_save_then_list:
  assumes "healthy E" "ledger_ok (cur db)"
    and "transaction_save E tx db = (Inr tx', db')"
    and "no_nul (tx_packetHash tx)" "no_nul (tx_senderVpa tx)" "no_nul (tx_receiverVpa tx)"
    "no_nul (tx_bridgeNodeId tx)"
  shows "tx' = tx\<lparr>tx_id := seq (cur db) + 1\<rparr> \<and>
    fst (findTop20 E db') =
      Inr (tx' # take 19 (map read_transaction (rev (transactions (cur db)))))"
proof -
  from transaction_save_frame(3) [OF healthy_keeps [OF assms(1)] assms(3) refl] obtain n where
    ins: "sql_insert_transaction (bind_transaction tx) (cur db) = Inr (n, cur db')"
    and tx': "tx' = tx\<lparr>tx_id := n\<rparr>" by blast
  have n: "n = seq (cur db) + 1"
    and rows: "transactions (cur db') = transactions (cur db) @ [(bind_transaction tx)\<lparr>row_id := n\<rparr>]"
    using ins unfolding sql_insert_Inr by simp_all
  have "ledger_ok (cur db')" using assms(2) ins by (rule ledger_ok_insert)
  with rows have "sql_top20 (cur db') =
      (bind_transaction tx)\<lparr>row_id := n\<rparr> # take 19 (rev (transactions (cur db)))"
    by (simp add: sql_top20_ok take_Cons')
  with findTop20_healthy [OF assms(1), of db'] read_bind_transaction [OF assms(4-7), of n] tx' n
  show ?thesis by (simp add: take_map)
qed

definition demo_tx :: transaction where
  "demo_tx = \<lparr>tx_id = 0, tx_packetHash = ''h'', tx_senderVpa = ''alice@demo'',
     tx_receiverVpa = ''bob@demo'', tx_amount = 250, tx_signedAt = 5, tx_settledAt = 7,
     tx_bridgeNodeId = ''b'', tx_hopCount = 3, tx_status = REJECTED\<rparr>"

theorem transaction_save_then_list_witness:
  "\<exists>db'. transaction_save (\<lambda>n. None) demo_tx \<lparr>cur = seeded_tables, saved = None, calls = 3\<rparr> =
       (Inr (demo_tx\<lparr>tx_id := 1\<rparr>), db') \<and>
     fst (findTop20 (\<lambda>n. None) db') = Inr [demo_tx\<lparr>tx_id := 1\<rparr>]"
proof -
  have ok: "ledger_ok (cur \<lparr>cur = seeded_tables, saved = None, calls = 3\<rparr>)"
    using seeded_ok unfolding tables_ok_def by simp
  obtain tx' db' where r: "transaction_save (\<lambda>n. None) demo_tx
      \<lparr>cur = seeded_tables, saved = None, calls = 3\<rparr> = (Inr tx', db')"
    by (auto simp: transaction_save_def sql_insert_transaction_def i64_max_def)
  have "no_nul ''h''" "no_nul ''alice@demo''" "no_nul ''bob@demo''" "no_nul ''b''"
    by (simp_all add: no_nul_def)
  with transaction_save_then_list [OF healthy_none ok r] r show ?thesis
    by (simp add: demo_tx_def)
qed

text \<open>Read your writes: after \<open>save\<close> a lookup of the same VPA returns exactly what was
  bound, and every other VPA is looked up as before.\<close>

theorem account_save_then_find:
  assumes "healthy E"
  shows "fst (findById E v (account_save E a db)) =
    (if c_str v = c_str (vpa a) then Some (bind_account a)
     else sql_select_account (c_str v) (cur db))"
  using assms
  by (simp add: findById_def account_save_def sql_select_upsert bind_account_def)

theorem account_save_then_find_witness:
  "fst (findById (\<lambda>n. None) ''bob@demo''
     (account_save (\<lambda>n. None) \<lparr>vpa = ''bob@demo'', holderName = ''B'', balance = 7, version = 4\<rparr>
        \<lparr>cur = seeded_tables, saved = None, calls = 3\<rparr>)) =
   Some \<lparr>vpa = ''bob@demo'', holderName = ''B'', balance = 7, version = 4\<rparr>"
  using account_save_then_find [OF healthy_none, of "''bob@demo''"
      "\<lparr>vpa = ''bob@demo'', holderName = ''B'', balance = 7, version = 4\<rparr>"
      "\<lparr>cur = seeded_tables, saved = None, calls = 3\<rparr>"]
  by (simp add: bind_account_def c_str_def)

lemma upd_by_twice: "key x = key y \<Longrightarrow> upd_by key y (upd_by key x xs) = upd_by key y xs"
  by (simp add: upd_by_def)

lemma key_in_upd_by: "key ` set (upd_by key x xs) = key ` set xs"
  by (metis map_key_upd_by set_map)

lemma sql_upsert_twice:
  assumes "vpa a = vpa b"
  shows "sql_upsert_account b (sql_upsert_account a t) = sql_upsert_account b t"
proof (cases "vpa b \<in> vpa ` set (accounts t)")
  case True
  with assms show ?thesis
    by (simp add: sql_upsert_account_def key_in_upd_by upd_by_twice)
next
  case False
  then have "map (\<lambda>y. if vpa y = vpa b then b else y) (accounts t) = accounts t"
    using upd_by_absent [of vpa b "accounts t"] by (simp add: upd_by_def)
  with False assms show ?thesis by (simp add: sql_upsert_account_def upd_by_def)
qed

text \<open>\<open>AccountRepository::save\<close> does no optimistic locking, whatever its header comment
  says: of two saves of one account the second wins whole, whichever versions the two copies
  carry and whichever version is stored, and no error is raised.\<close>

theorem account_save_last_writer_wins:
  assumes "healthy E" "c_str (vpa a) = c_str (vpa b)"
  shows "cur (account_save E b (account_save E a db)) = cur (account_save E b db) \<and>
    fst (findById E (vpa b) (account_save E b (account_save E a db))) = Some (bind_account b)"
  using assms
  by (simp add: findById_def account_save_def sql_select_upsert bind_account_def sql_upsert_twice)

theorem account_save_last_writer_wins_witness:
  "fst (findById (\<lambda>n. None) ''bob@demo''
     (account_save (\<lambda>n. None) \<lparr>vpa = ''bob@demo'', holderName = ''Bob'', balance = 7, version = 0\<rparr>
       (account_save (\<lambda>n. None) \<lparr>vpa = ''bob@demo'', holderName = ''Bob'', balance = 9, version = 1\<rparr>
        \<lparr>cur = seeded_tables, saved = None, calls = 3\<rparr>))) =
   Some \<lparr>vpa = ''bob@demo'', holderName = ''Bob'', balance = 7, version = 0\<rparr>"
  using account_save_last_writer_wins [OF healthy_none,
      of "\<lparr>vpa = ''bob@demo'', holderName = ''Bob'', balance = 9, version = 1\<rparr>"
        "\<lparr>vpa = ''bob@demo'', holderName = ''Bob'', balance = 7, version = 0\<rparr>"
      "\<lparr>cur = seeded_tables, saved = None, calls = 3\<rparr>"]
  by (simp add: bind_account_def c_str_def)

text \<open>\<open>Database::reset\<close> outside a transaction: the four demo accounts with their first
  balances, an empty ledger, 900000 paise in all, and an id counter that does not start over.
  The tables it leaves are well formed whatever it found.\<close>

theorem Database_reset_seeds:
  assumes "healthy E" "0 \<le> seq (cur db)" "seq (cur db) \<le> i64_max"
  shows "fst (Database_reset E db) = None \<and>
    cur (snd (Database_reset E db)) = seeded_tables\<lparr>seq := seq (cur db)\<rparr> \<and>
    saved (snd (Database_reset E db)) = saved db \<and>
    tables_ok (cur (snd (Database_reset E db))) \<and>
    total_balance (cur (snd (Database_reset E db))) = 900000"
proof -
  have "fst (Database_reset E db) = None \<and>
    cur (snd (Database_reset E db)) = seeded_tables\<lparr>seq := seq (cur db)\<rparr> \<and>
    saved (snd (Database_reset E db)) = saved db"
    using assms(1)
    by (simp add: Database_reset_def execute_def seedAccounts_def sql_seed_def seeded_tables_def
        seed_rows_def)
  moreover have "tables_ok (seeded_tables\<lparr>seq := seq (cur db)\<rparr>)"
    using seeded_accounts_ok assms(2,3)
    by (simp add: tables_ok_def accounts_ok_def ledger_ok_def)
  ultimately show ?thesis using seeded_total by (simp add: total_balance_def)
qed

theorem Database_reset_seeds_witness:
  "total_balance (cur (snd (Database_reset (\<lambda>n. None)
     \<lparr>cur = seeded_tables\<lparr>accounts := [], seq := 12\<rparr>, saved = None, calls = 3\<rparr>))) = 900000"
proof -
  let ?db = "\<lparr>cur = seeded_tables\<lparr>accounts := [], seq := 12\<rparr>, saved = None, calls = 3\<rparr>"
  have "0 \<le> seq (cur ?db)" "seq (cur ?db) \<le> i64_max" by (simp_all add: i64_max_def)
  from Database_reset_seeds [OF healthy_none this] show ?thesis by blast
qed

text \<open>\<open>Database::reset\<close> is three statements in autocommit mode, not one transaction: when
  the seed statement fails, the exception leaves a database with no account and no
  transaction, and nothing to roll back to.\<close>

theorem Database_reset_not_atomic:
  assumes "saved db = None" "E = (\<lambda>n. if n = calls db + 2 then Some (Fault msg undoes) else None)"
  shows "\<exists>e db'. Database_reset E db = (Some e, db') \<and>
    accounts (cur db') = [] \<and> transactions (cur db') = [] \<and> saved db' = None"
  using assms by (simp add: Database_reset_def execute_def seedAccounts_def engine_call_def rolled_back_def Let_def)

theorem Database_reset_not_atomic_witness:
  "\<exists>e db'. Database_reset (\<lambda>n. if n = 5 then Some (Fault ''disk I/O error'' True) else None)
       \<lparr>cur = seeded_tables, saved = None, calls = 3\<rparr> = (Some e, db') \<and> accounts (cur db') = []"
  using Database_reset_not_atomic [of "\<lparr>cur = seeded_tables, saved = None, calls = 3\<rparr>" _ "''disk I/O error''" True]
  by auto

end
