(* ===== verification/Settlement.thy ===== *)
theory Settlement
  imports Database
begin

text \<open>
  \<open>src/cpp/service/SettlementService.cpp\<close>: the two account lookups, the checks, the
  database transaction with its retry loop, and the record of a rejected payment.
  \<open>clk n\<close> is the reading of the system clock during the \<open>n\<close>-th attempt.
\<close>

section \<open>The service\<close>

text \<open>
  The transaction a settlement stores. \<open>id\<close> is not initialised in the source; \<open>save\<close>
  overwrites it before anything reads it.
\<close>

definition settlement_tx ::
    "payment \<Rightarrow> string \<Rightarrow> string \<Rightarrow> int \<Rightarrow> int \<Rightarrow> status \<Rightarrow> transaction" where
  "settlement_tx p h bridge hops now st =
     \<lparr>tx_id = 0, tx_packetHash = h, tx_senderVpa = pi_senderVpa p,
      tx_receiverVpa = pi_receiverVpa p, tx_amount = pi_amount p,
      tx_signedAt = pi_signedAt p, tx_settledAt = now, tx_bridgeNodeId = bridge,
      tx_hopCount = hops, tx_status = st\<rparr>"

definition recordRejected ::
    "engine \<Rightarrow> int \<Rightarrow> payment \<Rightarrow> string \<Rightarrow> string \<Rightarrow> int \<Rightarrow> database \<Rightarrow> transaction res \<times> database" where
  "recordRejected E now p h bridge hops db =
     transaction_save E (settlement_tx p h bridge hops now REJECTED) db"

text \<open>The body of the \<open>try\<close> block, between \<open>BEGIN\<close> and the \<open>return\<close>.\<close>

definition settle_try ::
    "engine \<Rightarrow> int \<Rightarrow> payment \<Rightarrow> string \<Rightarrow> string \<Rightarrow> int \<Rightarrow> account \<Rightarrow> account \<Rightarrow> database \<Rightarrow>
     transaction res \<times> database" where
  "settle_try E now p h bridge hops sender receiver db =
     (let db1 = account_save E sender db;
          db2 = account_save E receiver db1
      in case transaction_save E (settlement_tx p h bridge hops now SETTLED) db2 of
           (Inl e, db3) \<Rightarrow> (Inl e, db3)
         | (Inr tx, db3) \<Rightarrow>
             (case execute E Commit db3 of
                (Some e, db4) \<Rightarrow> (Inl e, db4)
              | (None, db4) \<Rightarrow> (Inr tx, db4)))"

text \<open>
  How one round of the loop ends: the function returns (or an exception leaves it), or the
  \<open>catch\<close> block has rolled the transaction back and holds the exception it caught.
\<close>

datatype attempt = Return "transaction res" | Retry exn

text \<open>The locked block: \<open>BEGIN\<close>, the \<open>try\<close> body, and \<open>ROLLBACK\<close> in the handler.\<close>

definition settle_locked ::
    "engine \<Rightarrow> int \<Rightarrow> payment \<Rightarrow> string \<Rightarrow> string \<Rightarrow> int \<Rightarrow> account \<Rightarrow> account \<Rightarrow> database \<Rightarrow>
     attempt \<times> database" where
  "settle_locked E now p h bridge hops sender receiver db =
     (case execute E Begin_Immediate db of
        (Some e, db1) \<Rightarrow> (Return (Inl e), db1)
      | (None, db1) \<Rightarrow>
          (case settle_try E now p h bridge hops sender receiver db1 of
             (Inr tx, db2) \<Rightarrow> (Return (Inr tx), db2)
           | (Inl e, db2) \<Rightarrow>
               (case execute E Rollback db2 of
                  (Some e', db3) \<Rightarrow> (Return (Inl e'), db3)
                | (None, db3) \<Rightarrow> (Retry e, db3))))"

text \<open>One round: the two lookups, the checks in the source's order, the locked block.\<close>

definition settle_attempt ::
    "engine \<Rightarrow> int \<Rightarrow> payment \<Rightarrow> string \<Rightarrow> string \<Rightarrow> int \<Rightarrow> database \<Rightarrow> attempt \<times> database" where
  "settle_attempt E now p h bridge hops db =
     (case findById E (pi_senderVpa p) db of
        (None, db1) \<Rightarrow>
          (Return (Inl (Invalid_argument (''Unknown sender VPA: '' @ pi_senderVpa p))), db1)
      | (Some sender, db1) \<Rightarrow>
          (case findById E (pi_receiverVpa p) db1 of
             (None, db2) \<Rightarrow>
               (Return (Inl (Invalid_argument (''Unknown receiver VPA: '' @ pi_receiverVpa p))), db2)
           | (Some receiver, db2) \<Rightarrow>
               if pi_amount p \<le> 0
               then (Return (Inl (Invalid_argument ''Amount must be positive'')), db2)
               else if balance sender < pi_amount p
               then (case recordRejected E now p h bridge hops db2 of (r, db3) \<Rightarrow> (Return r, db3))
               else case sub_i64 (balance sender) (pi_amount p) of
                 Inl e \<Rightarrow> (Return (Inl e), db2)
               | Inr sb \<Rightarrow>
                   (case add_i64 (balance receiver) (pi_amount p) of
                      Inl e \<Rightarrow> (Return (Inl e), db2)
                    | Inr rb \<Rightarrow>
                        settle_locked E now p h bridge hops
                          (sender\<lparr>balance := sb\<rparr>) (receiver\<lparr>balance := rb\<rparr>) db2)))"

definition maxAttempts :: nat where "maxAttempts = 3"

function settle_from ::
    "engine \<Rightarrow> (nat \<Rightarrow> int) \<Rightarrow> payment \<Rightarrow> string \<Rightarrow> string \<Rightarrow> int \<Rightarrow> nat \<Rightarrow> database \<Rightarrow>
     transaction res \<times> database" where
  "settle_from E clk p h bridge hops k db =
     (if maxAttempts < k
      then (Inl (Runtime_error ''Settlement failed unexpectedly''), db)
      else case settle_attempt E (clk k) p h bridge hops db of
        (Return r, db1) \<Rightarrow> (r, db1)
      | (Retry e, db1) \<Rightarrow>
          if k = maxAttempts then (Inl e, db1)
          else settle_from E clk p h bridge hops (Suc k) db1)"
  by pat_completeness auto
termination
  by (relation "measure (\<lambda>(E, clk, p, h, bridge, hops, k, db). Suc maxAttempts - k)") auto

declare settle_from.simps [simp del]

definition settle ::
    "engine \<Rightarrow> (nat \<Rightarrow> int) \<Rightarrow> payment \<Rightarrow> string \<Rightarrow> string \<Rightarrow> int \<Rightarrow> database \<Rightarrow>
     transaction res \<times> database" where
  "settle E clk p h bridge hops db = settle_from E clk p h bridge hops 1 db"

section \<open>Every outcome, when no failure rolls back by itself\<close>

text \<open>
  The three ways a settlement ends when it starts outside a transaction. The first keeps the
  data (or leaves the transaction open over it, when even \<open>ROLLBACK\<close> failed); the second
  adds one rejected row; the third adds one settled row after the two account writes, each
  of which a failing engine may have skipped without a trace.
\<close>

definition failed_outcome :: "database \<Rightarrow> transaction res \<Rightarrow> database \<Rightarrow> bool" where
  "failed_outcome db r db' \<longleftrightarrow> (\<exists>e. r = Inl e) \<and>
     (saved db' = None \<and> cur db' = cur db \<or> saved db' = Some (cur db))"

definition rejected_outcome ::
    "payment \<Rightarrow> string \<Rightarrow> string \<Rightarrow> int \<Rightarrow> database \<Rightarrow> transaction res \<Rightarrow> database \<Rightarrow> bool" where
  "rejected_outcome p h bridge hops db r db' \<longleftrightarrow>
     (\<exists>now n s. r = Inr ((settlement_tx p h bridge hops now REJECTED)\<lparr>tx_id := n\<rparr>) \<and>
        saved db' = None \<and> 0 < pi_amount p \<and>
        sql_select_account (c_str (pi_senderVpa p)) (cur db) = Some s \<and> balance s < pi_amount p \<and>
        sql_insert_transaction (bind_transaction (settlement_tx p h bridge hops now REJECTED))
          (cur db) = Inr (n, cur db'))"

definition debit :: "payment \<Rightarrow> account \<Rightarrow> account" where
  "debit p a = bind_account (a\<lparr>balance := balance a - pi_amount p\<rparr>)"

definition credit :: "payment \<Rightarrow> account \<Rightarrow> account" where
  "credit p a = bind_account (a\<lparr>balance := balance a + pi_amount p\<rparr>)"

definition settled_outcome ::
    "payment \<Rightarrow> string \<Rightarrow> string \<Rightarrow> int \<Rightarrow> database \<Rightarrow> transaction res \<Rightarrow> database \<Rightarrow> bool" where
  "settled_outcome p h bridge hops db r db' \<longleftrightarrow>
     (\<exists>now n s c t1 t2. r = Inr ((settlement_tx p h bridge hops now SETTLED)\<lparr>tx_id := n\<rparr>) \<and>
        saved db' = None \<and>
        sql_select_account (c_str (pi_senderVpa p)) (cur db) = Some s \<and>
        sql_select_account (c_str (pi_receiverVpa p)) (cur db) = Some c \<and>
        0 < pi_amount p \<and> pi_amount p \<le> balance s \<and>
        in_i64 (balance s - pi_amount p) \<and> in_i64 (balance c + pi_amount p) \<and>
        (t1 = cur db \<or> t1 = sql_upsert_account (debit p s) (cur db)) \<and>
        (t2 = t1 \<or> t2 = sql_upsert_account (credit p c) t1) \<and>
        sql_insert_transaction (bind_transaction (settlement_tx p h bridge hops now SETTLED))
          t2 = Inr (n, cur db'))"

lemma settled_outcomeI:
  assumes "sql_select_account (c_str (pi_senderVpa p)) (cur db) = Some s"
    "sql_select_account (c_str (pi_receiverVpa p)) (cur db) = Some c"
    "0 < pi_amount p" "pi_amount p \<le> balance s"
    "in_i64 (balance s - pi_amount p)" "in_i64 (balance c + pi_amount p)"
    "r = Inr ((settlement_tx p h bridge hops now SETTLED)\<lparr>tx_id := n\<rparr>)" "saved db' = None"
    "t1 = cur db \<or> t1 = sql_upsert_account (debit p s) (cur db)"
    "t2 = t1 \<or> t2 = sql_upsert_account (credit p c) t1"
    "sql_insert_transaction (bind_transaction (settlement_tx p h bridge hops now SETTLED)) t2 =
       Inr (n, cur db')"
  shows "settled_outcome p h bridge hops db r db'"
  unfolding settled_outcome_def using assms by blast

lemma settle_try_outcome:
  assumes "settle_try E now p h bridge hops a b db = (r, db')" "saved db = Some t0"
    and keeps: "keeps_transactions E"
  shows "(\<exists>e. r = Inl e \<and> saved db' = Some t0) \<or>
    (\<exists>n t1 t2. r = Inr ((settlement_tx p h bridge hops now SETTLED)\<lparr>tx_id := n\<rparr>) \<and> saved db' = None \<and>
        (t1 = cur db \<or> t1 = sql_upsert_account (bind_account a) (cur db)) \<and>
        (t2 = t1 \<or> t2 = sql_upsert_account (bind_account b) t1) \<and>
        sql_insert_transaction (bind_transaction (settlement_tx p h bridge hops now SETTLED))
          t2 = Inr (n, cur db'))"
proof -
  define d1 where "d1 = account_save E a db"
  define d2 where "d2 = account_save E b d1"
  have d1: "saved d1 = Some t0" "cur d1 = cur db \<or> cur d1 = sql_upsert_account (bind_account a) (cur db)"
    using account_save_frame [OF keeps, of a db] assms(2) by (simp_all add: d1_def)
  have d2: "saved d2 = Some t0" "cur d2 = cur d1 \<or> cur d2 = sql_upsert_account (bind_account b) (cur d1)"
    using account_save_frame [OF keeps, of b d1] d1 by (simp_all add: d2_def)
  obtain q d3 where q: "transaction_save E (settlement_tx p h bridge hops now SETTLED) d2 = (q, d3)"
    by fastforce
  note f = transaction_save_frame [OF keeps q]
  show ?thesis
  proof (cases q)
    case (Inl e)
    with assms(1) q f(1) d2(1) show ?thesis
      by (auto simp: settle_try_def Let_def d1_def d2_def)
  next
    case (Inr tx)
    obtain x d4 where x: "execute E Commit d3 = (x, d4)" by fastforce
    show ?thesis
    proof (cases x)
      case None
      with assms(1) q Inr x have "r = Inr tx" "db' = d4"
        by (auto simp: settle_try_def Let_def d1_def d2_def)
      moreover have "saved d4 = None" "cur d4 = cur d3" using execute_commit x None by auto
      ultimately show ?thesis using f(3) [OF Inr] d1(2) d2(2) by metis
    next
      case (Some e)
      with assms(1) q Inr x have "r = Inl e" "db' = d4"
        by (auto simp: settle_try_def Let_def d1_def d2_def)
      moreover have "saved d4 = Some t0" using execute_frame [OF keeps x [unfolded Some]] f(1) d2(1) by simp
      ultimately show ?thesis by simp
    qed
  qed
qed

text \<open>The same for one round: a caught failure leaves no transaction and the data it found.\<close>

fun attempt_outcome ::
    "payment \<Rightarrow> string \<Rightarrow> string \<Rightarrow> int \<Rightarrow> database \<Rightarrow> attempt \<Rightarrow> database \<Rightarrow> bool" where
  "attempt_outcome p h bridge hops db (Retry e) db' \<longleftrightarrow> saved db' = None \<and> cur db' = cur db"
| "attempt_outcome p h bridge hops db (Return r) db' \<longleftrightarrow>
     failed_outcome db r db' \<or> rejected_outcome p h bridge hops db r db' \<or>
     settled_outcome p h bridge hops db r db'"

lemma outcome_cong:
  assumes "cur db1 = cur db"
  shows "failed_outcome db1 r db' = failed_outcome db r db'"
    and "rejected_outcome p h bridge hops db1 r db' = rejected_outcome p h bridge hops db r db'"
    and "settled_outcome p h bridge hops db1 r db' = settled_outcome p h bridge hops db r db'"
    and "attempt_outcome p h bridge hops db1 a db' = attempt_outcome p h bridge hops db a db'"
  using assms
  by (cases a; simp add: failed_outcome_def rejected_outcome_def settled_outcome_def)+

lemma settle_locked_outcome:
  assumes run: "settle_locked E now p h bridge hops (s\<lparr>balance := balance s - pi_amount p\<rparr>)
      (c\<lparr>balance := balance c + pi_amount p\<rparr>) db = (a, db')"
    and sel: "sql_select_account (c_str (pi_senderVpa p)) (cur db) = Some s"
      "sql_select_account (c_str (pi_receiverVpa p)) (cur db) = Some c"
    and amt: "0 < pi_amount p" "pi_amount p \<le> balance s"
      "in_i64 (balance s - pi_amount p)" "in_i64 (balance c + pi_amount p)"
    and "saved db = None" and keeps: "keeps_transactions E"
  shows "attempt_outcome p h bridge hops db a db'"
proof -
  obtain x d1 where x: "execute E Begin_Immediate db = (x, d1)" by fastforce
  show ?thesis
  proof (cases x)
    case (Some e)
    with run x execute_frame [OF keeps x [unfolded Some]] assms show ?thesis
      by (auto simp: settle_locked_def failed_outcome_def)
  next
    case x_None: None
    with x have d1: "saved d1 = Some (cur db)" "cur d1 = cur db"
      using execute_begin by blast+
    obtain q d2 where q: "settle_try E now p h bridge hops (s\<lparr>balance := balance s - pi_amount p\<rparr>)
        (c\<lparr>balance := balance c + pi_amount p\<rparr>) d1 = (q, d2)" by fastforce
    note outcome = settle_try_outcome [OF q d1(1) keeps, folded debit_def credit_def]
    show ?thesis
    proof (cases q)
      case (Inr tx)
      with run x x_None q have "a = Return (Inr tx)" "db' = d2" by (auto simp: settle_locked_def)
      moreover obtain n t1 t2 where "tx = (settlement_tx p h bridge hops now SETTLED)\<lparr>tx_id := n\<rparr>"
        "saved d2 = None" "t1 = cur db \<or> t1 = sql_upsert_account (debit p s) (cur db)"
        "t2 = t1 \<or> t2 = sql_upsert_account (credit p c) t1"
        "sql_insert_transaction (bind_transaction (settlement_tx p h bridge hops now SETTLED)) t2 =
           Inr (n, cur d2)"
        using outcome Inr d1(2) by force
      ultimately show ?thesis using settled_outcomeI [OF sel amt] by simp
    next
      case (Inl e)
      with outcome have d2: "saved d2 = Some (cur db)" by auto
      obtain y d3 where y: "execute E Rollback d2 = (y, d3)" by fastforce
      with run x x_None q Inl have "db' = d3" "a = (case y of None \<Rightarrow> Retry e | Some e' \<Rightarrow> Return (Inl e'))"
        by (auto simp: settle_locked_def split: option.splits)
      with execute_frame [OF keeps, of Rollback d2 _ d3] execute_rollback [of E d2 d3] y d2 show ?thesis
        by (cases y) (auto simp: failed_outcome_def)
    qed
  qed
qed

lemma settle_attempt_outcome:
  assumes run: "settle_attempt E now p h bridge hops db = (a, db')" and "saved db = None"
    and keeps: "keeps_transactions E"
  shows "attempt_outcome p h bridge hops db a db'"
proof -
  obtain so d1 where so: "findById E (pi_senderVpa p) db = (so, d1)" by fastforce
  obtain ro d2 where ro: "findById E (pi_receiverVpa p) d1 = (ro, d2)" by fastforce
  note f = findById_frame [OF keeps so] findById_frame [OF keeps ro]
  show ?thesis
  proof (cases "so = None \<or> ro = None \<or> pi_amount p \<le> 0")
    case True
    with run so ro f \<open>saved db = None\<close> show ?thesis
      by (auto simp: settle_attempt_def failed_outcome_def split: option.splits if_splits)
  next
    case False
    then obtain s c where sc: "so = Some s" "ro = Some c" "0 < pi_amount p" by auto
    with f assms(2) have d2: "saved d2 = None" "cur d2 = cur db"
      "sql_select_account (c_str (pi_senderVpa p)) (cur d2) = Some s"
      "sql_select_account (c_str (pi_receiverVpa p)) (cur d2) = Some c" by auto
    show ?thesis
    proof (cases "balance s < pi_amount p")
      case True
      obtain r where rej: "transaction_save E (settlement_tx p h bridge hops now REJECTED) d2 = (r, db')"
        and a: "a = Return r"
        using run so ro sc True by (auto simp: settle_attempt_def recordRejected_def split: prod.splits)
      note g = transaction_save_frame [OF keeps rej]
      show ?thesis
      proof (cases r)
        case (Inl e)
        with g d2 a show ?thesis by (auto simp: failed_outcome_def)
      next
        case (Inr tx)
        with g(1) g(3) [OF Inr] d2 sc True a show ?thesis by (auto simp: rejected_outcome_def)
      qed
    next
      case enough: False
      show ?thesis
      proof (cases "in_i64 (balance s - pi_amount p) \<and> in_i64 (balance c + pi_amount p)")
        case True
        with run so ro sc enough have "settle_locked E now p h bridge hops
            (s\<lparr>balance := balance s - pi_amount p\<rparr>) (c\<lparr>balance := balance c + pi_amount p\<rparr>) d2 = (a, db')"
          by (simp add: settle_attempt_def)
        from settle_locked_outcome [OF this d2(3,4)] True sc enough d2(1) keeps
        show ?thesis using outcome_cong(4) [OF d2(2)] by simp
      next
        case False
        with run so ro sc enough d2 show ?thesis
          by (auto simp: settle_attempt_def failed_outcome_def sub_i64_def add_i64_def chk_i64_def
              split: if_splits)
      qed
    qed
  qed
qed

lemma settle_from_outcome:
  assumes "settle_from E clk p h bridge hops k db = (r, db')" "saved db = None" "keeps_transactions E"
  shows "failed_outcome db r db' \<or> rejected_outcome p h bridge hops db r db' \<or>
         settled_outcome p h bridge hops db r db'"
  using assms
proof (induction E clk p h bridge hops k db arbitrary: r db' rule: settle_from.induct)
  case (1 E clk p h bridge hops k db)
  note unf = settle_from.simps [of E clk p h bridge hops k db]
  obtain a d1 where a: "settle_attempt E (clk k) p h bridge hops db = (a, d1)" by fastforce
  note out = settle_attempt_outcome [OF a "1.prems"(2,3)]
  show ?case
  proof (cases "maxAttempts < k")
    case True
    with "1.prems" unf show ?thesis by (auto simp: failed_outcome_def)
  next
    case k: False
    show ?thesis
    proof (cases a)
      case (Return q)
      with out a k unf "1.prems" show ?thesis by auto
    next
      case (Retry e)
      with out have d1: "saved d1 = None" "cur d1 = cur db" by auto
      show ?thesis
      proof (cases "k = maxAttempts")
        case True
        with "1.prems" a Retry unf d1 show ?thesis by (auto simp: failed_outcome_def)
      next
        case False
        with "1.prems" a Retry unf k have "settle_from E clk p h bridge hops (Suc k) d1 = (r, db')"
          by auto
        from "1.IH" [OF k a [symmetric] Retry False this d1(1) "1.prems"(3)] show ?thesis
          by (simp only: outcome_cong(1-3) [OF d1(2)])
      qed
    qed
  qed
qed

lemma settle_outcome:
  assumes "settle E clk p h bridge hops db = (r, db')" "saved db = None" "keeps_transactions E"
  shows "failed_outcome db r db' \<or> rejected_outcome p h bridge hops db r db' \<or>
         settled_outcome p h bridge hops db r db'"
  using settle_from_outcome assms by (simp add: settle_def)

section \<open>The same service as a function on the tables\<close>

text \<open>
  What a settlement promises, without connection, transactions, retries or engine calls: the
  checks in order, then one atomic change of the tables.
\<close>

definition spec_record ::
    "payment \<Rightarrow> string \<Rightarrow> string \<Rightarrow> int \<Rightarrow> int \<Rightarrow> status \<Rightarrow> tables \<Rightarrow> tables \<Rightarrow> transaction res \<times> tables" where
  "spec_record p h bridge hops now st t t0 =
     (case sql_insert_transaction (bind_transaction (settlement_tx p h bridge hops now st)) t of
        Inl m \<Rightarrow> (Inl (Runtime_error (''Failed to execute tx save: '' @ m)), t0)
      | Inr (n, t') \<Rightarrow> (Inr ((settlement_tx p h bridge hops now st)\<lparr>tx_id := n\<rparr>), t'))"

definition settle_spec ::
    "payment \<Rightarrow> string \<Rightarrow> string \<Rightarrow> int \<Rightarrow> int \<Rightarrow> tables \<Rightarrow> transaction res \<times> tables" where
  "settle_spec p h bridge hops now t =
     (case sql_select_account (c_str (pi_senderVpa p)) t of
        None \<Rightarrow> (Inl (Invalid_argument (''Unknown sender VPA: '' @ pi_senderVpa p)), t)
      | Some s \<Rightarrow>
          (case sql_select_account (c_str (pi_receiverVpa p)) t of
             None \<Rightarrow> (Inl (Invalid_argument (''Unknown receiver VPA: '' @ pi_receiverVpa p)), t)
           | Some c \<Rightarrow>
               if pi_amount p \<le> 0 then (Inl (Invalid_argument ''Amount must be positive''), t)
               else if balance s < pi_amount p then spec_record p h bridge hops now REJECTED t t
               else if \<not> in_i64 (balance c + pi_amount p)
               then (Inl (Undefined ''signed integer overflow''), t)
               else spec_record p h bridge hops now SETTLED
                      (sql_upsert_account (credit p c) (sql_upsert_account (debit p s) t)) t))"

text \<open>With a healthy engine one round does what the function on tables says.\<close>

lemma healthy_attempt:
  assumes "healthy E" "saved db = None" "accounts_ok (cur db)"
    and "settle_attempt E now p h bridge hops db = (a, db')"
  shows "saved db' = None \<and>
    (case a of Return r \<Rightarrow> settle_spec p h bridge hops now (cur db) = (r, cur db')
     | Retry e \<Rightarrow> settle_spec p h bridge hops now (cur db) = (Inl e, cur db') \<and> cur db' = cur db \<and>
         (\<forall>now'. settle_spec p h bridge hops now' (cur db) = (Inl e, cur db)))"
proof -
  have "in_i64 (balance s - pi_amount p)"
    if "sql_select_account v (cur db) = Some s" "0 < pi_amount p" "pi_amount p \<le> balance s" for v s
    using acc.valid_select [OF assms(3) that(1)] that(2,3) by (auto simp: in_i64_def i64_min_def)
  with assms show ?thesis
    by (auto simp: settle_attempt_def findById_def recordRejected_def transaction_save_def
        settle_locked_def settle_try_def account_save_def execute_def settle_spec_def
        spec_record_def sub_i64_def add_i64_def chk_i64_def debit_def credit_def Let_def
        bind_transaction_def settlement_tx_def sql_insert_transaction_def
        split: option.splits if_splits sum.splits prod.splits attempt.splits)
qed

lemma healthy_settle_from:
  assumes "healthy E" "saved db = None" "accounts_ok (cur db)" "k \<le> maxAttempts"
  shows "(fst (settle_from E clk p h bridge hops k db), cur (snd (settle_from E clk p h bridge hops k db)))
      = settle_spec p h bridge hops (clk k) (cur db) \<and>
    saved (snd (settle_from E clk p h bridge hops k db)) = None"
  using assms
proof (induction E clk p h bridge hops k db rule: settle_from.induct)
  case (1 E clk p h bridge hops k db)
  note unf = settle_from.simps [of E clk p h bridge hops k db]
  obtain a d1 where a: "settle_attempt E (clk k) p h bridge hops db = (a, d1)" by fastforce
  note out = healthy_attempt [OF "1.prems"(1-3) a]
  show ?case
  proof (cases a)
    case (Return r)
    with out a unf "1.prems"(4) show ?thesis by simp
  next
    case (Retry e)
    with out have d1: "saved d1 = None" "cur d1 = cur db"
      and same: "settle_spec p h bridge hops now (cur db) = (Inl e, cur db)" for now by auto
    show ?thesis
    proof (cases "k = maxAttempts")
      case True
      with a Retry unf d1 same [of "clk k"] show ?thesis by simp
    next
      case False
      with "1.prems"(4) have k: "\<not> maxAttempts < k" "Suc k \<le> maxAttempts" by auto
      from "1.IH" [OF k(1) a [symmetric] Retry False "1.prems"(1) d1(1) _ k(2)] "1.prems"(3) d1(2)
      have "(fst (settle_from E clk p h bridge hops (Suc k) d1),
             cur (snd (settle_from E clk p h bridge hops (Suc k) d1)))
          = settle_spec p h bridge hops (clk (Suc k)) (cur db) \<and>
        saved (snd (settle_from E clk p h bridge hops (Suc k) d1)) = None" by simp
      then show ?thesis using unf k a Retry False same [of "clk k"] same [of "clk (Suc k)"] by simp
    qed
  qed
qed

lemma healthy_settle:
  assumes "healthy E" "saved db = None" "accounts_ok (cur db)"
  shows "fst (settle E clk p h bridge hops db) = fst (settle_spec p h bridge hops (clk 1) (cur db))"
    and "cur (snd (settle E clk p h bridge hops db)) = snd (settle_spec p h bridge hops (clk 1) (cur db))"
    and "saved (snd (settle E clk p h bridge hops db)) = None"
  using healthy_settle_from [OF assms, of 1 clk p h bridge hops]
  by (auto simp: settle_def maxAttempts_def prod_eq_iff)

section \<open>Facts the properties share\<close>

lemma bind_account_simps [simp]:
  "vpa (bind_account a) = c_str (vpa a)" "balance (bind_account a) = balance a"
  "no_nul (holderName (bind_account a))" "version (bind_account a) = version a"
  by (simp_all add: bind_account_def)

lemma debit_simps [simp]:
  "balance (debit p a) = balance a - pi_amount p" "vpa (debit p a) = c_str (vpa a)"
  "balance (credit p a) = balance a + pi_amount p" "vpa (credit p a) = c_str (vpa a)"
  "no_nul (holderName (debit p a))" "no_nul (holderName (credit p a))"
  by (simp_all add: debit_def credit_def)

lemma selected_vpa:
  assumes "accounts_ok t" "sql_select_account v t = Some a"
  shows "vpa a = v" "no_nul v" "c_str v = v" "0 \<le> balance a" "in_i64 (balance a)"
  using acc.valid_select [OF assms] acc.select_key [OF assms(2)] by auto

lemma accounts_ok_debit:
  assumes "accounts_ok t" "sql_select_account v t = Some s"
    and "0 \<le> pi_amount p" "pi_amount p \<le> balance s"
  shows "accounts_ok (sql_upsert_account (debit p s) t)"
  using selected_vpa [OF assms(1,2)] assms(3,4)
  by (intro acc.valid_upsert [OF assms(1)]) (auto simp: in_i64_def i64_min_def)

lemma accounts_ok_credit:
  assumes "accounts_ok t" "accounts_ok t1" "sql_select_account v t = Some c"
    and "0 \<le> pi_amount p" "in_i64 (balance c + pi_amount p)"
  shows "accounts_ok (sql_upsert_account (credit p c) t1)"
  using selected_vpa [OF assms(1,3)] assms(4,5)
  by (intro acc.valid_upsert [OF assms(2)]) auto

lemma settle_keeps_ok:
  assumes "settle E clk p h bridge hops db = (r, db')" "saved db = None" "tables_ok (cur db)"
    and "keeps_transactions E"
  shows "saved db' = None \<Longrightarrow> tables_ok (cur db')"
    and "saved db' = Some t \<Longrightarrow> tables_ok t"
proof -
  consider "failed_outcome db r db'" | "rejected_outcome p h bridge hops db r db'"
    | "settled_outcome p h bridge hops db r db'"
    using settle_outcome [OF assms(1,2,4)] by blast
  then have "(saved db' = None \<longrightarrow> tables_ok (cur db')) \<and> (\<forall>t. saved db' = Some t \<longrightarrow> tables_ok t)"
  proof cases
    case 1
    with assms(3) show ?thesis by (auto simp: failed_outcome_def)
  next
    case 2
    with assms(3) show ?thesis
      by (auto simp: rejected_outcome_def tables_ok_def ledger_ok_insert accounts_ok_insert)
  next
    case 3
    then obtain now n s c t1 t2 where *: "saved db' = None"
      "sql_select_account (c_str (pi_senderVpa p)) (cur db) = Some s"
      "sql_select_account (c_str (pi_receiverVpa p)) (cur db) = Some c"
      "0 < pi_amount p" "pi_amount p \<le> balance s" "in_i64 (balance c + pi_amount p)"
      and t: "t1 = cur db \<or> t1 = sql_upsert_account (debit p s) (cur db)"
        "t2 = t1 \<or> t2 = sql_upsert_account (credit p c) t1"
        "sql_insert_transaction (bind_transaction (settlement_tx p h bridge hops now SETTLED)) t2 =
           Inr (n, cur db')"
      unfolding settled_outcome_def by blast
    have ok: "accounts_ok (cur db)" "ledger_ok (cur db)" using assms(3) by (simp_all add: tables_ok_def)
    then have "accounts_ok t1 \<and> ledger_ok t1"
      using t(1) accounts_ok_debit [OF ok(1) *(2), of p] *(4,5) by auto
    then have "accounts_ok t2 \<and> ledger_ok t2"
      using t(2) accounts_ok_credit [OF ok(1) _ *(3), of t1 p] *(4,6) by auto
    then show ?thesis
      using *(1) t(3) by (auto simp: tables_ok_def ledger_ok_insert accounts_ok_insert)
  qed
  then show "saved db' = None \<Longrightarrow> tables_ok (cur db')" and "saved db' = Some t \<Longrightarrow> tables_ok t"
    by blast+
qed

lemma spec_record_total:
  assumes "total_balance t = total_balance t0"
  shows "total_balance (snd (spec_record p h bridge hops now st t t0)) = total_balance t0"
  using assms by (auto simp: spec_record_def total_balance_insert split: sum.splits prod.splits)

lemma spec_record_Inr:
  assumes "spec_record p h bridge hops now st t t0 = (Inr tx, t')"
  shows "transactions t' = transactions t @ [bind_transaction tx]" "accounts t' = accounts t"
    "tx_id tx = seq t + 1" "tx_status tx = st"
    "c_str h \<notin> row_packetHash ` set (transactions t)"
    "tx = (settlement_tx p h bridge hops now st)\<lparr>tx_id := seq t + 1\<rparr>"
  using assms
  by (auto simp: spec_record_def sql_insert_Inr bind_transaction_def settlement_tx_def
      split: sum.splits prod.splits)

lemma settle_spec_total:
  assumes "accounts_ok t" "c_str (pi_senderVpa p) \<noteq> c_str (pi_receiverVpa p)"
  shows "total_balance (snd (settle_spec p h bridge hops now t)) = total_balance t"
proof -
  have "total_balance (sql_upsert_account (credit p c) (sql_upsert_account (debit p s) t)) = total_balance t"
    if s: "sql_select_account (c_str (pi_senderVpa p)) t = Some s"
      and c: "sql_select_account (c_str (pi_receiverVpa p)) t = Some c"
      and "0 < pi_amount p" "pi_amount p \<le> balance s" for s c
    using that selected_vpa [OF assms(1) s] selected_vpa [OF assms(1) c]
      accounts_ok_debit [OF assms(1) s, of p]
    by (intro acc.move_total [OF assms(1) s c assms(2), where x = "pi_amount p"]) auto
  then show ?thesis
    by (auto simp: settle_spec_def spec_record_total split: option.splits)
qed

lemma settle_spec_self_total:
  assumes "accounts_ok t" "c_str (pi_senderVpa p) = c_str (pi_receiverVpa p)"
    and "settle_spec p h bridge hops now t = (Inr tx, t')" "tx_status tx = SETTLED"
  shows "total_balance t' = total_balance t + pi_amount p"
proof -
  obtain s where s: "sql_select_account (c_str (pi_senderVpa p)) t = Some s" and "0 < pi_amount p"
    and enough: "pi_amount p \<le> balance s"
    and rec: "spec_record p h bridge hops now SETTLED
        (sql_upsert_account (credit p s) (sql_upsert_account (debit p s) t)) t = (Inr tx, t')"
    using assms(2-4)
    by (auto simp: settle_spec_def spec_record_def settlement_tx_def
        split: option.splits if_splits sum.splits prod.splits)
  have "total_balance (sql_upsert_account (credit p s) (sql_upsert_account (debit p s) t)) =
      total_balance t + pi_amount p"
    using selected_vpa [OF assms(1) s] accounts_ok_debit [OF assms(1) s, of p] enough \<open>0 < pi_amount p\<close>
    by (intro acc.move_same_total [OF assms(1) s]) auto
  with rec show ?thesis
    by (auto simp: spec_record_def total_balance_insert split: sum.splits prod.splits)
qed











section \<open>Properties\<close>

text \<open>An example payment and connection for the witnesses.\<close>

definition demo_payment :: payment where
  "demo_payment = \<lparr>pi_senderVpa = ''alice@demo'', pi_receiverVpa = ''bob@demo'', pi_amount = 25000,
     pi_pinHash = ''abc'', pi_nonce = ''n-1'', pi_signedAt = 1000\<rparr>"

definition demo_db :: database where
  "demo_db = \<lparr>cur = seeded_tables, saved = None, calls = 3\<rparr>"

lemma demo_db_simps [simp]: "cur demo_db = seeded_tables" "saved demo_db = None" "calls demo_db = 3"
  by (simp_all add: demo_db_def)

text \<open>C3. With a working SQLite, \<open>settle\<close> (connection, explicit transaction, retry loop and all)
  computes exactly what the one-step function \<open>settle_spec\<close> on the tables says: same result,
  same tables, and no transaction left open.\<close>

theorem settle_refines_spec:
  assumes "healthy E" "saved db = None" "accounts_ok (cur db)"
  shows "fst (settle E clk p h bridge hops db) = fst (settle_spec p h bridge hops (clk 1) (cur db)) \<and>
    cur (snd (settle E clk p h bridge hops db)) = snd (settle_spec p h bridge hops (clk 1) (cur db)) \<and>
    saved (snd (settle E clk p h bridge hops db)) = None"
  using healthy_settle [OF assms] by blast

theorem settle_refines_spec_witness:
  "healthy (\<lambda>n. None) \<and> saved demo_db = None \<and> accounts_ok (cur demo_db) \<and>
   saved (snd (settle (\<lambda>n. None) (\<lambda>k. 7) demo_payment ''h'' ''b'' 1 demo_db)) = None"
  using settle_refines_spec [of "\<lambda>n. None" demo_db "\<lambda>k. 7" demo_payment "''h''" "''b''" 1] by simp

text \<open>C4. While no SQLite call fails, money is conserved between two different accounts: whether the
  payment settles, is rejected or ends in an exception, the sum of all balances is as it was. (A
  payment to oneself and a failing write are the exceptions, stated below.)\<close>

theorem settle_conserves_total:
  assumes "healthy E" "saved db = None" "accounts_ok (cur db)"
    and "c_str (pi_senderVpa p) \<noteq> c_str (pi_receiverVpa p)"
  shows "total_balance (cur (snd (settle E clk p h bridge hops db))) = total_balance (cur db)"
  using healthy_settle(2) [OF assms(1-3)] settle_spec_total [OF assms(3,4)] by simp

theorem settle_conserves_total_witness:
  "total_balance (cur (snd (settle (\<lambda>n. None) (\<lambda>k. 7) demo_payment ''h'' ''b'' 1 demo_db))) = 900000"
  using settle_conserves_total [of "\<lambda>n. None" demo_db demo_payment "\<lambda>k. 7" "''h''" "''b''" 1]
  by (simp add: seeded_total demo_payment_def c_str_def)

text \<open>C5. What a settled payment between two different accounts does while no SQLite call fails: the
  sender had the amount and loses exactly it, the receiver gains exactly it, every other account
  is untouched, and the ledger gains the one row that describes the payment.\<close>

theorem settle_settled_effect:
  assumes "healthy E" "saved db = None" "accounts_ok (cur db)"
    and "c_str (pi_senderVpa p) \<noteq> c_str (pi_receiverVpa p)"
    and "settle E clk p h bridge hops db = (Inr tx, db')" "tx_status tx = SETTLED"
  shows "\<exists>s c. sql_select_account (c_str (pi_senderVpa p)) (cur db) = Some s \<and>
      sql_select_account (c_str (pi_receiverVpa p)) (cur db) = Some c \<and>
      0 < pi_amount p \<and> pi_amount p \<le> balance s \<and>
      map_option balance (sql_select_account (c_str (pi_senderVpa p)) (cur db')) =
        Some (balance s - pi_amount p) \<and>
      map_option balance (sql_select_account (c_str (pi_receiverVpa p)) (cur db')) =
        Some (balance c + pi_amount p) \<and>
      (\<forall>v. v \<noteq> c_str (pi_senderVpa p) \<longrightarrow> v \<noteq> c_str (pi_receiverVpa p) \<longrightarrow>
         sql_select_account v (cur db') = sql_select_account v (cur db)) \<and>
      transactions (cur db') = transactions (cur db) @ [bind_transaction tx]"
proof -
  have spec: "settle_spec p h bridge hops (clk 1) (cur db) = (Inr tx, cur db')"
    using healthy_settle [OF assms(1-3), of clk p h bridge hops] assms(5) by (simp add: prod_eq_iff)
  then obtain s c where s: "sql_select_account (c_str (pi_senderVpa p)) (cur db) = Some s"
    and c: "sql_select_account (c_str (pi_receiverVpa p)) (cur db) = Some c"
    and amt: "0 < pi_amount p" "pi_amount p \<le> balance s"
    and rec: "spec_record p h bridge hops (clk 1) SETTLED
        (sql_upsert_account (credit p c) (sql_upsert_account (debit p s) (cur db))) (cur db) = (Inr tx, cur db')"
    using assms(6) by (auto simp: settle_spec_def spec_record_def settlement_tx_def
        split: option.splits if_splits sum.splits prod.splits)
  then have rows: "transactions (cur db') = transactions (cur db) @ [bind_transaction tx]"
    and accs: "accounts (cur db') =
        accounts (sql_upsert_account (credit p c) (sql_upsert_account (debit p s) (cur db)))"
    using spec_record_Inr [OF rec] by simp_all
  have sel: "sql_select_account v (cur db') =
      sql_select_account v (sql_upsert_account (credit p c) (sql_upsert_account (debit p s) (cur db)))" for v
    using accs by (simp add: sql_select_account_def)
  show ?thesis
    using s c amt rows assms(4) selected_vpa [OF assms(3) s] selected_vpa [OF assms(3) c]
    by (intro exI [of _ s] exI [of _ c]) (simp add: sel acc.select_upsert)
qed

theorem settle_settled_effect_witness:
  "\<exists>tx db'. settle (\<lambda>n. None) (\<lambda>k. 7) demo_payment ''h'' ''b'' 1 demo_db = (Inr tx, db') \<and>
     transactions (cur db') = [bind_transaction tx]"
proof -
  define r where "r = settle (\<lambda>n. None) (\<lambda>k. 7) demo_payment ''h'' ''b'' 1 demo_db"
  have "fst r = fst (settle_spec demo_payment ''h'' ''b'' 1 7 seeded_tables)"
    using healthy_settle(1) [of "\<lambda>n. None" demo_db "\<lambda>k. 7"] by (simp add: r_def)
  then obtain tx where tx: "fst r = Inr tx" "tx_status tx = SETTLED"
    by (simp add: settle_spec_def spec_record_def seeded_tables_def seed_rows_def demo_payment_def
        c_str_def sql_select_account_def in_i64_def i64_min_def i64_max_def sql_insert_transaction_def
        sql_upsert_account_def settlement_tx_def debit_def credit_def bind_account_def)
  then have "settle (\<lambda>n. None) (\<lambda>k. 7) demo_payment ''h'' ''b'' 1 demo_db = (Inr tx, snd r)"
    by (simp add: r_def prod_eq_iff)
  moreover from settle_settled_effect [OF _ _ _ _ this tx(2)]
  have "transactions (cur (snd r)) = transactions seeded_tables @ [bind_transaction tx]"
    by (force simp: demo_payment_def c_str_def)
  ultimately show ?thesis by (auto simp: seeded_tables_def)
qed

text \<open>While no SQLite call fails, a payment the sender cannot cover is recorded as REJECTED: the result carries that status
  and a fresh id, the ledger gains exactly that row, and no account changes.\<close>

theorem settle_insufficient_rejected:
  assumes "healthy E" "saved db = None" "accounts_ok (cur db)"
    and "sql_select_account (c_str (pi_senderVpa p)) (cur db) = Some s"
    and "sql_select_account (c_str (pi_receiverVpa p)) (cur db) = Some c"
    and "0 < pi_amount p" "balance s < pi_amount p"
    and "c_str h \<notin> row_packetHash ` set (transactions (cur db))" "seq (cur db) < i64_max"
  shows "\<exists>tx db'. settle E clk p h bridge hops db = (Inr tx, db') \<and> tx_status tx = REJECTED \<and>
      tx_id tx = seq (cur db) + 1 \<and> accounts (cur db') = accounts (cur db) \<and>
      transactions (cur db') = transactions (cur db) @ [bind_transaction tx]"
proof -
  obtain tx t' where rec: "spec_record p h bridge hops (clk 1) REJECTED (cur db) (cur db) = (Inr tx, t')"
    using assms(8,9) by (force simp: spec_record_def sql_insert_transaction_def bind_transaction_def
        settlement_tx_def)
  have "settle_spec p h bridge hops (clk 1) (cur db) = (Inr tx, t')"
    using assms(4-7) rec by (simp add: settle_spec_def)
  with healthy_settle [OF assms(1-3), of clk p h bridge hops]
  have "settle E clk p h bridge hops db = (Inr tx, snd (settle E clk p h bridge hops db))"
    "cur (snd (settle E clk p h bridge hops db)) = t'" by (simp_all add: prod_eq_iff)
  with spec_record_Inr [OF rec] show ?thesis by metis
qed

theorem settle_insufficient_rejected_witness:
  "\<exists>tx db'. settle (\<lambda>n. None) (\<lambda>k. 7) (demo_payment\<lparr>pi_amount := 500001\<rparr>) ''h'' ''b'' 1 demo_db =
     (Inr tx, db') \<and> tx_status tx = REJECTED \<and> accounts (cur db') = seed_rows"
  using settle_insufficient_rejected [of "\<lambda>n. None" demo_db "demo_payment\<lparr>pi_amount := 500001\<rparr>"
      "\<lparr>vpa = ''alice@demo'', holderName = ''Alice'', balance = 500000, version = 0\<rparr>"
      "\<lparr>vpa = ''bob@demo'', holderName = ''Bob'', balance = 100000, version = 0\<rparr>"
      "''h''" "\<lambda>k. 7" "''b''" 1]
  by (auto simp: demo_payment_def c_str_def i64_max_def)




text \<open>Whichever calls fail, as long as no failure rolls back by itself: settlement keeps the tables well formed (unique keys and hashes,
  increasing ids, no negative balance, no balance outside 64 bits).\<close>

theorem settle_keeps_tables_ok:
  assumes "database_ok db" "saved db = None" "keeps_transactions E"
  shows "database_ok (snd (settle E clk p h bridge hops db)) \<or>
    saved (snd (settle E clk p h bridge hops db)) = Some (cur db)"
proof -
  obtain r db' where r: "settle E clk p h bridge hops db = (r, db')" by fastforce
  have ok: "tables_ok (cur db)" using assms(1) by (simp add: database_ok_def)
  note keeps = settle_keeps_ok [OF r assms(2) ok assms(3)]
  have "saved db' = None \<or> saved db' = Some (cur db)"
    using settle_outcome [OF r assms(2,3)]
    by (auto simp: failed_outcome_def rejected_outcome_def settled_outcome_def)
  with keeps r show ?thesis by (auto simp: database_ok_def)
qed

theorem settle_keeps_tables_ok_witness:
  "database_ok (snd (settle (\<lambda>n. None) (\<lambda>k. 7) demo_payment ''h'' ''b'' 1 demo_db))"
  using settle_keeps_tables_ok [of demo_db "\<lambda>n. None" "\<lambda>k. 7" demo_payment "''h''" "''b''" 1]
    healthy_settle(3) [of "\<lambda>n. None" demo_db "\<lambda>k. 7" demo_payment "''h''" "''b''" 1]
  by (simp add: database_ok_def)



text \<open>Whichever calls fail, as long as no failure rolls back by itself: the ledger is append-only, and a call adds one row exactly when it
  returns a transaction; that row is the returned transaction.\<close>

theorem settle_ledger_append:
  assumes "settle E clk p h bridge hops db = (r, db')" "saved db = None" "saved db' = None"
    and "keeps_transactions E"
  shows "transactions (cur db') = transactions (cur db) @
    (case r of Inl e \<Rightarrow> [] | Inr tx \<Rightarrow> [bind_transaction tx])"
proof -
  have row: "transactions t' = transactions t @ [bind_transaction (tx\<lparr>tx_id := n\<rparr>)]"
    if "sql_insert_transaction (bind_transaction tx) t = Inr (n, t')" for tx t n t'
    using that by (auto simp: sql_insert_Inr bind_transaction_def)
  show ?thesis
    using settle_outcome [OF assms(1,2,4)] assms(3)
    by (auto simp: failed_outcome_def rejected_outcome_def settled_outcome_def dest!: row)
qed

theorem settle_ledger_append_witness:
  "\<exists>r db'. settle (\<lambda>n. None) (\<lambda>k. 7) demo_payment ''h'' ''b'' 1 demo_db = (r, db') \<and>
     transactions (cur db') = (case r of Inl e \<Rightarrow> [] | Inr tx \<Rightarrow> [bind_transaction tx])"
proof -
  obtain r db' where r: "settle (\<lambda>n. None) (\<lambda>k. 7) demo_payment ''h'' ''b'' 1 demo_db = (r, db')"
    by fastforce
  then have "saved db' = None"
    using healthy_settle(3) [of "\<lambda>n. None" demo_db "\<lambda>k. 7" demo_payment "''h''" "''b''" 1] by simp
  from settle_ledger_append [OF r _ this] healthy_keeps [OF healthy_none] r show ?thesis by (simp add: seeded_tables_def)
qed

text \<open>The errors a round can end with are never the one after the loop.\<close>

definition loop_end :: exn where
  "loop_end = Runtime_error ''Settlement failed unexpectedly''"

lemma execute_not_loop_end: "execute E s d = (Some e, d') \<Longrightarrow> e \<noteq> loop_end"
  by (auto simp: loop_end_def execute_def split: option.splits prod.splits sum.splits)

lemma transaction_save_not_loop_end: "transaction_save E tx d = (Inl e, d') \<Longrightarrow> e \<noteq> loop_end"
  by (auto simp: loop_end_def transaction_save_def split: option.splits prod.splits sum.splits)

lemma settle_try_not_loop_end:
  "settle_try E now p h bridge hops s c d = (Inl e, d') \<Longrightarrow> e \<noteq> loop_end"
  by (auto simp: settle_try_def Let_def dest: execute_not_loop_end transaction_save_not_loop_end
      split: option.splits prod.splits sum.splits)

lemma settle_locked_not_loop_end:
  assumes "settle_locked E now p h bridge hops s c d = (a, d')"
  shows "a \<noteq> Return (Inl loop_end)" "a \<noteq> Retry loop_end"
  using assms
  by (auto simp: settle_locked_def dest: execute_not_loop_end settle_try_not_loop_end
      split: option.splits prod.splits sum.splits)

lemma chk_not_loop_end: "add_i64 x y \<noteq> Inl loop_end" "sub_i64 x y \<noteq> Inl loop_end"
  by (simp_all add: add_i64_def sub_i64_def chk_i64_def loop_end_def)

lemma settle_attempt_not_loop_end:
  assumes "settle_attempt E now p h bridge hops d = (a, d')"
  shows "a \<noteq> Return (Inl loop_end)" "a \<noteq> Retry loop_end"
proof -
  have inv: "Invalid_argument m \<noteq> loop_end" for m by (simp add: loop_end_def)
  show "a \<noteq> Return (Inl loop_end)"
    using assms inv chk_not_loop_end
    by (auto simp: settle_attempt_def recordRejected_def
        dest: transaction_save_not_loop_end settle_locked_not_loop_end
        split: option.splits prod.splits sum.splits if_splits)
  show "a \<noteq> Retry loop_end"
    using assms
    by (auto simp: settle_attempt_def recordRejected_def dest: settle_locked_not_loop_end
        split: option.splits prod.splits sum.splits if_splits)
qed

lemma settle_from_not_loop_end:
  "k \<le> maxAttempts \<Longrightarrow> fst (settle_from E clk p h bridge hops k db) \<noteq> Inl loop_end"
proof (induction E clk p h bridge hops k db rule: settle_from.induct)
  case (1 E clk p h bridge hops k db)
  obtain a d1 where a: "settle_attempt E (clk k) p h bridge hops db = (a, d1)" by fastforce
  note unf = settle_from.simps [of E clk p h bridge hops k db]
  from "1.prems" have k: "\<not> maxAttempts < k" by simp
  show ?case
  proof (cases a)
    case (Return r)
    with a unf k settle_attempt_not_loop_end [OF a] show ?thesis by simp
  next
    case (Retry e)
    with "1.IH" [OF k a [symmetric] Retry] "1.prems" a unf k settle_attempt_not_loop_end [OF a]
    show ?thesis by auto
  qed
qed

text \<open>The \<open>throw\<close> after the retry loop is dead code: the loop runs at most three rounds and
  its last round returns or rethrows, so no call ends with that error, whatever the engine does.\<close>

theorem settle_never_falls_through:
  "fst (settle E clk p h bridge hops db) \<noteq> Inl (Runtime_error ''Settlement failed unexpectedly'')"
  using settle_from_not_loop_end [of 1 E clk p h bridge hops db]
  by (simp add: settle_def maxAttempts_def loop_end_def)

text \<open>C19. A payment from an account to itself that is settled creates money, no call failing: \<open>sender\<close> and
  \<open>receiver\<close> are two copies of one row, the second write wins, and the total of all balances
  grows by the amount. Nothing in \<open>settle\<close> or its callers checks that the two differ.\<close>

theorem settle_self_transfer_creates_money:
  assumes "healthy E" "saved db = None" "accounts_ok (cur db)"
    and "c_str (pi_senderVpa p) = c_str (pi_receiverVpa p)"
    and "settle E clk p h bridge hops db = (Inr tx, db')" "tx_status tx = SETTLED"
  shows "total_balance (cur db') = total_balance (cur db) + pi_amount p"
proof -
  have "settle_spec p h bridge hops (clk 1) (cur db) = (Inr tx, cur db')"
    using healthy_settle [OF assms(1-3), of clk p h bridge hops] assms(5) by (simp add: prod_eq_iff)
  from settle_spec_self_total [OF assms(3,4) this assms(6)] show ?thesis .
qed

definition self_payment :: payment where
  "self_payment = demo_payment\<lparr>pi_receiverVpa := ''alice@demo'', pi_amount := 500000\<rparr>"

lemma self_payment_settles:
  "\<exists>tx db'. settle (\<lambda>n. None) (\<lambda>k. 7) self_payment ''h'' ''b'' 1 demo_db = (Inr tx, db') \<and>
     tx_status tx = SETTLED"
proof -
  have "\<exists>tx. fst (settle_spec self_payment ''h'' ''b'' 1 7 seeded_tables) = Inr tx \<and> tx_status tx = SETTLED"
    by (simp add: settle_spec_def spec_record_def self_payment_def demo_payment_def c_str_def
        in_i64_def i64_min_def i64_max_def sql_insert_transaction_def settlement_tx_def)
  with healthy_settle [of "\<lambda>n. None" demo_db "\<lambda>k. 7" self_payment "''h''" "''b''" 1]
  show ?thesis by (metis demo_db_simps(1,2) healthy_none seeded_accounts_ok prod.collapse)
qed

theorem settle_self_transfer_creates_money_witness:
  "\<exists>tx db'. settle (\<lambda>n. None) (\<lambda>k. 7) self_payment ''h'' ''b'' 1 demo_db = (Inr tx, db') \<and>
     total_balance (cur db') = 1400000"
proof -
  obtain tx db' where r: "settle (\<lambda>n. None) (\<lambda>k. 7) self_payment ''h'' ''b'' 1 demo_db = (Inr tx, db')"
    "tx_status tx = SETTLED" using self_payment_settles by blast
  from settle_self_transfer_creates_money [OF _ _ _ _ r] r(1) show ?thesis
    by (force simp: self_payment_def demo_payment_def seeded_total)
qed

text \<open>C20. \<open>AccountRepository::save\<close> drops the result of its statement, so a debit the engine
  refuses goes unnoticed: the credit and the SETTLED row are still committed, and the total of
  all balances grows by the amount. The engine here fails exactly one call, the \<open>step\<close> of the
  sender's update, and works before and after.\<close>

theorem settle_commits_over_failed_debit:
  assumes "saved db = None" "accounts_ok (cur db)"
    and "E = (\<lambda>n. if n = calls db + 6 then Some (Fault msg False) else None)"
    and "sql_select_account (c_str (pi_senderVpa p)) (cur db) = Some s"
    and "sql_select_account (c_str (pi_receiverVpa p)) (cur db) = Some c"
    and "0 < pi_amount p" "pi_amount p \<le> balance s" "in_i64 (balance c + pi_amount p)"
    and "c_str h \<notin> row_packetHash ` set (transactions (cur db))" "seq (cur db) < i64_max"
  shows "\<exists>tx db'. settle E clk p h bridge hops db = (Inr tx, db') \<and> tx_status tx = SETTLED \<and>
      saved db' = None \<and> total_balance (cur db') = total_balance (cur db) + pi_amount p"
proof -
  let ?t = "sql_upsert_account (credit p c) (cur db)"
  have bal: "in_i64 (balance s - pi_amount p)"
    using selected_vpa [OF assms(2,4)] assms(6,7) by (auto simp: in_i64_def i64_min_def)
  obtain t' where ins: "sql_insert_transaction (bind_transaction (settlement_tx p h bridge hops (clk 1) SETTLED)) ?t
      = Inr (seq (cur db) + 1, t')"
    using assms(9,10) by (auto simp: sql_insert_transaction_def bind_transaction_def settlement_tx_def)
  have "total_balance ?t = total_balance (cur db) + pi_amount p"
    using acc.total_upsert [OF assms(2), of "credit p c" c] selected_vpa [OF assms(2,5)] assms(5) by simp
  then have "total_balance t' = total_balance (cur db) + pi_amount p"
    using total_balance_insert [OF ins] by simp
  then show ?thesis
    using assms(1,4-8) bal ins [unfolded credit_def] unfolding assms(3)
    by (simp add: settle_def settle_from.simps maxAttempts_def settle_attempt_def findById_def
        engine_call_def settle_locked_def execute_def settle_try_def account_save_def
        transaction_save_def settlement_tx_def)
qed

theorem settle_commits_over_failed_debit_witness:
  "\<exists>tx db'. settle (\<lambda>n. if n = 9 then Some (Fault ''database is locked'' False) else None) (\<lambda>k. 7) demo_payment ''h'' ''b'' 1 demo_db
       = (Inr tx, db') \<and> tx_status tx = SETTLED \<and> saved db' = None \<and>
     total_balance (cur db') = 925000"
  using settle_commits_over_failed_debit [of demo_db _ "''database is locked''" demo_payment
      "\<lparr>vpa = ''alice@demo'', holderName = ''Alice'', balance = 500000, version = 0\<rparr>"
      "\<lparr>vpa = ''bob@demo'', holderName = ''Bob'', balance = 100000, version = 0\<rparr>"
      "''h''" "\<lambda>k. 7" "''b''" 1]
  by (simp add: demo_payment_def c_str_def in_i64_def i64_min_def i64_max_def seeded_total)

text \<open>C21. An automatic rollback is not noticed: when the update of the sender fails in a way that
  makes SQLite roll back the open transaction, the code goes on without one. The credit and the
  SETTLED row are stored on their own, \<open>COMMIT\<close> and \<open>ROLLBACK\<close> then fail for lack of a transaction,
  and \<open>settle\<close> throws: the caller is told of an error, yet the receiver has the money, nobody has
  paid it, and the hash is on the books. The engine fails exactly that one call.\<close>

theorem settle_automatic_rollback_pays:
  assumes "saved db = None" "accounts_ok (cur db)"
    and "E = (\<lambda>n. if n = calls db + 6 then Some (Fault msg True) else None)"
    and "sql_select_account (c_str (pi_senderVpa p)) (cur db) = Some s"
    and "sql_select_account (c_str (pi_receiverVpa p)) (cur db) = Some c"
    and "0 < pi_amount p" "pi_amount p \<le> balance s" "in_i64 (balance c + pi_amount p)"
    and "c_str h \<notin> row_packetHash ` set (transactions (cur db))" "seq (cur db) < i64_max"
  shows "\<exists>e db' row. settle E clk p h bridge hops db = (Inl e, db') \<and> saved db' = None \<and>
      total_balance (cur db') = total_balance (cur db) + pi_amount p \<and>
      (\<forall>v. v \<noteq> c_str (pi_receiverVpa p) \<longrightarrow>
         sql_select_account v (cur db') = sql_select_account v (cur db)) \<and>
      transactions (cur db') = transactions (cur db) @ [row] \<and>
      row_packetHash row = c_str h \<and> row_status row = ''SETTLED''"
proof -
  let ?t = "sql_upsert_account (credit p c) (cur db)"
  let ?row = "bind_transaction (settlement_tx p h bridge hops (clk 1) SETTLED)"
  define t' where "t' = ?t\<lparr>transactions := transactions ?t @ [?row\<lparr>row_id := seq ?t + 1\<rparr>], seq := seq ?t + 1\<rparr>"
  have c: "vpa c = c_str (pi_receiverVpa p)" "c_str (vpa c) = vpa c"
    using selected_vpa [OF assms(2,5)] by auto
  have bal: "in_i64 (balance s - pi_amount p)"
    using selected_vpa [OF assms(2,4)] assms(6,7) by (auto simp: in_i64_def i64_min_def)
  have ins: "sql_insert_transaction ?row ?t = Inr (seq (cur db) + 1, t')"
    using assms(9,10) by (auto simp: sql_insert_Inr t'_def bind_transaction_def settlement_tx_def)
  have "total_balance ?t = total_balance (cur db) + pi_amount p"
    using acc.total_upsert [OF assms(2), of "credit p c" c] selected_vpa [OF assms(2,5)] assms(5) by simp
  then have total: "total_balance t' = total_balance (cur db) + pi_amount p"
    using total_balance_insert [OF ins] by simp
  have others: "sql_select_account v t' = sql_select_account v (cur db)" if "v \<noteq> c_str (pi_receiverVpa p)" for v
  proof -
    have "sql_select_account v t' = sql_select_account v ?t" by (simp add: t'_def sql_select_account_def)
    with that c show ?thesis by (simp add: acc.select_upsert)
  qed
  obtain e db' where run: "settle E clk p h bridge hops db = (Inl e, db')" "saved db' = None" "cur db' = t'"
    using assms(1,4-8) bal ins [unfolded credit_def] unfolding assms(3)
    by (simp add: settle_def settle_from.simps maxAttempts_def settle_attempt_def findById_def
        engine_call_def rolled_back_def Let_def settle_locked_def execute_def settle_try_def account_save_def
        transaction_save_def)
  have "transactions t' = transactions (cur db) @ [?row\<lparr>row_id := seq (cur db) + 1\<rparr>]"
    "row_packetHash (?row\<lparr>row_id := seq (cur db) + 1\<rparr>) = c_str h"
    "row_status (?row\<lparr>row_id := seq (cur db) + 1\<rparr>) = ''SETTLED''"
    by (simp_all add: t'_def bind_transaction_def settlement_tx_def c_str_def)
  with run total others show ?thesis by blast
qed

theorem settle_automatic_rollback_pays_witness:
  "\<exists>e db'. settle (\<lambda>n. if n = 9 then Some (Fault ''disk I/O error'' True) else None) (\<lambda>k. 7) demo_payment
       ''h'' ''b'' 1 demo_db = (Inl e, db') \<and> saved db' = None \<and> total_balance (cur db') = 925000"
proof -
  have "\<exists>e db' row. settle (\<lambda>n. if n = calls demo_db + 6 then Some (Fault ''disk I/O error'' True) else None) (\<lambda>k. 7)
      demo_payment ''h'' ''b'' 1 demo_db = (Inl e, db') \<and> saved db' = None \<and>
    total_balance (cur db') = total_balance (cur demo_db) + pi_amount demo_payment \<and>
    (\<forall>v. v \<noteq> c_str (pi_receiverVpa demo_payment) \<longrightarrow>
       sql_select_account v (cur db') = sql_select_account v (cur demo_db)) \<and>
    transactions (cur db') = transactions (cur demo_db) @ [row] \<and>
    row_packetHash row = c_str ''h'' \<and> row_status row = ''SETTLED''"
    by (rule settle_automatic_rollback_pays [OF _ _ refl,
        of _ _ "\<lparr>vpa = ''alice@demo'', holderName = ''Alice'', balance = 500000, version = 0\<rparr>"
        "\<lparr>vpa = ''bob@demo'', holderName = ''Bob'', balance = 100000, version = 0\<rparr>"])
      (simp_all add: demo_payment_def c_str_def in_i64_def i64_min_def i64_max_def)
  then show ?thesis by (auto simp: demo_payment_def seeded_total)
qed

end
