(* ===== verification/Idempotency.thy ===== *)
theory Idempotency
  imports Interfaces
begin

text \<open>
  \<open>src/cpp/service/IdempotencyService.{h,cpp}\<close>: the map from packet hashes to the time of
  their first claim, and the evictor thread. Every operation runs under the service's mutex,
  so it is one step on the map. The hash table's order never matters here; the map is an
  association list with distinct keys.
\<close>

section \<open>The service\<close>

type_synonym seen = "(string \<times> int) list"

definition ttlSeconds :: int where "ttlSeconds = 86400"

text \<open>\<open>insert\<close> adds the pair unless the key is there, and says whether it did.\<close>

definition claim :: "int \<Rightarrow> string \<Rightarrow> seen \<Rightarrow> bool \<times> seen" where
  "claim now h seen =
     (case map_of seen h of None \<Rightarrow> (True, (h, now) # seen) | Some t \<Rightarrow> (False, seen))"

definition seen_size :: "seen \<Rightarrow> nat" where
  "seen_size seen = length seen"

definition seen_clear :: "seen \<Rightarrow> seen" where
  "seen_clear seen = []"

text \<open>The erasing loop of one eviction pass at time \<open>now\<close>.\<close>

fun evict_before :: "int \<Rightarrow> seen \<Rightarrow> seen" where
  "evict_before cutoff [] = []"
| "evict_before cutoff ((h, t) # rest) =
     (if t < cutoff then evict_before cutoff rest else (h, t) # evict_before cutoff rest)"

definition evict_pass :: "int \<Rightarrow> seen \<Rightarrow> seen" where
  "evict_pass now seen = evict_before (now - ttlSeconds * 1000) seen"

text \<open>
  The evictor thread: each event is what one \<open>wait_for\<close> reports, either that a stop was
  requested (the loop ends) or that 60 seconds went by, with the clock read after it.
\<close>

datatype wakeup = Stop_requested | Timed_out int

fun evictExpired :: "wakeup list \<Rightarrow> seen \<Rightarrow> seen" where
  "evictExpired [] seen = seen"
| "evictExpired (Stop_requested # ws) seen = seen"
| "evictExpired (Timed_out now # ws) seen = evictExpired ws (evict_pass now seen)"

section \<open>Facts\<close>

definition seen_ok :: "seen \<Rightarrow> bool" where
  "seen_ok seen \<longleftrightarrow> distinct (map fst seen)"

definition claimed :: "string \<Rightarrow> seen \<Rightarrow> bool" where
  "claimed h seen \<longleftrightarrow> map_of seen h \<noteq> None"

lemma evict_before_filter: "evict_before c seen = filter (\<lambda>(h, t). c \<le> t) seen"
  by (induction c seen rule: evict_before.induct) auto

lemma seen_ok_claim: "seen_ok seen \<Longrightarrow> seen_ok (snd (claim now h seen))"
  by (auto simp: seen_ok_def claim_def map_of_eq_None_iff split: option.splits)

lemma seen_ok_evict: "seen_ok seen \<Longrightarrow> seen_ok (evict_before c seen)"
  by (induction c seen rule: evict_before.induct)
    (auto simp: seen_ok_def evict_before_filter)

lemma seen_ok_evictExpired: "seen_ok seen \<Longrightarrow> seen_ok (evictExpired ws seen)"
  by (induction ws seen rule: evictExpired.induct) (auto simp: evict_pass_def seen_ok_evict)

lemma map_of_evict:
  assumes "seen_ok seen"
  shows "map_of (evict_before c seen) h =
    (case map_of seen h of None \<Rightarrow> None | Some t \<Rightarrow> if t < c then None else Some t)"
  using assms
proof (induction c seen rule: evict_before.induct)
  case (1 c)
  then show ?case by simp
next
  case (2 c h' t rest)
  then have IH: "map_of (evict_before c rest) h =
      (case map_of rest h of None \<Rightarrow> None | Some t \<Rightarrow> if t < c then None else Some t)"
    by (cases "t < c") (simp_all add: seen_ok_def)
  have "h = h' \<Longrightarrow> map_of rest h = None"
    using 2 by (simp add: seen_ok_def map_of_eq_None_iff)
  with IH show ?case by (cases "h = h'") auto
qed

interpretation gate: once_gate claim claimed
  by unfold_locales (auto simp: claim_def claimed_def split: option.splits)

section \<open>Properties\<close>

text \<open>C14. However many threads claim whatever hashes, in whatever order the mutex admits them: among
  the claims for one hash that was free before, exactly one returns true.\<close>

theorem claim_exactly_once:
  assumes "map_of seen h = None" "h \<in> snd ` set cs"
  shows "length (filter (\<lambda>(b, c). b \<and> snd c = h) (zip (fst (claim_all claim cs seen)) cs)) = 1"
  using gate.claims_once [of h seen cs] assms by (simp add: claimed_def)

theorem claim_exactly_once_witness:
  "length (filter (\<lambda>(b, c). b \<and> snd c = ''h'')
     (zip (fst (claim_all claim [(1, ''h''), (2, ''k''), (3, ''h'')] [])) [(1::int, ''h''), (2, ''k''), (3, ''h'')])) = 1"
  using claim_exactly_once [of "[]" "''h''" "[(1, ''h''), (2, ''k''), (3, ''h'')]"] by simp

text \<open>Eviction is exact: after a pass at time \<open>now\<close> a hash is still held if and only if it was
  claimed no more than 24 hours (86,400,000 ms) before \<open>now\<close>, with its claim time unchanged.\<close>

theorem evict_pass_exact:
  assumes "seen_ok seen"
  shows "map_of (evict_pass now seen) h =
    (case map_of seen h of None \<Rightarrow> None
     | Some t \<Rightarrow> if now - t \<le> 86400000 then Some t else None)"
  using map_of_evict [OF assms, of "now - ttlSeconds * 1000" h]
  by (auto simp: evict_pass_def ttlSeconds_def split: option.splits)

theorem evict_pass_exact_witness:
  "map_of (evict_pass 86400007 [(''a'', 6), (''b'', 7)]) ''b'' = Some 7 \<and>
   map_of (evict_pass 86400007 [(''a'', 6), (''b'', 7)]) ''a'' = None"
proof -
  have "seen_ok [(''a'', 6), (''b'', 7)]" by (simp add: seen_ok_def)
  from evict_pass_exact [OF this, of 86400007 "''b''"] evict_pass_exact [OF this, of 86400007 "''a''"]
  show ?thesis by simp
qed

lemma claimed_survives:
  assumes "seen_ok seen" "map_of seen h = Some t"
    and "\<forall>now. Timed_out now \<in> set ws \<longrightarrow> now - t \<le> 86400000"
  shows "map_of (evictExpired ws seen) h = Some t"
  using assms
proof (induction ws seen rule: evictExpired.induct)
  case (3 now ws seen)
  have "map_of (evict_pass now seen) h = Some t"
    using map_of_evict [OF "3.prems"(1), of "now - ttlSeconds * 1000" h] "3.prems"(2,3)
    by (auto simp: evict_pass_def ttlSeconds_def)
  moreover have "seen_ok (evict_pass now seen)"
    using "3.prems"(1) by (simp add: evict_pass_def seen_ok_evict)
  ultimately show ?case using 3 by simp
qed auto

text \<open>A claim stays effective for as long as its time to live: whatever the evictor does until
  24 hours after the claim, and whatever else is claimed before, a second claim of the same
  hash returns false.\<close>

theorem claim_effective_for_ttl:
  assumes "seen_ok seen" "fst (claim t h seen)"
    and "\<forall>now. Timed_out now \<in> set ws \<longrightarrow> now - t \<le> 86400000"
  shows "\<not> fst (claim t' h (evictExpired ws (snd (claim t h seen))))"
proof -
  have "map_of (snd (claim t h seen)) h = Some t"
    using assms(2) by (auto simp: claim_def split: option.splits)
  from claimed_survives [OF seen_ok_claim [OF assms(1)] this assms(3)]
  show ?thesis by (simp add: claim_def)
qed

theorem claim_effective_for_ttl_witness:
  "\<not> fst (claim 90000 ''h'' (evictExpired [Timed_out 60000, Timed_out 86400000] (snd (claim 0 ''h'' []))))"
  by (rule claim_effective_for_ttl) (auto simp: seen_ok_def claim_def)

end
