(* ===== verification/Double.thy ===== *)
theory Double
  imports Prelude "HOL-Library.Word"
begin

text \<open>
  The C++ \<open>double\<close> of the sources: IEEE 754 binary64 with rounding to nearest, ties to even,
  as every platform the build targets has it. A value is its 64-bit pattern: sign bit, 11
  exponent bits, 52 fraction bits. The lower 63 bits, read as a number, are its magnitude.

  Everything is done on integers. A finite double times \<open>one_scaled = 2 ^ 1074\<close> is an integer, \<open>scaled\<close>;
  \<open>round_mag n d\<close> is the magnitude of the double nearest to the fraction \<open>n / d\<close>.
\<close>

section \<open>Patterns\<close>

type_synonym double = "64 word"

definition sign_of :: "double \<Rightarrow> bool" where
  "sign_of x \<longleftrightarrow> 2 ^ 63 \<le> unat x"

definition mag_of :: "double \<Rightarrow> nat" where
  "mag_of x = unat x mod 2 ^ 63"

definition mk_double :: "bool \<Rightarrow> nat \<Rightarrow> double" where
  "mk_double s m = word_of_nat (if s then 2 ^ 63 + m else m)"

abbreviation (input) inf_mag :: nat where "inf_mag \<equiv> 2047 * 2 ^ 52"

definition is_finite :: "double \<Rightarrow> bool" where
  "is_finite x \<longleftrightarrow> mag_of x < inf_mag"

definition is_nan :: "double \<Rightarrow> bool" where
  "is_nan x \<longleftrightarrow> inf_mag < mag_of x"

definition the_nan :: double where "the_nan = mk_double False (inf_mag + 2 ^ 51)"

text \<open>A finite magnitude times \<open>2 ^ 1074\<close>.\<close>

definition one_scaled :: nat where "one_scaled = 2 ^ 1074"

definition scaled :: "nat \<Rightarrow> nat" where
  "scaled m = (if m div 2 ^ 52 = 0 then m mod 2 ^ 52
               else (m mod 2 ^ 52 + 2 ^ 52) * 2 ^ (m div 2 ^ 52 - 1))"

section \<open>Rounding\<close>

text \<open>The integer nearest to \<open>a / b\<close>, the even one of two.\<close>

definition rne :: "nat \<Rightarrow> nat \<Rightarrow> nat" where
  "rne a b = (let q = a div b; r = a mod b
              in if 2 * r < b \<or> (2 * r = b \<and> even q) then q else q + 1)"

fun nbits :: "nat \<Rightarrow> nat" where
  "nbits n = (if n = 0 then 0 else Suc (nbits (n div 2)))"

declare nbits.simps [simp del]

definition round_mag :: "nat \<Rightarrow> nat \<Rightarrow> nat" where
  "round_mag n d =
     (let N = n * one_scaled;
          s = nbits (N div d) - 53
      in min inf_mag (s * 2 ^ 52 + rne N (d * 2 ^ s)))"

section \<open>The operations the sources use\<close>

text \<open>\<open>static_cast<double>(x)\<close> of an integer.\<close>

definition double_of_int :: "int \<Rightarrow> double" where
  "double_of_int x = mk_double (x < 0) (round_mag (nat \<bar>x\<bar>) 1)"

text \<open>Quotient and product, with the rules for zeros, infinities and NaNs.\<close>

definition double_div :: "double \<Rightarrow> double \<Rightarrow> double" where
  "double_div x y =
     (let s = (sign_of x \<noteq> sign_of y); a = mag_of x; b = mag_of y
      in if is_nan x \<or> is_nan y then the_nan
         else if a = inf_mag then (if b = inf_mag then the_nan else mk_double s inf_mag)
         else if b = inf_mag then mk_double s 0
         else if b = 0 then (if a = 0 then the_nan else mk_double s inf_mag)
         else mk_double s (round_mag (scaled a) (scaled b)))"

definition double_mul :: "double \<Rightarrow> double \<Rightarrow> double" where
  "double_mul x y =
     (let s = (sign_of x \<noteq> sign_of y); a = mag_of x; b = mag_of y
      in if is_nan x \<or> is_nan y then the_nan
         else if a = inf_mag \<or> b = inf_mag
         then (if a = 0 \<or> b = 0 then the_nan else mk_double s inf_mag)
         else mk_double s (round_mag (scaled a * scaled b) (one_scaled * one_scaled)))"

text \<open>\<open>std::round\<close>: halves away from zero, the sign kept, infinities and NaNs as they are.\<close>

definition round_half_away :: "nat \<Rightarrow> nat" where
  "round_half_away m = (scaled m + one_scaled div 2) div one_scaled"

definition double_round :: "double \<Rightarrow> double" where
  "double_round x =
     (if is_finite x then mk_double (sign_of x) (round_mag (round_half_away (mag_of x)) 1) else x)"

text \<open>
  \<open>static_cast<int64_t>(x)\<close> drops the fraction; a value that does not fit, an infinity and a
  NaN are undefined behaviour.
\<close>

definition double_to_i64 :: "double \<Rightarrow> int res" where
  "double_to_i64 x =
     (let t = int (scaled (mag_of x) div one_scaled); v = (if sign_of x then - t else t)
      in if is_finite x \<and> in_i64 v then Inr v
         else Inl (Undefined ''float to int64 conversion out of range''))"

section \<open>Facts on rounding\<close>

lemma nbits_bounds: "n < 2 ^ nbits n" "0 < n \<Longrightarrow> 2 ^ (nbits n - 1) \<le> n"
proof (induction n rule: nbits.induct)
  case (1 n)
  {
    case 1
    show ?case
    proof (cases "n = 0")
      case True
      then show ?thesis by (simp add: nbits.simps)
    next
      case False
      with "1.IH" have "n div 2 < 2 ^ nbits (n div 2)" by simp
      with False show ?thesis by (simp add: nbits.simps [of n])
    qed
  next
    case 2
    show ?case
    proof (cases "n div 2 = 0")
      case True
      with 2 show ?thesis by (simp add: nbits.simps)
    next
      case False
      with 2 "1.IH"(2) have "2 ^ (nbits (n div 2) - 1) \<le> n div 2" by simp
      moreover have "nbits n - 1 = Suc (nbits (n div 2) - 1)"
        using 2 False by (simp add: nbits.simps [of n] nbits.simps [of "n div 2"])
      ultimately show ?thesis by simp
    qed
  }
qed

lemma nbits_le:
  assumes "n < 2 ^ k"
  shows "nbits n \<le> k"
proof (cases "n = 0")
  case True
  then show ?thesis by (simp add: nbits.simps)
next
  case False
  then have "2 ^ (nbits n - 1) < (2::nat) ^ k" using nbits_bounds(2) [of n] assms by linarith
  then have "nbits n - 1 < k" by (rule power_less_imp_less_exp [rotated]) simp
  then show ?thesis by simp
qed

lemma nbits_numeral [simp]:
  "nbits 0 = 0" "nbits (Suc 0) = 1"
  "nbits (numeral Num.One) = 1"
  "nbits (numeral (Num.Bit0 k)) = nbits (numeral k) + 1"
  "nbits (numeral (Num.Bit1 k)) = nbits (numeral k) + 1"
  by (simp_all add: nbits.simps [of 0] nbits.simps [of "Suc 0"]
      nbits.simps [of "numeral (Num.Bit0 k)"] nbits.simps [of "numeral (Num.Bit1 k)"])

lemma rne_exact: "0 < b \<Longrightarrow> rne (q * b) b = q"
  by (simp add: rne_def)

lemma rne_error:
  assumes "0 < b"
  shows "2 * \<bar>int (rne a b) * int b - int a\<bar> \<le> int b"
proof -
  have a: "int a = int (a div b) * int b + int (a mod b)"
    by (metis div_mult_mod_eq of_nat_add of_nat_mult)
  have "int (a mod b) < int b" using assms by simp
  then show ?thesis
    using a by (auto simp: rne_def Let_def algebra_simps)
qed

lemma rne_mono_bounds:
  assumes "0 < b"
  shows "p * b \<le> a \<Longrightarrow> p \<le> rne a b" "a \<le> p * b \<Longrightarrow> rne a b \<le> p"
proof -
  assume "p * b \<le> a"
  then have "p \<le> a div b" using assms by (simp add: less_eq_div_iff_mult_less_eq)
  then show "p \<le> rne a b" by (simp add: rne_def Let_def)
next
  assume le: "a \<le> p * b"
  show "rne a b \<le> p"
  proof (cases "a = p * b")
    case True
    with assms show ?thesis by (simp add: rne_exact)
  next
    case False
    with le have "a div b < p" using assms by (simp add: div_less_iff_less_mult)
    then show ?thesis by (simp add: rne_def Let_def)
  qed
qed

text \<open>The encoding is a carry-free sum even when rounding reaches the next power of two.\<close>

lemma div_mod_step:
  fixes b :: nat
  assumes "g < b"
  shows "(e * b + g) div b = e" "(e * b + g) mod b = g"
  using assms by simp_all

lemma scaled_normal:
  assumes "g < 2 ^ 52"
  shows "scaled (Suc e * 2 ^ 52 + g) = (g + 2 ^ 52) * 2 ^ e"
  unfolding scaled_def div_mod_step [OF assms] by simp

lemma scaled_small: "m < 2 ^ 52 \<Longrightarrow> scaled m = m"
  by (simp add: scaled_def)

lemma scaled_encode:
  assumes "f \<le> 2 ^ 53" "s = 0 \<or> 2 ^ 52 \<le> f"
  shows "scaled (s * 2 ^ 52 + f) = f * 2 ^ s"
proof -
  consider "f < 2 ^ 52" "s = 0" | g where "f = 2 ^ 52 + g" "g < 2 ^ 52" | "f = 2 ^ 53"
  proof -
    assume *: "f < 2 ^ 52 \<Longrightarrow> s = 0 \<Longrightarrow> thesis"
      "\<And>g. f = 2 ^ 52 + g \<Longrightarrow> g < 2 ^ 52 \<Longrightarrow> thesis" "f = 2 ^ 53 \<Longrightarrow> thesis"
    show thesis
    proof (cases "f < 2 ^ 52 \<or> f = 2 ^ 53")
      case True
      with * assms show ?thesis by auto
    next
      case False
      with assms(1) have "f = 2 ^ 52 + (f - 2 ^ 52)" by simp
      moreover have "f - 2 ^ 52 < 2 ^ 52" using False assms(1) by (auto simp: less_diff_conv2)
      ultimately show ?thesis by (rule *(2))
    qed
  qed
  then show ?thesis
  proof cases
    case 1
    then show ?thesis by (simp add: scaled_small)
  next
    case 2
    then have "s * 2 ^ 52 + f = Suc s * 2 ^ 52 + g" by simp
    with scaled_normal [OF 2(2), of s] 2 show ?thesis by (simp only: add.commute)
  next
    case 3
    then have "s * 2 ^ 52 + f = Suc (Suc s) * 2 ^ 52 + 0" by simp
    with scaled_normal [of 0 "Suc s"] 3 show ?thesis by (simp only: add_0) simp
  qed
qed

text \<open>
  The rounding shift and significand: below \<open>2 ^ 1024\<close> the result is a finite magnitude whose
  scaled value is \<open>f * 2 ^ s\<close> with an error of at most half a unit.
\<close>

lemma round_mag_spec:
  assumes "0 < d" "n < d * 2 ^ 1023"
  obtains s f where "round_mag n d = s * 2 ^ 52 + f" "round_mag n d < inf_mag"
    "scaled (round_mag n d) = f * 2 ^ s" "f \<le> 2 ^ 53" "s = 0 \<or> 2 ^ 52 \<le> f"
    "s = 0 \<or> d * 2 ^ s * 2 ^ 52 \<le> n * one_scaled"
    "2 * \<bar>int f * (int d * 2 ^ s) - int n * int one_scaled\<bar> \<le> int d * 2 ^ s"
proof -
  define N where "N = n * one_scaled"
  define k where "k = nbits (N div d)"
  define s where "s = k - 53"
  define f where "f = rne N (d * 2 ^ s)"
  have b: "0 < d * 2 ^ s" using assms by simp
  have lt: "N div d < 2 ^ k" unfolding k_def by (rule nbits_bounds)
  then have "N div d < 2 ^ (s + 53)"
    by (rule less_le_trans) (simp add: s_def)
  then have "N < 2 ^ (s + 53) * d" using assms(1) by (simp add: div_less_iff_less_mult)
  then have "N \<le> 2 ^ 53 * (d * 2 ^ s)" by (simp add: power_add mult_ac)
  then have f53: "f \<le> 2 ^ 53" unfolding f_def by (rule rne_mono_bounds(2) [OF b])
  have low: "s = 0 \<or> 2 ^ 52 * (d * 2 ^ s) \<le> N"
  proof (cases "s = 0")
    case False
    then have "0 < N div d" "k - 1 = s + 52" using nbits_bounds(2) [of "N div d"]
      by (auto simp: s_def k_def nbits.simps [of 0] intro: gr0I)
    then have "2 ^ (s + 52) \<le> N div d" using nbits_bounds(2) [of "N div d"] by (simp add: k_def)
    then have "2 ^ (s + 52) * d \<le> N" using assms(1) by (simp add: less_eq_div_iff_mult_less_eq)
    then show ?thesis by (simp add: power_add mult_ac)
  qed simp
  then have f52: "s = 0 \<or> 2 ^ 52 \<le> f"
    unfolding f_def using rne_mono_bounds(1) [OF b] by blast
  have "N div d < 2 ^ 2097"
  proof -
    have "N < d * 2 ^ 1023 * one_scaled" using assms(2) by (simp add: N_def one_scaled_def)
    then have "N < 2 ^ 2097 * d" by (simp add: one_scaled_def)
    then show ?thesis using assms(1) by (simp add: div_less_iff_less_mult)
  qed
  then have "k \<le> 2097" unfolding k_def by (rule nbits_le)
  then have s: "s \<le> 2044" by (simp add: s_def)
  have "s * 2 ^ 52 + f < inf_mag"
  proof -
    have "s * 2 ^ 52 \<le> 2044 * 2 ^ 52" using s by simp
    with f53 show ?thesis by simp
  qed
  then have r: "round_mag n d = s * 2 ^ 52 + f"
    by (simp add: round_mag_def Let_def N_def k_def s_def f_def min_def)
  have "2 * \<bar>int f * int (d * 2 ^ s) - int N\<bar> \<le> int (d * 2 ^ s)"
    unfolding f_def by (rule rne_error [OF b])
  then have err: "2 * \<bar>int f * (int d * 2 ^ s) - int n * int one_scaled\<bar> \<le> int d * 2 ^ s"
    by (simp add: N_def)
  show thesis
  proof (rule that [of s f])
    show "scaled (round_mag n d) = f * 2 ^ s" unfolding r using f53 f52 by (rule scaled_encode)
    show "s = 0 \<or> d * 2 ^ s * 2 ^ 52 \<le> n * one_scaled" using low by (simp add: N_def mult_ac)
  qed (use r f53 f52 err \<open>s * 2 ^ 52 + f < inf_mag\<close> in auto)
qed

text \<open>Integers below \<open>2 ^ 53\<close> are represented exactly.\<close>

lemma abs_multiple_0:
  fixes k m :: int
  assumes "2 * \<bar>k * m\<bar> \<le> m" "0 < m"
  shows "k = 0"
proof (rule ccontr)
  assume "k \<noteq> 0"
  then have "1 \<le> \<bar>k\<bar>" by simp
  then have "1 * m \<le> \<bar>k\<bar> * m" using assms(2) by (intro mult_right_mono) simp_all
  with assms show False by (simp add: abs_mult)
qed

lemma round_mag_int_exact:
  assumes "n < 2 ^ 53"
  shows "scaled (round_mag n 1) = n * one_scaled" "round_mag n 1 < inf_mag"
proof -
  have "n < 1 * 2 ^ 1023" using assms by simp
  from round_mag_spec [OF zero_less_one this] obtain s f where
    fin: "round_mag n 1 < inf_mag" and f: "scaled (round_mag n 1) = f * 2 ^ s"
    and low: "s = 0 \<or> 1 * 2 ^ s * 2 ^ 52 \<le> n * one_scaled"
    and err: "2 * \<bar>int f * (int 1 * 2 ^ s) - int n * int one_scaled\<bar> \<le> int 1 * 2 ^ s"
    by blast
  show "round_mag n 1 < inf_mag" by (rule fin)
  have s: "s \<le> 1074"
  proof (cases "s = 0")
    case False
    with low have "2 ^ s * 2 ^ 52 \<le> n * one_scaled" by simp
    also have "\<dots> < 2 ^ 53 * one_scaled" using assms by (simp add: one_scaled_def)
    also have "\<dots> = 2 ^ 1075 * 2 ^ 52" by (simp add: one_scaled_def)
    finally have "(2::nat) ^ s < 2 ^ 1075" by simp
    then have "s < 1075" by (rule power_less_imp_less_exp [rotated]) simp
    then show ?thesis by simp
  qed simp
  then have one: "one_scaled = 2 ^ (1074 - s) * 2 ^ s"
    unfolding one_scaled_def by (metis le_add_diff_inverse2 power_add)
  have "int one_scaled = 2 ^ (1074 - s) * 2 ^ s" using arg_cong [OF one, of int]
    by simp
  then have "int f * (int 1 * 2 ^ s) - int n * int one_scaled =
      (int f - int n * 2 ^ (1074 - s)) * 2 ^ s" by (simp add: algebra_simps)
  with err have "int f - int n * 2 ^ (1074 - s) = 0"
    using abs_multiple_0 [of "int f - int n * 2 ^ (1074 - s)" "2 ^ s"] by simp
  then have "int f = int (n * 2 ^ (1074 - s))" by simp
  then have "f = n * 2 ^ (1074 - s)" unfolding of_nat_eq_iff .
  with f one show "scaled (round_mag n 1) = n * one_scaled" by simp
qed

lemma mk_double_parts [simp]:
  assumes "m < 2 ^ 63"
  shows "sign_of (mk_double s m) = s" "mag_of (mk_double s m) = m"
proof -
  have "unat (mk_double s m) = (if s then 2 ^ 63 + m else m)"
    using assms by (simp add: mk_double_def unsigned_of_nat take_bit_nat_eq_self)
  with assms show "sign_of (mk_double s m) = s" "mag_of (mk_double s m) = m"
    by (auto simp: sign_of_def mag_of_def)
qed

lemma half_unit:
  fixes e r x :: int
  assumes "r * 2 ^ 52 \<le> x" "2 * e \<le> r"
  shows "2 ^ 53 * e \<le> x"
  using assms by simp

text \<open>Relative error of one rounding: half a unit in the last of 53 bits.\<close>

lemma round_mag_relative:
  assumes "0 < d" "n < d * 2 ^ 1023" "d * 2 ^ 60 \<le> n * one_scaled \<or> n * one_scaled mod d = 0"
  shows "2 ^ 53 * \<bar>int (scaled (round_mag n d)) * int d - int n * int one_scaled\<bar> \<le> int n * int one_scaled"
    (is "2 ^ 53 * ?E \<le> ?N") and "round_mag n d < inf_mag"
proof -
  from round_mag_spec [OF assms(1,2)] obtain s f where
    fin: "round_mag n d < inf_mag" and f: "scaled (round_mag n d) = f * 2 ^ s" and f53: "f \<le> 2 ^ 53"
    and low: "s = 0 \<or> d * 2 ^ s * 2 ^ 52 \<le> n * one_scaled"
    and err: "2 * \<bar>int f * (int d * 2 ^ s) - int n * int one_scaled\<bar> \<le> int d * 2 ^ s"
    by blast
  show "round_mag n d < inf_mag" by (rule fin)
  have E: "?E = \<bar>int f * (int d * 2 ^ s) - int n * int one_scaled\<bar>"
    unfolding f by (simp add: mult_ac)
  show "2 ^ 53 * ?E \<le> ?N"
  proof (cases "s = 0")
    case False
    with low have "int (d * 2 ^ s * 2 ^ 52) \<le> int (n * one_scaled)" by (simp only: of_nat_le_iff simp_thms)
    then have "(int d * 2 ^ s) * 2 ^ 52 \<le> ?N" by simp
    moreover have "2 * ?E \<le> int d * 2 ^ s" using err E by simp
    ultimately show ?thesis by (rule half_unit)
  next
    case True
    with err E have e: "2 * ?E \<le> int d" by simp
    from assms(3) show ?thesis
    proof
      assume "n * one_scaled mod d = 0"
      then obtain k where k: "n * one_scaled = d * k" by auto
      then have "int n * int one_scaled = int d * int k" by (metis of_nat_mult)
      with E True have E': "?E = \<bar>(int f - int k) * int d\<bar>" by (simp add: algebra_simps)
      with e assms(1) have "int f - int k = 0" using abs_multiple_0 [of "int f - int k" "int d"] by simp
      with E' have "?E = 0" by simp
      then show ?thesis by simp
    next
      assume "d * 2 ^ 60 \<le> n * one_scaled"
      then have "int (d * 2 ^ 60) \<le> int (n * one_scaled)" by (simp only: of_nat_le_iff)
      then have "int d * 2 ^ 60 \<le> ?N" by simp
      then have "int d * 2 ^ 8 * 2 ^ 52 \<le> ?N" by simp
      moreover have "2 * ?E \<le> int d * 2 ^ 8" using e by simp
      ultimately show ?thesis by (rule half_unit)
    qed
  qed
qed

lemma cancel_unit:
  fixes x y k u :: int
  assumes "k * \<bar>x * u - y * u\<bar> \<le> y * u" "0 < u"
  shows "k * \<bar>x - y\<bar> \<le> y"
proof -
  have "\<bar>x * u - y * u\<bar> = \<bar>x - y\<bar> * u"
    using assms(2) by (simp flip: left_diff_distrib add: abs_mult)
  with assms have "(k * \<bar>x - y\<bar>) * u \<le> y * u" by (simp add: mult_ac)
  with assms(2) show ?thesis by (simp add: mult_le_cancel_right)
qed

lemma drop_factor: "2 ^ 53 * \<bar>x :: int\<bar> \<le> y \<Longrightarrow> \<bar>x\<bar> \<le> y"
  by (rule order_trans [of _ "2 ^ 53 * \<bar>x\<bar>"]) simp_all

section \<open>Paise and rupees\<close>

text \<open>
  The two conversions of the JSON boundary: \<open>static_cast<double>(x) / 100.0\<close> and
  \<open>static_cast<int64_t>(std::round(d * 100.0))\<close>.
\<close>

definition rupees_of_paise :: "int \<Rightarrow> double" where
  "rupees_of_paise a = double_div (double_of_int a) (double_of_int 100)"

definition paise_of_rupees :: "double \<Rightarrow> int res" where
  "paise_of_rupees d = double_to_i64 (double_round (double_mul d (double_of_int 100)))"

lemma finite_simps:
  "m < inf_mag \<Longrightarrow> sign_of (mk_double s m) = s"
  "m < inf_mag \<Longrightarrow> mag_of (mk_double s m) = m"
  "m < inf_mag \<Longrightarrow> is_nan (mk_double s m) = False"
  "m < inf_mag \<Longrightarrow> is_finite (mk_double s m) = True"
  by (simp_all add: is_nan_def is_finite_def)

lemma scaled_zero: "scaled 0 = 0"
  by (simp add: scaled_def)

text \<open>The rounding errors of the two conversions stay below half a paisa.\<close>

lemma error_sum:
  fixes e1 e2 e3 H X :: int
  assumes "2 ^ 53 * e2 \<le> X" "2 ^ 53 * e1 \<le> H" "e3 \<le> e1 + e2" "H \<le> X + e2"
  shows "2 ^ 106 * e3 \<le> 2 ^ 54 * X + X"
proof -
  have "2 ^ 106 * e3 \<le> 2 ^ 106 * (e1 + e2)" using assms(3) by simp
  also have "\<dots> = 2 ^ 53 * (2 ^ 53 * e1) + 2 ^ 53 * (2 ^ 53 * e2)" by simp
  also have "\<dots> \<le> 2 ^ 53 * H + 2 ^ 53 * X" using assms(1,2) by (intro add_mono mult_left_mono) simp_all
  also have "\<dots> \<le> 2 ^ 53 * (X + e2) + 2 ^ 53 * X" using assms(4) by simp
  also have "\<dots> \<le> 2 ^ 54 * X + X" using assms(1) by simp
  finally show ?thesis .
qed

lemma two_errors:
  fixes H X P :: int
  assumes "2 ^ 53 * \<bar>H - X\<bar> \<le> X" "2 ^ 53 * \<bar>P - H\<bar> \<le> H"
  shows "2 ^ 106 * \<bar>P - X\<bar> \<le> 2 ^ 54 * X + X"
proof (rule error_sum [OF assms])
  show "\<bar>P - X\<bar> \<le> \<bar>P - H\<bar> + \<bar>H - X\<bar>" "H \<le> X + \<bar>H - X\<bar>" by arith+
qed

lemma paise_error:
  fixes A D P U :: int
  assumes "2 ^ 53 * \<bar>D * 100 - A * U\<bar> \<le> A * U" "2 ^ 53 * \<bar>P - D * 100\<bar> \<le> D * 100"
    and "0 \<le> A" "A < 2 ^ 51" "0 < U"
  shows "2 * \<bar>P - A * U\<bar> < U"
proof -
  have "0 \<le> A * U" "A * U \<le> (2 ^ 51 - 1) * U"
    using assms(3-5) by (auto intro: mult_right_mono)
  then have "2 ^ 54 * (A * U) + A * U < 2 ^ 105 * U" using assms(5) by simp
  with two_errors [OF assms(1,2)] have "2 ^ 106 * \<bar>P - A * U\<bar> < 2 ^ 105 * U" by (rule le_less_trans)
  then have "2 ^ 105 * (2 * \<bar>P - A * U\<bar>) < 2 ^ 105 * U" by simp
  then show ?thesis unfolding mult_less_cancel_left by simp
qed

lemma one_scaled_pos: "0 < one_scaled" by (simp add: one_scaled_def)

lemma round_half_away_near:
  assumes "2 * \<bar>int (scaled m) - int A * int one_scaled\<bar> < int one_scaled"
  shows "round_half_away m = A"
proof -
  have ev: "one_scaled = 2 * (one_scaled div 2)" by (simp add: one_scaled_def)
  let ?h = "one_scaled div 2"
  have h: "int one_scaled = 2 * int ?h" using arg_cong [OF ev, of int] by simp
  have lo: "A * one_scaled \<le> scaled m + ?h" and hi: "scaled m + ?h < Suc A * one_scaled"
  proof -
    define x where "x = int A * int one_scaled"
    have "x \<le> int (scaled m) + int ?h" "int (scaled m) + int ?h < x + int one_scaled"
      using assms h unfolding x_def [symmetric] by arith+
    then have "int A * int one_scaled \<le> int (scaled m) + int ?h"
      "int (scaled m) + int ?h < int A * int one_scaled + int one_scaled"
      unfolding x_def by blast+
    then have "int (A * one_scaled) \<le> int (scaled m + ?h)"
      "int (scaled m + ?h) < int (Suc A * one_scaled)" by (simp_all add: algebra_simps)
    then show "A * one_scaled \<le> scaled m + ?h" "scaled m + ?h < Suc A * one_scaled"
      unfolding of_nat_le_iff of_nat_less_iff by blast+
  qed
  from lo hi have "(scaled m + ?h) div one_scaled = A"
    by (intro div_nat_eqI) (simp_all add: mult.commute)
  then show ?thesis by (simp add: round_half_away_def)
qed

lemma paise_rupees_roundtrip':
  assumes "\<bar>a\<bar> < 2 ^ 51"
  shows "paise_of_rupees (rupees_of_paise a) = Inr a"
proof -
  define A where "A = nat \<bar>a\<bar>"
  have A: "A < 2 ^ 51" "int A = \<bar>a\<bar>" using assms by (simp_all add: A_def)
  let ?U = one_scaled
  define mA where "mA = round_mag A 1"
  define mH where "mH = round_mag 100 1"
  have mA: "scaled mA = A * ?U" "mA < inf_mag"
    using round_mag_int_exact [of A] A(1) by (simp_all add: mA_def)
  have mH: "scaled mH = 100 * ?U" "mH < inf_mag"
    using round_mag_int_exact [of 100] by (simp_all add: mH_def)
  then have mH0: "mH \<noteq> 0" using one_scaled_pos scaled_zero by (intro notI) simp
  define mD where "mD = round_mag (A * ?U) (100 * ?U)"
  have "A * ?U < 100 * ?U * 2 ^ 1023"
    using A(1) one_scaled_pos by (simp add: mult_less_cancel2)
  moreover have "100 * ?U * 2 ^ 60 \<le> A * ?U * ?U \<or> A * ?U * ?U mod (100 * ?U) = 0"
  proof (cases "A = 0")
    case False
    have "100 * 2 ^ 60 \<le> ?U" by (simp add: one_scaled_def)
    also have "?U \<le> A * ?U" using False by simp
    finally have "100 * 2 ^ 60 * ?U \<le> A * ?U * ?U" by (rule mult_right_mono) simp
    then show ?thesis by (simp add: mult_ac)
  qed simp
  ultimately have D: "2 ^ 53 * \<bar>int (scaled mD) * int (100 * ?U) - int (A * ?U) * int ?U\<bar> \<le> int (A * ?U) * int ?U"
    "mD < inf_mag"
    using round_mag_relative [of "100 * ?U" "A * ?U"] one_scaled_pos by (simp_all add: mD_def)
  have "2 ^ 53 * \<bar>(int (scaled mD) * 100) * int ?U - (int A * int ?U) * int ?U\<bar> \<le> (int A * int ?U) * int ?U"
    using D(1) by (simp only: of_nat_mult of_nat_numeral mult_ac)
  from cancel_unit [OF this] one_scaled_pos
  have D': "2 ^ 53 * \<bar>int (scaled mD) * 100 - int A * int ?U\<bar> \<le> int A * int ?U" by simp
  define mP where "mP = round_mag (scaled mD * scaled mH) (?U * ?U)"
  have small: "scaled mD * scaled mH < ?U * ?U * 2 ^ 1023"
  proof -
    have "\<bar>int (scaled mD) * 100 - int A * int ?U\<bar> \<le> int A * int ?U" using D' by (rule drop_factor)
    then have "int (scaled mD * 100) \<le> int (2 * A * ?U)" by simp
    then have "scaled mD * 100 \<le> 2 * A * ?U" unfolding of_nat_le_iff .
    also have "\<dots> < 2 ^ 1023 * ?U" using A(1) one_scaled_pos by simp
    finally have "(scaled mD * 100) * ?U < (2 ^ 1023 * ?U) * ?U" using one_scaled_pos by simp
    then show ?thesis unfolding mH(1) by (simp only: mult_ac)
  qed
  have "scaled mD * scaled mH * ?U = (scaled mD * 100) * (?U * ?U)" by (simp add: mH(1) mult_ac)
  then have "scaled mD * scaled mH * ?U mod (?U * ?U) = 0" by (simp only: mod_mult_self2_is_0)
  with small have P: "2 ^ 53 * \<bar>int (scaled mP) * int (?U * ?U) - int (scaled mD * scaled mH) * int ?U\<bar>
        \<le> int (scaled mD * scaled mH) * int ?U" "mP < inf_mag"
    using round_mag_relative [of "?U * ?U" "scaled mD * scaled mH"] one_scaled_pos
    by (simp_all add: mP_def)
  have "2 ^ 53 * \<bar>int (scaled mP) * (int ?U * int ?U) - (int (scaled mD) * 100) * (int ?U * int ?U)\<bar>
      \<le> (int (scaled mD) * 100) * (int ?U * int ?U)"
    using P(1) unfolding mH(1) by (simp only: of_nat_mult of_nat_numeral mult_ac)
  from cancel_unit [OF this] one_scaled_pos
  have P': "2 ^ 53 * \<bar>int (scaled mP) - int (scaled mD) * 100\<bar> \<le> int (scaled mD) * 100" by simp
  have "round_half_away mP = A"
    using paise_error [OF D' P'] A(1) one_scaled_pos by (intro round_half_away_near) simp
  moreover have "double_mul (rupees_of_paise a) (double_of_int 100) = mk_double (a < 0) mP"
  proof -
    have a: "double_of_int a = mk_double (a < 0) mA" and h: "double_of_int 100 = mk_double False mH"
      by (simp_all add: double_of_int_def A_def mA_def mH_def)
    have r: "rupees_of_paise a = mk_double (a < 0) mD"
      unfolding rupees_of_paise_def a h
      using mA mH mH0 by (simp add: double_div_def Let_def finite_simps mD_def)
    show ?thesis
      unfolding r h using D(2) mH by (simp add: double_mul_def Let_def finite_simps mP_def)
  qed
  ultimately have "double_round (double_mul (rupees_of_paise a) (double_of_int 100)) = mk_double (a < 0) mA"
    using P(2) by (simp add: double_round_def finite_simps mA_def)
  then show ?thesis
    using mA A one_scaled_pos assms
    by (auto simp: paise_of_rupees_def double_to_i64_def finite_simps Let_def in_i64_def i64_min_def i64_max_def)
qed

text \<open>C22. An amount of up to \<open>2 ^ 51 - 1\<close> paise (more than 22 trillion rupees) of either sign survives the
  conversion to rupees as a double and back: both roundings together never reach half a
  paisa, and the final cast is defined.\<close>

theorem paise_rupees_roundtrip:
  assumes "\<bar>a\<bar> < 2 ^ 51"
  shows "paise_of_rupees (rupees_of_paise a) = Inr a"
  using assms by (rule paise_rupees_roundtrip')

theorem paise_rupees_roundtrip_witness:
  "paise_of_rupees (rupees_of_paise 123456789) = Inr 123456789 \<and>
   paise_of_rupees (rupees_of_paise (- 7)) = Inr (- 7)"
  using paise_rupees_roundtrip [of 123456789] paise_rupees_roundtrip [of "- 7"] by simp

text \<open>Large integers overflow the way back.\<close>

lemma round_mag_lower:
  assumes "0 < d" "n < d * 2 ^ 1023" "d * 2 ^ 60 \<le> n * one_scaled"
  shows "(2 ^ 53 - 1) * (n * one_scaled) \<le> 2 ^ 53 * (scaled (round_mag n d) * d)"
proof -
  have "2 ^ 53 * \<bar>int (scaled (round_mag n d)) * int d - int n * int one_scaled\<bar> \<le> int n * int one_scaled"
    using round_mag_relative(1) [OF assms(1,2)] assms(3) by blast
  then have "2 ^ 53 * (int n * int one_scaled - int (scaled (round_mag n d)) * int d) \<le> int n * int one_scaled"
    by (rule order_trans [rotated]) (intro mult_left_mono, simp_all)
  then have "int ((2 ^ 53 - 1) * (n * one_scaled)) \<le> int (2 ^ 53 * (scaled (round_mag n d) * d))"
    by (simp add: mult_ac)
  then show ?thesis unfolding of_nat_le_iff .
qed

lemma round_mag_upper:
  assumes "0 < d" "n < d * 2 ^ 1023" "d * 2 ^ 60 \<le> n * one_scaled"
  shows "scaled (round_mag n d) * d \<le> 2 * (n * one_scaled)"
proof -
  have "\<bar>int (scaled (round_mag n d)) * int d - int n * int one_scaled\<bar> \<le> int n * int one_scaled"
    using round_mag_relative(1) [OF assms(1,2)] assms(3) by (intro drop_factor) blast
  then have "int (scaled (round_mag n d) * d) \<le> int (2 * (n * one_scaled))"
    unfolding of_nat_mult by (simp add: abs_le_iff mult_ac)
  then show ?thesis unfolding of_nat_le_iff .
qed

lemma round_mag_int_lower:
  assumes "k \<le> n" "n < 2 ^ 1023" "0 < n"
  shows "(2 ^ 53 - 1) * (k * one_scaled) \<le> 2 ^ 53 * scaled (round_mag n 1)"
proof -
  have "(2::nat) ^ 60 \<le> one_scaled" by (simp add: one_scaled_def)
  also have "one_scaled \<le> n * one_scaled" using assms(3) by simp
  finally have "(2 ^ 53 - 1) * (n * one_scaled) \<le> 2 ^ 53 * scaled (round_mag n 1)"
    using round_mag_lower [of 1 n] assms(2) by simp
  moreover have "(2 ^ 53 - 1) * (k * one_scaled) \<le> (2 ^ 53 - 1) * (n * one_scaled)"
    using assms(1) by (intro mult_le_mono) simp_all
  ultimately show ?thesis by linarith
qed

lemma paise_of_large_int:
  assumes "10 ^ 17 \<le> n" "n < 2 ^ 64"
  shows "paise_of_rupees (double_of_int n) = Inl (Undefined ''float to int64 conversion out of range'')"
proof -
  let ?U = one_scaled
  define N where "N = nat n"
  have N: "10 ^ 17 \<le> N" "N < 2 ^ 64" using assms by (simp_all add: N_def nat_le_iff le_nat_iff)
  define mN where "mN = round_mag N 1"
  define mH where "mH = round_mag 100 1"
  have mH: "scaled mH = 100 * ?U" "mH < inf_mag"
    using round_mag_int_exact [of 100] by (simp_all add: mH_def)
  have U60: "(2::nat) ^ 60 \<le> ?U" by (simp add: one_scaled_def)
  have lt: "N < 1 * 2 ^ 1023" by (rule less_le_trans [OF N(2)]) simp
  have "1 \<le> N" using N(1) by simp
  then have "1 * ?U \<le> N * ?U" by (rule mult_le_mono1)
  with U60 have ge: "1 * 2 ^ 60 \<le> N * ?U" by linarith
  have fN: "mN < inf_mag"
    using round_mag_relative(2) [OF _ lt] ge by (simp add: mN_def)
  have lowN: "(2 ^ 53 - 1) * (10 ^ 17 * ?U) \<le> 2 ^ 53 * scaled mN"
    using round_mag_int_lower [OF N(1)] lt N(1) by (simp add: mN_def)
  have upN: "scaled mN \<le> 2 * (2 ^ 64 * ?U)"
  proof -
    have "scaled mN \<le> 2 * (N * ?U)" using round_mag_upper [OF _ lt ge] by (simp add: mN_def)
    also have "\<dots> \<le> 2 * (2 ^ 64 * ?U)" using N(2) by simp
    finally show ?thesis .
  qed
  define mP where "mP = round_mag (scaled mN * scaled mH) (?U * ?U)"
  have condlt: "scaled mN * scaled mH < ?U * ?U * 2 ^ 1023"
  proof -
    have "scaled mN * scaled mH \<le> 2 * (2 ^ 64 * ?U) * (100 * ?U)"
      unfolding mH using upN by (rule mult_le_mono1)
    also have "\<dots> < ?U * ?U * 2 ^ 1023" using one_scaled_pos by simp
    finally show ?thesis .
  qed
  have condge: "?U * ?U * 2 ^ 60 \<le> scaled mN * scaled mH * ?U"
  proof -
    have "2 ^ 60 \<le> scaled mN * 100" using lowN U60 by simp
    then have "(?U * ?U) * 2 ^ 60 \<le> (?U * ?U) * (scaled mN * 100)" by (rule mult_le_mono2)
    then show ?thesis by (simp add: mH mult_ac)
  qed
  have UU: "0 < ?U * ?U" using one_scaled_pos by simp
  have fP: "mP < inf_mag" using round_mag_relative(2) [OF UU condlt] condge by (simp add: mP_def)
  have lowP: "(2 ^ 53 - 1) * (scaled mN * 100) \<le> 2 ^ 53 * scaled mP"
  proof -
    have "(?U * ?U) * ((2 ^ 53 - 1) * (scaled mN * 100)) \<le> (?U * ?U) * (2 ^ 53 * scaled mP)"
      using round_mag_lower [OF UU condlt condge] by (simp add: mH mP_def mult_ac)
    with UU show ?thesis by (simp only: mult_le_cancel1)
  qed
  have upP: "scaled mP \<le> 2 * (scaled mN * 100)"
  proof -
    have "(?U * ?U) * scaled mP \<le> (?U * ?U) * (2 * (scaled mN * 100))"
      using round_mag_upper [OF UU condlt condge] by (simp add: mH mP_def mult_ac)
    with UU show ?thesis by (simp only: mult_le_cancel1)
  qed
  define r where "r = round_half_away mP"
  have "9500000000000000000 * ?U \<le> scaled mP + ?U div 2" using lowN lowP by simp
  then have r1: "9500000000000000000 \<le> r"
    using one_scaled_pos by (simp add: r_def round_half_away_def less_eq_div_iff_mult_less_eq)
  have "scaled mP + ?U div 2 < 2 ^ 1023 * ?U"
  proof -
    have "scaled mP + ?U div 2 \<le> 400 * (2 ^ 64 * ?U) + ?U" using upP upN by linarith
    also have "\<dots> < 2 ^ 1023 * ?U" using one_scaled_pos by simp
    finally show ?thesis .
  qed
  then have r2: "r < 2 ^ 1023"
    using one_scaled_pos by (simp add: r_def round_half_away_def div_less_iff_less_mult)
  define mR where "mR = round_mag r 1"
  have "(2 ^ 53 - 1) * (9500000000000000000 * ?U) \<le> 2 ^ 53 * scaled mR"
    using round_mag_int_lower [OF r1 r2] r1 by (simp add: mR_def)
  then have "9400000000000000000 * ?U \<le> scaled mR" by simp
  then have big: "9400000000000000000 \<le> scaled mR div ?U"
    using one_scaled_pos by (simp add: less_eq_div_iff_mult_less_eq)
  have "1 * ?U \<le> r * ?U" using r1 by (intro mult_le_mono1) simp
  with U60 have "1 * 2 ^ 60 \<le> r * ?U" by linarith
  with r2 have fR: "mR < inf_mag"
    using round_mag_relative(2) [of 1 r] by (simp add: mR_def)
  have n0: "\<not> n < 0" using assms by simp
  have a: "double_of_int n = mk_double False mN" and h: "double_of_int 100 = mk_double False mH"
    using n0 by (simp_all add: double_of_int_def N_def mN_def mH_def)
  have "double_mul (double_of_int n) (double_of_int 100) = mk_double False mP"
    unfolding a h using fN mH fP by (simp add: double_mul_def Let_def finite_simps mP_def)
  then have "double_round (double_mul (double_of_int n) (double_of_int 100)) = mk_double False mR"
    using fP by (simp add: double_round_def finite_simps mR_def r_def)
  moreover have "\<not> in_i64 (int (scaled mR div ?U))"
  proof -
    have "9400000000000000000 \<le> int (scaled mR div ?U)"
      using big by (metis of_nat_le_iff of_nat_numeral)
    then show ?thesis by (simp add: in_i64_def i64_max_def)
  qed
  ultimately show ?thesis
    using fR by (simp add: paise_of_rupees_def double_to_i64_def Let_def finite_simps)
qed


text \<open>Whole rupees convert exactly.\<close>

lemma rne_scale: "0 < c \<Longrightarrow> rne (a * c) (b * c) = rne a b"
  by (simp add: rne_def Let_def flip: mult.assoc)

lemma round_mag_scale:
  assumes "0 < c"
  shows "round_mag (n * c) (d * c) = round_mag n d"
proof -
  have n: "n * c * one_scaled = n * one_scaled * c" by (simp only: mult_ac)
  have q: "(n * one_scaled * c) div (d * c) = n * one_scaled div d" using assms by simp
  have "rne (n * one_scaled * c) (d * c * 2 ^ s) = rne (n * one_scaled) (d * 2 ^ s)" for s
    using rne_scale [OF assms, of "n * one_scaled" "d * 2 ^ s"] by (simp only: mult_ac)
  then show ?thesis unfolding round_mag_def Let_def n q by (simp only:)
qed

lemma paise_of_whole_rupees:
  assumes "0 \<le> n" "n * 100 < 2 ^ 53"
  shows "paise_of_rupees (double_of_int n) = Inr (n * 100)"
proof -
  let ?U = one_scaled
  define N where "N = nat n"
  have N: "n = int N" "N * 100 < 2 ^ 53" "N < 2 ^ 53" using assms by (auto simp: N_def nat_less_iff)
  have h: "(100::nat) < 2 ^ 53" by simp
  note eN = round_mag_int_exact [OF N(3)] and eH = round_mag_int_exact [OF h]
    and eP = round_mag_int_exact [OF N(2)]
  have d: "double_of_int n = mk_double False (round_mag N 1)"
    "double_of_int 100 = mk_double False (round_mag 100 1)"
    using assms(1) by (simp_all add: double_of_int_def N_def)
  have "scaled (round_mag N 1) * scaled (round_mag 100 1) = (N * 100) * (?U * ?U)"
    unfolding eN eH by (simp only: mult_ac)
  moreover have "?U * ?U = 1 * (?U * ?U)" by simp
  ultimately have m: "round_mag (scaled (round_mag N 1) * scaled (round_mag 100 1)) (?U * ?U) = round_mag (N * 100) 1"
    using round_mag_scale [of "?U * ?U" "N * 100" 1] one_scaled_pos by (metis nat_0_less_mult_iff)
  have "double_mul (double_of_int n) (double_of_int 100) = mk_double False (round_mag (N * 100) 1)"
    unfolding d using eN(2) eH(2) by (simp add: double_mul_def Let_def finite_simps m del: One_nat_def)
  moreover have "round_half_away (round_mag (N * 100) 1) = N * 100"
    by (rule round_half_away_near) (simp only: eP, use one_scaled_pos in simp)
  moreover have "scaled (round_mag (N * 100) 1) div ?U = N * 100"
    unfolding eP(1) using one_scaled_pos by simp
  moreover have "in_i64 (int (N * 100))" using N(2) by (simp add: in_i64_def i64_min_def i64_max_def)
  ultimately show ?thesis
    using eP N(1)
    by (simp add: paise_of_rupees_def double_round_def double_to_i64_def finite_simps Let_def
         del: One_nat_def)
qed

end
