(* ===== verification/JsonValue.thy ===== *)
theory JsonValue
  imports Model Double
begin

text \<open>
  The values of \<open>nlohmann::json\<close> (\<open>src/cpp/include/nlohmann/json.hpp\<close>), the parts of its
  interface the program uses to build and take apart values, and the conversions of the
  model classes (\<open>to_json\<close> and \<open>from_json\<close> of \<open>src/cpp/model/*.h\<close>).

  An object is a \<open>std::map\<close>: an association list whose keys increase in byte order.
\<close>

section \<open>Values\<close>

datatype json =
    JNull
  | JObject "(string \<times> json) list"
  | JArray "json list"
  | JString string
  | JBool bool
  | JInt int
  | JUnsigned int
  | JFloat double
  | JBinary "nat list" "nat option"
  | JDiscarded

fun type_name :: "json \<Rightarrow> string" where
  "type_name JNull = ''null''"
| "type_name (JObject ms) = ''object''"
| "type_name (JArray vs) = ''array''"
| "type_name (JString s) = ''string''"
| "type_name (JBool b) = ''boolean''"
| "type_name (JBinary bs t) = ''binary''"
| "type_name JDiscarded = ''discarded''"
| "type_name (JInt n) = ''number''"
| "type_name (JUnsigned n) = ''number''"
| "type_name (JFloat x) = ''number''"

text \<open>
  The exceptions of the library: an id, and a text that passes through \<open>c_str()\<close> on its way
  into the \<open>std::runtime_error\<close> that stores it. \<open>JSON_DIAGNOSTICS\<close> is off.
\<close>

definition type_error :: "nat \<Rightarrow> string \<Rightarrow> string \<Rightarrow> exn" where
  "type_error n num msg =
     Json_exception n (c_str (''[json.exception.type_error.'' @ num @ ''] '' @ msg))"

definition out_of_range :: "nat \<Rightarrow> string \<Rightarrow> string \<Rightarrow> exn" where
  "out_of_range n num msg =
     Json_exception n (c_str (''[json.exception.out_of_range.'' @ num @ ''] '' @ msg))"

section \<open>Objects as ordered maps\<close>

text \<open>\<open>std::less<std::string>\<close>: bytes compare as unsigned numbers.\<close>

fun str_less :: "string \<Rightarrow> string \<Rightarrow> bool" where
  "str_less s [] \<longleftrightarrow> False"
| "str_less [] (d # ds) \<longleftrightarrow> True"
| "str_less (c # cs) (d # ds) \<longleftrightarrow>
     (of_char c :: nat) < of_char d \<or> (c = d \<and> str_less cs ds)"

text \<open>\<open>emplace\<close> keeps the value a key already has; assignment through \<open>operator[]\<close> replaces it.\<close>

fun obj_emplace :: "string \<Rightarrow> json \<Rightarrow> (string \<times> json) list \<Rightarrow> (string \<times> json) list" where
  "obj_emplace k v [] = [(k, v)]"
| "obj_emplace k v ((k', v') # ms) =
     (if k = k' then (k', v') # ms
      else if str_less k k' then (k, v) # (k', v') # ms
      else (k', v') # obj_emplace k v ms)"

fun obj_assign :: "string \<Rightarrow> json \<Rightarrow> (string \<times> json) list \<Rightarrow> (string \<times> json) list" where
  "obj_assign k v [] = [(k, v)]"
| "obj_assign k v ((k', v') # ms) =
     (if k = k' then (k', v) # ms
      else if str_less k k' then (k, v) # (k', v') # ms
      else (k', v') # obj_assign k v ms)"

definition obj_ok :: "(string \<times> json) list \<Rightarrow> bool" where
  "obj_ok ms \<longleftrightarrow> sorted_wrt str_less (map fst ms)"

text \<open>
  The constructor from a braced list: a list of pairs that begin with a string is an object
  (an empty list too), any other list an array.
\<close>

fun is_pair :: "json \<Rightarrow> bool" where
  "is_pair (JArray [JString k, v]) = True"
| "is_pair j = False"

fun emplace_pair :: "json \<Rightarrow> (string \<times> json) list \<Rightarrow> (string \<times> json) list" where
  "emplace_pair (JArray [JString k, v]) ms = obj_emplace k v ms"
| "emplace_pair j ms = ms"

definition json_init :: "json list \<Rightarrow> json" where
  "json_init vs = (if list_all is_pair vs then JObject (fold emplace_pair vs []) else JArray vs)"

section \<open>Access\<close>

fun json_at :: "json \<Rightarrow> string \<Rightarrow> json res" where
  "json_at (JObject ms) key =
     (case map_of ms key of
        None \<Rightarrow> Inl (out_of_range 403 ''403'' (''key '' @ [CHR 0x27] @ key @ [CHR 0x27] @ '' not found''))
      | Some v \<Rightarrow> Inr v)"
| "json_at j key = Inl (type_error 304 ''304'' (''cannot use at() with '' @ type_name j))"

fun get_string :: "json \<Rightarrow> string res" where
  "get_string (JString s) = Inr s"
| "get_string j = Inl (type_error 302 ''302'' (''type must be string, but is '' @ type_name j))"

text \<open>
  \<open>static_cast\<close> between integer types wraps; from \<open>double\<close> it is defined in range only.
\<close>

definition wrap :: "nat \<Rightarrow> int \<Rightarrow> int" where
  "wrap w x = (x + 2 ^ (w - 1)) mod 2 ^ w - 2 ^ (w - 1)"

definition in_i32 :: "int \<Rightarrow> bool" where
  "in_i32 x \<longleftrightarrow> - (2 ^ 31) \<le> x \<and> x \<le> 2 ^ 31 - 1"

definition double_to_i32 :: "double \<Rightarrow> int res" where
  "double_to_i32 x = res_bind (double_to_i64 x)
     (\<lambda>v. if in_i32 v then Inr v else Inl (Undefined ''float to int conversion out of range''))"

text \<open>\<open>get_arithmetic_value\<close> for \<open>double\<close> and \<open>int64_t\<close>, and the overload for \<open>int\<close>, which
  takes booleans too.\<close>

fun get_double :: "json \<Rightarrow> double res" where
  "get_double (JUnsigned n) = Inr (double_of_int n)"
| "get_double (JInt n) = Inr (double_of_int n)"
| "get_double (JFloat x) = Inr x"
| "get_double j = Inl (type_error 302 ''302'' (''type must be number, but is '' @ type_name j))"

fun get_i64 :: "json \<Rightarrow> int res" where
  "get_i64 (JUnsigned n) = Inr (wrap 64 n)"
| "get_i64 (JInt n) = Inr n"
| "get_i64 (JFloat x) = double_to_i64 x"
| "get_i64 j = Inl (type_error 302 ''302'' (''type must be number, but is '' @ type_name j))"

fun get_int :: "json \<Rightarrow> int res" where
  "get_int (JUnsigned n) = Inr (wrap 32 n)"
| "get_int (JInt n) = Inr (wrap 32 n)"
| "get_int (JFloat x) = double_to_i32 x"
| "get_int (JBool b) = Inr (if b then 1 else 0)"
| "get_int j = Inl (type_error 302 ''302'' (''type must be number, but is '' @ type_name j))"

definition at_to :: "(json \<Rightarrow> 'a res) \<Rightarrow> json \<Rightarrow> string \<Rightarrow> 'a res" where
  "at_to get j key = res_bind (json_at j key) get"

section \<open>The model classes\<close>

definition member :: "string \<Rightarrow> json \<Rightarrow> json" where
  "member k v = json_init [JString k, v]"

definition account_to_json :: "account \<Rightarrow> json" where
  "account_to_json a = json_init
     [member ''vpa'' (JString (vpa a)),
      member ''holderName'' (JString (holderName a)),
      member ''balance'' (JFloat (rupees_of_paise (balance a))),
      member ''version'' (JInt (version a))]"

definition transaction_to_json :: "transaction \<Rightarrow> json" where
  "transaction_to_json t = json_init
     [member ''id'' (JInt (tx_id t)),
      member ''packetHash'' (JString (tx_packetHash t)),
      member ''senderVpa'' (JString (tx_senderVpa t)),
      member ''receiverVpa'' (JString (tx_receiverVpa t)),
      member ''amount'' (JFloat (rupees_of_paise (tx_amount t))),
      member ''signedAt'' (JInt (tx_signedAt t)),
      member ''settledAt'' (JInt (tx_settledAt t)),
      member ''bridgeNodeId'' (JString (tx_bridgeNodeId t)),
      member ''hopCount'' (JInt (tx_hopCount t)),
      member ''status'' (JString (statusToString (tx_status t)))]"

definition payment_to_json :: "payment \<Rightarrow> json" where
  "payment_to_json p = json_init
     [member ''senderVpa'' (JString (pi_senderVpa p)),
      member ''receiverVpa'' (JString (pi_receiverVpa p)),
      member ''amount'' (JFloat (rupees_of_paise (pi_amount p))),
      member ''pinHash'' (JString (pi_pinHash p)),
      member ''nonce'' (JString (pi_nonce p)),
      member ''signedAt'' (JInt (pi_signedAt p))]"

definition payment_from_json :: "json \<Rightarrow> payment res" where
  "payment_from_json j =
     res_bind (at_to get_string j ''senderVpa'') (\<lambda>sender.
     res_bind (at_to get_string j ''receiverVpa'') (\<lambda>receiver.
     res_bind (at_to get_double j ''amount'') (\<lambda>amtDecimal.
     res_bind (paise_of_rupees amtDecimal) (\<lambda>amount.
     res_bind (at_to get_string j ''pinHash'') (\<lambda>pinHash.
     res_bind (at_to get_string j ''nonce'') (\<lambda>nonce.
     res_bind (at_to get_i64 j ''signedAt'') (\<lambda>signedAt.
       Inr \<lparr>pi_senderVpa = sender, pi_receiverVpa = receiver, pi_amount = amount,
            pi_pinHash = pinHash, pi_nonce = nonce, pi_signedAt = signedAt\<rparr>)))))))"

text \<open>\<open>NLOHMANN_DEFINE_TYPE_INTRUSIVE(MeshPacket, packetId, ttl, createdAt, ciphertext)\<close>.\<close>

definition packet_to_json :: "mesh_packet \<Rightarrow> json" where
  "packet_to_json p = JObject (
     obj_assign ''ciphertext'' (JString (ciphertext p)) (
     obj_assign ''createdAt'' (JInt (createdAt p)) (
     obj_assign ''ttl'' (JInt (ttl p)) (
     obj_assign ''packetId'' (JString (packetId p)) []))))"

definition packet_from_json :: "json \<Rightarrow> mesh_packet res" where
  "packet_from_json j =
     res_bind (at_to get_string j ''packetId'') (\<lambda>i.
     res_bind (at_to get_int j ''ttl'') (\<lambda>t.
     res_bind (at_to get_i64 j ''createdAt'') (\<lambda>created.
     res_bind (at_to get_string j ''ciphertext'') (\<lambda>cipher.
       Inr \<lparr>packetId = i, ttl = t, createdAt = created, ciphertext = cipher\<rparr>))))"

section \<open>Facts\<close>

lemma str_less_irrefl [simp]: "\<not> str_less s s"
  by (induction s) auto

lemma str_less_trans: "str_less a b \<Longrightarrow> str_less b c \<Longrightarrow> str_less a c"
proof (induction a b arbitrary: c rule: str_less.induct)
  case (3 x xs y ys)
  then show ?case by (cases c) auto
next
  case (2 d ds)
  then show ?case by (cases c) auto
qed auto

lemma str_less_asym: "str_less s t \<Longrightarrow> \<not> str_less t s"
  using str_less_trans str_less_irrefl by blast

lemma str_less_linear: "str_less a b \<or> a = b \<or> str_less b a"
proof (induction a b rule: str_less.induct)
  case (3 x xs y ys)
  have "x = y \<longleftrightarrow> (of_char x :: nat) = of_char y" by simp
  with 3 show ?case by (auto simp del: of_char_eq_iff) 
next
  case (1 s)
  then show ?case by (cases s) auto
qed auto

lemma set_keys_assign: "fst ` set (obj_assign k v ms) = insert k (fst ` set ms)"
  by (induction k v ms rule: obj_assign.induct) auto

lemma set_keys_emplace: "fst ` set (obj_emplace k v ms) = insert k (fst ` set ms)"
  by (induction k v ms rule: obj_emplace.induct) auto

lemma obj_ok_Nil [simp]: "obj_ok []"
  by (simp add: obj_ok_def)

lemma obj_ok_Cons: "obj_ok ((k, v) # ms) \<longleftrightarrow> (\<forall>k' \<in> fst ` set ms. str_less k k') \<and> obj_ok ms"
  by (auto simp: obj_ok_def)

lemma obj_ok_assign: "obj_ok ms \<Longrightarrow> obj_ok (obj_assign k v ms)"
proof (induction k v ms rule: obj_assign.induct)
  case (2 k v k' v' ms)
  then show ?case
    using str_less_linear [of k k'] set_keys_assign [of k v ms]
    by (auto simp: obj_ok_Cons intro: str_less_trans)
qed (simp add: obj_ok_Cons)

lemma obj_ok_emplace: "obj_ok ms \<Longrightarrow> obj_ok (obj_emplace k v ms)"
proof (induction k v ms rule: obj_emplace.induct)
  case (2 k v k' v' ms)
  then show ?case
    using str_less_linear [of k k'] set_keys_emplace [of k v ms]
    by (auto simp: obj_ok_Cons intro: str_less_trans)
qed (simp add: obj_ok_Cons)

lemma map_of_assign: "map_of (obj_assign k v ms) = (map_of ms)(k \<mapsto> v)"
  by (induction k v ms rule: obj_assign.induct) auto

lemma obj_ok_absent: "obj_ok ((k', v') # ms) \<Longrightarrow> str_less k k' \<Longrightarrow> map_of ((k', v') # ms) k = None"
  by (auto simp: obj_ok_Cons map_of_eq_None_iff dest: str_less_trans)

lemma map_of_emplace:
  "obj_ok ms \<Longrightarrow> map_of (obj_emplace k v ms) =
     (case map_of ms k of None \<Rightarrow> (map_of ms)(k \<mapsto> v) | Some w \<Rightarrow> map_of ms)"
proof (induction k v ms rule: obj_emplace.induct)
  case (2 k v k' v' ms)
  then show ?case
    using obj_ok_absent [of k' v' ms k]
    by (auto simp: obj_ok_Cons fun_upd_twist split: option.splits)
qed simp

lemma wrap_id: "in_i64 x \<Longrightarrow> wrap 64 x = x"
  by (simp add: wrap_def in_i64_def i64_min_def i64_max_def)

lemma wrap32_id: "in_i32 x \<Longrightarrow> wrap 32 x = x"
  by (simp add: wrap_def in_i32_def)

section \<open>Properties\<close>

lemmas to_json_simps = json_init_def member_def at_to_def

text \<open>Round trip of \<open>PaymentInstruction\<close> through its JSON value: every field comes back, the
  amount through its rupee double, for amounts below \<open>2 ^ 51\<close> paise of either sign.\<close>

theorem payment_json_roundtrip:
  assumes "\<bar>pi_amount p\<bar> < 2 ^ 51"
  shows "payment_from_json (payment_to_json p) = Inr p"
  using paise_rupees_roundtrip' [OF assms]
  by (simp add: payment_to_json_def payment_from_json_def to_json_simps)

theorem payment_json_roundtrip_witness:
  "payment_from_json (payment_to_json \<lparr>pi_senderVpa = ''a'', pi_receiverVpa = ''b'', pi_amount = 25050,
     pi_pinHash = ''p'', pi_nonce = ''n'', pi_signedAt = 7\<rparr>) =
   Inr \<lparr>pi_senderVpa = ''a'', pi_receiverVpa = ''b'', pi_amount = 25050,
     pi_pinHash = ''p'', pi_nonce = ''n'', pi_signedAt = 7\<rparr>"
  by (rule payment_json_roundtrip) simp

text \<open>Round trip of \<open>MeshPacket\<close> through its JSON value.\<close>

theorem packet_json_roundtrip:
  assumes "in_i32 (ttl p)"
  shows "packet_from_json (packet_to_json p) = Inr p"
  using assms
  by (simp add: packet_to_json_def packet_from_json_def at_to_def map_of_assign wrap32_id)

theorem packet_json_roundtrip_witness:
  "packet_from_json (packet_to_json \<lparr>packetId = ''i'', ttl = 5, createdAt = 7, ciphertext = ''c''\<rparr>) =
   Inr \<lparr>packetId = ''i'', ttl = 5, createdAt = 7, ciphertext = ''c''\<rparr>"
  by (rule packet_json_roundtrip) (simp add: in_i32_def)

text \<open>The amount of a JSON instruction is cast to 64 bits without a range check: any instruction
  over an integer of \<open>10 ^ 17\<close> rupees or more makes the conversion undefined behaviour. Anyone
  who has the public key can seal such an instruction.\<close>

theorem payment_amount_cast_undefined:
  assumes "map_of ms ''senderVpa'' = Some (JString s)" "map_of ms ''receiverVpa'' = Some (JString r)"
    and "map_of ms ''amount'' = Some (JUnsigned n)" "10 ^ 17 \<le> n" "n < 2 ^ 64"
  shows "payment_from_json (JObject ms) =
    Inl (Undefined ''float to int64 conversion out of range'')"
  using assms paise_of_large_int [OF assms(4,5)]
  by (simp add: payment_from_json_def at_to_def)

theorem payment_amount_cast_undefined_witness:
  "payment_from_json (JObject [(''amount'', JUnsigned 1000000000000000000),
     (''receiverVpa'', JString ''b''), (''senderVpa'', JString ''a'')]) =
   Inl (Undefined ''float to int64 conversion out of range'')"
  by (rule payment_amount_cast_undefined [of _ "''a''" "''b''" 1000000000000000000]) simp_all

end
