(* ===== verification/JsonLexer.thy ===== *)
theory JsonLexer
  imports JsonValue
begin

unbundle bit_operations_syntax

text \<open>
  The class \<open>lexer\<close> of \<open>src/cpp/include/nlohmann/json.hpp\<close>: its members as a record, its
  member functions as functions on the record. The input adapter is the list of bytes not
  yet handed out; \<open>current\<close> is \<open>None\<close> for end of file. The decimal point of the locale is
  \<open>'.'\<close>: no code of the program leaves the locale every C program starts in.
\<close>

section \<open>Tokens\<close>

datatype token_type =
    Uninitialized | Literal_true | Literal_false | Literal_null | Value_string | Value_unsigned
  | Value_integer | Value_float | Begin_array | Begin_object | End_array | End_object
  | Name_separator | Value_separator | Parse_error | End_of_input | Literal_or_value

definition quoted :: "string \<Rightarrow> string" where
  "quoted s = [CHR 0x27] @ s @ [CHR 0x27]"

fun token_type_name :: "token_type \<Rightarrow> string" where
  "token_type_name Uninitialized = ''<uninitialized>''"
| "token_type_name Literal_true = ''true literal''"
| "token_type_name Literal_false = ''false literal''"
| "token_type_name Literal_null = ''null literal''"
| "token_type_name Value_string = ''string literal''"
| "token_type_name Value_unsigned = ''number literal''"
| "token_type_name Value_integer = ''number literal''"
| "token_type_name Value_float = ''number literal''"
| "token_type_name Begin_array = quoted ''[''"
| "token_type_name Begin_object = quoted ''{''"
| "token_type_name End_array = quoted '']''"
| "token_type_name End_object = quoted ''}''"
| "token_type_name Name_separator = quoted '':''"
| "token_type_name Value_separator = quoted '',''"
| "token_type_name Parse_error = ''<parse error>''"
| "token_type_name End_of_input = ''end of input''"
| "token_type_name Literal_or_value = quoted ''['' @ '', '' @ quoted ''{'' @ '', or a literal''"

section \<open>State and input\<close>

record lexer =
  ia :: string
  ignore_comments :: bool
  current :: "char option"
  next_unget :: bool
  chars_read_total :: nat
  chars_read_current_line :: nat
  lines_read :: nat
  token_string :: string
  token_buffer :: string
  error_message :: string
  value_integer :: int
  value_unsigned :: int
  value_float :: double

definition new_lexer :: "string \<Rightarrow> bool \<Rightarrow> lexer" where
  "new_lexer s comments = \<lparr>ia = s, ignore_comments = comments, current = None, next_unget = False,
     chars_read_total = 0, chars_read_current_line = 0, lines_read = 0, token_string = [],
     token_buffer = [], error_message = [], value_integer = 0, value_unsigned = 0, value_float = 0\<rparr>"

text \<open>\<open>ia.get_character()\<close>.\<close>

definition get_character :: "lexer \<Rightarrow> lexer" where
  "get_character l =
     (case ia l of [] \<Rightarrow> l\<lparr>current := None\<rparr> | c # cs \<Rightarrow> l\<lparr>current := Some c, ia := cs\<rparr>)"

text \<open>\<open>get()\<close>; the character it returns is the new \<open>current\<close>.\<close>

definition get :: "lexer \<Rightarrow> lexer" where
  "get l =
     (let l1 = l\<lparr>chars_read_total := chars_read_total l + 1,
                 chars_read_current_line := chars_read_current_line l + 1\<rparr>;
          l2 = (if next_unget l1 then l1\<lparr>next_unget := False\<rparr> else get_character l1);
          l3 = (case current l2 of None \<Rightarrow> l2
                | Some c \<Rightarrow> l2\<lparr>token_string := token_string l2 @ [c]\<rparr>)
      in if current l3 = Some (CHR 0x0A)
         then l3\<lparr>lines_read := lines_read l3 + 1, chars_read_current_line := 0\<rparr> else l3)"

definition unget :: "lexer \<Rightarrow> lexer" where
  "unget l =
     (let l1 = l\<lparr>next_unget := True, chars_read_total := chars_read_total l - 1\<rparr>;
          l2 = (if chars_read_current_line l1 = 0
                then (if 0 < lines_read l1 then l1\<lparr>lines_read := lines_read l1 - 1\<rparr> else l1)
                else l1\<lparr>chars_read_current_line := chars_read_current_line l1 - 1\<rparr>)
      in case current l2 of None \<Rightarrow> l2
         | Some c \<Rightarrow> l2\<lparr>token_string := butlast (token_string l2)\<rparr>)"

definition add :: "char \<Rightarrow> lexer \<Rightarrow> lexer" where
  "add c l = l\<lparr>token_buffer := token_buffer l @ [c]\<rparr>"

definition add_current :: "lexer \<Rightarrow> lexer" where
  "add_current l = (case current l of None \<Rightarrow> add (CHR 0xFF) l | Some c \<Rightarrow> add c l)"

text \<open>\<open>reset()\<close>: the current character begins the token; end of file would be the byte 255.\<close>

definition reset :: "lexer \<Rightarrow> lexer" where
  "reset l = l\<lparr>token_buffer := [],
     token_string := [case current l of None \<Rightarrow> CHR 0xFF | Some c \<Rightarrow> c]\<rparr>"

definition fail_with :: "string \<Rightarrow> lexer \<Rightarrow> lexer" where
  "fail_with msg l = l\<lparr>error_message := msg\<rparr>"

definition hex_digit :: "nat \<Rightarrow> char" where
  "hex_digit n = ''0123456789ABCDEF'' ! n"

definition hex4 :: "nat \<Rightarrow> string" where
  "hex4 n = [hex_digit (n div 4096 mod 16), hex_digit (n div 256 mod 16),
             hex_digit (n div 16 mod 16), hex_digit (n mod 16)]"

definition get_token_string :: "lexer \<Rightarrow> string" where
  "get_token_string l = concat (map (\<lambda>c. if of_char c \<le> (0x1F :: nat)
     then ''<U+'' @ hex4 (of_char c) @ ''>'' else [c]) (token_string l))"

section \<open>How far the input is\<close>

text \<open>The bytes the next calls of \<open>get\<close> will return, until end of file.\<close>

definition pending :: "lexer \<Rightarrow> string" where
  "pending l = (if next_unget l then (case current l of None \<Rightarrow> [] | Some c \<Rightarrow> c # ia l) else ia l)"

lemma current_get:
  "current (get l) = (if next_unget l then current l else case ia l of [] \<Rightarrow> None | c # cs \<Rightarrow> Some c)"
  by (auto simp: get_def get_character_def Let_def split: list.splits option.splits)

lemma get_simps [simp]:
  "next_unget (get l) = False" "token_buffer (get l) = token_buffer l"
  "ignore_comments (get l) = ignore_comments l" "error_message (get l) = error_message l"
  "value_integer (get l) = value_integer l" "value_unsigned (get l) = value_unsigned l"
  "value_float (get l) = value_float l"
  "ia (get l) = (if next_unget l then ia l else tl (ia l))"
  by (auto simp: get_def get_character_def Let_def split: list.splits option.splits)

lemma unget_simps [simp]:
  "next_unget (unget l) = True" "current (unget l) = current l" "ia (unget l) = ia l"
  "token_buffer (unget l) = token_buffer l" "ignore_comments (unget l) = ignore_comments l"
  "error_message (unget l) = error_message l"
  by (auto simp: unget_def Let_def split: option.splits)

lemma add_simps [simp]:
  "next_unget (add c l) = next_unget l" "current (add c l) = current l" "ia (add c l) = ia l"
  "token_buffer (add c l) = token_buffer l @ [c]" "ignore_comments (add c l) = ignore_comments l"
  "pending (add c l) = pending l"
  by (auto simp: add_def pending_def split: option.splits)

lemma reset_simps [simp]:
  "next_unget (reset l) = next_unget l" "current (reset l) = current l" "ia (reset l) = ia l"
  "token_buffer (reset l) = []" "ignore_comments (reset l) = ignore_comments l"
  "pending (reset l) = pending l"
  by (auto simp: reset_def pending_def split: option.splits)

lemma fail_simps [simp]:
  "pending (fail_with m l) = pending l" "current (fail_with m l) = current l"
  "next_unget (fail_with m l) = next_unget l" "ia (fail_with m l) = ia l"
  by (auto simp: fail_with_def pending_def split: option.splits)

lemma pending_get_Some: "current (get l) = Some c \<Longrightarrow> pending l = c # pending (get l)"
  by (auto simp: current_get pending_def split: list.splits if_splits)

lemma get_less: "current (get l) = Some c \<Longrightarrow> length (pending (get l)) < length (pending l)"
  by (simp add: pending_get_Some)

lemma add_current_pending [simp]: "pending (add_current l) = pending l" "current (add_current l) = current l"
  "next_unget (add_current l) = next_unget l" "ia (add_current l) = ia l"
  by (auto simp: add_current_def split: option.splits)

section \<open>String literals\<close>

fun hex_value :: "char \<Rightarrow> nat option" where
  "hex_value c =
     (let n = of_char c in
      if 0x30 \<le> n \<and> n \<le> 0x39 then Some (n - 0x30)
      else if 0x41 \<le> n \<and> n \<le> 0x46 then Some (n - 0x37)
      else if 0x61 \<le> n \<and> n \<le> 0x66 then Some (n - 0x57)
      else None)"

text \<open>The loop of \<open>get_codepoint()\<close> over the factors 12, 8, 4, 0; \<open>None\<close> is \<open>-1\<close>.\<close>

fun get_hex :: "nat list \<Rightarrow> nat \<Rightarrow> lexer \<Rightarrow> nat option \<times> lexer" where
  "get_hex [] codepoint l = (Some codepoint, l)"
| "get_hex (factor # fs) codepoint l =
     (let l1 = get l in
      case (case current l1 of None \<Rightarrow> None | Some c \<Rightarrow> hex_value c) of
        None \<Rightarrow> (None, l1)
      | Some d \<Rightarrow> get_hex fs (codepoint + push_bit factor d) l1)"

definition get_codepoint :: "lexer \<Rightarrow> nat option \<times> lexer" where
  "get_codepoint l = get_hex [12, 8, 4, 0] 0 l"

text \<open>\<open>next_byte_in_range\<close>: the current byte is added, then one byte for each range.\<close>

fun bytes_in_ranges :: "(nat \<times> nat) list \<Rightarrow> lexer \<Rightarrow> bool \<times> lexer" where
  "bytes_in_ranges [] l = (True, l)"
| "bytes_in_ranges ((lo, hi) # rs) l =
     (let l1 = get l in
      case current l1 of
        None \<Rightarrow> (False, fail_with ''invalid string: ill-formed UTF-8 byte'' l1)
      | Some c \<Rightarrow>
          if lo \<le> of_char c \<and> of_char c \<le> hi then bytes_in_ranges rs (add c l1)
          else (False, fail_with ''invalid string: ill-formed UTF-8 byte'' l1))"

definition next_byte_in_range :: "(nat \<times> nat) list \<Rightarrow> lexer \<Rightarrow> bool \<times> lexer" where
  "next_byte_in_range rs l = bytes_in_ranges rs (add_current l)"

text \<open>The bytes a code point is translated into.\<close>

definition utf8_bytes :: "nat \<Rightarrow> char list" where
  "utf8_bytes cp =
     (if cp < 0x80 then [char_of cp]
      else if cp \<le> 0x7FF then
        [char_of (0xC0 OR drop_bit 6 cp), char_of (0x80 OR (cp AND 0x3F))]
      else if cp \<le> 0xFFFF then
        [char_of (0xE0 OR drop_bit 12 cp), char_of (0x80 OR (drop_bit 6 cp AND 0x3F)),
         char_of (0x80 OR (cp AND 0x3F))]
      else
        [char_of (0xF0 OR drop_bit 18 cp), char_of (0x80 OR (drop_bit 12 cp AND 0x3F)),
         char_of (0x80 OR (drop_bit 6 cp AND 0x3F)), char_of (0x80 OR (cp AND 0x3F))])"

definition bad_hex :: string where
  "bad_hex = ''invalid string: '' @ quoted ([CHR 0x5C] @ ''u'') @ '' must be followed by 4 hex digits''"

definition lone_high :: string where
  "lone_high = ''invalid string: surrogate U+D800..U+DBFF must be followed by U+DC00..U+DFFF''"

definition lone_low :: string where
  "lone_low = ''invalid string: surrogate U+DC00..U+DFFF must follow U+D800..U+DBFF''"

text \<open>What follows \<open>\u\<close>: \<open>True\<close> when the escape was read and its bytes added.\<close>

definition scan_unicode :: "lexer \<Rightarrow> bool \<times> lexer" where
  "scan_unicode l =
     (case get_codepoint l of
        (None, l1) \<Rightarrow> (False, fail_with bad_hex l1)
      | (Some cp1, l1) \<Rightarrow>
          if 0xD800 \<le> cp1 \<and> cp1 \<le> 0xDBFF then
            (let l2 = get l1 in
             if current l2 \<noteq> Some (CHR 0x5C) then (False, fail_with lone_high l2)
             else let l3 = get l2 in
               if current l3 \<noteq> Some (CHR ''u'') then (False, fail_with lone_high l3)
               else case get_codepoint l3 of
                 (None, l4) \<Rightarrow> (False, fail_with bad_hex l4)
               | (Some cp2, l4) \<Rightarrow>
                   if 0xDC00 \<le> cp2 \<and> cp2 \<le> 0xDFFF
                   then (True, fold add (utf8_bytes (push_bit 10 cp1 + cp2 - 0x35FDC00)) l4)
                   else (False, fail_with lone_high l4))
          else if 0xDC00 \<le> cp1 \<and> cp1 \<le> 0xDFFF then (False, fail_with lone_low l1)
          else (True, fold add (utf8_bytes cp1) l1))"

text \<open>The switch on the character after a backslash.\<close>

definition scan_escape :: "lexer \<Rightarrow> bool \<times> lexer" where
  "scan_escape l0 =
     (let l = get l0; c = current l in
      if c = Some (CHR 0x22) then (True, add (CHR 0x22) l)
      else if c = Some (CHR 0x5C) then (True, add (CHR 0x5C) l)
      else if c = Some (CHR ''/'') then (True, add (CHR ''/'') l)
      else if c = Some (CHR ''b'') then (True, add (CHR 0x08) l)
      else if c = Some (CHR ''f'') then (True, add (CHR 0x0C) l)
      else if c = Some (CHR ''n'') then (True, add (CHR 0x0A) l)
      else if c = Some (CHR ''r'') then (True, add (CHR 0x0D) l)
      else if c = Some (CHR ''t'') then (True, add (CHR 0x09) l)
      else if c = Some (CHR ''u'') then scan_unicode l
      else (False, fail_with ''invalid string: forbidden character after backslash'' l))"

text \<open>The error messages of the control characters 0 to 31.\<close>

definition control_names :: "string list" where
  "control_names = [''NUL'', ''SOH'', ''STX'', ''ETX'', ''EOT'', ''ENQ'', ''ACK'', ''BEL'', ''BS'',
     ''HT'', ''LF'', ''VT'', ''FF'', ''CR'', ''SO'', ''SI'', ''DLE'', ''DC1'', ''DC2'', ''DC3'',
     ''DC4'', ''NAK'', ''SYN'', ''ETB'', ''CAN'', ''EM'', ''SUB'', ''ESC'', ''FS'', ''GS'', ''RS'', ''US'']"

definition control_message :: "nat \<Rightarrow> string" where
  "control_message n =
     ''invalid string: control character U+'' @ hex4 n @ '' ('' @ control_names ! n @
     '') must be escaped to '' @ [CHR 0x5C] @ ''u'' @ hex4 n @
     (if n = 8 then '' or '' @ [CHR 0x5C] @ ''b'' else if n = 9 then '' or '' @ [CHR 0x5C] @ ''t''
      else if n = 10 then '' or '' @ [CHR 0x5C] @ ''n'' else if n = 12 then '' or '' @ [CHR 0x5C] @ ''f''
      else if n = 13 then '' or '' @ [CHR 0x5C] @ ''r'' else '''')"

text \<open>The ranges of the bytes that follow the first byte of a multi-byte character.\<close>

definition utf8_ranges :: "nat \<Rightarrow> (nat \<times> nat) list option" where
  "utf8_ranges b =
     (if 0xC2 \<le> b \<and> b \<le> 0xDF then Some [(0x80, 0xBF)]
      else if b = 0xE0 then Some [(0xA0, 0xBF), (0x80, 0xBF)]
      else if (0xE1 \<le> b \<and> b \<le> 0xEC) \<or> b = 0xEE \<or> b = 0xEF then Some [(0x80, 0xBF), (0x80, 0xBF)]
      else if b = 0xED then Some [(0x80, 0x9F), (0x80, 0xBF)]
      else if b = 0xF0 then Some [(0x90, 0xBF), (0x80, 0xBF), (0x80, 0xBF)]
      else if 0xF1 \<le> b \<and> b \<le> 0xF3 then Some [(0x80, 0xBF), (0x80, 0xBF), (0x80, 0xBF)]
      else if b = 0xF4 then Some [(0x80, 0x8F), (0x80, 0xBF), (0x80, 0xBF)]
      else None)"

lemma fold_add_simps [simp]:
  "current (fold add cs l) = current l" "pending (fold add cs l) = pending l"
  "next_unget (fold add cs l) = next_unget l" "ia (fold add cs l) = ia l"
  "token_buffer (fold add cs l) = token_buffer l @ cs"
  "ignore_comments (fold add cs l) = ignore_comments l"
  by (induction cs arbitrary: l) simp_all

lemma get_hex_le:
  "get_hex fs cp l = (Some n, l') \<Longrightarrow> length (pending l') \<le> length (pending l)"
proof (induction fs cp l rule: get_hex.induct)
  case (2 factor fs cp l)
  from "2.prems" obtain c d where c: "current (get l) = Some c" "hex_value c = Some d"
    and "get_hex fs (cp + push_bit factor d) (get l) = (Some n, l')"
    by (auto simp: Let_def simp del: hex_value.simps split: option.splits)
  then have "length (pending l') \<le> length (pending (get l))"
    using "2.IH" [OF refl, of d] by (simp del: hex_value.simps)
  with get_less [OF c(1)] show ?case by simp
qed simp

lemma bytes_in_ranges_le:
  "bytes_in_ranges rs l = (True, l') \<Longrightarrow> length (pending l') \<le> length (pending l)"
proof (induction rs l rule: bytes_in_ranges.induct)
  case (2 lo hi rs l)
  from "2.prems" obtain c where c: "current (get l) = Some c" "lo \<le> of_char c \<and> of_char c \<le> hi"
    and "bytes_in_ranges rs (add c (get l)) = (True, l')"
    by (auto simp: Let_def split: option.splits if_splits)
  then have "length (pending l') \<le> length (pending (get l))"
    using "2.IH" [OF refl c] by simp
  with get_less [OF c(1)] show ?case by simp
qed simp

lemma next_byte_le:
  "next_byte_in_range rs l = (True, l') \<Longrightarrow> length (pending l') \<le> length (pending l)"
  unfolding next_byte_in_range_def by (drule bytes_in_ranges_le) simp

lemma scan_unicode_le:
  assumes "scan_unicode l = (True, l')"
  shows "length (pending l') \<le> length (pending l)"
proof -
  obtain cp1 l1 where 1: "get_codepoint l = (Some cp1, l1)"
    using assms by (auto simp: scan_unicode_def split: option.splits prod.splits)
  have le1: "length (pending l1) \<le> length (pending l)"
    using 1 unfolding get_codepoint_def by (rule get_hex_le)
  show ?thesis
  proof (cases "0xD800 \<le> cp1 \<and> cp1 \<le> 0xDBFF")
    case False
    with assms 1 le1 show ?thesis by (auto simp: scan_unicode_def split: if_splits)
  next
    case True
    with assms 1 have c: "current (get l1) = Some (CHR 0x5C)" "current (get (get l1)) = Some (CHR ''u'')"
      by (auto simp: scan_unicode_def Let_def split: if_splits)
    obtain cp2 l4 where 2: "get_codepoint (get (get l1)) = (Some cp2, l4)"
      and l': "pending l' = pending l4"
      using assms 1 True c by (auto simp: scan_unicode_def Let_def split: if_splits option.splits prod.splits)
    have "length (pending l4) \<le> length (pending (get (get l1)))"
      using 2 unfolding get_codepoint_def by (rule get_hex_le)
    with get_less [OF c(1)] get_less [OF c(2)] le1 l' show ?thesis by simp
  qed
qed

lemma scan_escape_less:
  assumes "scan_escape l = (True, l')"
  shows "length (pending l') < length (pending l)"
proof -
  obtain c where c: "current (get l) = Some c"
    using assms by (cases "current (get l)") (auto simp: scan_escape_def Let_def)
  have "length (pending l') \<le> length (pending (get l))"
    using assms scan_unicode_le [of "get l" l'] by (auto simp: scan_escape_def Let_def split: if_splits)
  with get_less [OF c] show ?thesis by simp
qed

text \<open>The loop of \<open>scan_string()\<close>.\<close>

function scan_string_loop :: "lexer \<Rightarrow> token_type \<times> lexer" where
  "scan_string_loop l0 =
     (let l = get l0 in
      case current l of
        None \<Rightarrow> (Parse_error, fail_with ''invalid string: missing closing quote'' l)
      | Some c \<Rightarrow>
          let b = of_char c in
          if c = CHR 0x22 then (Value_string, l)
          else if c = CHR 0x5C then
            (case scan_escape l of
               (False, l1) \<Rightarrow> (Parse_error, l1)
             | (True, l1) \<Rightarrow> scan_string_loop l1)
          else if b \<le> 0x1F then (Parse_error, fail_with (control_message b) l)
          else if b \<le> 0x7F then scan_string_loop (add_current l)
          else case utf8_ranges b of
            None \<Rightarrow> (Parse_error, fail_with ''invalid string: ill-formed UTF-8 byte'' l)
          | Some rs \<Rightarrow>
              (case next_byte_in_range rs l of
                 (False, l1) \<Rightarrow> (Parse_error, l1)
               | (True, l1) \<Rightarrow> scan_string_loop l1))"
  by pat_completeness auto
termination
  by (relation "measure (\<lambda>l. length (pending l))")
    (auto dest!: scan_escape_less [OF sym] next_byte_le [OF sym] get_less)

declare scan_string_loop.simps [simp del]

definition scan_string :: "lexer \<Rightarrow> token_type \<times> lexer" where
  "scan_string l = scan_string_loop (reset l)"

section \<open>Comments\<close>

function skip_line_comment :: "lexer \<Rightarrow> lexer" where
  "skip_line_comment l0 =
     (let l = get l0 in
      case current l of
        None \<Rightarrow> l
      | Some c \<Rightarrow> if c = CHR 0x0A \<or> c = CHR 0x0D \<or> c = CHR 0x00 then l else skip_line_comment l)"
  by pat_completeness auto
termination
  by (relation "measure (\<lambda>l. length (pending l))") (auto dest: get_less)

lemma pending_unget: "current l = Some c \<Longrightarrow> \<not> next_unget l \<Longrightarrow> pending (unget l) = c # pending l"
  by (simp add: pending_def)

lemma unget_get_less:
  assumes "current (get l) = Some c"
  shows "length (pending (unget (get (get l)))) < length (pending l)"
proof (cases "current (get (get l))")
  case None
  then have "pending (unget (get (get l))) = []" by (simp add: pending_def)
  with pending_get_Some [OF assms] show ?thesis by simp
next
  case (Some d)
  with get_less [OF assms] pending_get_Some [OF Some] show ?thesis by (simp add: pending_unget)
qed

function skip_block_comment :: "lexer \<Rightarrow> bool \<times> lexer" where
  "skip_block_comment l0 =
     (let l = get l0 in
      case current l of
        None \<Rightarrow> (False, fail_with (''invalid comment; missing closing '' @ quoted ''*/'') l)
      | Some c \<Rightarrow>
          if c = CHR 0x00
          then (False, fail_with (''invalid comment; missing closing '' @ quoted ''*/'') l)
          else if c = CHR ''*'' then
            (let l1 = get l in
             if current l1 = Some (CHR ''/'') then (True, l1) else skip_block_comment (unget l1))
          else skip_block_comment l)"
  by pat_completeness auto
termination
  by (relation "measure (\<lambda>l. length (pending l))") (auto dest: get_less unget_get_less)

declare skip_line_comment.simps [simp del] skip_block_comment.simps [simp del]

definition scan_comment :: "lexer \<Rightarrow> bool \<times> lexer" where
  "scan_comment l0 =
     (let l = get l0 in
      if current l = Some (CHR ''/'') then (True, skip_line_comment l)
      else if current l = Some (CHR ''*'') then skip_block_comment l
      else (False, fail_with (''invalid comment; expecting '' @ quoted ''/'' @ '' or '' @ quoted ''*'' @
                              '' after '' @ quoted ''/'') l))"

section \<open>Number literals\<close>

text \<open>The labels of \<open>scan_number()\<close> and where a character sends each of them.\<close>

datatype num_state = Minus | Zero | Any1 | Decimal1 | Decimal2 | Exponent | Sign | Any2

datatype num_goto = Goto num_state | Done | Fail string

definition is_digit :: "char \<Rightarrow> bool" where
  "is_digit c \<longleftrightarrow> 0x30 \<le> (of_char c :: nat) \<and> of_char c \<le> (0x39 :: nat)"

definition is_exp :: "char \<Rightarrow> bool" where
  "is_exp c \<longleftrightarrow> c = CHR ''e'' \<or> c = CHR ''E''"

fun num_switch :: "num_state \<Rightarrow> char \<Rightarrow> num_goto" where
  "num_switch Minus c =
     (if c = CHR ''0'' then Goto Zero else if is_digit c then Goto Any1
      else Fail (''invalid number; expected digit after '' @ quoted ''-''))"
| "num_switch Zero c =
     (if c = CHR ''.'' then Goto Decimal1 else if is_exp c then Goto Exponent else Done)"
| "num_switch Any1 c =
     (if is_digit c then Goto Any1 else if c = CHR ''.'' then Goto Decimal1
      else if is_exp c then Goto Exponent else Done)"
| "num_switch Decimal1 c =
     (if is_digit c then Goto Decimal2
      else Fail (''invalid number; expected digit after '' @ quoted ''.''))"
| "num_switch Decimal2 c =
     (if is_digit c then Goto Decimal2 else if is_exp c then Goto Exponent else Done)"
| "num_switch Exponent c =
     (if c = CHR ''+'' \<or> c = CHR ''-'' then Goto Sign else if is_digit c then Goto Any2
      else Fail (''invalid number; expected '' @ quoted ''+'' @ '', '' @ quoted ''-'' @ '', or digit after exponent''))"
| "num_switch Sign c =
     (if is_digit c then Goto Any2 else Fail ''invalid number; expected digit after exponent sign'')"
| "num_switch Any2 c = (if is_digit c then Goto Any2 else Done)"

text \<open>End of file takes the default branch of each switch, like a character none names.\<close>

definition num_next :: "num_state \<Rightarrow> char option \<Rightarrow> num_goto" where
  "num_next st c = num_switch st (case c of None \<Rightarrow> CHR 0x00 | Some d \<Rightarrow> d)"

text \<open>The assignment to \<open>number_type\<close> at a label.\<close>

fun enter_type :: "num_state \<Rightarrow> token_type \<Rightarrow> token_type" where
  "enter_type Minus ty = Value_integer"
| "enter_type Decimal1 ty = Value_float"
| "enter_type Exponent ty = Value_float"
| "enter_type st ty = ty"

text \<open>\<open>std::strtod\<close> on the checked text: sign, digits, fraction, exponent, correctly rounded.\<close>

definition digits_val :: "string \<Rightarrow> nat" where
  "digits_val ds = foldl (\<lambda>n c. 10 * n + (of_char c - 0x30)) 0 ds"

definition strtod :: "string \<Rightarrow> double" where
  "strtod s0 =
     (let neg = (take 1 s0 = ''-'');
          s1 = (if neg then tl s0 else s0);
          ip = takeWhile is_digit s1;
          s2 = dropWhile is_digit s1;
          fp = (if take 1 s2 = ''.'' then takeWhile is_digit (tl s2) else []);
          s3 = (if take 1 s2 = ''.'' then dropWhile is_digit (tl s2) else s2);
          s4 = tl s3;
          eneg = (take 1 s4 = ''-'');
          s5 = (if take 1 s4 = ''-'' \<or> take 1 s4 = ''+'' then tl s4 else s4);
          ex = (if s3 = [] then 0
                else if eneg then - int (digits_val s5) else int (digits_val s5));
          e10 = ex - int (length fp);
          m = digits_val (ip @ fp)
      in mk_double neg (if 0 \<le> e10 then round_mag (m * 10 ^ nat e10) 1
                        else round_mag m (10 ^ nat (- e10))))"

definition u64_max :: int where "u64_max = 2 ^ 64 - 1"

text \<open>The code at \<open>scan_number_done\<close>: integers that fit, else a double.\<close>

definition scan_number_done :: "token_type \<Rightarrow> lexer \<Rightarrow> token_type \<times> lexer" where
  "scan_number_done ty l0 =
     (let l = unget l0; buf = token_buffer l;
          u = int (digits_val buf); i = - int (digits_val (tl buf))
      in if ty = Value_unsigned \<and> u \<le> u64_max
         then (Value_unsigned, l\<lparr>value_unsigned := u\<rparr>)
         else if ty = Value_integer \<and> i64_min \<le> i
         then (Value_integer, l\<lparr>value_integer := i\<rparr>)
         else (Value_float, l\<lparr>value_float := strtod buf\<rparr>))"

lemma num_next_None: "num_next st None \<noteq> Goto st'"
  by (cases st) (simp_all add: num_next_def is_digit_def is_exp_def)

lemma num_goto_less:
  assumes "num_next st (current (get l)) = Goto st'"
  shows "length (pending (get l)) < length (pending l)"
proof -
  obtain c where "current (get l) = Some c"
    using assms num_next_None by (cases "current (get l)") auto
  then show ?thesis by (rule get_less)
qed

function scan_number_from :: "num_state \<Rightarrow> token_type \<Rightarrow> lexer \<Rightarrow> token_type \<times> lexer" where
  "scan_number_from st ty0 l0 =
     (let ty = enter_type st ty0; l = get l0 in
      case num_next st (current l) of
        Goto st' \<Rightarrow> scan_number_from st' ty (add_current l)
      | Done \<Rightarrow> scan_number_done ty l
      | Fail msg \<Rightarrow> (Parse_error, fail_with msg l))"
  by pat_completeness auto

termination
  by (relation "measure (\<lambda>(st, ty, l). length (pending l))") (auto dest: num_goto_less)

declare scan_number_from.simps [simp del]

definition scan_number :: "lexer \<Rightarrow> token_type \<times> lexer" where
  "scan_number l0 =
     (let l = add_current (reset l0) in
      if current l = Some (CHR ''-'') then scan_number_from Minus Value_unsigned l
      else if current l = Some (CHR ''0'') then scan_number_from Zero Value_unsigned l
      else scan_number_from Any1 Value_unsigned l)"

section \<open>Literals, white space, tokens\<close>

fun scan_literal :: "string \<Rightarrow> token_type \<Rightarrow> lexer \<Rightarrow> token_type \<times> lexer" where
  "scan_literal [] ty l = (ty, l)"
| "scan_literal (c # cs) ty l =
     (let l1 = get l in
      if current l1 \<noteq> Some c then (Parse_error, fail_with ''invalid literal'' l1)
      else scan_literal cs ty l1)"

definition skip_bom :: "lexer \<Rightarrow> bool \<times> lexer" where
  "skip_bom l =
     (let l1 = get l in
      if current l1 = Some (CHR 0xEF) then
        (let l2 = get l1 in
         if current l2 \<noteq> Some (CHR 0xBB) then (False, l2)
         else let l3 = get l2 in (current l3 = Some (CHR 0xBF), l3))
      else (True, unget l1))"

definition is_space :: "char \<Rightarrow> bool" where
  "is_space c \<longleftrightarrow> c = CHR '' '' \<or> c = CHR 0x09 \<or> c = CHR 0x0A \<or> c = CHR 0x0D"

function skip_whitespace :: "lexer \<Rightarrow> lexer" where
  "skip_whitespace l0 =
     (let l = get l0 in
      case current l of
        None \<Rightarrow> l
      | Some c \<Rightarrow> if is_space c then skip_whitespace l else l)"
  by pat_completeness auto
termination
  by (relation "measure (\<lambda>l. length (pending l))") (auto dest: get_less)

declare skip_whitespace.simps [simp del]

text \<open>The switch of \<open>scan()\<close> on the first character of a token.\<close>

definition scan_token :: "lexer \<Rightarrow> token_type \<times> lexer" where
  "scan_token l =
     (case current l of
        None \<Rightarrow> (End_of_input, l)
      | Some c \<Rightarrow>
          if c = CHR ''['' then (Begin_array, l)
          else if c = CHR '']'' then (End_array, l)
          else if c = CHR ''{'' then (Begin_object, l)
          else if c = CHR ''}'' then (End_object, l)
          else if c = CHR '':'' then (Name_separator, l)
          else if c = CHR '','' then (Value_separator, l)
          else if c = CHR ''t'' then scan_literal ''rue'' Literal_true l
          else if c = CHR ''f'' then scan_literal ''alse'' Literal_false l
          else if c = CHR ''n'' then scan_literal ''ull'' Literal_null l
          else if c = CHR 0x22 then scan_string l
          else if c = CHR ''-'' \<or> is_digit c then scan_number l
          else if c = CHR 0x00 then (End_of_input, l)
          else (Parse_error, fail_with ''invalid literal'' l))"

lemma skip_whitespace_less:
  "current (skip_whitespace l) = Some c \<Longrightarrow> length (pending (skip_whitespace l)) < length (pending l)"
proof (induction l rule: skip_whitespace.induct)
  case (1 l)
  from "1.prems" obtain d where d: "current (get l) = Some d"
    by (cases "current (get l)") (simp_all add: skip_whitespace.simps [of l] Let_def)
  have less: "length (pending (get l)) < length (pending l)" using d by (rule get_less)
  show ?case
  proof (cases "is_space d")
    case False
    with d less show ?thesis by (simp add: skip_whitespace.simps [of l] Let_def)
  next
    case True
    then have eq: "skip_whitespace l = skip_whitespace (get l)"
      using d by (simp add: skip_whitespace.simps [of l] Let_def)
    with "1.IH" [OF refl d True] "1.prems" less show ?thesis by simp
  qed
qed

lemma skip_line_comment_le:
  "length (pending (skip_line_comment l)) \<le> length (pending l) \<or> current (skip_line_comment l) = None"
proof (induction l rule: skip_line_comment.induct)
  case (1 l)
  show ?case
  proof (cases "current (get l)")
    case None
    then show ?thesis by (simp add: skip_line_comment.simps [of l] Let_def)
  next
    case (Some c)
    show ?thesis
    proof (cases "c = CHR 0x0A \<or> c = CHR 0x0D \<or> c = CHR 0x00")
      case True
      with Some get_less [OF Some] show ?thesis by (auto simp: skip_line_comment.simps [of l] Let_def)
    next
      case False
      then have "skip_line_comment l = skip_line_comment (get l)"
        using Some by (simp add: skip_line_comment.simps [of l] Let_def)
      with "1.IH" [OF refl Some False] get_less [OF Some] show ?thesis by auto
    qed
  qed
qed

lemma skip_line_comment_next [simp]: "\<not> next_unget (skip_line_comment l)"
  by (induction l rule: skip_line_comment.induct)
    (subst skip_line_comment.simps, auto simp: Let_def split: option.splits)

lemma skip_line_comment_ia:
  "current (skip_line_comment l) = None \<Longrightarrow> next_unget l = False \<Longrightarrow> ia (skip_line_comment l) = []"
proof (induction l rule: skip_line_comment.induct)
  case (1 l)
  show ?case
  proof (cases "current (get l)")
    case None
    with "1.prems" show ?thesis
      by (auto simp: skip_line_comment.simps [of l] Let_def current_get split: list.splits)
  next
    case (Some c)
    with 1 show ?thesis
      by (auto simp: skip_line_comment.simps [of l] Let_def split: if_splits)
  qed
qed

lemma skip_block_comment_less:
  "skip_block_comment l = (True, l') \<Longrightarrow> length (pending l') < length (pending l)"
proof (induction l arbitrary: l' rule: skip_block_comment.induct)
  case (1 l)
  note unf = skip_block_comment.simps [of l]
  from "1.prems" obtain c where c: "current (get l) = Some c" "c \<noteq> CHR 0x00"
    by (auto simp: unf Let_def split: option.splits if_splits)
  note less = get_less [OF c(1)]
  show ?case
  proof (cases "c = CHR ''*''")
    case True
    show ?thesis
    proof (cases "current (get (get l)) = Some (CHR ''/'')")
      case slash: True
      with "1.prems" c True have "l' = get (get l)" by (simp add: unf Let_def)
      with get_less [OF slash] less show ?thesis by simp
    next
      case False
      with "1.prems" c True have "skip_block_comment (unget (get (get l))) = (True, l')"
        by (simp add: unf Let_def)
      with "1.IH"(1) [OF refl c True refl False] unget_get_less [OF c(1)] show ?thesis by force
    qed
  next
    case False
    with "1.prems" c have "skip_block_comment (get l) = (True, l')" by (simp add: unf Let_def)
    with "1.IH"(2) [OF refl c False] less show ?thesis by force
  qed
qed

lemma scan_comment_le:
  assumes "scan_comment l = (True, l')" "current (skip_whitespace l') = Some c"
  shows "length (pending (skip_whitespace l')) < length (pending l)"
proof (cases "current (get l) = Some (CHR ''/'')")
  case True
  with assms(1) have l': "l' = skip_line_comment (get l)" by (simp add: scan_comment_def Let_def)
  have "current l' \<noteq> None"
  proof
    assume "current l' = None"
    then have "ia l' = []" using skip_line_comment_ia [of "get l"] l' by simp
    then have "pending l' = []" using \<open>current l' = None\<close> by (simp add: pending_def)
    with skip_whitespace_less [OF assms(2)] show False by simp
  qed
  then have "length (pending l') \<le> length (pending (get l))"
    using skip_line_comment_le [of "get l"] l' by auto
  with skip_whitespace_less [OF assms(2)] get_less [OF True] show ?thesis by simp
next
  case False
  with assms(1) have "current (get l) = Some (CHR ''*'')" "skip_block_comment (get l) = (True, l')"
    by (auto simp: scan_comment_def Let_def split: if_splits)
  with skip_block_comment_less get_less skip_whitespace_less [OF assms(2)] show ?thesis
    by (meson less_trans)
qed

lemma scan_comment_progress:
  assumes "scan_comment l = (True, l')"
  shows "length (pending (skip_whitespace l')) < length (pending l) \<or> current (skip_whitespace l') = None"
  using scan_comment_le [OF assms] by (cases "current (skip_whitespace l')") auto

text \<open>\<open>scan()\<close> after white space: the loop over comments, then the token.\<close>

function scan_skip_comments :: "lexer \<Rightarrow> token_type \<times> lexer" where
  "scan_skip_comments l =
     (if ignore_comments l \<and> current l = Some (CHR ''/'') then
        (case scan_comment l of
           (False, l1) \<Rightarrow> (Parse_error, l1)
         | (True, l1) \<Rightarrow> scan_skip_comments (skip_whitespace l1))
      else scan_token l)"
  by pat_completeness auto

termination
  by (relation "measure (\<lambda>l. if current l = None then 0 else Suc (length (pending l)))")
    (auto dest: scan_comment_progress [OF sym])

declare scan_skip_comments.simps [simp del]

definition scan :: "lexer \<Rightarrow> token_type \<times> lexer" where
  "scan l =
     (case (if chars_read_total l = 0 then skip_bom l else (True, l)) of
        (False, l1) \<Rightarrow>
          (Parse_error, fail_with ''invalid BOM; must be 0xEF 0xBB 0xBF if given'' l1)
      | (True, l1) \<Rightarrow> scan_skip_comments (skip_whitespace l1))"

end
