(* ===== verification/JsonParser.thy ===== *)
theory JsonParser
  imports JsonLexer
begin

text \<open>
  The classes \<open>parser\<close> and \<open>json_sax_dom_parser\<close> of \<open>src/cpp/include/nlohmann/json.hpp\<close>,
  without parser callback, and \<open>basic_json::parse\<close>.

  The DOM builder keeps pointers into the value under construction. Here each pointer of
  \<open>ref_stack\<close> is a frame that holds the open container itself, the innermost first; closing
  a container writes it where its pointer pointed, into the frame below or into \<open>root\<close>.
\<close>

section \<open>Tokens are progress\<close>

lemma pending_unget_get_le: "length (pending (unget (get l))) \<le> length (pending l)"
proof (cases "current (get l)")
  case None
  then show ?thesis by (simp add: pending_def [of "unget (get l)"])
next
  case (Some c)
  with pending_get_Some [OF Some] show ?thesis by (simp add: pending_unget)
qed

lemma pending_upd [simp]:
  "pending (l\<lparr>value_unsigned := u\<rparr>) = pending l" "pending (l\<lparr>value_integer := i\<rparr>) = pending l"
  "pending (l\<lparr>value_float := x\<rparr>) = pending l"
  by (auto simp: pending_def split: option.splits)

lemma scan_string_le:
  "scan_string_loop l = (Value_string, l') \<Longrightarrow> length (pending l') \<le> length (pending l)"
proof (induction l rule: scan_string_loop.induct)
  case (1 l0)
  note unf = scan_string_loop.simps [of l0]
  from "1.prems" obtain c where c: "current (get l0) = Some c"
    by (auto simp: unf Let_def split: option.splits)
  note less = get_less [OF c]
  consider "c = CHR 0x22" | l1 where "c = CHR 0x5C" "scan_escape (get l0) = (True, l1)"
      "scan_string_loop l1 = (Value_string, l')"
    | "c \<noteq> CHR 0x22" "c \<noteq> CHR 0x5C" "\<not> of_char c \<le> (0x1F :: nat)" "of_char c \<le> (0x7F :: nat)"
      "scan_string_loop (add_current (get l0)) = (Value_string, l')"
    | rs l1 where "c \<noteq> CHR 0x22" "c \<noteq> CHR 0x5C" "\<not> of_char c \<le> (0x1F :: nat)" "\<not> of_char c \<le> (0x7F :: nat)"
      "utf8_ranges (of_char c) = Some rs" "next_byte_in_range rs (get l0) = (True, l1)"
      "scan_string_loop l1 = (Value_string, l')"
    using "1.prems" c
    by (auto simp: unf Let_def split: if_splits option.splits prod.splits bool.splits)
  then show ?case
  proof cases
    case 1
    with "1.prems" c less show ?thesis by (simp add: unf Let_def)
  next
    case 2
    from "1.IH"(1) [OF refl c refl _ 2(1) 2(2) [symmetric] refl] 2 scan_escape_less [OF 2(2)] less
    show ?thesis by simp
  next
    case 3
    from "1.IH"(2) [OF refl c refl 3(1-4)] 3(5) less show ?thesis by simp
  next
    case 4
    from "1.IH"(3) [OF refl c refl 4(1-5) 4(6) [symmetric] refl] 4(7) next_byte_le [OF 4(6)] less
    show ?thesis by simp
  qed
qed

lemma scan_string_error: "scan_string_loop l = (tok, l') \<Longrightarrow> tok = Value_string \<or> tok = Parse_error"
proof (induction l rule: scan_string_loop.induct)
  case (1 l0)
  then show ?case
    unfolding scan_string_loop.simps [of l0]
    by (auto simp: Let_def split: if_splits option.splits prod.splits bool.splits)
qed

lemma scan_number_done_le:
  "scan_number_done ty (get l) = (tok, l') \<Longrightarrow> length (pending l') \<le> length (pending l)"
  using pending_unget_get_le [of l]
  by (auto simp: scan_number_done_def Let_def split: if_splits)

lemma scan_number_le:
  "scan_number_from st ty l = (tok, l') \<Longrightarrow> tok \<noteq> Parse_error \<Longrightarrow>
     length (pending l') \<le> length (pending l)"
proof (induction st ty l rule: scan_number_from.induct)
  case (1 st ty l)
  note unf = scan_number_from.simps [of st ty l]
  show ?case
  proof (cases "num_next st (current (get l))")
    case (Goto st')
    from "1.IH" [OF refl refl Goto] "1.prems" Goto num_goto_less [OF Goto] show ?thesis
      by (simp add: unf Let_def)
  next
    case Done
    with "1.prems" show ?thesis by (simp add: unf Let_def scan_number_done_le)
  next
    case (Fail msg)
    with "1.prems" show ?thesis by (simp add: unf Let_def)
  qed
qed

lemma scan_literal_le:
  "scan_literal cs ty l = (tok, l') \<Longrightarrow> tok \<noteq> Parse_error \<Longrightarrow> length (pending l') \<le> length (pending l)"
proof (induction cs ty l rule: scan_literal.induct)
  case (2 c cs ty l)
  then have c: "current (get l) = Some c" by (auto simp: Let_def split: if_splits)
  with "2.IH" [OF refl] "2.prems" get_less [OF c] show ?case by (simp add: Let_def)
qed simp

lemma scan_token_le:
  assumes "scan_token l = (tok, l')" "tok \<noteq> Parse_error"
  shows "length (pending l') \<le> length (pending l)"
proof (cases "current l")
  case None
  with assms show ?thesis by (simp add: scan_token_def)
next
  case (Some c)
  have num: "scan_number l = (tok, l') \<Longrightarrow> ?thesis"
    using scan_number_le [of _ _ "add_current (reset l)" tok l'] assms(2)
    by (auto simp: scan_number_def Let_def split: if_splits)
  have str: "scan_string l = (tok, l') \<Longrightarrow> ?thesis"
    using scan_string_le [of "reset l" l'] scan_string_error [of "reset l" tok l'] assms(2)
    by (auto simp: scan_string_def)
  have lit: "scan_literal cs ty l = (tok, l') \<Longrightarrow> ?thesis" for cs ty
    using scan_literal_le assms(2) by blast
  show ?thesis
    using assms Some num str lit
    by (auto simp: scan_token_def simp del: scan_literal.simps split: if_splits)
qed

lemma scan_at_eof: "current l = None \<Longrightarrow> scan_skip_comments l = (End_of_input, l)"
  by (simp add: scan_skip_comments.simps [of l] scan_token_def)

lemma scan_skip_comments_le:
  "scan_skip_comments l = (tok, l') \<Longrightarrow> tok \<noteq> Parse_error \<Longrightarrow> tok \<noteq> End_of_input \<Longrightarrow>
     length (pending l') \<le> length (pending l)"
proof (induction l rule: scan_skip_comments.induct)
  case (1 l)
  note unf = scan_skip_comments.simps [of l]
  show ?case
  proof (cases "ignore_comments l \<and> current l = Some (CHR ''/'')")
    case False
    with "1.prems" have "scan_token l = (tok, l')" by (simp add: unf)
    then show ?thesis using "1.prems"(2) by (rule scan_token_le)
  next
    case True
    with "1.prems" obtain l1 where l1: "scan_comment l = (True, l1)"
      and rest: "scan_skip_comments (skip_whitespace l1) = (tok, l')"
      by (auto simp: unf split: prod.splits bool.splits)
    have "current (skip_whitespace l1) \<noteq> None"
      using rest "1.prems" scan_at_eof by force
    with scan_comment_progress [OF l1] "1.IH" [OF True l1 [symmetric] refl] rest "1.prems"(2,3)
    show ?thesis by simp
  qed
qed

lemma skip_bom_le: "skip_bom l = (True, l') \<Longrightarrow> length (pending l') \<le> length (pending l)"
  using pending_unget_get_le [of l]
  by (auto simp: skip_bom_def Let_def split: if_splits dest!: pending_get_Some)

lemma scan_less:
  assumes "scan l = (tok, l')" "tok \<noteq> Parse_error" "tok \<noteq> End_of_input"
  shows "length (pending l') < length (pending l)"
proof -
  from assms obtain l1 where l1: "length (pending l1) \<le> length (pending l)"
    and s: "scan_skip_comments (skip_whitespace l1) = (tok, l')"
    using skip_bom_le [of l] by (auto simp: scan_def split: if_splits prod.splits bool.splits)
  have "current (skip_whitespace l1) \<noteq> None"
    using s assms(2,3) scan_at_eof by force
  then have "length (pending (skip_whitespace l1)) < length (pending l1)"
    using skip_whitespace_less by blast
  with scan_skip_comments_le [OF s assms(2,3)] l1 show ?thesis by simp
qed

section \<open>The value under construction\<close>

datatype frame = In_array "json list" | In_object "(string \<times> json) list" string

fun frame_value :: "frame \<Rightarrow> json" where
  "frame_value (In_array vs) = JArray vs"
| "frame_value (In_object ms k) = JObject ms"

record dom =
  root :: json
  ref_stack :: "frame list"

text \<open>
  \<open>handle_value\<close>: a new root, a new last array element, or the value of the key that
  \<open>object_element\<close> points to (the second component of an object frame, meaningful after
  \<open>key\<close> was called).
\<close>

definition handle_value :: "json \<Rightarrow> dom \<Rightarrow> dom" where
  "handle_value v d =
     (case ref_stack d of
        [] \<Rightarrow> d\<lparr>root := v\<rparr>
      | In_array vs # fs \<Rightarrow> d\<lparr>ref_stack := In_array (vs @ [v]) # fs\<rparr>
      | In_object ms k # fs \<Rightarrow> d\<lparr>ref_stack := In_object (obj_assign k v ms) k # fs\<rparr>)"

definition start_object :: "dom \<Rightarrow> dom" where
  "start_object d = d\<lparr>ref_stack := In_object [] [] # ref_stack d\<rparr>"

definition start_array :: "dom \<Rightarrow> dom" where
  "start_array d = d\<lparr>ref_stack := In_array [] # ref_stack d\<rparr>"

text \<open>\<open>operator[]\<close> adds null under a key that is not there.\<close>

definition dom_key :: "string \<Rightarrow> dom \<Rightarrow> dom" where
  "dom_key k d =
     (case ref_stack d of
        In_object ms k0 # fs \<Rightarrow> d\<lparr>ref_stack := In_object (obj_emplace k JNull ms) k # fs\<rparr>
      | fs \<Rightarrow> d)"

text \<open>\<open>end_object\<close> and \<open>end_array\<close>.\<close>

definition end_container :: "dom \<Rightarrow> dom" where
  "end_container d =
     (case ref_stack d of [] \<Rightarrow> d | f # fs \<Rightarrow> handle_value (frame_value f) (d\<lparr>ref_stack := fs\<rparr>))"

section \<open>The parser\<close>

text \<open>\<open>states\<close> has the innermost container first; true stands for an array.\<close>

record parser =
  last_token :: token_type
  m_lexer :: lexer
  sax :: dom
  states :: "bool list"

definition get_token :: "parser \<Rightarrow> parser" where
  "get_token p = (case scan (m_lexer p) of (t, l) \<Rightarrow> p\<lparr>last_token := t, m_lexer := l\<rparr>)"

definition exception_message :: "parser \<Rightarrow> token_type \<Rightarrow> string \<Rightarrow> string" where
  "exception_message p expected ctx =
     ''syntax error '' @ (if ctx \<noteq> [] then ''while parsing '' @ ctx @ '' '' else []) @ ''- '' @
     (if last_token p = Parse_error
      then error_message (m_lexer p) @ ''; last read: '' @ quoted (get_token_string (m_lexer p))
      else ''unexpected '' @ token_type_name (last_token p)) @
     (if expected \<noteq> Uninitialized then ''; expected '' @ token_type_name expected else [])"

text \<open>\<open>std::to_string\<close> of an unsigned number.\<close>

fun dec :: "nat \<Rightarrow> string" where
  "dec n = (if n < 10 then [char_of (0x30 + n)] else dec (n div 10) @ [char_of (0x30 + n mod 10)])"

declare dec.simps [simp del]

text \<open>\<open>parse_error::create(101, position, ...)\<close>.\<close>

definition parse_error :: "parser \<Rightarrow> string \<Rightarrow> exn" where
  "parse_error p msg = Json_exception 101
     (c_str (''[json.exception.parse_error.101] parse error at line '' @
       dec (lines_read (m_lexer p) + 1) @ '', column '' @ dec (chars_read_current_line (m_lexer p)) @
       '': '' @ msg))"

definition unexpected :: "parser \<Rightarrow> token_type \<Rightarrow> string \<Rightarrow> exn" where
  "unexpected p expected ctx = parse_error p (exception_message p expected ctx)"

text \<open>
  How a piece of the loop of \<open>sax_parse_internal\<close> ends: with an error, with the whole value
  read, or going on, where the flag says that a value was just completed.
\<close>

datatype step = Raise exn | Finished parser | Continue bool parser

definition on_sax :: "(dom \<Rightarrow> dom) \<Rightarrow> parser \<Rightarrow> parser" where
  "on_sax f p = p\<lparr>sax := f (sax p)\<rparr>"

text \<open>A key, the colon behind it, and the first token of the value.\<close>

definition parse_key :: "(parser \<Rightarrow> parser) \<Rightarrow> parser \<Rightarrow> step" where
  "parse_key enter p =
     (if last_token p \<noteq> Value_string then Raise (unexpected p Value_string ''object key'')
      else let p1 = get_token (on_sax (dom_key (token_buffer (m_lexer p))) p) in
        if last_token p1 \<noteq> Name_separator then Raise (unexpected p1 Name_separator ''object separator'')
        else Continue False (get_token (enter p1)))"

text \<open>The switch on \<open>last_token\<close>.\<close>

definition value_switch :: "parser \<Rightarrow> step" where
  "value_switch p =
     (let l = m_lexer p; value = (\<lambda>v. Continue True (on_sax (handle_value v) p)) in
      case last_token p of
        Begin_object \<Rightarrow>
          (let p1 = get_token (on_sax start_object p) in
           if last_token p1 = End_object then Continue True (on_sax end_container p1)
           else parse_key (\<lambda>q. q\<lparr>states := False # states q\<rparr>) p1)
      | Begin_array \<Rightarrow>
          (let p1 = get_token (on_sax start_array p) in
           if last_token p1 = End_array then Continue True (on_sax end_container p1)
           else Continue False (p1\<lparr>states := True # states p1\<rparr>))
      | Value_float \<Rightarrow>
          if \<not> is_finite (value_float l)
          then Raise (out_of_range 406 ''406'' (''number overflow parsing '' @ quoted (get_token_string l)))
          else value (JFloat (value_float l))
      | Literal_false \<Rightarrow> value (JBool False)
      | Literal_null \<Rightarrow> value JNull
      | Literal_true \<Rightarrow> value (JBool True)
      | Value_integer \<Rightarrow> value (JInt (value_integer l))
      | Value_string \<Rightarrow> value (JString (token_buffer l))
      | Value_unsigned \<Rightarrow> value (JUnsigned (value_unsigned l))
      | Parse_error \<Rightarrow> Raise (unexpected p Uninitialized ''value'')
      | End_of_input \<Rightarrow>
          if chars_read_total l = 1
          then Raise (parse_error p (''attempting to parse an empty input; check that your input '' @
                                     ''string or stream contains the expected JSON''))
          else Raise (unexpected p Literal_or_value ''value'')
      | _ \<Rightarrow> Raise (unexpected p Literal_or_value ''value''))"

text \<open>What follows a completed value.\<close>

definition state_eval :: "parser \<Rightarrow> step" where
  "state_eval p =
     (case states p of
        [] \<Rightarrow> Finished p
      | True # ss \<Rightarrow>
          (let p1 = get_token p in
           if last_token p1 = Value_separator then Continue False (get_token p1)
           else if last_token p1 = End_array
           then Continue True ((on_sax end_container p1)\<lparr>states := ss\<rparr>)
           else Raise (unexpected p1 End_array ''array''))
      | False # ss \<Rightarrow>
          (let p1 = get_token p in
           if last_token p1 = Value_separator then parse_key (\<lambda>q. q) (get_token p1)
           else if last_token p1 = End_object
           then Continue True ((on_sax end_container p1)\<lparr>states := ss\<rparr>)
           else Raise (unexpected p1 End_object ''object'')))"

definition stops :: "token_type \<Rightarrow> bool" where
  "stops t \<longleftrightarrow> t = Parse_error \<or> t = End_of_input"

abbreviation ahead :: "parser \<Rightarrow> nat" where
  "ahead p \<equiv> length (pending (m_lexer p))"

lemma get_token_less: "\<not> stops (last_token (get_token p)) \<Longrightarrow> ahead (get_token p) < ahead p"
  using scan_less [of "m_lexer p"] by (auto simp: get_token_def stops_def split: prod.splits)

lemma get_token_simps [simp]:
  "sax (get_token p) = sax p" "states (get_token p) = states p"
  by (auto simp: get_token_def split: prod.splits)

lemma on_sax_simps [simp]:
  "m_lexer (on_sax f p) = m_lexer p" "last_token (on_sax f p) = last_token p"
  "states (on_sax f p) = states p" "sax (on_sax f p) = f (sax p)"
  by (simp_all add: on_sax_def)

text \<open>The measure that every round of the loop decreases.\<close>

definition fuel :: "bool \<Rightarrow> parser \<Rightarrow> nat" where
  "fuel skip p = (if \<not> skip \<and> stops (last_token p) then 0 else Suc (ahead p))"

lemma fuel_get_token: "ahead p < n \<Longrightarrow> fuel False (get_token p) < Suc n"
  using get_token_less [of p] by (auto simp: fuel_def)

lemma parse_key_fuel:
  assumes "parse_key enter p = Continue b p'" "\<And>q. m_lexer (enter q) = m_lexer q" "ahead p < n"
  shows "fuel b p' < Suc n"
proof -
  let ?q = "get_token (on_sax (dom_key (token_buffer (m_lexer p))) p)"
  from assms(1) have q: "last_token ?q = Name_separator" "b = False" "p' = get_token (enter ?q)"
    by (auto simp: parse_key_def Let_def split: if_splits)
  from q(1) have "ahead ?q < ahead (on_sax (dom_key (token_buffer (m_lexer p))) p)"
    by (intro get_token_less) (simp add: stops_def)
  with assms(2,3) have "ahead (enter ?q) < n" by simp
  with q show ?thesis by (simp add: fuel_get_token)
qed

lemma value_switch_fuel:
  assumes "value_switch p = Continue b p'"
  shows "fuel b p' < fuel False p \<or> (b \<and> ahead p' \<le> ahead p \<and> \<not> stops (last_token p))"
proof -
  have o: "ahead (get_token (on_sax f p)) < ahead p" if "\<not> stops (last_token (get_token (on_sax f p)))" for f
    using get_token_less [OF that] by simp
  show ?thesis
  proof (cases "last_token p")
    case Begin_object
    let ?p1 = "get_token (on_sax start_object p)"
    show ?thesis
    proof (cases "last_token ?p1 = End_object")
      case True
      with assms Begin_object o [of start_object] show ?thesis
        by (auto simp: value_switch_def Let_def stops_def)
    next
      case False
      with assms Begin_object have k: "parse_key (\<lambda>q. q\<lparr>states := False # states q\<rparr>) ?p1 = Continue b p'"
        by (simp add: value_switch_def Let_def)
      then have "last_token ?p1 = Value_string" by (auto simp: parse_key_def split: if_splits)
      then have "ahead ?p1 < ahead p" by (intro o) (simp add: stops_def)
      then have "fuel b p' < Suc (ahead p)" by (intro parse_key_fuel [OF k]) simp_all
      with Begin_object show ?thesis by (simp add: fuel_def stops_def)
    qed
  next
    case Begin_array
    let ?p1 = "get_token (on_sax start_array p)"
    show ?thesis
    proof (cases "last_token ?p1 = End_array")
      case True
      with assms Begin_array o [of start_array] show ?thesis
        by (auto simp: value_switch_def Let_def stops_def)
    next
      case False
      with assms Begin_array have "b = False" "p' = ?p1\<lparr>states := True # states ?p1\<rparr>"
        by (auto simp: value_switch_def Let_def)
      with Begin_array o [of start_array] show ?thesis by (auto simp: fuel_def stops_def)
    qed
  qed (use assms in \<open>auto simp: value_switch_def Let_def stops_def split: if_splits\<close>)
qed

lemma state_eval_fuel:
  assumes "state_eval p = Continue b p'"
  shows "fuel b p' < Suc (ahead p)"
proof -
  obtain a ss where ss: "states p = a # ss" using assms by (cases "states p") (auto simp: state_eval_def)
  let ?p1 = "get_token p"
  have o: "ahead ?p1 < ahead p" if "\<not> stops (last_token ?p1)" using get_token_less [OF that] .
  show ?thesis
  proof (cases "last_token ?p1 = Value_separator")
    case True
    then have less: "ahead ?p1 < ahead p" by (intro o) (simp add: stops_def)
    show ?thesis
    proof (cases a)
      case True': True
      with assms ss True have "b = False" "p' = get_token ?p1" by (auto simp: state_eval_def Let_def)
      with less show ?thesis by (simp add: fuel_get_token)
    next
      case False
      with assms ss True have k: "parse_key (\<lambda>q. q) (get_token ?p1) = Continue b p'"
        by (simp add: state_eval_def Let_def)
      then have "last_token (get_token ?p1) = Value_string" by (auto simp: parse_key_def split: if_splits)
      then have "ahead (get_token ?p1) < ahead ?p1" by (intro get_token_less) (simp add: stops_def)
      with less show ?thesis by (intro parse_key_fuel [OF k]) simp_all
    qed
  next
    case False
    with assms ss have "b = True" "p' = (on_sax end_container ?p1)\<lparr>states := ss\<rparr>"
      and "\<not> stops (last_token ?p1)"
      by (auto simp: state_eval_def Let_def stops_def split: if_splits bool.splits)
    with o show ?thesis by (simp add: fuel_def)
  qed
qed

lemma loop_fuel1:
  "Continue False p1 = (if skip then Continue True p else value_switch p) \<Longrightarrow> fuel False p1 < fuel skip p"
  using value_switch_fuel [of p False p1] by (auto split: if_splits)

lemma loop_fuel2:
  assumes "Continue True p1 = (if skip then Continue True p else value_switch p)"
    and "Continue b p2 = state_eval p1"
  shows "fuel b p2 < fuel skip p"
proof -
  have s: "fuel b p2 < Suc (ahead p1)" using state_eval_fuel assms(2) by simp
  have "Suc (ahead p1) \<le> fuel skip p"
    using assms(1) value_switch_fuel [of p True p1] by (auto simp: fuel_def split: if_splits)
  with s show ?thesis by simp
qed

text \<open>The loop.\<close>

function sax_parse_loop :: "bool \<Rightarrow> parser \<Rightarrow> parser res" where
  "sax_parse_loop skip p =
     (case (if skip then Continue True p else value_switch p) of
        Raise e \<Rightarrow> Inl e
      | Finished p1 \<Rightarrow> Inr p1
      | Continue False p1 \<Rightarrow> sax_parse_loop False p1
      | Continue True p1 \<Rightarrow>
          (case state_eval p1 of
             Raise e \<Rightarrow> Inl e
           | Finished p2 \<Rightarrow> Inr p2
           | Continue b p2 \<Rightarrow> sax_parse_loop b p2))"
  by pat_completeness auto

termination
  by (relation "measure (\<lambda>(skip, p). fuel skip p)") (auto dest: loop_fuel1 [OF sym] loop_fuel2 [OF sym sym])

declare sax_parse_loop.simps [simp del]

definition new_parser :: "string \<Rightarrow> bool \<Rightarrow> parser" where
  "new_parser s comments =
     get_token \<lparr>last_token = Uninitialized, m_lexer = new_lexer s comments,
       sax = \<lparr>root = JNull, ref_stack = []\<rparr>, states = []\<rparr>"

text \<open>\<open>parser::parse\<close> in strict mode: behind the value there must be the end of input.\<close>

definition parser_parse :: "parser \<Rightarrow> json res" where
  "parser_parse p =
     res_bind (sax_parse_loop False p) (\<lambda>p1.
       let p2 = get_token p1 in
       if last_token p2 \<noteq> End_of_input then Inl (unexpected p2 End_of_input ''value'')
       else Inr (root (sax p2)))"

text \<open>
  \<open>json::parse(s, nullptr, allow_exceptions, ignore_comments)\<close>: without exceptions an error
  gives the discarded value.
\<close>

definition json_parse_with :: "bool \<Rightarrow> bool \<Rightarrow> string \<Rightarrow> json res" where
  "json_parse_with allow_exceptions comments s =
     (case parser_parse (new_parser s comments) of
        Inr v \<Rightarrow> Inr v
      | Inl e \<Rightarrow> if allow_exceptions then Inl e else Inr JDiscarded)"

definition json_parse :: "string \<Rightarrow> json res" where
  "json_parse s = json_parse_with True False s"

section \<open>What can go wrong\<close>

text \<open>Every error of the parser is a \<open>parse_error.101\<close> or an \<open>out_of_range.406\<close>.\<close>

fun parser_exn :: "exn \<Rightarrow> bool" where
  "parser_exn (Json_exception n m) \<longleftrightarrow> n = 101 \<or> n = 406"
| "parser_exn (Invalid_argument m) \<longleftrightarrow> False"
| "parser_exn (Runtime_error m) \<longleftrightarrow> False"
| "parser_exn (Out_of_range m) \<longleftrightarrow> False"
| "parser_exn (Logic_error m) \<longleftrightarrow> False"
| "parser_exn (Undefined m) \<longleftrightarrow> False"

lemma parser_exn_intros [simp]: "parser_exn (unexpected p t ctx)" "parser_exn (parse_error p msg)"
  "parser_exn (out_of_range 406 num msg)"
  by (simp_all add: unexpected_def parse_error_def out_of_range_def)

lemma parse_key_exn: "parse_key f p = Raise e \<Longrightarrow> parser_exn e"
  by (auto simp: parse_key_def Let_def split: if_splits)

lemma value_switch_exn: "value_switch p = Raise e \<Longrightarrow> parser_exn e"
  by (auto simp: value_switch_def Let_def dest: parse_key_exn split: token_type.splits if_splits)

lemma state_eval_exn: "state_eval p = Raise e \<Longrightarrow> parser_exn e"
  by (auto simp: state_eval_def Let_def dest: parse_key_exn split: list.splits bool.splits if_splits)

lemma sax_parse_loop_exn: "sax_parse_loop skip p = Inl e \<Longrightarrow> parser_exn e"
proof (induction skip p rule: sax_parse_loop.induct)
  case (1 skip p)
  note unf = sax_parse_loop.simps [of skip p]
  show ?case
  proof (cases "if skip then Continue True p else value_switch p")
    case (Raise e')
    with 1 unf value_switch_exn show ?thesis by (auto split: if_splits)
  next
    case (Finished p1)
    with 1 unf show ?thesis by simp
  next
    case (Continue b p1)
    show ?thesis
    proof (cases b)
      case False
      with 1 unf Continue show ?thesis by simp
    next
      case True
      with 1 unf Continue state_eval_exn show ?thesis by (cases "state_eval p1") auto
    qed
  qed
qed

lemma json_parse_exn: "json_parse s = Inl e \<Longrightarrow> parser_exn e"
  by (auto simp: json_parse_def json_parse_with_def parser_parse_def Let_def
      dest: sax_parse_loop_exn simp: res_bind_Inl split: sum.splits if_splits)

text \<open>The definitions a concrete text is evaluated with.\<close>

lemmas run_lexer = new_lexer_def scan_def skip_bom_def get_def get_character_def unget_def
  skip_whitespace.simps scan_skip_comments.simps scan_token_def scan_literal.simps is_space_def
  reset_def fail_with_def

lemmas run_parser = json_parse_def json_parse_with_def parser_parse_def new_parser_def get_token_def
  sax_parse_loop.simps value_switch_def state_eval_def on_sax_def handle_value_def run_lexer

lemma json_parse_true: "json_parse ''true'' = Inr (JBool True)"
  by (simp add: run_parser)

end
