(* ===== verification/Dtoa.thy ===== *)
theory Dtoa
  imports Double
begin

unbundle bit_operations_syntax

text \<open>
  The namespace \<open>dtoa_impl\<close> of \<open>src/cpp/include/nlohmann/json.hpp\<close>, Grisu2, and \<open>to_chars\<close>
  on top of it. Unsigned 64-bit and 32-bit integers are words; the character buffer is the
  list of the digits written so far, the digit \<open>d\<close> for the character \<open>'0' + d\<close>. The loops
  whose end rests on the arithmetic are \<open>partial_function (option)\<close>: \<open>None\<close> would be a loop
  that never ends.
\<close>

section \<open>Hand-made floating point\<close>

record diyfp =
  f_of :: "64 word"
  e_of :: int

definition diyfp_sub :: "diyfp \<Rightarrow> diyfp \<Rightarrow> diyfp" where
  "diyfp_sub x y = \<lparr>f_of = f_of x - f_of y, e_of = e_of x\<rparr>"

definition diyfp_mul :: "diyfp \<Rightarrow> diyfp \<Rightarrow> diyfp" where
  "diyfp_mul x y =
     (let u_lo = f_of x AND 0xFFFFFFFF; u_hi = drop_bit 32 (f_of x);
          v_lo = f_of y AND 0xFFFFFFFF; v_hi = drop_bit 32 (f_of y);
          p0 = u_lo * v_lo; p1 = u_lo * v_hi; p2 = u_hi * v_lo; p3 = u_hi * v_hi;
          p0_hi = drop_bit 32 p0;
          p1_lo = p1 AND 0xFFFFFFFF; p1_hi = drop_bit 32 p1;
          p2_lo = p2 AND 0xFFFFFFFF; p2_hi = drop_bit 32 p2;
          Q = p0_hi + p1_lo + p2_lo + push_bit 31 1;
          h = p3 + p2_hi + p1_hi + drop_bit 32 Q
      in \<lparr>f_of = h, e_of = e_of x + e_of y + 64\<rparr>)"

partial_function (option) diyfp_normalize :: "diyfp \<Rightarrow> diyfp option" where
  "diyfp_normalize x =
     (if drop_bit 63 (f_of x) = 0
      then diyfp_normalize \<lparr>f_of = push_bit 1 (f_of x), e_of = e_of x - 1\<rparr>
      else Some x)"

definition diyfp_normalize_to :: "diyfp \<Rightarrow> int \<Rightarrow> diyfp" where
  "diyfp_normalize_to x target = \<lparr>f_of = push_bit (nat (e_of x - target)) (f_of x), e_of = target\<rparr>"

text \<open>The value and its boundaries as \<open>(w, minus, plus)\<close>.\<close>

definition compute_boundaries :: "double \<Rightarrow> (diyfp \<times> diyfp \<times> diyfp) option" where
  "compute_boundaries bits =
     (let kBias = 1023 + 52; kMinExp = 1 - kBias; kHiddenBit = push_bit 52 1;
          E = drop_bit 52 bits; F = bits AND (kHiddenBit - 1);
          v = (if E = 0 then \<lparr>f_of = F, e_of = kMinExp\<rparr>
               else \<lparr>f_of = F + kHiddenBit, e_of = uint E - kBias\<rparr>);
          closer = (F = 0 \<and> 1 < E);
          m_plus = \<lparr>f_of = 2 * f_of v + 1, e_of = e_of v - 1\<rparr>;
          m_minus = (if closer then \<lparr>f_of = 4 * f_of v - 1, e_of = e_of v - 2\<rparr>
                     else \<lparr>f_of = 2 * f_of v - 1, e_of = e_of v - 1\<rparr>)
      in case diyfp_normalize m_plus of
           None \<Rightarrow> None
         | Some w_plus \<Rightarrow>
             (case diyfp_normalize v of
                None \<Rightarrow> None
              | Some w \<Rightarrow> Some (w, diyfp_normalize_to m_minus (e_of w_plus), w_plus)))"

section \<open>Cached powers of ten\<close>

definition kAlpha :: int where "kAlpha = - 60"

text \<open>The rows \<open>(f, e, k)\<close> with \<open>f * 2 ^ e\<close> close to \<open>10 ^ k\<close>.\<close>

definition kCachedPowers :: "(64 word \<times> int \<times> int) list" where
  "kCachedPowers =
    [(0xAB70FE17C79AC6CA, - 1060, - 300), (0xFF77B1FCBEBCDC4F, - 1034, - 292),
     (0xBE5691EF416BD60C, - 1007, - 284), (0x8DD01FAD907FFC3C, - 980, - 276),
     (0xD3515C2831559A83, - 954, - 268), (0x9D71AC8FADA6C9B5, - 927, - 260),
     (0xEA9C227723EE8BCB, - 901, - 252), (0xAECC49914078536D, - 874, - 244),
     (0x823C12795DB6CE57, - 847, - 236), (0xC21094364DFB5637, - 821, - 228),
     (0x9096EA6F3848984F, - 794, - 220), (0xD77485CB25823AC7, - 768, - 212),
     (0xA086CFCD97BF97F4, - 741, - 204), (0xEF340A98172AACE5, - 715, - 196),
     (0xB23867FB2A35B28E, - 688, - 188), (0x84C8D4DFD2C63F3B, - 661, - 180),
     (0xC5DD44271AD3CDBA, - 635, - 172), (0x936B9FCEBB25C996, - 608, - 164),
     (0xDBAC6C247D62A584, - 582, - 156), (0xA3AB66580D5FDAF6, - 555, - 148),
     (0xF3E2F893DEC3F126, - 529, - 140), (0xB5B5ADA8AAFF80B8, - 502, - 132),
     (0x87625F056C7C4A8B, - 475, - 124), (0xC9BCFF6034C13053, - 449, - 116),
     (0x964E858C91BA2655, - 422, - 108), (0xDFF9772470297EBD, - 396, - 100),
     (0xA6DFBD9FB8E5B88F, - 369, - 92), (0xF8A95FCF88747D94, - 343, - 84),
     (0xB94470938FA89BCF, - 316, - 76), (0x8A08F0F8BF0F156B, - 289, - 68),
     (0xCDB02555653131B6, - 263, - 60), (0x993FE2C6D07B7FAC, - 236, - 52),
     (0xE45C10C42A2B3B06, - 210, - 44), (0xAA242499697392D3, - 183, - 36),
     (0xFD87B5F28300CA0E, - 157, - 28), (0xBCE5086492111AEB, - 130, - 20),
     (0x8CBCCC096F5088CC, - 103, - 12), (0xD1B71758E219652C, - 77, - 4),
     (0x9C40000000000000, - 50, 4), (0xE8D4A51000000000, - 24, 12),
     (0xAD78EBC5AC620000, 3, 20), (0x813F3978F8940984, 30, 28),
     (0xC097CE7BC90715B3, 56, 36), (0x8F7E32CE7BEA5C70, 83, 44),
     (0xD5D238A4ABE98068, 109, 52), (0x9F4F2726179A2245, 136, 60),
     (0xED63A231D4C4FB27, 162, 68), (0xB0DE65388CC8ADA8, 189, 76),
     (0x83C7088E1AAB65DB, 216, 84), (0xC45D1DF942711D9A, 242, 92),
     (0x924D692CA61BE758, 269, 100), (0xDA01EE641A708DEA, 295, 108),
     (0xA26DA3999AEF774A, 322, 116), (0xF209787BB47D6B85, 348, 124),
     (0xB454E4A179DD1877, 375, 132), (0x865B86925B9BC5C2, 402, 140),
     (0xC83553C5C8965D3D, 428, 148), (0x952AB45CFA97A0B3, 455, 156),
     (0xDE469FBD99A05FE3, 481, 164), (0xA59BC234DB398C25, 508, 172),
     (0xF6C69A72A3989F5C, 534, 180), (0xB7DCBF5354E9BECE, 561, 188),
     (0x88FCF317F22241E2, 588, 196), (0xCC20CE9BD35C78A5, 614, 204),
     (0x98165AF37B2153DF, 641, 212), (0xE2A0B5DC971F303A, 667, 220),
     (0xA8D9D1535CE3B396, 694, 228), (0xFB9B7CD9A4A7443C, 720, 236),
     (0xBB764C4CA7A44410, 747, 244), (0x8BAB8EEFB6409C1A, 774, 252),
     (0xD01FEF10A657842C, 800, 260), (0x9B10A4E5E9913129, 827, 268),
     (0xE7109BFBA19C0C9D, 853, 276), (0xAC2820D9623BF429, 880, 284),
     (0x80444B5E7AA7CF85, 907, 292), (0xBF21E44003ACDD2D, 933, 300),
     (0x8E679C2F5E44FF8F, 960, 308), (0xD433179D9C8CB841, 986, 316),
     (0x9E19DB92B4E31BA9, 1013, 324)]"

definition get_cached_power :: "int \<Rightarrow> 64 word \<times> int \<times> int" where
  "get_cached_power e =
     (let f = kAlpha - e - 1;
          k = trunc_div (f * 78913) (2 ^ 18) + (if 0 < f then 1 else 0);
          index = trunc_div (300 + k + (8 - 1)) 8
      in kCachedPowers ! nat index)"

section \<open>Digit generation\<close>

definition find_largest_pow10 :: "32 word \<Rightarrow> nat \<times> 32 word" where
  "find_largest_pow10 n =
     (if 1000000000 \<le> n then (10, 1000000000)
      else if 100000000 \<le> n then (9, 100000000)
      else if 10000000 \<le> n then (8, 10000000)
      else if 1000000 \<le> n then (7, 1000000)
      else if 100000 \<le> n then (6, 100000)
      else if 10000 \<le> n then (5, 10000)
      else if 1000 \<le> n then (4, 1000)
      else if 100 \<le> n then (3, 100)
      else if 10 \<le> n then (2, 10)
      else (1, 1))"

text \<open>\<open>buf[len - 1]--\<close>\<close>

definition decr_last :: "nat list \<Rightarrow> nat list" where
  "decr_last buf = butlast buf @ [last buf - 1]"

partial_function (option) grisu2_round ::
    "nat list \<Rightarrow> 64 word \<Rightarrow> 64 word \<Rightarrow> 64 word \<Rightarrow> 64 word \<Rightarrow> nat list option" where
  "grisu2_round buf dist delta rest ten_k =
     (if rest < dist \<and> ten_k \<le> delta - rest \<and>
         (rest + ten_k < dist \<or> rest + ten_k - dist < dist - rest)
      then grisu2_round (decr_last buf) dist delta (rest + ten_k) ten_k
      else Some buf)"

text \<open>
  The digits of the integral part: \<open>Inl\<close> when the loop returned, with the rounded buffer and
  the number of digits left out, \<open>Inr\<close> with the buffer when all digits were written.
\<close>

fun digit_gen_int ::
    "nat \<Rightarrow> 64 word \<Rightarrow> 64 word \<Rightarrow> nat \<Rightarrow> 32 word \<Rightarrow> 64 word \<Rightarrow> 32 word \<Rightarrow> nat list \<Rightarrow>
     (nat list option \<times> int) + nat list" where
  "digit_gen_int 0 dist delta sh p1 p2 pow10 buf = Inr buf"
| "digit_gen_int (Suc n) dist delta sh p1 p2 pow10 buf =
     (let d = p1 div pow10; r = p1 mod pow10;
          buf1 = buf @ [unat d];
          rest = push_bit sh (ucast r) + p2
      in if rest \<le> delta
         then Inl (grisu2_round buf1 dist delta rest (push_bit sh (ucast pow10)), int n)
         else digit_gen_int n dist delta sh r p2 (pow10 div 10) buf1)"

text \<open>The digits of the fractional part; \<open>m\<close> counts them.\<close>

partial_function (option) digit_gen_frac ::
    "64 word \<Rightarrow> 64 word \<Rightarrow> nat \<Rightarrow> 64 word \<Rightarrow> int \<Rightarrow> nat list \<Rightarrow>
     (nat list option \<times> int) option" where
  "digit_gen_frac dist delta sh p2 m buf =
     (let p = p2 * 10; d = drop_bit sh p; r = p AND (push_bit sh 1 - 1);
          buf1 = buf @ [unat d]; delta1 = delta * 10; dist1 = dist * 10
      in if r \<le> delta1
         then Some (grisu2_round buf1 dist1 delta1 r (push_bit sh 1), m + 1)
         else digit_gen_frac dist1 delta1 sh r (m + 1) buf1)"

definition grisu2_digit_gen :: "int \<Rightarrow> diyfp \<Rightarrow> diyfp \<Rightarrow> diyfp \<Rightarrow> (nat list \<times> int) option" where
  "grisu2_digit_gen decimal_exponent M_minus w M_plus =
     (let delta = f_of (diyfp_sub M_plus M_minus);
          dist = f_of (diyfp_sub M_plus w);
          sh = nat (- e_of M_plus);
          p1 = ucast (drop_bit sh (f_of M_plus)) :: 32 word;
          p2 = f_of M_plus AND (push_bit sh 1 - 1)
      in case find_largest_pow10 p1 of (k, pow10) \<Rightarrow>
         (case digit_gen_int k dist delta sh p1 p2 pow10 [] of
            Inl (None, n) \<Rightarrow> None
          | Inl (Some buf, n) \<Rightarrow> Some (buf, decimal_exponent + n)
          | Inr buf \<Rightarrow>
              (case digit_gen_frac dist delta sh p2 0 buf of
                 None \<Rightarrow> None
               | Some (None, m) \<Rightarrow> None
               | Some (Some buf1, m) \<Rightarrow> Some (buf1, decimal_exponent - m))))"

definition grisu2_scaled :: "diyfp \<Rightarrow> diyfp \<Rightarrow> diyfp \<Rightarrow> (nat list \<times> int) option" where
  "grisu2_scaled m_minus v m_plus =
     (case get_cached_power (e_of m_plus) of (cf, ce, ck) \<Rightarrow>
        let c = \<lparr>f_of = cf, e_of = ce\<rparr>;
            w = diyfp_mul v c; w_minus = diyfp_mul m_minus c; w_plus = diyfp_mul m_plus c;
            M_minus = w_minus\<lparr>f_of := f_of w_minus + 1\<rparr>;
            M_plus = w_plus\<lparr>f_of := f_of w_plus - 1\<rparr>
        in grisu2_digit_gen (- ck) M_minus w M_plus)"

definition grisu2 :: "double \<Rightarrow> (nat list \<times> int) option" where
  "grisu2 value =
     (case compute_boundaries value of
        None \<Rightarrow> None
      | Some (w, w_minus, w_plus) \<Rightarrow> grisu2_scaled w_minus w w_plus)"

section \<open>Text\<close>

definition digit_char :: "nat \<Rightarrow> char" where
  "digit_char d = char_of (0x30 + d)"

definition append_exponent :: "string \<Rightarrow> int \<Rightarrow> string" where
  "append_exponent buf e =
     (let k = nat \<bar>e\<bar>; sign = (if e < 0 then ''-'' else ''+'')
      in if k < 10 then buf @ sign @ [CHR ''0'', digit_char k]
         else if k < 100 then buf @ sign @ [digit_char (k div 10), digit_char (k mod 10)]
         else buf @ sign @ [digit_char (k div 100), digit_char (k mod 100 div 10),
                            digit_char (k mod 100 mod 10)])"

definition format_buffer :: "string \<Rightarrow> int \<Rightarrow> int \<Rightarrow> int \<Rightarrow> string" where
  "format_buffer buf decimal_exponent min_exp max_exp =
     (let k = int (length buf); n = k + decimal_exponent
      in if k \<le> n \<and> n \<le> max_exp
         then buf @ replicate (nat (n - k)) (CHR ''0'') @ ''.0''
         else if 0 < n \<and> n \<le> max_exp
         then take (nat n) buf @ ''.'' @ drop (nat n) buf
         else if min_exp < n \<and> n \<le> 0
         then ''0.'' @ replicate (nat (- n)) (CHR ''0'') @ buf
         else if k = 1 then append_exponent (buf @ ''e'') (n - 1)
         else append_exponent (take 1 buf @ ''.'' @ drop 1 buf @ ''e'') (n - 1))"

definition to_chars :: "double \<Rightarrow> string option" where
  "to_chars value =
     (let sign = (if sign_of value then ''-'' else []);
          v = mk_double False (mag_of value)
      in if mag_of value = 0 then Some (sign @ ''0.0'')
         else case grisu2 v of
           None \<Rightarrow> None
         | Some (digits, decimal_exponent) \<Rightarrow>
             Some (sign @ format_buffer (map digit_char digits) decimal_exponent (- 4) 15))"

declare diyfp_normalize.simps [code] grisu2_round.simps [code] digit_gen_frac.simps [code]

end
