(* ===== verification/JsonSerializer.thy ===== *)
theory JsonSerializer
  imports JsonParser Dtoa
begin

text \<open>
  The class \<open>serializer\<close> of \<open>src/cpp/include/nlohmann/json.hpp\<close> and \<open>basic_json::dump\<close>.
  What the source writes to its output adapter is the string returned; an exception leaves
  with the text written so far, which nobody sees.
\<close>

section \<open>The UTF-8 decoder\<close>

text \<open>The two halves of the table \<open>utf8d\<close>: the class of a byte, and the next state.\<close>

definition utf8_class :: "nat list" where
  "utf8_class = replicate 128 0 @ replicate 16 1 @ replicate 16 9 @ replicate 32 7 @
     replicate 2 8 @ replicate 30 2 @ [0xA] @ replicate 12 3 @ [4] @ replicate 2 3 @
     [0xB] @ replicate 3 6 @ [5] @ replicate 11 8"

definition utf8_next :: "nat list" where
  "utf8_next =
    [0, 1, 2, 3, 5, 8, 7, 1, 1, 1, 4, 6, 1, 1, 1, 1,
     1, 1, 1, 1, 1, 1, 1, 1, 1, 1, 1, 1, 1, 1, 1, 1,
     1, 0, 1, 1, 1, 1, 1, 0, 1, 0, 1, 1, 1, 1, 1, 1,
     1, 2, 1, 1, 1, 1, 1, 2, 1, 2, 1, 1, 1, 1, 1, 1,
     1, 1, 1, 1, 1, 1, 1, 2, 1, 1, 1, 1, 1, 1, 1, 1,
     1, 2, 1, 1, 1, 1, 1, 1, 1, 2, 1, 1, 1, 1, 1, 1,
     1, 1, 1, 1, 1, 1, 1, 3, 1, 3, 1, 1, 1, 1, 1, 1,
     1, 3, 1, 1, 1, 1, 1, 3, 1, 3, 1, 1, 1, 1, 1, 1,
     1, 3, 1, 1, 1, 1, 1, 1, 1, 1, 1, 1, 1, 1, 1, 1]"

text \<open>\<open>decode\<close>: the new state and code point; state 0 accepts, state 1 rejects.\<close>

definition decode :: "nat \<Rightarrow> nat \<Rightarrow> nat \<Rightarrow> nat \<times> nat" where
  "decode state codep byte =
     (let ty = utf8_class ! byte;
          codep1 = (if state \<noteq> 0 then (byte AND 0x3F) OR push_bit 6 codep
                    else drop_bit ty 0xFF AND byte)
      in (utf8_next ! (state * 16 + ty), codep1))"

section \<open>Strings\<close>

datatype error_handler = Strict | Replace | Ignore

definition hex_lower :: "nat \<Rightarrow> char" where
  "hex_lower n = ''0123456789abcdef'' ! n"

text \<open>\<open>"\u%04x"\<close> of a 16-bit value.\<close>

definition u_escape :: "nat \<Rightarrow> string" where
  "u_escape n = [CHR 0x5C, CHR ''u'', hex_lower (n div 4096 mod 16), hex_lower (n div 256 mod 16),
     hex_lower (n div 16 mod 16), hex_lower (n mod 16)]"

text \<open>
  What is appended for a decoded code point; \<open>byte\<close> is its last byte, the bytes before it
  are in the buffer already unless \<open>ensure_ascii\<close> holds them back.
\<close>

definition escape_codepoint :: "bool \<Rightarrow> nat \<Rightarrow> char \<Rightarrow> string" where
  "escape_codepoint ensure_ascii cp byte =
     (if cp = 0x08 then [CHR 0x5C, CHR ''b'']
      else if cp = 0x09 then [CHR 0x5C, CHR ''t'']
      else if cp = 0x0A then [CHR 0x5C, CHR ''n'']
      else if cp = 0x0C then [CHR 0x5C, CHR ''f'']
      else if cp = 0x0D then [CHR 0x5C, CHR ''r'']
      else if cp = 0x22 then [CHR 0x5C, CHR 0x22]
      else if cp = 0x5C then [CHR 0x5C, CHR 0x5C]
      else if cp \<le> 0x1F \<or> (ensure_ascii \<and> 0x7F \<le> cp) then
        (if cp \<le> 0xFFFF then u_escape cp
         else u_escape (0xD7C0 + drop_bit 10 cp) @ u_escape (0xDC00 + (cp AND 0x3FF)))
      else [byte])"

definition hex_bytes :: "nat \<Rightarrow> string" where
  "hex_bytes b = [hex_digit (b div 16), hex_digit (b mod 16)]"

definition bad_byte :: "nat \<Rightarrow> nat \<Rightarrow> exn" where
  "bad_byte i b = type_error 316 ''316''
     (''invalid UTF-8 byte at index '' @ dec i @ '': 0x'' @ hex_bytes b)"

definition incomplete :: "nat \<Rightarrow> exn" where
  "incomplete b = type_error 316 ''316'' (''incomplete UTF-8 string; last byte: 0x'' @ hex_bytes b)"

definition replacement :: "bool \<Rightarrow> string" where
  "replacement ensure_ascii =
     (if ensure_ascii then [CHR 0x5C] @ ''ufffd'' else [CHR 0xEF, CHR 0xBF, CHR 0xBD])"

text \<open>
  The loop of \<open>dump_escaped\<close>. \<open>out\<close> is what was written up to the last accepted code point,
  \<open>part\<close> the bytes copied since (so \<open>bytes_after_last_accept\<close> cuts \<open>part\<close> off), \<open>und\<close> is
  \<open>undumped_chars\<close>, \<open>prev\<close> the byte before. A rejected byte is read again when it followed
  an unfinished code point.
\<close>

function escape_loop ::
    "error_handler \<Rightarrow> bool \<Rightarrow> nat \<Rightarrow> nat \<Rightarrow> nat \<Rightarrow> nat \<Rightarrow> string \<Rightarrow> string \<Rightarrow> char \<Rightarrow> string \<Rightarrow> string res" where
  "escape_loop h ascii i state cp und out part prev [] =
     (if state = 0 then Inr (out @ part)
      else case h of
        Strict \<Rightarrow> Inl (incomplete (of_char prev))
      | Ignore \<Rightarrow> Inr out
      | Replace \<Rightarrow> Inr (out @ replacement ascii))"
| "escape_loop h ascii i state cp und out part prev (c # cs) =
     (case decode state cp (of_char c) of (state1, cp1) \<Rightarrow>
        if state1 = 0 then
          escape_loop h ascii (i + 1) 0 cp1 0 (out @ part @ escape_codepoint ascii cp1 c) [] c cs
        else if state1 = 1 then
          (case h of
             Strict \<Rightarrow> Inl (bad_byte i (of_char c))
           | _ \<Rightarrow>
               let out1 = (if h = Replace then out @ replacement ascii else out)
               in if 0 < und then escape_loop h ascii i 0 cp1 0 out1 [] prev (c # cs)
                  else escape_loop h ascii (i + 1) 0 cp1 0 out1 [] c cs)
        else escape_loop h ascii (i + 1) state1 cp1 (und + 1) out
               (if ascii then part else part @ [c]) c cs)"
  by pat_completeness auto
termination
  by (relation "measures [\<lambda>(h, ascii, i, state, cp, und, out, part, prev, cs). length cs,
      \<lambda>(h, ascii, i, state, cp, und, out, part, prev, cs). und]") auto

declare escape_loop.simps [simp del]

definition dump_escaped :: "error_handler \<Rightarrow> bool \<Rightarrow> string \<Rightarrow> string res" where
  "dump_escaped h ascii s = escape_loop h ascii 0 0 0 0 [] [] (CHR 0x00) s"

section \<open>Numbers\<close>

function count_digits_from :: "nat \<Rightarrow> nat \<Rightarrow> nat" where
  "count_digits_from n x =
     (if x < 10 then n
      else if x < 100 then n + 1
      else if x < 1000 then n + 2
      else if x < 10000 then n + 3
      else count_digits_from (n + 4) (x div 10000))"
  by pat_completeness auto
termination by (relation "measure snd") auto

declare count_digits_from.simps [simp del]

definition count_digits :: "nat \<Rightarrow> nat" where
  "count_digits x = count_digits_from 1 x"

text \<open>The row of \<open>digits_to_99\<close> for an index below 100.\<close>

definition digits_to_99 :: "nat \<Rightarrow> char \<times> char" where
  "digits_to_99 i = (digit_char (i div 10), digit_char (i mod 10))"

text \<open>Filling the buffer from the back: two digits a round, then the last one or two.\<close>

function fill_digits :: "nat \<Rightarrow> string \<Rightarrow> string" where
  "fill_digits v buf =
     (if 100 \<le> v
      then (case digits_to_99 (v mod 100) of (a, b) \<Rightarrow> fill_digits (v div 100) (a # b # buf))
      else if 10 \<le> v then (case digits_to_99 v of (a, b) \<Rightarrow> a # b # buf)
      else digit_char v # buf)"
  by pat_completeness auto
termination by (relation "measure fst") auto

declare fill_digits.simps [simp del]

definition remove_sign :: "int \<Rightarrow> nat" where
  "remove_sign x = nat (- (x + 1)) + 1"

text \<open>
  The buffer of \<open>n_chars\<close> characters: the digits end at its end, whatever is left in front
  of them is what the buffer holds there, the minus sign or nothing.
\<close>

definition dump_integer :: "int \<Rightarrow> string" where
  "dump_integer x =
     (if x = 0 then ''0''
      else let neg = (x < 0);
               abs_value = (if neg then remove_sign x else nat x);
               n_chars = (if neg then 1 else 0) + count_digits abs_value;
               buf = replicate n_chars (CHR 0x00);
               buf1 = (if neg then buf[0 := CHR ''-''] else buf);
               ds = fill_digits abs_value []
           in take (n_chars - length ds) buf1 @ ds)"

definition dump_float :: "double \<Rightarrow> string res" where
  "dump_float x =
     (if \<not> is_finite x then Inr ''null''
      else case to_chars x of
        None \<Rightarrow> Inl (Undefined ''endless loop'')
      | Some s \<Rightarrow> Inr s)"

section \<open>Values\<close>

text \<open>Binary values.\<close>

fun sep_integers :: "string \<Rightarrow> nat list \<Rightarrow> string" where
  "sep_integers sep [] = []"
| "sep_integers sep [b] = dump_integer (int b)"
| "sep_integers sep (b # b' # bs) = dump_integer (int b) @ sep @ sep_integers sep (b' # bs)"

definition in_quotes :: "string \<Rightarrow> string" where
  "in_quotes s = [CHR 0x22] @ s @ [CHR 0x22]"

definition indent :: "nat \<Rightarrow> string" where
  "indent n = replicate n (CHR '' '')"

definition dump_binary :: "bool \<Rightarrow> nat \<Rightarrow> nat \<Rightarrow> nat list \<Rightarrow> nat option \<Rightarrow> string" where
  "dump_binary pretty step cur_indent bs subtype =
     (let st = (case subtype of None \<Rightarrow> ''null'' | Some t \<Rightarrow> dump_integer (int t)) in
      if pretty
      then ''{'' @ [CHR 0x0A] @ indent (cur_indent + step) @ in_quotes ''bytes'' @ '': ['' @
           sep_integers '', '' bs @ ''],'' @ [CHR 0x0A] @ indent (cur_indent + step) @
           in_quotes ''subtype'' @ '': '' @ st @ [CHR 0x0A] @ indent cur_indent @ ''}''
      else ''{'' @ in_quotes ''bytes'' @ '':['' @ sep_integers '','' bs @ ''],'' @
           in_quotes ''subtype'' @ '':'' @ st @ ''}'')"

text \<open>
  \<open>dump\<close> with compact and indented output. The indentation string holds 512 characters or
  twice as many; deeper indentation than that is not modelled.
\<close>

fun dump_value :: "error_handler \<Rightarrow> bool \<Rightarrow> bool \<Rightarrow> nat \<Rightarrow> nat \<Rightarrow> json \<Rightarrow> string res"
and dump_members :: "error_handler \<Rightarrow> bool \<Rightarrow> bool \<Rightarrow> nat \<Rightarrow> nat \<Rightarrow> (string \<times> json) list \<Rightarrow> string res"
and dump_elements :: "error_handler \<Rightarrow> bool \<Rightarrow> bool \<Rightarrow> nat \<Rightarrow> nat \<Rightarrow> json list \<Rightarrow> string res" where
  "dump_value h pretty ascii step ind (JObject ms) =
     (if ms = [] then Inr ''{}''
      else if pretty
      then res_bind (dump_members h pretty ascii step (ind + step) ms) (\<lambda>t.
             Inr (''{'' @ [CHR 0x0A] @ t @ [CHR 0x0A] @ indent ind @ ''}''))
      else res_bind (dump_members h pretty ascii step ind ms) (\<lambda>t. Inr (''{'' @ t @ ''}'')))"
| "dump_value h pretty ascii step ind (JArray vs) =
     (if vs = [] then Inr ''[]''
      else if pretty
      then res_bind (dump_elements h pretty ascii step (ind + step) vs) (\<lambda>t.
             Inr (''['' @ [CHR 0x0A] @ t @ [CHR 0x0A] @ indent ind @ '']''))
      else res_bind (dump_elements h pretty ascii step ind vs) (\<lambda>t. Inr (''['' @ t @ '']'')))"
| "dump_value h pretty ascii step ind (JString s) =
     res_bind (dump_escaped h ascii s) (\<lambda>t. Inr (in_quotes t))"
| "dump_value h pretty ascii step ind (JBinary bs t) = Inr (dump_binary pretty step ind bs t)"
| "dump_value h pretty ascii step ind (JBool b) = Inr (if b then ''true'' else ''false'')"
| "dump_value h pretty ascii step ind (JInt n) = Inr (dump_integer n)"
| "dump_value h pretty ascii step ind (JUnsigned n) = Inr (dump_integer n)"
| "dump_value h pretty ascii step ind (JFloat x) = dump_float x"
| "dump_value h pretty ascii step ind JDiscarded = Inr ''<discarded>''"
| "dump_value h pretty ascii step ind JNull = Inr ''null''"
| "dump_members h pretty ascii step ind [] = Inr []"
| "dump_members h pretty ascii step ind ((k, v) # ms) =
     res_bind (dump_escaped h ascii k) (\<lambda>tk.
     res_bind (dump_value h pretty ascii step ind v) (\<lambda>tv.
     res_bind (dump_members h pretty ascii step ind ms) (\<lambda>rest.
       Inr ((if pretty then indent ind else []) @ in_quotes tk @ (if pretty then '': '' else '':'') @ tv @
            (if ms = [] then [] else if pretty then '','' @ [CHR 0x0A] else '','') @ rest))))"
| "dump_elements h pretty ascii step ind [] = Inr []"
| "dump_elements h pretty ascii step ind (v # vs) =
     res_bind (dump_value h pretty ascii step ind v) (\<lambda>tv.
     res_bind (dump_elements h pretty ascii step ind vs) (\<lambda>rest.
       Inr ((if pretty then indent ind else []) @ tv @
            (if vs = [] then [] else if pretty then '','' @ [CHR 0x0A] else '','') @ rest)))"

text \<open>\<open>json.dump()\<close> with its default arguments: compact, strict, bytes above 127 as they are.\<close>

definition json_dump :: "json \<Rightarrow> string res" where
  "json_dump j = dump_value Strict False False 0 0 j"

end
