(* ===== verification/Crypto.thy ===== *)
theory Crypto
  imports JsonSerializer
begin

text \<open>
  \<open>src/cpp/crypto/HybridCryptoService.cpp\<close> and \<open>ServerKeyHolder.cpp\<close>: the hybrid packet
  format, its two directions, and the hash that names a packet. Bytes are characters.

  OpenSSL is not part of the repository. It enters as a record of functions, one per call the
  code makes; \<open>None\<close> stands for the return value the code tests for. Nothing is assumed of
  them unless a lemma says so; \<open>openssl_ok\<close> collects the documented behaviour the round trip
  relies on. Lengths stay below \<open>2 ^ 31\<close>, where \<open>size_t\<close> and the library's \<open>int\<close> agree.
\<close>

section \<open>The calls into OpenSSL\<close>

text \<open>The calls that only set up a context, by the error message the code gives their failure.\<close>

datatype evp_call =
    Enc_ctx | Enc_init | Enc_key_iv | Enc_rsa_ctx | Enc_rsa_init | Enc_rsa_params
  | Dec_rsa_ctx | Dec_rsa_init | Dec_rsa_params | Dec_ctx | Dec_init | Dec_key_iv | Dec_set_tag
  | Md_ctx | Md_update | Key_ctx | Key_init | Key_bits

record openssl =
  evp_ok :: "evp_call \<Rightarrow> bool"
  aes_encrypt :: "string \<Rightarrow> string \<Rightarrow> string \<Rightarrow> string option"
  aes_encrypt_final :: "string \<Rightarrow> string \<Rightarrow> string \<Rightarrow> string option"
  aes_get_tag :: "string \<Rightarrow> string \<Rightarrow> string \<Rightarrow> string option"
  aes_decrypt :: "string \<Rightarrow> string \<Rightarrow> string \<Rightarrow> string option"
  aes_decrypt_final :: "string \<Rightarrow> string \<Rightarrow> string \<Rightarrow> string \<Rightarrow> string option"
  rsa_keygen :: "nat \<Rightarrow> string option"
  rsa_encrypt_size :: "string \<Rightarrow> string \<Rightarrow> nat option"
  rsa_encrypt :: "string \<Rightarrow> nat \<Rightarrow> string \<Rightarrow> string option"
  rsa_decrypt_size :: "string \<Rightarrow> string \<Rightarrow> nat option"
  rsa_decrypt :: "string \<Rightarrow> string \<Rightarrow> string option"
  pubkey_der :: "string \<Rightarrow> string option"
  b64_encode :: "string \<Rightarrow> string"
  b64_decode :: "string \<Rightarrow> string option"
  sha256 :: "string \<Rightarrow> string option"

text \<open>
  \<open>aes_*\<close> take key, IV and input; \<open>aes_decrypt_final\<close> takes the expected tag last. \<open>rsa_*\<close>
  take the key pair first; \<open>rsa_encrypt\<close> also the seed of its random padding.
\<close>

definition need :: "bool \<Rightarrow> string \<Rightarrow> 'a res \<Rightarrow> 'a res" where
  "need ok msg k = (if ok then k else Inl (Runtime_error msg))"

definition need_some :: "'a option \<Rightarrow> string \<Rightarrow> 'a res" where
  "need_some x msg = (case x of Some v \<Rightarrow> Inr v | None \<Rightarrow> Inl (Runtime_error msg))"

definition AES_KEY_BYTES :: nat where "AES_KEY_BYTES = 32"
definition GCM_IV_BYTES :: nat where "GCM_IV_BYTES = 12"
definition GCM_TAG_BYTES :: nat where "GCM_TAG_BYTES = 16"
definition RSA_ENCRYPTED_KEY_BYTES :: nat where "RSA_ENCRYPTED_KEY_BYTES = 256"

section \<open>ServerKeyHolder\<close>

text \<open>The constructor: the key pair it holds.\<close>

definition ServerKeyHolder :: "openssl \<Rightarrow> string res" where
  "ServerKeyHolder ssl =
     need (evp_ok ssl Key_ctx) ''Failed to create EVP_PKEY_CTX for RSA'' (
     need (evp_ok ssl Key_init) ''Failed to initialize keygen'' (
     need (evp_ok ssl Key_bits) ''Failed to set RSA keygen bits'' (
     res_bind (need_some (rsa_keygen ssl 2048) ''Failed to generate RSA keypair'') (\<lambda>key.
     res_bind (need_some (pubkey_der ssl key) ''Failed to encode public key to DER'') (\<lambda>der.
       Inr key)))))"

definition getPublicKeyBase64 :: "openssl \<Rightarrow> string option \<Rightarrow> string res" where
  "getPublicKeyBase64 ssl keyPair =
     (case keyPair of
        None \<Rightarrow> Inr []
      | Some key \<Rightarrow>
          res_bind (need_some (pubkey_der ssl key) ''Failed to encode public key to DER'') (\<lambda>der.
            Inr (b64_encode ssl der)))"

section \<open>HybridCryptoService\<close>

definition base64Encode :: "openssl \<Rightarrow> string \<Rightarrow> string" where
  "base64Encode ssl bytes = b64_encode ssl bytes"

definition base64Decode :: "openssl \<Rightarrow> string \<Rightarrow> string res" where
  "base64Decode ssl s = need_some (b64_decode ssl s) ''Failed to decode base64''"

text \<open>\<open>"%02x"\<close> of every byte.\<close>

definition hex_byte :: "char \<Rightarrow> string" where
  "hex_byte c = [hex_lower (of_char c div 16), hex_lower (of_char c mod 16)]"

definition hashCiphertext :: "openssl \<Rightarrow> string \<Rightarrow> string res" where
  "hashCiphertext ssl s =
     need (evp_ok ssl Md_ctx) ''Failed to create MD ctx'' (
     need (evp_ok ssl Md_update) ''Failed to hash ciphertext'' (
     res_bind (need_some (sha256 ssl s) ''Failed to finalize hash'') (\<lambda>digest.
       Inr (concat (map hex_byte digest)))))"

text \<open>
  \<open>encrypt\<close>. \<open>draw 0\<close> and \<open>draw 1\<close> are what the two calls of \<open>RAND_bytes\<close> put into their
  buffers, \<open>seed\<close> the randomness inside the RSA padding.
\<close>

definition aes_seal :: "openssl \<Rightarrow> string \<Rightarrow> string \<Rightarrow> string \<Rightarrow> (string \<times> string) res" where
  "aes_seal ssl aesKey iv plaintext =
     need (evp_ok ssl Enc_ctx) ''Failed to create AES context'' (
     need (evp_ok ssl Enc_init) ''Failed to init AES-GCM'' (
     need (evp_ok ssl Enc_key_iv) ''Failed to set AES key and IV'' (
     res_bind (need_some (aes_encrypt ssl aesKey iv plaintext) ''Failed during AES-GCM encrypt update'') (\<lambda>body.
     res_bind (need_some (aes_encrypt_final ssl aesKey iv plaintext) ''Failed during AES-GCM encrypt final'') (\<lambda>end.
     res_bind (need_some (aes_get_tag ssl aesKey iv plaintext) ''Failed to get AES-GCM tag'') (\<lambda>tag.
       Inr (body @ end, tag)))))))"

definition rsa_seal :: "openssl \<Rightarrow> string \<Rightarrow> nat \<Rightarrow> string \<Rightarrow> string res" where
  "rsa_seal ssl key seed aesKey =
     need (evp_ok ssl Enc_rsa_ctx) ''Failed to create RSA context'' (
     need (evp_ok ssl Enc_rsa_init) ''Failed to init RSA encrypt'' (
     need (evp_ok ssl Enc_rsa_params) ''Failed to set RSA-OAEP parameters'' (
     res_bind (need_some (rsa_encrypt_size ssl key aesKey) ''Failed to determine RSA buffer size'') (\<lambda>outlen.
       need_some (rsa_encrypt ssl key seed aesKey) ''Failed to encrypt with RSA-OAEP''))))"

definition encrypt ::
    "openssl \<Rightarrow> string \<Rightarrow> (nat \<Rightarrow> string option) \<Rightarrow> nat \<Rightarrow> json \<Rightarrow> string res" where
  "encrypt ssl key draw seed instruction =
     res_bind (json_dump instruction) (\<lambda>plaintext.
     res_bind (need_some (draw 0) ''Failed to generate random AES key'') (\<lambda>aesKey.
     res_bind (need_some (draw 1) ''Failed to generate random IV'') (\<lambda>iv.
     res_bind (aes_seal ssl aesKey iv plaintext) (\<lambda>(cipher, tag).
     res_bind (rsa_seal ssl key seed aesKey) (\<lambda>rsaCiphertext.
       Inr (base64Encode ssl (rsaCiphertext @ iv @ cipher @ tag)))))))"

text \<open>
  \<open>decrypt\<close>. The vector that receives the AES key is cut to the length RSA reports; nothing
  checks that 32 bytes are left for \<open>EVP_DecryptInit_ex\<close> to read, and reading past the end of
  a vector is undefined. Of a longer key it reads the first 32 bytes.
\<close>

definition rsa_open :: "openssl \<Rightarrow> string \<Rightarrow> string \<Rightarrow> string res" where
  "rsa_open ssl key c =
     need (evp_ok ssl Dec_rsa_ctx) ''Failed to create RSA context'' (
     need (evp_ok ssl Dec_rsa_init) ''Failed to init RSA decrypt'' (
     need (evp_ok ssl Dec_rsa_params) ''Failed to set RSA-OAEP parameters'' (
     res_bind (need_some (rsa_decrypt_size ssl key c)
       ''Failed to determine AES key buffer size (decryption failure)'') (\<lambda>aesKeyLen.
       need_some (rsa_decrypt ssl key c) ''RSA decryption failed (tampered key?)''))))"

definition key_bytes :: "string \<Rightarrow> string res" where
  "key_bytes aesKey =
     (if length aesKey < AES_KEY_BYTES then Inl (Undefined ''read past the end of the AES key'')
      else Inr (take AES_KEY_BYTES aesKey))"

definition aes_open :: "openssl \<Rightarrow> string \<Rightarrow> string \<Rightarrow> string \<Rightarrow> string \<Rightarrow> string res" where
  "aes_open ssl aesKey iv cipher tag =
     need (evp_ok ssl Dec_ctx) ''Failed to create AES context'' (
     need (evp_ok ssl Dec_init) ''Failed to init AES-GCM decrypt'' (
     res_bind (key_bytes aesKey) (\<lambda>k.
     need (evp_ok ssl Dec_key_iv) ''Failed to set AES key and IV'' (
     res_bind (need_some (aes_decrypt ssl k iv cipher) ''Failed during AES-GCM decrypt update'') (\<lambda>body.
     need (evp_ok ssl Dec_set_tag) ''Failed to set expected AES-GCM tag'' (
     res_bind (need_some (aes_decrypt_final ssl k iv cipher tag)
       ''AES-GCM Authentication failed (tampered ciphertext or tag)'') (\<lambda>end.
       Inr (body @ end))))))))"

definition decrypt :: "openssl \<Rightarrow> string \<Rightarrow> string \<Rightarrow> json res" where
  "decrypt ssl key s =
     res_bind (base64Decode ssl s) (\<lambda>all.
       if length all < RSA_ENCRYPTED_KEY_BYTES + GCM_IV_BYTES + GCM_TAG_BYTES
       then Inl (Invalid_argument ''Ciphertext too short'')
       else
         let rsaCiphertext = take RSA_ENCRYPTED_KEY_BYTES all;
             rest = drop RSA_ENCRYPTED_KEY_BYTES all;
             iv = take GCM_IV_BYTES rest;
             rest1 = drop GCM_IV_BYTES rest;
             aesCipherLen = length rest1 - GCM_TAG_BYTES;
             cipher = take aesCipherLen rest1;
             tag = drop aesCipherLen rest1
         in res_bind (rsa_open ssl key rsaCiphertext) (\<lambda>aesKey.
            res_bind (aes_open ssl aesKey iv cipher tag) (\<lambda>jsonStr.
              json_parse jsonStr)))"

section \<open>Facts\<close>

lemma need_Inr [simp]: "need ok msg k = Inr x \<longleftrightarrow> ok \<and> k = Inr x"
  by (simp add: need_def)

lemma need_True [simp]: "need True msg k = k"
  by (simp add: need_def)

lemma need_some_Inr [simp]: "need_some x msg = Inr v \<longleftrightarrow> x = Some v"
  by (simp add: need_some_def split: option.splits)

lemma need_some_Some [simp]: "need_some (Some v) msg = Inr v"
  by (simp add: need_some_def)

text \<open>
  Documented behaviour of the library: decoding inverts encoding; an RSA ciphertext under a
  2048-bit key has 256 bytes and opens to what was sealed; GCM opens what it sealed under the
  same key and IV, with a tag of 16 bytes; and no set-up call of the opening side fails.
\<close>

definition openssl_ok :: "openssl \<Rightarrow> string \<Rightarrow> bool" where
  "openssl_ok ssl key \<longleftrightarrow>
     (\<forall>bytes. b64_decode ssl (b64_encode ssl bytes) = Some bytes) \<and>
     (\<forall>seed m c. rsa_encrypt ssl key seed m = Some c \<longrightarrow>
        length c = 256 \<and> rsa_decrypt_size ssl key c \<noteq> None \<and> rsa_decrypt ssl key c = Some m) \<and>
     (\<forall>k iv m c f tag. length k = 32 \<longrightarrow> length iv = 12 \<longrightarrow> aes_encrypt ssl k iv m = Some c \<longrightarrow>
        aes_encrypt_final ssl k iv m = Some f \<longrightarrow> aes_get_tag ssl k iv m = Some tag \<longrightarrow>
        length tag = 16 \<and>
        (\<exists>b e. aes_decrypt ssl k iv (c @ f) = Some b \<and>
           aes_decrypt_final ssl k iv (c @ f) tag = Some e \<and> b @ e = m)) \<and>
     (\<forall>call \<in> {Dec_rsa_ctx, Dec_rsa_init, Dec_rsa_params, Dec_ctx, Dec_init, Dec_key_iv, Dec_set_tag}.
        evp_ok ssl call)"

text \<open>The packed bytes, taken apart again.\<close>

lemma decrypt_packed:
  assumes "b64_decode ssl s = Some (c @ iv @ cipher @ tag)" "length c = 256" "length iv = 12"
    "length tag = 16"
  shows "decrypt ssl key s =
    res_bind (rsa_open ssl key c) (\<lambda>aesKey. res_bind (aes_open ssl aesKey iv cipher tag) json_parse)"
  using assms
  by (simp add: decrypt_def base64Decode_def RSA_ENCRYPTED_KEY_BYTES_def GCM_IV_BYTES_def
      GCM_TAG_BYTES_def Let_def)

lemma encrypt_parts:
  assumes "encrypt ssl key draw seed j = Inr s"
  obtains plain k iv body f tag c where "json_dump j = Inr plain" "draw 0 = Some k" "draw 1 = Some iv"
    "aes_encrypt ssl k iv plain = Some body" "aes_encrypt_final ssl k iv plain = Some f"
    "aes_get_tag ssl k iv plain = Some tag" "rsa_encrypt ssl key seed k = Some c"
    "s = b64_encode ssl (c @ iv @ (body @ f) @ tag)"
  using assms
  by (auto simp: encrypt_def res_bind_Inr aes_seal_def rsa_seal_def base64Encode_def)

lemma decrypt_encrypt:
  assumes ok: "openssl_ok ssl key" and k: "\<And>k. draw 0 = Some k \<Longrightarrow> length k = 32"
    and iv: "\<And>iv. draw 1 = Some iv \<Longrightarrow> length iv = 12"
    and enc: "encrypt ssl key draw seed j = Inr s"
  shows "\<exists>plain. json_dump j = Inr plain \<and> decrypt ssl key s = json_parse plain"
proof -
  from enc obtain plain k iv body f tag c where p: "json_dump j = Inr plain" "draw 0 = Some k"
    "draw 1 = Some iv" "aes_encrypt ssl k iv plain = Some body" "aes_encrypt_final ssl k iv plain = Some f"
    "aes_get_tag ssl k iv plain = Some tag" "rsa_encrypt ssl key seed k = Some c"
    "s = b64_encode ssl (c @ iv @ (body @ f) @ tag)"
    by (rule encrypt_parts)
  have len: "length k = 32" "length iv = 12" using assms(2,3) p(2,3) by auto
  from ok p(7) have rsa: "length c = 256" "rsa_decrypt_size ssl key c \<noteq> None" "rsa_decrypt ssl key c = Some k"
    unfolding openssl_ok_def by blast+
  from ok have evp: "evp_ok ssl Dec_rsa_ctx" "evp_ok ssl Dec_rsa_init" "evp_ok ssl Dec_rsa_params"
    "evp_ok ssl Dec_ctx" "evp_ok ssl Dec_init" "evp_ok ssl Dec_key_iv" "evp_ok ssl Dec_set_tag"
    by (simp_all add: openssl_ok_def)
  have "length tag = 16 \<and> (\<exists>b e. aes_decrypt ssl k iv (body @ f) = Some b \<and>
      aes_decrypt_final ssl k iv (body @ f) tag = Some e \<and> b @ e = plain)"
    using ok len p(4-6) unfolding openssl_ok_def by blast
  then obtain b e where aes: "length tag = 16" "aes_decrypt ssl k iv (body @ f) = Some b"
    "aes_decrypt_final ssl k iv (body @ f) tag = Some e" "b @ e = plain" by blast
  have "b64_decode ssl s = Some (c @ iv @ (body @ f) @ tag)"
    using ok p(8) by (simp add: openssl_ok_def)
  from decrypt_packed [OF this rsa(1) len(2) aes(1), of key] rsa evp aes len p(1)
  show ?thesis
    by (auto simp: rsa_open_def aes_open_def key_bytes_def AES_KEY_BYTES_def)
qed

lemma decrypt_short:
  assumes "b64_decode ssl s = Some bytes" "length bytes < 284"
  shows "decrypt ssl key s = Inl (Invalid_argument ''Ciphertext too short'')"
  using assms
  by (simp add: decrypt_def base64Decode_def RSA_ENCRYPTED_KEY_BYTES_def GCM_IV_BYTES_def
      GCM_TAG_BYTES_def)

lemma unpack:
  assumes "284 \<le> length bytes"
  obtains c iv cipher tag where "bytes = c @ iv @ cipher @ tag" "length c = 256" "length iv = 12"
    "length tag = 16"
proof
  let ?r = "drop 268 bytes"
  have r: "drop 12 (drop 256 bytes) = ?r" by simp
  show "bytes = take 256 bytes @ take 12 (drop 256 bytes) @ take (length ?r - 16) ?r @ drop (length ?r - 16) ?r"
    by (metis append_take_drop_id r)
qed (use assms in simp_all)

text \<open>Only a short AES key makes the code read where it may not.\<close>

lemma need_undefined: "is_undefined e \<Longrightarrow> need ok msg k = Inl e \<longleftrightarrow> ok \<and> k = Inl e"
  by (auto simp: need_def)

lemma need_some_undefined: "is_undefined e \<Longrightarrow> need_some x msg \<noteq> Inl e"
  by (auto simp: need_some_def split: option.splits)

lemma json_parse_defined: "is_undefined e \<Longrightarrow> json_parse s \<noteq> Inl e"
  using json_parse_exn [of s e] by (cases e) auto

lemma rsa_open_Inr:
  "rsa_open ssl key c = Inr k \<longleftrightarrow>
     evp_ok ssl Dec_rsa_ctx \<and> evp_ok ssl Dec_rsa_init \<and> evp_ok ssl Dec_rsa_params \<and>
     rsa_decrypt_size ssl key c \<noteq> None \<and> rsa_decrypt ssl key c = Some k"
  by (auto simp: rsa_open_def res_bind_Inr)

lemma rsa_open_defined: "is_undefined e \<Longrightarrow> rsa_open ssl key c \<noteq> Inl e"
  by (simp add: rsa_open_def need_undefined need_some_undefined res_bind_Inl)

lemma aes_open_Inr:
  assumes "aes_open ssl k iv cipher tag = Inr plain"
  shows "32 \<le> length k \<and> (\<exists>body rest. plain = body @ rest \<and>
    aes_decrypt ssl (take 32 k) iv cipher = Some body \<and>
    aes_decrypt_final ssl (take 32 k) iv cipher tag = Some rest)"
  using assms
  by (auto simp: aes_open_def res_bind_Inr key_bytes_def AES_KEY_BYTES_def split: if_splits)

lemma aes_open_undefined:
  "is_undefined e \<Longrightarrow> aes_open ssl k iv cipher tag = Inl e \<Longrightarrow> length k < 32"
  by (auto simp: aes_open_def need_undefined need_some_undefined res_bind_Inl key_bytes_def
      AES_KEY_BYTES_def split: if_splits)

lemma aes_open_short:
  "evp_ok ssl Dec_ctx \<Longrightarrow> evp_ok ssl Dec_init \<Longrightarrow> length k < 32 \<Longrightarrow>
   aes_open ssl k iv cipher tag = Inl (Undefined ''read past the end of the AES key'')"
  by (simp add: aes_open_def key_bytes_def AES_KEY_BYTES_def)

lemma decrypt_cases:
  assumes "decrypt ssl key s = r" "\<not> (\<exists>e. r = Inl e \<and> \<not> is_undefined e)"
  obtains c iv cipher tag k where "b64_decode ssl s = Some (c @ iv @ cipher @ tag)" "length c = 256"
    "length iv = 12" "length tag = 16" "rsa_open ssl key c = Inr k"
    "r = res_bind (aes_open ssl k iv cipher tag) json_parse"
proof -
  obtain bytes where b: "b64_decode ssl s = Some bytes" "284 \<le> length bytes"
    using assms decrypt_short [of ssl s _ key]
    by (cases "b64_decode ssl s") (force simp: decrypt_def base64Decode_def need_some_def)+
  obtain c iv cipher tag where p: "bytes = c @ iv @ cipher @ tag" "length c = 256" "length iv = 12"
    "length tag = 16" using unpack [OF b(2)] by metis
  note d = decrypt_packed [OF b(1) [unfolded p(1)] p(2-4), of key]
  from assms d rsa_open_defined [of _ ssl key c] obtain k where "rsa_open ssl key c = Inr k"
    by (cases "rsa_open ssl key c") auto
  with that [OF b(1) [unfolded p(1)] p(2-4)] d assms(1) show thesis by simp
qed

lemma hex_lower_inj: "a < 16 \<Longrightarrow> b < 16 \<Longrightarrow> hex_lower a = hex_lower b \<longleftrightarrow> a = b"
  unfolding hex_lower_def by (subst nth_eq_iff_index_eq) simp_all

lemma hex_byte_inj: "hex_byte c = hex_byte d \<longleftrightarrow> c = d"
proof
  assume h: "hex_byte c = hex_byte d"
  have "(of_char c :: nat) div 16 < 16" "(of_char d :: nat) div 16 < 16"
    by (rule less_mult_imp_div_less, simp)+
  with h have "(of_char c :: nat) div 16 = of_char d div 16 \<and> (of_char c :: nat) mod 16 = of_char d mod 16"
    by (simp add: hex_byte_def hex_lower_inj)
  then have "(of_char c :: nat) = of_char d" by (metis div_mult_mod_eq)
  then show "c = d" by simp
qed simp

lemma hex_bytes_inj: "concat (map hex_byte s) = concat (map hex_byte t) \<longleftrightarrow> s = t"
proof (induction s arbitrary: t)
  case Nil
  then show ?case by (cases t) (simp_all add: hex_byte_def)
next
  case (Cons c s)
  show ?case
  proof (cases t)
    case Nil
    then show ?thesis by (simp add: hex_byte_def)
  next
    case (Cons d u)
    have "length (hex_byte c) = length (hex_byte d)" by (simp add: hex_byte_def)
    with Cons Cons.IH show ?thesis by (auto simp: hex_byte_inj)
  qed
qed

section \<open>Properties\<close>

text \<open>C23. What the server opens is what the sender sealed: with a working OpenSSL, \<open>decrypt\<close> of what
  \<open>encrypt\<close> produced returns what parsing the printed instruction returns.\<close>

theorem decrypt_inverts_encrypt:
  assumes "openssl_ok ssl key" "\<forall>k. draw 0 = Some k \<longrightarrow> length k = AES_KEY_BYTES"
    and "\<forall>iv. draw 1 = Some iv \<longrightarrow> length iv = GCM_IV_BYTES"
    and "encrypt ssl key draw seed j = Inr s"
  shows "decrypt ssl key s = res_bind (json_dump j) json_parse"
  using decrypt_encrypt [of ssl key draw seed j s] assms
  by (auto simp: AES_KEY_BYTES_def GCM_IV_BYTES_def)

text \<open>A library for the witnesses: it satisfies every law of \<open>openssl_ok\<close> and hides nothing.\<close>

definition demo_ssl :: openssl where
  "demo_ssl = \<lparr>evp_ok = (\<lambda>call. True),
     aes_encrypt = (\<lambda>k iv m. Some m), aes_encrypt_final = (\<lambda>k iv m. Some []),
     aes_get_tag = (\<lambda>k iv m. Some (take 16 k)),
     aes_decrypt = (\<lambda>k iv c. Some c),
     aes_decrypt_final = (\<lambda>k iv c tag. if tag = take 16 k then Some [] else None),
     rsa_keygen = (\<lambda>bits. Some ''key''),
     rsa_encrypt_size = (\<lambda>key m. Some 256),
     rsa_encrypt = (\<lambda>key seed m. if length m \<le> 190
        then Some (char_of (length m) # m @ replicate (255 - length m) (CHR ''x'')) else None),
     rsa_decrypt_size = (\<lambda>key c. Some 256),
     rsa_decrypt = (\<lambda>key c. if length c = 256 then Some (take (of_char (hd c)) (tl c)) else None),
     pubkey_der = (\<lambda>key. Some key), b64_encode = (\<lambda>s. s), b64_decode = Some,
     sha256 = (\<lambda>s. Some (take 32 (s @ replicate 32 (CHR 0x00))))\<rparr>"

lemma demo_ssl_ok: "openssl_ok demo_ssl key"
  by (auto simp: openssl_ok_def demo_ssl_def split: if_splits)

definition demo_draw :: "nat \<Rightarrow> string option" where
  "demo_draw n = Some (if n = 0 then replicate 32 (CHR ''k'') else replicate 12 (CHR ''i''))"

theorem decrypt_inverts_encrypt_witness:
  "\<exists>s. encrypt demo_ssl ''key'' demo_draw 0 (JBool True) = Inr s \<and>
     decrypt demo_ssl ''key'' s = json_parse ''true''"
proof -
  have "\<exists>s. encrypt demo_ssl ''key'' demo_draw 0 (JBool True) = Inr s"
    by (simp add: encrypt_def json_dump_def aes_seal_def rsa_seal_def demo_ssl_def demo_draw_def)
  then obtain s where s: "encrypt demo_ssl ''key'' demo_draw 0 (JBool True) = Inr s" by blast
  have "decrypt demo_ssl ''key'' s = res_bind (json_dump (JBool True)) json_parse"
    by (rule decrypt_inverts_encrypt [OF demo_ssl_ok _ _ s])
      (simp_all add: demo_draw_def AES_KEY_BYTES_def GCM_IV_BYTES_def)
  with s show ?thesis by (simp add: json_dump_def)
qed

text \<open>C25. Nothing comes out of \<open>decrypt\<close> unless GCM accepted the tag: the value returned is the JSON of
  the bytes that authenticated under the key inside the RSA part, with the parts cut at bytes
  256 and 268 and 16 from the end.\<close>

theorem decrypt_authenticated:
  assumes "decrypt ssl key s = Inr j"
  shows "\<exists>c iv cipher tag k body rest.
    b64_decode ssl s = Some (c @ iv @ cipher @ tag) \<and> length c = 256 \<and> length iv = 12 \<and>
    length tag = 16 \<and> rsa_decrypt ssl key c = Some k \<and> 32 \<le> length k \<and>
    aes_decrypt ssl (take 32 k) iv cipher = Some body \<and>
    aes_decrypt_final ssl (take 32 k) iv cipher tag = Some rest \<and>
    json_parse (body @ rest) = Inr j"
proof -
  obtain c iv cipher tag k where p: "b64_decode ssl s = Some (c @ iv @ cipher @ tag)" "length c = 256"
    "length iv = 12" "length tag = 16" "rsa_open ssl key c = Inr k"
    "Inr j = res_bind (aes_open ssl k iv cipher tag) json_parse"
    using assms by (rule decrypt_cases) simp
  then obtain plain where o: "aes_open ssl k iv cipher tag = Inr plain" "json_parse plain = Inr j"
    by (metis res_bind_Inr)
  from aes_open_Inr [OF o(1)] obtain body rest where "32 \<le> length k" "plain = body @ rest"
    "aes_decrypt ssl (take 32 k) iv cipher = Some body"
    "aes_decrypt_final ssl (take 32 k) iv cipher tag = Some rest" by blast
  moreover have "rsa_decrypt ssl key c = Some k" using p(5) by (simp add: rsa_open_Inr)
  ultimately show ?thesis using p(1-4) o(2) by metis
qed

text \<open>A packet sealed with that library, and one whose RSA part opens to five bytes.\<close>

definition demo_sealed :: string where
  "demo_sealed = char_of (32 :: nat) # replicate 32 (CHR ''k'') @ replicate 223 (CHR ''x'') @
     replicate 12 (CHR ''i'') @ ''true'' @ replicate 16 (CHR ''k'')"

definition demo_short :: string where
  "demo_short = char_of (5 :: nat) # replicate 5 (CHR ''k'') @ replicate 250 (CHR ''x'')"

lemma demo_sealed_opens: "decrypt demo_ssl key demo_sealed = Inr (JBool True)"
proof -
  have "decrypt demo_ssl key demo_sealed =
      res_bind (rsa_open demo_ssl key (char_of (32 :: nat) # replicate 32 (CHR ''k'') @ replicate 223 (CHR ''x'')))
        (\<lambda>k. res_bind (aes_open demo_ssl k (replicate 12 (CHR ''i'')) ''true'' (replicate 16 (CHR ''k''))) json_parse)"
    by (rule decrypt_packed) (simp_all add: demo_ssl_def demo_sealed_def)
  also have "\<dots> = json_parse ''true''"
    by (simp add: rsa_open_def aes_open_def demo_ssl_def key_bytes_def AES_KEY_BYTES_def)
  also note json_parse_true
  finally show ?thesis .
qed

theorem decrypt_authenticated_witness:
  "\<exists>c iv cipher tag k body rest.
    b64_decode demo_ssl demo_sealed = Some (c @ iv @ cipher @ tag) \<and> length tag = 16 \<and>
    aes_decrypt_final demo_ssl (take 32 k) iv cipher tag = Some rest \<and>
    json_parse (body @ rest) = Inr (JBool True)"
  using decrypt_authenticated [OF demo_sealed_opens] by blast

text \<open>C26. The one way \<open>decrypt\<close> leaves the language on a packet long enough to have all its parts, with
  a library that behaves as documented: the RSA part opens to fewer than 32 bytes, and the
  cipher reads 32 from a vector that was resized to fewer (its 256-byte allocation is larger). Anybody
  who has the public key can send such a packet.\<close>

theorem decrypt_short_key_undefined:
  assumes "b64_decode ssl s = Some (c @ iv @ cipher @ tag)" "length c = 256" "length iv = 12"
    and "length tag = 16" "openssl_ok ssl key"
  shows "(\<exists>m. decrypt ssl key s = Inl (Undefined m)) \<longleftrightarrow>
    (\<exists>k. rsa_open ssl key c = Inr k \<and> length k < AES_KEY_BYTES)"
proof -
  note d = decrypt_packed [OF assms(1-4), of key]
  have evp: "evp_ok ssl Dec_ctx" "evp_ok ssl Dec_init"
    using assms(5) by (simp_all add: openssl_ok_def)
  show ?thesis
  proof (cases "rsa_open ssl key c")
    case (Inl e)
    with d rsa_open_defined [of "Undefined _" ssl key c] show ?thesis by auto
  next
    case (Inr k)
    with d evp aes_open_short [of ssl k iv cipher tag] aes_open_undefined [of "Undefined _" ssl k iv cipher tag]
      json_parse_defined [of "Undefined _"]
    show ?thesis by (auto simp: res_bind_Inl AES_KEY_BYTES_def)
  qed
qed

theorem decrypt_short_key_undefined_witness:
  "\<exists>m. decrypt demo_ssl ''key'' (demo_short @ replicate 12 (CHR ''i'') @ ''x'' @ replicate 16 (CHR ''t'')) =
     Inl (Undefined m)"
proof -
  have "b64_decode demo_ssl (demo_short @ replicate 12 (CHR ''i'') @ ''x'' @ replicate 16 (CHR ''t'')) =
      Some (demo_short @ replicate 12 (CHR ''i'') @ ''x'' @ replicate 16 (CHR ''t''))"
    by (simp add: demo_ssl_def)
  note iff = decrypt_short_key_undefined [OF this _ _ _ demo_ssl_ok, of "''key''"]
  have "rsa_open demo_ssl ''key'' demo_short = Inr (replicate 5 (CHR ''k''))"
    by (simp add: rsa_open_Inr demo_ssl_def demo_short_def)
  then show ?thesis
    by (subst iff) (simp_all add: demo_short_def AES_KEY_BYTES_def)
qed

text \<open>The hash that names a packet is faithful: two ciphertexts have the same name exactly when
  their SHA-256 digests are equal, and the name has two characters for every byte of the digest.\<close>

theorem hashCiphertext_faithful:
  assumes "hashCiphertext ssl s = Inr h" "hashCiphertext ssl t = Inr h'"
  shows "h = h' \<longleftrightarrow> sha256 ssl s = sha256 ssl t"
  using assms by (auto simp: hashCiphertext_def res_bind_Inr hex_bytes_inj)

theorem hashCiphertext_faithful_witness:
  "hashCiphertext demo_ssl ''a'' \<noteq> hashCiphertext demo_ssl ''b''"
proof -
  have "hashCiphertext demo_ssl s = Inr (concat (map hex_byte (the (sha256 demo_ssl s))))" for s
    by (simp add: hashCiphertext_def demo_ssl_def)
  from hashCiphertext_faithful [OF this this, of "''a''" "''b''"] this show ?thesis
    by (simp add: demo_ssl_def)
qed

end
