(* ===== verification/GrisuBounds.thy ===== *)
theory GrisuBounds
  imports Dtoa Complex_Main
begin

unbundle bit_operations_syntax

text \<open>
  Grisu2, first half: the product of two hand-made floating-point numbers, normal form, the
  boundaries of the interval of reals that round to a double, the table of cached powers and
  its lookup, and the interval after scaling. \<open>val\<close> is the real number a \<open>diyfp\<close> stands for.
\<close>

section \<open>Words as numbers\<close>

lemma unat_mask_64: "n < 64 \<Longrightarrow> unat (x AND (push_bit n 1 - 1) :: 64 word) = unat x mod 2 ^ n"
proof -
  have "x AND (push_bit n 1 - 1) = take_bit n x"
    by (simp add: take_bit_eq_mask mask_eq_exp_minus_1 push_bit_eq_mult)
  moreover have "unat (take_bit n x) = take_bit n (unat x)"
    by (rule unsigned_take_bit_eq)
  ultimately show ?thesis by (simp add: take_bit_eq_mod)
qed

lemma unat_low_32: "unat (x AND 0xFFFFFFFF :: 64 word) = unat x mod 2 ^ 32"
  using unat_mask_64 [of 32 x] by (simp add: push_bit_eq_mult)

lemma unat_drop_64: "unat (drop_bit n x :: 64 word) = unat x div 2 ^ n"
  by (rule trans [OF unat_drop_bit_eq drop_bit_eq_div])

lemma unat_push_64: "unat x * 2 ^ n < 2 ^ 64 \<Longrightarrow> unat (push_bit n x :: 64 word) = unat x * 2 ^ n"
proof -
  assume "unat x * 2 ^ n < 2 ^ 64"
  moreover have "unat (push_bit n x) = take_bit 64 (push_bit n (unat x))"
    by (simp add: unsigned_push_bit_eq)
  ultimately show ?thesis by (simp add: push_bit_eq_mult take_bit_nat_eq_self)
qed

lemma unat_plus_64: "unat x + unat y < 2 ^ 64 \<Longrightarrow> unat (x + y :: 64 word) = unat x + unat y"
  by (simp add: unat_word_ariths)

lemma unat_times_64: "unat x * unat y < 2 ^ 64 \<Longrightarrow> unat (x * y :: 64 word) = unat x * unat y"
  by (simp add: unat_word_ariths)

lemma unat_minus_64: "unat y \<le> unat x \<Longrightarrow> unat (x - y :: 64 word) = unat x - unat y"
  by (simp add: unat_sub_if')

lemma unat_lt_64 [simp]: "unat (x :: 64 word) < 18446744073709551616"
  using unsigned_less [of x, where ?'a = nat] by simp

text \<open>The product of two significands is the upper half of the exact product, rounded half up.\<close>

lemma diyfp_mul_rounds:
  "unat (f_of (diyfp_mul x y)) = (unat (f_of x) * unat (f_of y) + 2 ^ 63) div 2 ^ 64"
  "e_of (diyfp_mul x y) = e_of x + e_of y + 64"
proof -
  define u v where "u = unat (f_of x)" and "v = unat (f_of y)"
  define a b c d where "a = u mod 2 ^ 32" and "b = u div 2 ^ 32" and "c = v mod 2 ^ 32" and "d = v div 2 ^ 32"
  have uv: "u = a + 2 ^ 32 * b" "v = c + 2 ^ 32 * d" by (simp_all add: a_def b_def c_def d_def)
  have lt: "a < 2 ^ 32" "c < 2 ^ 32" by (simp_all add: a_def c_def)
  have "u < 2 ^ 64" "v < 2 ^ 64" by (simp_all add: u_def v_def)
  then have lt2: "b < 2 ^ 32" "d < 2 ^ 32" by (simp_all add: b_def d_def less_mult_imp_div_less)
  have prod: "p * q \<le> 18446744065119617025" if "p < 2 ^ 32" "q < 2 ^ 32" for p q :: nat
    using that mult_le_mono [of p 4294967295 q 4294967295] by simp
  note ac = prod [OF lt(1,2)] and ad = prod [OF lt(1) lt2(2)] and bc = prod [OF lt2(1) lt(2)] and bd = prod [OF lt2]
  show "e_of (diyfp_mul x y) = e_of x + e_of y + 64" by (simp add: diyfp_mul_def Let_def)
  have f: "unat (f_of x AND 0xFFFFFFFF) = a" "unat (drop_bit 32 (f_of x)) = b"
    "unat (f_of y AND 0xFFFFFFFF) = c" "unat (drop_bit 32 (f_of y)) = d"
    by (simp_all only: unat_low_32 unat_drop_64 a_def b_def c_def d_def u_def v_def)
  define p0 p1 p2 p3 where "p0 = (f_of x AND 0xFFFFFFFF) * (f_of y AND 0xFFFFFFFF)"
    and "p1 = (f_of x AND 0xFFFFFFFF) * drop_bit 32 (f_of y)"
    and "p2 = drop_bit 32 (f_of x) * (f_of y AND 0xFFFFFFFF)"
    and "p3 = drop_bit 32 (f_of x) * drop_bit 32 (f_of y)"
  have p: "unat p0 = a * c" "unat p1 = a * d" "unat p2 = b * c" "unat p3 = b * d"
    unfolding p0_def p1_def p2_def p3_def using ac ad bc bd
    by (subst unat_times_64; simp add: f)+
  define Q where "Q = drop_bit 32 p0 + (p1 AND 0xFFFFFFFF) + (p2 AND 0xFFFFFFFF) + push_bit 31 1"
  have q1: "a * c div 2 ^ 32 < 2 ^ 32" using ac by (simp add: less_mult_imp_div_less)
  have Q: "unat Q = a * c div 2 ^ 32 + a * d mod 2 ^ 32 + b * c mod 2 ^ 32 + 2 ^ 31"
  proof -
    have one: "unat (push_bit 31 1 :: 64 word) = 2 ^ 31" by (simp add: push_bit_eq_mult)
    have m: "k mod 2 ^ 32 < (2 :: nat) ^ 32" for k by simp
    show ?thesis unfolding Q_def
      using q1 m [of "a * d"] m [of "b * c"]
      by (simp add: unat_plus_64 unat_drop_64 unat_low_32 p one)
  qed
  have full: "u * v = a * c + 2 ^ 32 * (a * d + b * c) + 2 ^ 64 * (b * d)"
    by (simp add: uv algebra_simps)
  define H where "H = b * d + b * c div 2 ^ 32 + a * d div 2 ^ 32"
  have split: "a * c = 2 ^ 32 * (a * c div 2 ^ 32) + a * c mod 2 ^ 32"
    "a * d = 2 ^ 32 * (a * d div 2 ^ 32) + a * d mod 2 ^ 32"
    "b * c = 2 ^ 32 * (b * c div 2 ^ 32) + b * c mod 2 ^ 32" by simp_all
  have gen: "(A * h1 + l1) + A * ((A * h2 + l2) + (A * h3 + l3)) + A * A * e + A * r =
      l1 + A * (h1 + l2 + l3 + r) + A * A * (e + h3 + h2)" for A h1 l1 h2 l2 h3 l3 e r :: nat
    by (simp add: algebra_simps)
  have "u * v + 2 ^ 63 = a * c mod 2 ^ 32 + 2 ^ 32 * unat Q + 2 ^ 64 * H"
    using gen [of "2 ^ 32" "a * c div 2 ^ 32" "a * c mod 2 ^ 32" "a * d div 2 ^ 32" "a * d mod 2 ^ 32"
        "b * c div 2 ^ 32" "b * c mod 2 ^ 32" "b * d" "2 ^ 31"]
    unfolding split [symmetric] full Q H_def by simp
  then have "u * v + 2 ^ 63 = (a * c mod 2 ^ 32 + 2 ^ 32 * unat Q) + H * 2 ^ 64" by simp
  then have "(u * v + 2 ^ 63) div 2 ^ 64 = H + (a * c mod 2 ^ 32 + 2 ^ 32 * unat Q) div 2 ^ 64"
    by (simp only: div_mult_self1 zero_less_numeral power_eq_0_iff) simp
  also have "(a * c mod 2 ^ 32 + 2 ^ 32 * unat Q) div 2 ^ 64 =
      (a * c mod 2 ^ 32 + 2 ^ 32 * unat Q) div 2 ^ 32 div 2 ^ 32"
    by (simp add: div_mult2_eq [symmetric])
  also have "(a * c mod 2 ^ 32 + 2 ^ 32 * unat Q) div 2 ^ 32 = unat Q" by simp
  finally have res: "(u * v + 2 ^ 63) div 2 ^ 64 = H + unat Q div 2 ^ 32" .
  have "u * v \<le> (2 ^ 64 - 1) * (2 ^ 64 - 1)" using \<open>u < 2 ^ 64\<close> \<open>v < 2 ^ 64\<close> by (intro mult_le_mono) simp_all
  then have small: "H + unat Q div 2 ^ 32 < 2 ^ 64"
    unfolding res [symmetric] by (simp add: div_less_iff_less_mult)
  have "f_of (diyfp_mul x y) = p3 + drop_bit 32 p2 + drop_bit 32 p1 + drop_bit 32 Q"
    by (simp add: diyfp_mul_def Let_def p0_def p1_def p2_def p3_def Q_def)
  also have "unat \<dots> = H + unat Q div 2 ^ 32"
    using small by (simp add: H_def unat_plus_64 unat_drop_64 p)
  finally show "unat (f_of (diyfp_mul x y)) = (unat (f_of x) * unat (f_of y) + 2 ^ 63) div 2 ^ 64"
    using res by (simp add: u_def v_def)
qed

section \<open>Normal form and boundaries\<close>

lemma diyfp_normalize_spec:
  assumes "f_of x \<noteq> 0"
  obtains s y where "diyfp_normalize x = Some y" "unat (f_of y) = unat (f_of x) * 2 ^ s"
    "e_of y = e_of x - int s" "2 ^ 63 \<le> unat (f_of y)"
proof -
  have "\<exists>s y. diyfp_normalize x = Some y \<and> unat (f_of y) = unat (f_of x) * 2 ^ s \<and>
      e_of y = e_of x - int s \<and> 2 ^ 63 \<le> unat (f_of y)"
    using assms
  proof (induction "2 ^ 64 - unat (f_of x)" arbitrary: x rule: less_induct)
    case less
    have pos: "0 < unat (f_of x)" using less.prems by (simp add: unat_gt_0)
    show ?case
    proof (cases "drop_bit 63 (f_of x) = 0")
      case True
      then have "unat (f_of x) div 2 ^ 63 = 0" by (metis unat_drop_64 unsigned_0)
      then have lt: "unat (f_of x) * 2 ^ 1 < 2 ^ 64" by (simp add: div_eq_0_iff)
      let ?x = "\<lparr>f_of = push_bit 1 (f_of x), e_of = e_of x - 1\<rparr>"
      have f: "unat (f_of ?x) = 2 * unat (f_of x)" using unat_push_64 [OF lt] by simp
      then have "f_of ?x \<noteq> 0" using pos by (metis mult_is_0 not_less_zero unsigned_0 zero_neq_numeral)
      moreover have "2 ^ 64 - unat (f_of ?x) < 2 ^ 64 - unat (f_of x)" unfolding f using pos lt by simp
      ultimately obtain s y where "diyfp_normalize ?x = Some y" "unat (f_of y) = unat (f_of ?x) * 2 ^ s"
        "e_of y = e_of ?x - int s" "2 ^ 63 \<le> unat (f_of y)" using less.hyps by blast
      with f True show ?thesis
        by (intro exI [of _ "Suc s"] exI [of _ y]) (simp add: diyfp_normalize.simps [of x])
    next
      case False
      then have "unat (f_of x) div 2 ^ 63 \<noteq> 0" by (metis unat_drop_64 unat_eq_zero)
      then have "2 ^ 63 \<le> unat (f_of x)" by (simp add: div_eq_0_iff)
      with False show ?thesis
        by (intro exI [of _ 0] exI [of _ x]) (simp add: diyfp_normalize.simps [of x])
    qed
  qed
  with that show thesis by blast
qed

definition val :: "diyfp \<Rightarrow> real" where
  "val x = real (unat (f_of x)) * 2 powi e_of x"

text \<open>The significand and the exponent of a finite magnitude, and the bounds of what rounds to it.\<close>

definition sig :: "nat \<Rightarrow> nat" where
  "sig m = (if m div 2 ^ 52 = 0 then m mod 2 ^ 52 else m mod 2 ^ 52 + 2 ^ 52)"

definition shift :: "nat \<Rightarrow> nat" where
  "shift m = m div 2 ^ 52 - 1"

definition closer_below :: "nat \<Rightarrow> bool" where
  "closer_below m \<longleftrightarrow> m mod 2 ^ 52 = 0 \<and> 1 < m div 2 ^ 52"

definition upper :: "nat \<Rightarrow> real" where
  "upper m = (2 * real (sig m) + 1) * 2 powi (int (shift m) - 1075)"

definition lower :: "nat \<Rightarrow> real" where
  "lower m = (if closer_below m then (4 * real (sig m) - 1) * 2 powi (int (shift m) - 1076)
              else (2 * real (sig m) - 1) * 2 powi (int (shift m) - 1075))"

lemma sig_bounds:
  assumes "0 < m"
  shows "0 < sig m" "sig m < 2 ^ 53" "shift m = 0 \<or> 2 ^ 52 \<le> sig m" "scaled m = sig m * 2 ^ shift m"
    "m = shift m * 2 ^ 52 + sig m"
proof -
  have mod: "m mod 2 ^ 52 < (2 ^ 52 :: nat)" by simp
  have eq: "m div 2 ^ 52 * 2 ^ 52 + m mod 2 ^ 52 = m" by (rule div_mult_mod_eq)
  show "0 < sig m" "sig m < 2 ^ 53" "shift m = 0 \<or> 2 ^ 52 \<le> sig m" "scaled m = sig m * 2 ^ shift m"
    using assms mod eq by (auto simp: sig_def shift_def scaled_def)
  show "m = shift m * 2 ^ 52 + sig m"
  proof (cases "m div 2 ^ 52")
    case 0
    then show ?thesis using eq by (simp add: sig_def shift_def)
  next
    case (Suc k)
    from eq [unfolded Suc] show ?thesis unfolding sig_def shift_def Suc by simp
  qed
qed

lemma unat_mk_double: "m < 2 ^ 63 \<Longrightarrow> unat (mk_double False m) = m"
  by (simp add: mk_double_def unat_of_nat)

lemma powi_shift: "(2::real) powi (a + int n) = 2 powi a * 2 ^ n"
  by (simp add: power_int_add)

lemma compute_boundaries_spec:
  assumes "0 < m" "m < inf_mag"
  obtains w lo hi where "compute_boundaries (mk_double False m) = Some (w, lo, hi)"
    "val hi = upper m" "val lo = lower m" "e_of lo = e_of hi" "2 ^ 63 \<le> unat (f_of hi)"
    "unat (f_of lo) + 1536 \<le> unat (f_of hi)" "2 ^ 20 \<le> unat (f_of lo)" "- 1137 \<le> e_of hi" "e_of hi \<le> 960"
proof -
  define bits where "bits = mk_double False m"
  have u: "unat bits = m" using assms(2) by (simp add: bits_def unat_mk_double)
  define E where "E = drop_bit 52 bits"
  define F where "F = bits AND (push_bit 52 1 - 1)"
  have E: "unat E = m div 2 ^ 52" and F: "unat F = m mod 2 ^ 52"
    using unat_mask_64 [of 52 bits] by (simp_all add: E_def F_def unat_drop_64 u)
  define v where "v = (if E = 0 then \<lparr>f_of = F, e_of = 1 - (1023 + 52)\<rparr>
      else \<lparr>f_of = F + push_bit 52 1, e_of = uint E - (1023 + 52)\<rparr>)"
  note sb = sig_bounds [OF assms(1)]
  have E0: "E = 0 \<longleftrightarrow> m div 2 ^ 52 = 0" using E by (metis unat_eq_zero)
  have one: "unat (push_bit 52 1 :: 64 word) = 2 ^ 52" by (simp add: push_bit_eq_mult)
  have Flt: "unat F < 2 ^ 52" unfolding F by simp
  have v: "unat (f_of v) = sig m" "e_of v = int (shift m) - 1074"
  proof -
    show "unat (f_of v) = sig m"
      using Flt F by (simp add: v_def E0 sig_def unat_plus_64 one)
    have "uint E = int (m div 2 ^ 52)" using E by (metis uint_nat)
    then show "e_of v = int (shift m) - 1074"
      by (auto simp: v_def E0 shift_def)
  qed
  have cl: "(F = 0 \<and> 1 < E) \<longleftrightarrow> closer_below m"
    unfolding closer_below_def F [symmetric] E [symmetric] by (simp add: word_less_nat_alt unat_eq_zero)
  define mp where "mp = \<lparr>f_of = 2 * f_of v + 1, e_of = e_of v - 1\<rparr>"
  define mm where "mm = (if closer_below m then \<lparr>f_of = 4 * f_of v - 1, e_of = e_of v - 2\<rparr>
      else \<lparr>f_of = 2 * f_of v - 1, e_of = e_of v - 1\<rparr>)"
  have mp: "unat (f_of mp) = 2 * sig m + 1" "e_of mp = int (shift m) - 1075"
    using sb(2) v by (simp_all add: mp_def unat_plus_64 unat_times_64)
  have mm: "unat (f_of mm) = (if closer_below m then 4 * sig m - 1 else 2 * sig m - 1)"
    "e_of mm = int (shift m) - (if closer_below m then 1076 else 1075)"
    using sb(1,2) v by (simp_all add: mm_def unat_minus_64 unat_times_64)
  have "f_of mp \<noteq> 0" using mp(1) by (metis add_is_0 one_neq_zero unsigned_0)
  then obtain s hi where hi: "diyfp_normalize mp = Some hi" "unat (f_of hi) = (2 * sig m + 1) * 2 ^ s"
    "e_of hi = int (shift m) - 1075 - int s" "2 ^ 63 \<le> unat (f_of hi)"
    using mp by (metis diyfp_normalize_spec)
  have "f_of v \<noteq> 0" using v(1) sb(1) by (metis not_less_zero unsigned_0)
  then obtain w where w: "diyfp_normalize v = Some w" by (metis diyfp_normalize_spec)
  have lt: "(2 * sig m + 1) * 2 ^ s < 2 ^ 64" using hi(2) unat_lt_64 [of "f_of hi"] by simp
  have s: "10 \<le> s" "s \<le> 62"
  proof -
    have "2 ^ 63 \<le> (2 * sig m + 1) * 2 ^ s" using hi(2,4) by simp
    also have "\<dots> < 2 ^ 54 * 2 ^ s" using sb(2) by (intro mult_strict_right_mono) simp_all
    finally have "2 ^ 63 < (2::nat) ^ (54 + s)" by (simp add: power_add)
    then have "63 < 54 + s" by (rule power_less_imp_less_exp [rotated]) simp
    then show "10 \<le> s" by simp
    have "2 * 2 ^ s \<le> (2 * sig m + 1) * 2 ^ s" using sb(1) by (intro mult_right_mono) simp_all
    also note lt
    finally have "(2::nat) ^ Suc s < 2 ^ 64" by simp
    then have "Suc s < 64" by (rule power_less_imp_less_exp [rotated]) simp
    then show "s \<le> 62" by simp
  qed
  define r where "r = s - 1"
  have r: "s = Suc r" "9 \<le> r" using s(1) by (simp_all add: r_def)
  have big: "512 \<le> (2::nat) ^ r" using power_increasing [OF r(2), of "2::nat"] by simp
  define lo where "lo = diyfp_normalize_to mm (e_of hi)"
  have sh: "nat (e_of mm - e_of hi) = (if closer_below m then r else s)"
    using mm(2) hi(3) r by auto
  have flo: "unat (f_of lo) = (if closer_below m then (4 * sig m - 1) * 2 ^ r else (2 * sig m - 1) * 2 ^ s)"
  proof -
    have "unat (f_of mm) * 2 ^ (if closer_below m then r else s) < 2 ^ 64"
    proof (cases "closer_below m")
      case True
      have "(4 * sig m - 1) * 2 ^ r \<le> (2 * sig m + 1) * 2 ^ s" unfolding r by (simp add: algebra_simps)
      with lt True mm show ?thesis by simp
    next
      case False
      have "(2 * sig m - 1) * 2 ^ s \<le> (2 * sig m + 1) * 2 ^ s" by (intro mult_right_mono) simp_all
      with lt False mm show ?thesis by simp
    qed
    from unat_push_64 [OF this] have "unat (f_of lo) = unat (f_of mm) * 2 ^ (if closer_below m then r else s)"
      by (simp only: lo_def diyfp_normalize_to_def diyfp.simps sh)
    then show ?thesis by (simp add: mm)
  qed
  show thesis
  proof (rule that [of w lo hi])
    have "compute_boundaries bits = (case diyfp_normalize mp of None \<Rightarrow> None
        | Some w_plus \<Rightarrow> (case diyfp_normalize v of None \<Rightarrow> None
            | Some w \<Rightarrow> Some (w, diyfp_normalize_to mm (e_of w_plus), w_plus)))"
      by (simp only: compute_boundaries_def Let_def mm_def mp_def v_def cl [symmetric] E_def F_def)
    then show "compute_boundaries (mk_double False m) = Some (w, lo, hi)"
      by (simp add: bits_def hi(1) w lo_def)
    have e: "int (shift m) - 1075 = e_of hi + int s" "int (shift m) - 1076 = e_of hi + int r"
      using hi(3) r by simp_all
    show "val hi = upper m"
      unfolding val_def upper_def e powi_shift hi(2) by (simp add: algebra_simps)
    show "val lo = lower m"
    proof (cases "closer_below m")
      case True
      have "1 \<le> 4 * sig m" using sb(1) by simp
      with True show ?thesis unfolding val_def lower_def e powi_shift flo
        by (simp add: lo_def diyfp_normalize_to_def of_nat_diff algebra_simps)
    next
      case False
      have "1 \<le> 2 * sig m" using sb(1) by simp
      with False show ?thesis unfolding val_def lower_def e powi_shift flo
        by (simp add: lo_def diyfp_normalize_to_def of_nat_diff algebra_simps)
    qed
    show "e_of lo = e_of hi" by (simp add: lo_def diyfp_normalize_to_def)
    show "2 ^ 63 \<le> unat (f_of hi)" by (rule hi(4))
    show "unat (f_of lo) + 1536 \<le> unat (f_of hi)"
    proof (cases "closer_below m")
      case True
      have "(4 * sig m - 1) * 2 ^ r + 3 * 2 ^ r = (2 * sig m + 1) * 2 ^ s"
        using sb(1) unfolding r by (cases "sig m") (simp_all add: algebra_simps)
      with True flo hi(2) big show ?thesis by simp
    next
      case False
      have "(2 * sig m - 1) * 2 ^ s + 4 * 2 ^ r = (2 * sig m + 1) * 2 ^ s"
        using sb(1) unfolding r by (cases "sig m") (simp_all add: algebra_simps)
      with False flo hi(2) big show ?thesis by simp
    qed
    have "2 ^ 63 \<le> 3 * unat (f_of lo)"
    proof (cases "closer_below m")
      case True
      have "(2 * sig m + 1) * 2 ^ s \<le> 3 * ((4 * sig m - 1) * 2 ^ r)"
        using sb(1) unfolding r by (cases "sig m") (simp_all add: algebra_simps)
      with True flo hi(2,4) show ?thesis by simp
    next
      case False
      have "(2 * sig m + 1) * 2 ^ s \<le> 3 * ((2 * sig m - 1) * 2 ^ s)"
        using sb(1) by (cases "sig m") (simp_all add: algebra_simps)
      with False flo hi(2,4) show ?thesis by simp
    qed
    then show "2 ^ 20 \<le> unat (f_of lo)" by simp
    have "shift m \<le> 2045"
    proof -
      have "m div 2 ^ 52 < 2047" using assms(2) by (simp add: less_mult_imp_div_less)
      then show ?thesis by (simp add: shift_def)
    qed
    then show "- 1137 \<le> e_of hi" "e_of hi \<le> 960" using s hi(3) by simp_all
  qed
qed


section \<open>Cached powers of ten\<close>

text \<open>
  Every row is within half a unit of its power of ten. The checks run through the table with
  \<open>p\<close> going from power to power of five: upwards from \<open>10 ^ 4\<close>, downwards from \<open>10 ^ - 4\<close>.
\<close>

definition row_range :: "64 word \<times> int \<times> int \<Rightarrow> bool" where
  "row_range row = (case row of (f, e, k) \<Rightarrow> 2 ^ 63 \<le> uint f \<and>
     k * 2 ^ 18 < (e + 64) * 78913 \<and> (e + 34) * 78913 < (k - 8) * 2 ^ 18)"

fun up_ok :: "int \<Rightarrow> nat \<Rightarrow> (64 word \<times> int \<times> int) list \<Rightarrow> bool" where
  "up_ok p k [] = True"
| "up_ok p k ((f, e, k') # rows) \<longleftrightarrow> k' = int k \<and>
     (if int k \<le> e then 2 * \<bar>uint f * 2 ^ nat (e - int k) - p\<bar> \<le> 2 ^ nat (e - int k)
      else uint f = p * 2 ^ nat (int k - e)) \<and>
     up_ok (p * 390625) (k + 8) rows"

fun down_ok :: "int \<Rightarrow> nat \<Rightarrow> (64 word \<times> int \<times> int) list \<Rightarrow> bool" where
  "down_ok p k [] = True"
| "down_ok p k ((f, e, k') # rows) \<longleftrightarrow> k' = - int k \<and>
     int k \<le> - e \<and> 2 * \<bar>uint f * p - 2 ^ nat (- e - int k)\<bar> \<le> p \<and>
     down_ok (p * 390625) (k + 8) rows"

lemma table_ranges: "list_all row_range kCachedPowers"
  by (simp add: kCachedPowers_def row_range_def)

lemma table_up: "up_ok 625 4 (drop 38 kCachedPowers)"
  by (simp add: kCachedPowers_def)

lemma table_down: "down_ok 625 4 (rev (take 38 kCachedPowers))"
  by (simp add: kCachedPowers_def)

lemma table_exponents: "map (\<lambda>(f, e, k). k) kCachedPowers = map (\<lambda>i. 8 * int i - 300) [0..<79]"
  by (simp add: kCachedPowers_def upt_rec)

lemma powi_nat: "0 \<le> k \<Longrightarrow> (b :: real) powi k = b ^ nat k" "k < 0 \<Longrightarrow> b powi k = 1 / b ^ nat (- k)"
  by (simp_all add: power_int_def inverse_eq_divide power_one_over)

definition near_pow10 :: "64 word \<times> int \<times> int \<Rightarrow> bool" where
  "near_pow10 row = (case row of (f, e, k) \<Rightarrow> 2 * \<bar>real (unat f) * 2 powi e - 10 powi k\<bar> \<le> 2 powi e)"

lemma of_int_le_real: "a \<le> b \<Longrightarrow> real_of_int a \<le> real_of_int b"
  by simp

lemma up_ok_near: "up_ok (5 ^ k) k rows \<Longrightarrow> list_all near_pow10 rows"
proof (induction "5 ^ k :: int" k rows rule: up_ok.induct)
  case (1 k)
  then show ?case by simp
next
  case (2 k f e k' rows)
  define F where "F = uint f"
  have u: "real (unat f) = of_int F" by (simp add: F_def)
  have ten: "(10::real) powi int k = 5 ^ k * 2 ^ k" by (simp add: flip: power_mult_distrib)
  have "(5::int) ^ k * 390625 = 5 ^ (k + 8)" by (simp add: power_add)
  with 2 have rest: "list_all near_pow10 rows" by simp
  have "2 * \<bar>of_int F * 2 powi e - 10 powi int k\<bar> \<le> (2::real) powi e"
  proof (cases "int k \<le> e")
    case True
    define d where "d = nat (e - int k)"
    have e: "e = int k + int d" using True by (simp add: d_def)
    have "real_of_int (2 * \<bar>F * 2 ^ d - 5 ^ k\<bar>) \<le> real_of_int (2 ^ d)"
      using "2.prems" True by (intro of_int_le_real) (simp add: F_def d_def)
    then have "2 ^ k * (2 * \<bar>of_int F * 2 ^ d - 5 ^ k\<bar>) \<le> 2 ^ k * (2::real) ^ d"
      by (intro mult_left_mono) simp_all
    moreover have "of_int F * 2 powi e - 10 powi int k = 2 ^ k * (of_int F * 2 ^ d - 5 ^ k :: real)"
      unfolding ten e by (simp add: powi_shift algebra_simps)
    moreover have "(2::real) powi e = 2 ^ k * 2 ^ d" unfolding e by (simp add: powi_shift)
    ultimately show ?thesis by (simp add: abs_mult)
  next
    case False
    then have "F = 5 ^ k * 2 ^ nat (int k - e)" using "2.prems" by (simp add: F_def)
    moreover have "2 ^ nat (int k - e) * 2 powi e = (2::real) ^ k"
      using False powi_shift [of e "nat (int k - e)"] by (simp add: mult.commute)
    ultimately have "of_int F * 2 powi e = (10::real) powi int k" unfolding ten by (simp add: mult.assoc)
    then show ?thesis by simp
  qed
  then have "near_pow10 (f, e, k')" using "2.prems" unfolding near_pow10_def prod.case u by simp
  with rest show ?case by simp
qed

lemma down_ok_near: "down_ok (5 ^ k) k rows \<Longrightarrow> list_all near_pow10 rows"
proof (induction "5 ^ k :: int" k rows rule: down_ok.induct)
  case (1 k)
  then show ?case by simp
next
  case (2 k f e k' rows)
  define F where "F = uint f"
  have u: "real (unat f) = of_int F" by (simp add: F_def)
  have "(5::int) ^ k * 390625 = 5 ^ (k + 8)" by (simp add: power_add)
  with 2 have rest: "list_all near_pow10 rows" by simp
  define A :: real where "A = 5 ^ k"
  define P where "P = (2::real) powi e"
  have pos: "0 < A" "0 < P" by (simp_all add: A_def P_def)
  define d where "d = nat (- e - int k)"
  have e: "- int k = e + int d" using "2.prems" by (simp add: d_def)
  have "real_of_int (2 * \<bar>F * 5 ^ k - 2 ^ d\<bar>) \<le> real_of_int (5 ^ k)"
    using "2.prems" by (intro of_int_le_real) (simp add: F_def d_def)
  then have near: "2 * \<bar>of_int F * A - 2 ^ d\<bar> \<le> A" by (simp add: A_def)
  have "(10::real) powi (- int k) = 2 powi (- int k) / A"
    by (simp add: A_def power_int_minus field_simps flip: power_mult_distrib)
  also have "2 powi (- int k) = P * 2 ^ d" unfolding e P_def by (rule powi_shift)
  finally have "of_int F * P - 10 powi (- int k) = (of_int F * A - 2 ^ d) * (P / A)"
    using pos by (simp add: field_simps)
  then have "2 * \<bar>of_int F * P - 10 powi (- int k)\<bar> = 2 * \<bar>of_int F * A - 2 ^ d\<bar> * (P / A)"
    using pos by (simp add: abs_mult)
  also have "\<dots> \<le> A * (P / A)" using near pos by (intro mult_right_mono) simp_all
  also have "\<dots> = P" using pos by simp
  finally have "near_pow10 (f, e, k')" using "2.prems" unfolding near_pow10_def prod.case u P_def by simp
  with rest show ?case by simp
qed

lemma table_near: "list_all near_pow10 kCachedPowers"
proof -
  have "list_all near_pow10 (drop 38 kCachedPowers)"
    by (rule up_ok_near [of 4]) (use table_up in simp)
  moreover have "list_all near_pow10 (rev (take 38 kCachedPowers))"
    by (rule down_ok_near [of 4]) (use table_down in simp)
  ultimately show ?thesis
    by (metis append_take_drop_id list_all_append list_all_rev)
qed

lemma cached_row:
  assumes "i < 79"
  obtains f e where "kCachedPowers ! i = (f, e, 8 * int i - 300)" "row_range (f, e, 8 * int i - 300)"
    "near_pow10 (f, e, 8 * int i - 300)"
proof -
  have len: "length kCachedPowers = 79" using arg_cong [OF table_exponents, of length] by simp
  obtain f e k where row: "kCachedPowers ! i = (f, e, k)" by (rule prod_cases3)
  have "map (\<lambda>(f, e, k). k) kCachedPowers ! i = map (\<lambda>i. 8 * int i - 300) [0..<79] ! i"
    by (simp only: table_exponents)
  then have k: "k = 8 * int i - 300" using assms by (simp add: len row)
  have "(f, e, k) \<in> set kCachedPowers" using assms len row by (metis nth_mem)
  with table_ranges table_near row show thesis
    by (intro that [of f e]) (auto simp: k list_all_iff)
qed

lemma get_cached_power_spec:
  assumes "- 1137 \<le> e" "e \<le> 960"
  obtains cf ce ck where "get_cached_power e = (cf, ce, ck)" "near_pow10 (cf, ce, ck)"
    "2 ^ 63 \<le> unat cf" "- 60 \<le> ce + e + 64" "ce + e + 64 \<le> - 32"
proof -
  define f where "f = - 61 - e"
  define k where "k = trunc_div (f * 78913) (2 ^ 18) + (if 0 < f then 1 else 0)"
  have k: "f * 78913 \<le> k * 2 ^ 18" "(k - 1) * 2 ^ 18 \<le> f * 78913"
  proof -
    show "f * 78913 \<le> k * 2 ^ 18" "(k - 1) * 2 ^ 18 \<le> f * 78913"
      unfolding k_def by (cases "f < 0"; cases "f = 0"; simp add: trunc_div_nonneg trunc_div_neg)+
  qed
  have f1: "kAlpha - e - 1 = f" by (simp add: kAlpha_def f_def)
  have "- 1021 \<le> f" "f \<le> 1076" using assms by (simp_all add: f_def)
  then have kb: "- 307 \<le> k" "k \<le> 324" using k by simp_all
  define i where "i = nat ((307 + k) div 8)"
  have i: "trunc_div (300 + k + (8 - 1)) 8 = int i"
    using kb by (simp add: i_def trunc_div_nonneg)
  have i79: "i < 79" using kb by (simp add: i_def)
  have "int i = (307 + k) div 8" using kb by (simp add: i_def)
  then have ib: "8 * int i \<le> 307 + k" "300 + k \<le> 8 * int i" by presburger+
  from i79 obtain cf ce where row: "kCachedPowers ! i = (cf, ce, 8 * int i - 300)"
    "row_range (cf, ce, 8 * int i - 300)" "near_pow10 (cf, ce, 8 * int i - 300)" by (rule cached_row)
  have "get_cached_power e = (cf, ce, 8 * int i - 300)"
    unfolding get_cached_power_def Let_def f1 k_def [symmetric] i nat_int by (rule row(1))
  moreover have "- 60 \<le> ce + e + 64" "ce + e + 64 \<le> - 32"
    using row(2) ib k by (simp_all add: row_range_def f_def)
  moreover have "2 ^ 63 \<le> unat cf"
  proof -
    have "int (2 ^ 63) \<le> int (unat cf)" using row(2) by (simp add: row_range_def)
    then show ?thesis by (rule of_nat_le_iff [THEN iffD1])
  qed
  ultimately show thesis using row(3) that by blast
qed

text \<open>
  Both ends of the interval, scaled by the cached power, move inwards: the error of the product
  and of the power together stay below the unit that is given up on either side.
\<close>

definition scaled_ends :: "diyfp \<Rightarrow> diyfp \<Rightarrow> diyfp \<times> diyfp \<Rightarrow> int \<Rightarrow> bool" where
  "scaled_ends lo hi Ms k \<longleftrightarrow> (case Ms of (M_minus, M_plus) \<Rightarrow>
     val M_plus < val hi * 10 powi k \<and> val lo * 10 powi k < val M_minus \<and>
     e_of M_minus = e_of M_plus \<and> - 60 \<le> e_of M_plus \<and> e_of M_plus \<le> - 32 \<and>
     unat (f_of M_minus) < unat (f_of M_plus) \<and> 0 < unat (f_of M_minus) \<and>
     2 ^ 61 \<le> unat (f_of M_plus))"

lemma mul_near:
  fixes p c t :: real and w :: nat
  assumes "w = (f * g + 2 ^ 63) div 2 ^ 64" "f < 2 ^ 64" "2 * \<bar>real g - t\<bar> \<le> 1"
  shows "\<bar>real w - real f * t / 2 ^ 64\<bar> < 1"
proof -
  have "w * 2 ^ 64 \<le> f * g + 2 ^ 63" "f * g + 2 ^ 63 < (w + 1) * 2 ^ 64"
    unfolding assms(1) by simp_all
  then have "real (w * 2 ^ 64) \<le> real (f * g + 2 ^ 63)" "real (f * g + 2 ^ 63) < real ((w + 1) * 2 ^ 64)"
    by (simp_all only: of_nat_le_iff of_nat_less_iff)
  then have 1: "\<bar>real w * 2 ^ 64 - real f * real g\<bar> \<le> 2 ^ 63" by (simp add: abs_le_iff algebra_simps)
  have "\<bar>real f * real g - real f * t\<bar> = real f * \<bar>real g - t\<bar>"
    by (simp add: abs_mult flip: right_diff_distrib)
  also have "\<dots> \<le> real f * (1 / 2)" using assms(3) by (intro mult_left_mono) simp_all
  also have "\<dots> < 2 ^ 63" using assms(2) by simp
  finally have 2: "\<bar>real f * real g - real f * t\<bar> < 2 ^ 63" .
  have gen: "\<bar>a - c\<bar> < h + h" if "\<bar>a - b\<bar> \<le> h" "\<bar>b - c\<bar> < h" for a b c h :: real using that by linarith
  from gen [OF 1 2] have "\<bar>real w * 2 ^ 64 - real f * t\<bar> < 2 ^ 64" by simp
  then show ?thesis by (simp add: abs_less_iff field_simps)
qed

lemma scaled_spec:
  assumes e: "e_of lo = e_of hi" "- 1137 \<le> e_of hi" "e_of hi \<le> 960"
    and f: "2 ^ 63 \<le> unat (f_of hi)" "unat (f_of lo) + 1536 \<le> unat (f_of hi)" "2 ^ 20 \<le> unat (f_of lo)"
  obtains M_minus w M_plus k where "grisu2_scaled lo v hi = grisu2_digit_gen (- k) M_minus w M_plus"
    "scaled_ends lo hi (M_minus, M_plus) k"
proof -
  obtain cf ce ck where row: "get_cached_power (e_of hi) = (cf, ce, ck)" "near_pow10 (cf, ce, ck)"
    "2 ^ 63 \<le> unat cf" "- 60 \<le> ce + e_of hi + 64" "ce + e_of hi + 64 \<le> - 32"
    using get_cached_power_spec [OF e(2,3)] by metis
  define c where "c = \<lparr>f_of = cf, e_of = ce\<rparr>"
  define Wm Wp where "Wm = diyfp_mul lo c" and "Wp = diyfp_mul hi c"
  define wm wp where "wm = unat (f_of Wm)" and "wp = unat (f_of Wp)"
  define E where "E = ce + e_of hi + 64"
  have w: "wm = (unat (f_of lo) * unat cf + 2 ^ 63) div 2 ^ 64"
    "wp = (unat (f_of hi) * unat cf + 2 ^ 63) div 2 ^ 64" and We: "e_of Wm = E" "e_of Wp = E"
    by (simp_all add: wm_def wp_def Wm_def Wp_def diyfp_mul_rounds c_def E_def e(1))
  define t where "t = 10 powi ck / (2 powi ce :: real)"
  have pos: "0 < (2 :: real) powi ce" by simp
  have t: "2 * \<bar>real (unat cf) - t\<bar> \<le> 1"
  proof -
    have "2 * \<bar>(real (unat cf) - t) * 2 powi ce\<bar> \<le> 2 powi ce"
      using row(2) pos unfolding near_pow10_def prod.case t_def by (simp add: left_diff_distrib)
    then show ?thesis using pos by (simp add: abs_mult)
  qed
  have near: "\<bar>real wm - real (unat (f_of lo)) * t / 2 ^ 64\<bar> < 1"
    "\<bar>real wp - real (unat (f_of hi)) * t / 2 ^ 64\<bar> < 1"
    by (rule mul_near [OF w(1) _ t], simp) (rule mul_near [OF w(2) _ t], simp)
  have E2: "(2 :: real) powi E = 2 powi ce * 2 powi e_of hi * 2 ^ 64"
    unfolding E_def by (simp add: power_int_add)
  have vals: "val hi * 10 powi ck = real (unat (f_of hi)) * t / 2 ^ 64 * 2 powi E"
    "val lo * 10 powi ck = real (unat (f_of lo)) * t / 2 ^ 64 * 2 powi E"
    using pos by (simp_all add: val_def t_def E2 e(1))
  have low: "2 ^ 62 \<le> wp" "2 ^ 18 \<le> wm" "wm + 4 \<le> wp"
  proof -
    have m: "2 ^ 63 * 2 ^ 63 \<le> unat (f_of hi) * unat cf" "2 ^ 20 * 2 ^ 63 \<le> unat (f_of lo) * unat cf"
      using f row(3) by (simp_all only: mult_le_mono)
    have "unat (f_of lo) * unat cf + 1536 * 2 ^ 63 \<le> unat (f_of lo) * unat cf + 1536 * unat cf"
      using row(3) by simp
    also have "\<dots> = (unat (f_of lo) + 1536) * unat cf" by (simp add: algebra_simps)
    also have "\<dots> \<le> unat (f_of hi) * unat cf" using f(2) by (rule mult_right_mono) simp
    finally have g: "unat (f_of lo) * unat cf + 1536 * 2 ^ 63 \<le> unat (f_of hi) * unat cf" .
    show "2 ^ 62 \<le> wp" using m unfolding w by (simp add: less_eq_div_iff_mult_less_eq)
    show "2 ^ 18 \<le> wm" using m unfolding w by (simp add: less_eq_div_iff_mult_less_eq)
    show "wm + 4 \<le> wp" 
    proof -
      have "wm + 4 = (unat (f_of lo) * unat cf + 2 ^ 63 + 4 * 2 ^ 64) div 2 ^ 64" unfolding w by simp
      also have "\<dots> \<le> wp" unfolding w using g by (intro div_le_mono) simp
      finally show ?thesis .
    qed
  qed
  define M_minus M_plus where "M_minus = Wm\<lparr>f_of := f_of Wm + 1\<rparr>" and "M_plus = Wp\<lparr>f_of := f_of Wp - 1\<rparr>"
  have M: "unat (f_of M_minus) = wm + 1" "unat (f_of M_plus) = wp - 1" "e_of M_minus = E" "e_of M_plus = E"
  proof -
    have "wp < 2 ^ 64" by (simp add: wp_def)
    with low have "wm + 1 < 2 ^ 64" by simp
    then show "unat (f_of M_minus) = wm + 1"
      unfolding wm_def by (simp add: M_minus_def unat_plus_64)
    show "unat (f_of M_plus) = wp - 1" using low(1) unfolding wp_def by (simp add: M_plus_def unat_minus_64)
    show "e_of M_minus = E" "e_of M_plus = E" by (simp_all add: M_minus_def M_plus_def We)
  qed
  have "scaled_ends lo hi (M_minus, M_plus) ck"
  proof -
    have "1 \<le> wp" using low(1) by simp
    then have p: "val M_plus = (real wp - 1) * 2 powi E" unfolding val_def M by (simp add: of_nat_diff)
    have m: "val M_minus = (real wm + 1) * 2 powi E" unfolding val_def M by simp
    have "0 < (2 :: real) powi E" by simp
    then have "val M_plus < val hi * 10 powi ck" "val lo * 10 powi ck < val M_minus"
      unfolding p m vals using near by (auto intro!: mult_strict_right_mono)
    moreover have "- 60 \<le> E" "E \<le> - 32" using row(4,5) by (simp_all add: E_def)
    moreover have "wm + 1 < wp - 1" "2 ^ 61 \<le> wp - 1" 
    proof -
      show "wm + 1 < wp - 1" using low(3) by linarith
      have "(2 :: nat) ^ 61 + 1 \<le> 2 ^ 62" by simp
      then show "2 ^ 61 \<le> wp - 1" using low(1) by linarith
    qed
    ultimately show ?thesis by (simp add: scaled_ends_def M)
  qed
  moreover have "grisu2_scaled lo v hi = grisu2_digit_gen (- ck) M_minus (diyfp_mul v c) M_plus"
    by (simp add: grisu2_scaled_def row(1) Let_def c_def M_minus_def M_plus_def Wm_def Wp_def)
  ultimately show thesis by (rule that [rotated])
qed

end
