(* ===== verification/GrisuDigits.thy ===== *)
theory GrisuDigits
  imports GrisuBounds
begin

unbundle bit_operations_syntax

text \<open>
  Grisu2, second half: digit generation stops, its digits stay strictly inside the interval of
  reals that round to the double, and rounding any fraction inside that interval gives the
  double back.
\<close>

section \<open>Digits\<close>

definition dval :: "nat list \<Rightarrow> nat" where
  "dval ds = foldl (\<lambda>v d. 10 * v + d) 0 ds"

lemma dval_snoc [simp]: "dval [] = 0" "dval (ds @ [d]) = 10 * dval ds + d"
  by (simp_all add: dval_def)

definition good_digits :: "nat list \<Rightarrow> bool" where
  "good_digits ds \<longleftrightarrow> ds \<noteq> [] \<and> list_all (\<lambda>d. d < 10) ds \<and> hd ds \<noteq> 0"

lemma good_digits_snoc: "good_digits ds \<Longrightarrow> d < 10 \<Longrightarrow> good_digits (ds @ [d])"
  by (simp add: good_digits_def)

text \<open>Rounding lowers the last digit, and never to zero: the digits without it are too far off.\<close>

lemma round_spec:
  assumes "unat rest \<le> unat delta" "unat delta < d * unat ten_k + unat rest"
  shows "\<exists>d' r. grisu2_round (buf @ [d]) away delta rest ten_k = Some (buf @ [d']) \<and> 0 < d' \<and> d' \<le> d \<and>
    d' * unat ten_k + r = d * unat ten_k + unat rest \<and> r \<le> unat delta"
  using assms
proof (induction d arbitrary: rest)
  case 0
  then show ?case by simp
next
  case (Suc d)
  show ?case
  proof (cases "rest < away \<and> ten_k \<le> delta - rest \<and>
         (rest + ten_k < away \<or> rest + ten_k - away < away - rest)")
    case True
    from True have "unat ten_k \<le> unat (delta - rest)" by (simp add: word_le_nat_alt)
    then have le: "unat rest + unat ten_k \<le> unat delta"
      using Suc.prems(1) by (simp add: unat_minus_64)
    have sum: "unat (rest + ten_k) = unat rest + unat ten_k"
      using le_less_trans [OF le unat_lt_64] by (intro unat_plus_64) simp
    have "unat (rest + ten_k) \<le> unat delta" "unat delta < d * unat ten_k + unat (rest + ten_k)"
      using le Suc.prems(2) by (simp_all add: sum)
    from Suc.IH [OF this] obtain d' r where
      "grisu2_round (buf @ [d]) away delta (rest + ten_k) ten_k = Some (buf @ [d'])" "0 < d'" "d' \<le> d"
      "d' * unat ten_k + r = d * unat ten_k + unat (rest + ten_k)" "r \<le> unat delta" by blast
    with True show ?thesis
      by (intro exI [of _ d'] exI [of _ r])
        (simp add: grisu2_round.simps [of "buf @ [Suc d]"] decr_last_def sum)
  next
    case False
    then have "grisu2_round (buf @ [Suc d]) away delta rest ten_k = Some (buf @ [Suc d])"
      by (subst grisu2_round.simps) (simp only: if_False)
    with Suc.prems show ?thesis by (intro exI [of _ "Suc d"] exI [of _ "unat rest"]) simp
  qed
qed

lemma largest_pow10_spec:
  assumes "n \<noteq> 0"
  obtains k p where "find_largest_pow10 n = (Suc k, p)" "unat p = 10 ^ k" "10 ^ k \<le> unat n"
    "unat n < 10 ^ Suc k"
proof -
  have "unat n < 10 ^ 10" using unsigned_less [of n, where ?'a = nat] by simp
  moreover have "0 < unat n" using assms by (simp add: unat_gt_0)
  ultimately show thesis
    using that [of 0 1] that [of 1 10] that [of 2 100] that [of 3 1000] that [of 4 10000]
      that [of 5 100000] that [of 6 1000000] that [of 7 10000000] that [of 8 100000000]
      that [of 9 1000000000]
    by (simp add: find_largest_pow10_def word_le_nat_alt split: if_splits) (meson linorder_not_le)
qed

lemma unat_ucast_64: "unat (ucast (x :: 32 word) :: 64 word) = unat x"
  using unsigned_less [of x, where ?'a = nat]
  by (simp add: unsigned_ucast_eq take_bit_nat_eq_self)

lemma frac_spec:
  assumes "sh \<le> 60" "unat p2 < 2 ^ sh" "unat delta < unat p2" "0 < unat delta" "good_digits buf"
  shows "\<exists>buf' j r. digit_gen_frac away delta sh p2 m buf = Some (Some buf', m + int j) \<and> good_digits buf' \<and>
    dval buf' * 2 ^ sh + r = (dval buf * 2 ^ sh + unat p2) * 10 ^ j \<and> r \<le> unat delta * 10 ^ j"
  using assms
proof (induction "2 ^ 60 - unat delta" arbitrary: delta p2 away m buf rule: less_induct)
  case less
  have one: "(2 :: nat) ^ sh \<le> 2 ^ 60" using less.prems(1) by (intro power_increasing) simp_all
  define p r d where "p = p2 * 10" and "r = p AND (push_bit sh 1 - 1)" and "d = drop_bit sh p"
  have p: "unat p = unat p2 * 10"
    using less.prems(2) one by (simp add: p_def unat_times_64)
  have r: "unat r = unat p mod 2 ^ sh" unfolding r_def using less.prems(1) by (intro unat_mask_64) simp
  have d: "unat d = unat p div 2 ^ sh" by (simp add: d_def unat_drop_64)
  have dr: "unat d * 2 ^ sh + unat r = unat p2 * 10" unfolding d r p by (rule div_mult_mod_eq)
  have d10: "unat d < 10" unfolding d p using less.prems(2) by (simp add: div_less_iff_less_mult)
  have delta: "unat (delta * 10) = unat delta * 10"
    using less.prems(2,3) one by (simp add: unat_times_64)
  have rl: "unat r < 2 ^ sh" by (simp add: r)
  have ten: "unat (push_bit sh 1 :: 64 word) = 2 ^ sh"
    using one unat_push_64 [of 1 sh] by simp
  have unfold: "digit_gen_frac away delta sh p2 m buf =
      (if r \<le> delta * 10 then Some (grisu2_round (buf @ [unat d]) (away * 10) (delta * 10) r (push_bit sh 1), m + 1)
       else digit_gen_frac (away * 10) (delta * 10) sh r (m + 1) (buf @ [unat d]))"
    by (simp add: digit_gen_frac.simps [of away delta] Let_def p_def r_def d_def)
  show ?case
  proof (cases "r \<le> delta * 10")
    case True
    then have "unat r \<le> unat (delta * 10)" by (simp add: word_le_nat_alt)
    moreover have "unat (delta * 10) < unat d * unat (push_bit sh 1 :: 64 word) + unat r"
      unfolding ten delta dr using less.prems(3) by simp
    ultimately obtain d' q where o: "grisu2_round (buf @ [unat d]) (away * 10) (delta * 10) r (push_bit sh 1) =
        Some (buf @ [d'])" "0 < d'" "d' \<le> unat d" "d' * 2 ^ sh + q = unat p2 * 10" "q \<le> unat delta * 10"
      using round_spec [of r "delta * 10" "unat d" "push_bit sh 1" buf "away * 10"] unfolding ten delta dr by blast
    have "(10 * dval buf + d') * 2 ^ sh + q = (dval buf * 2 ^ sh + unat p2) * 10"
      using o(4) by (simp add: algebra_simps)
    moreover have "good_digits (buf @ [d'])" using less.prems(5) o(3) d10 by (simp add: good_digits_snoc)
    ultimately show ?thesis using True o(1,5)
      by (intro exI [of _ "buf @ [d']"] exI [of _ 1] exI [of _ q]) (simp add: unfold)
  next
    case False
    then have lt: "unat (delta * 10) < unat r" by (simp add: word_le_nat_alt)
    have "2 ^ 60 - unat (delta * 10) < 2 ^ 60 - unat delta"
      unfolding delta using lt [unfolded delta] rl one less.prems(4) by linarith
    from less.hyps [OF this less.prems(1) rl lt _ good_digits_snoc [OF less.prems(5) d10], of "away * 10" "m + 1"]
    obtain buf' j q where o: "digit_gen_frac (away * 10) (delta * 10) sh r (m + 1) (buf @ [unat d]) =
        Some (Some buf', m + 1 + int j)" "good_digits buf'"
      "dval buf' * 2 ^ sh + q = (dval (buf @ [unat d]) * 2 ^ sh + unat r) * 10 ^ j"
      "q \<le> unat (delta * 10) * 10 ^ j"
      using less.prems(4) unfolding delta by auto
    have v: "dval (buf @ [unat d]) * 2 ^ sh + unat r = (dval buf * 2 ^ sh + unat p2) * 10"
      using dr by (simp add: algebra_simps)
    have "dval buf' * 2 ^ sh + q = (dval buf * 2 ^ sh + unat p2) * 10 ^ Suc j"
      unfolding o(3) v by simp
    with o(1,2,4) False show ?thesis
      by (intro exI [of _ buf'] exI [of _ "Suc j"] exI [of _ q]) (simp add: unfold delta algebra_simps)
  qed
qed

text \<open>The digits of the integral part, either to the end of the loop or to its return.\<close>

lemma int_spec:
  assumes "0 < k \<Longrightarrow> unat pow10 = 10 ^ (k - 1)" "unat p1 < 10 ^ k" "unat p2 < 2 ^ sh"
    "unat p1 * 2 ^ sh + unat p2 < 2 ^ 64" "unat delta < unat p1 * 2 ^ sh + unat p2"
    "(buf = [] \<and> 0 < k \<and> 10 ^ (k - 1) \<le> unat p1) \<or> good_digits buf"
  shows "(\<exists>buf' n r. digit_gen_int k away delta sh p1 p2 pow10 buf = Inl (Some buf', int n) \<and> good_digits buf' \<and>
      dval buf' * 10 ^ n * 2 ^ sh + r = (dval buf * 10 ^ k + unat p1) * 2 ^ sh + unat p2 \<and> r \<le> unat delta) \<or>
    (\<exists>buf'. digit_gen_int k away delta sh p1 p2 pow10 buf = Inr buf' \<and> good_digits buf' \<and>
      dval buf' = dval buf * 10 ^ k + unat p1 \<and> unat delta < unat p2)"
  using assms
proof (induction k arbitrary: p1 pow10 buf)
  case 0
  then show ?case by simp
next
  case (Suc k)
  define d r where "d = p1 div pow10" and "r = p1 mod pow10"
  define rest where "rest = push_bit sh (ucast r) + p2"
  have pow: "unat pow10 = 10 ^ k" using Suc.prems(1) by simp
  have d: "unat d = unat p1 div 10 ^ k" and r: "unat r = unat p1 mod 10 ^ k"
    by (simp_all add: d_def r_def unat_div unat_mod pow)
  have p1: "unat p1 = unat d * 10 ^ k + unat r" unfolding d r by (rule div_mult_mod_eq [symmetric])
  have d10: "unat d < 10" unfolding d using Suc.prems(2) by (simp add: div_less_iff_less_mult)
  have rlt: "unat r < 10 ^ k" by (simp add: r)
  have good: "good_digits (buf @ [unat d])"
  proof (cases "buf = []")
    case True
    with Suc.prems(6) have "10 ^ k \<le> unat p1" by (auto simp: good_digits_def)
    then have "0 < unat d" unfolding d by (simp add: div_greater_zero_iff)
    with True d10 show ?thesis by (simp add: good_digits_def)
  next
    case False
    with Suc.prems(6) d10 show ?thesis by (simp add: good_digits_snoc)
  qed
  have "unat r \<le> unat p1" "unat d * 10 ^ k \<le> unat p1" using p1 by simp_all
  then have le: "unat r * 2 ^ sh \<le> unat p1 * 2 ^ sh" by simp
  have lt64: "unat r * 2 ^ sh < 2 ^ 64" "unat r * 2 ^ sh + unat p2 < 2 ^ 64"
    using le Suc.prems(4) by linarith+
  have rs: "unat (push_bit sh (ucast r) :: 64 word) = unat r * 2 ^ sh"
    using lt64(1) by (subst unat_push_64) (simp_all add: unat_ucast_64)
  have rest: "unat rest = unat r * 2 ^ sh + unat p2"
    unfolding rest_def using lt64(2) by (subst unat_plus_64) (simp_all add: rs)
  have unfold: "digit_gen_int (Suc k) away delta sh p1 p2 pow10 buf =
      (if rest \<le> delta then Inl (grisu2_round (buf @ [unat d]) away delta rest (push_bit sh (ucast pow10)), int k)
       else digit_gen_int k away delta sh r p2 (pow10 div 10) (buf @ [unat d]))"
    by (simp add: Let_def d_def r_def rest_def)
  have val: "dval (buf @ [unat d]) * 10 ^ k + unat r = dval buf * 10 ^ Suc k + unat p1"
    by (simp add: p1 algebra_simps)
  show ?case
  proof (cases "rest \<le> delta")
    case True
    then have le1: "unat rest \<le> unat delta" by (simp add: word_le_nat_alt)
    have d0: "0 < unat d"
    proof (rule ccontr)
      assume "\<not> 0 < unat d"
      then have "unat p1 = unat r" by (simp add: p1)
      with le1 Suc.prems(5) show False by (simp add: rest)
    qed
    then have "10 ^ k \<le> unat p1" unfolding d by (simp add: div_greater_zero_iff)
    then have "unat pow10 * 2 ^ sh \<le> unat p1 * 2 ^ sh" by (simp add: pow)
    then have "unat pow10 * 2 ^ sh < 2 ^ 64" using Suc.prems(4) by linarith
    then have ten: "unat (push_bit sh (ucast pow10) :: 64 word) = 10 ^ k * 2 ^ sh"
      by (subst unat_push_64) (simp_all add: unat_ucast_64 pow)
    have tot: "unat d * (10 ^ k * 2 ^ sh) + unat rest = unat p1 * 2 ^ sh + unat p2"
      by (simp add: rest p1 algebra_simps)
    have "unat delta < unat d * (10 ^ k * 2 ^ sh) + unat rest" unfolding tot by (rule Suc.prems(5))
    then obtain d' q where o: "grisu2_round (buf @ [unat d]) away delta rest (push_bit sh (ucast pow10)) = Some (buf @ [d'])"
      "0 < d'" "d' \<le> unat d" "d' * (10 ^ k * 2 ^ sh) + q = unat p1 * 2 ^ sh + unat p2" "q \<le> unat delta"
      using round_spec [OF le1, of "unat d" "push_bit sh (ucast pow10)" buf away] unfolding ten tot by blast
    have "good_digits (buf @ [d'])"
      using good d10 o(2,3) by (cases buf) (simp_all add: good_digits_def)
    moreover have "dval (buf @ [d']) * 10 ^ k * 2 ^ sh + q = (dval buf * 10 ^ Suc k + unat p1) * 2 ^ sh + unat p2"
      using o(4) by (simp add: algebra_simps)
    moreover have "digit_gen_int (Suc k) away delta sh p1 p2 pow10 buf = Inl (Some (buf @ [d']), int k)"
      using True o(1) by (simp only: unfold if_True)
    ultimately show ?thesis using o(5) by blast
  next
    case False
    then have lt: "unat delta < unat r * 2 ^ sh + unat p2" by (simp add: word_le_nat_alt flip: rest)
    have pow': "unat (pow10 div 10) = 10 ^ (k - 1)" if "0 < k"
      using that by (cases k) (simp_all add: unat_div pow)
    from Suc.IH [OF pow' rlt Suc.prems(3) lt64(2) lt, of "buf @ [unat d]"]
    show ?thesis using good False unfolding val by (simp add: unfold del: digit_gen_int.simps)
  qed
qed

text \<open>What comes out lies between the two ends, both inclusive.\<close>

lemma digit_gen_spec:
  assumes e: "e_of lo = e_of hi" "- 60 \<le> e_of hi" "e_of hi \<le> - 32"
    and f: "unat (f_of lo) < unat (f_of hi)" "0 < unat (f_of lo)" "2 ^ 61 \<le> unat (f_of hi)"
  obtains ds n where "grisu2_digit_gen k lo w hi = Some (ds, k + n)" "good_digits ds"
    "val lo \<le> real (dval ds) * 10 powi n" "real (dval ds) * 10 powi n \<le> val hi"
proof -
  note result = that
  define delta away where "delta = f_of (diyfp_sub hi lo)" and "away = f_of (diyfp_sub hi w)"
  define sh where "sh = nat (- e_of hi)"
  define p1 p2 where "p1 = (ucast (drop_bit sh (f_of hi)) :: 32 word)" and "p2 = f_of hi AND (push_bit sh 1 - 1)"
  define P where "P = unat (f_of hi)"
  have sh: "sh \<le> 60" "32 \<le> sh" "e_of hi = - int sh" using e by (simp_all add: sh_def)
  have delta: "unat delta = P - unat (f_of lo)"
    using f(1) by (simp add: delta_def diyfp_sub_def P_def unat_minus_64)
  have d: "0 < unat delta" "unat delta < P" unfolding delta using f(1,2) by (simp_all add: P_def)
  have P64: "P < 2 ^ 64" by (simp add: P_def)
  have p2: "unat p2 = P mod 2 ^ sh"
    unfolding p2_def P_def using sh(1) by (intro unat_mask_64) simp
  have "P div 2 ^ sh \<le> P div 2 ^ 32" using sh(2) by (intro div_le_mono2 power_increasing) simp_all
  also have "\<dots> < 2 ^ 32" using P64 by (simp add: div_less_iff_less_mult)
  finally have lt: "P div 2 ^ sh < 2 ^ 32" .
  have "unat p1 = take_bit 32 (unat (drop_bit sh (f_of hi)))"
    unfolding p1_def by (simp add: unsigned_ucast_eq)
  then have p1: "unat p1 = P div 2 ^ sh"
    using lt by (simp add: unat_drop_64 take_bit_nat_eq_self P_def [symmetric])
  have split: "unat p1 * 2 ^ sh + unat p2 = P" unfolding p1 p2 by (rule div_mult_mod_eq)
  have p1pos: "p1 \<noteq> 0"
  proof
    assume "p1 = 0"
    then have "P < 2 ^ sh" using p1 by (simp add: div_eq_0_iff)
    also have "(2 :: nat) ^ sh \<le> 2 ^ 60" using sh(1) by (intro power_increasing) simp_all
    finally show False using f(3) by (simp add: P_def)
  qed
  obtain j q where pow: "find_largest_pow10 p1 = (Suc j, q)" "unat q = 10 ^ j" "10 ^ j \<le> unat p1"
    "unat p1 < 10 ^ Suc j" using p1pos by (rule largest_pow10_spec)
  have p2lt: "unat p2 < 2 ^ sh" by (simp add: p2)
  have one: "(2 :: real) powi e_of hi * 2 ^ sh = 1" by (simp add: sh(3) power_int_minus)
  have unfold: "grisu2_digit_gen k lo w hi =
      (case digit_gen_int (Suc j) away delta sh p1 p2 q [] of
            Inl (None, n) \<Rightarrow> None
          | Inl (Some buf, n) \<Rightarrow> Some (buf, k + n)
          | Inr buf \<Rightarrow>
              (case digit_gen_frac away delta sh p2 0 buf of
                 None \<Rightarrow> None
               | Some (None, m) \<Rightarrow> None
               | Some (Some buf1, m) \<Rightarrow> Some (buf1, k - m)))"
    by (simp only: grisu2_digit_gen_def Let_def p1_def p2_def sh_def delta_def away_def
        pow(1) [unfolded p1_def sh_def] prod.case)
  have fin: thesis if t: "grisu2_digit_gen k lo w hi = Some (ds, k + n)" "good_digits ds"
    "real (dval ds) * 10 powi n * 2 ^ sh \<le> real P"
    "real P - real (unat delta) \<le> real (dval ds) * 10 powi n * 2 ^ sh" for ds n
  proof (rule result [OF t(1,2)])
    have hi: "val hi * 2 ^ sh = real P" using one by (simp add: val_def P_def)
    have "real (unat delta) = real P - real (unat (f_of lo))"
      using f(1) unfolding delta P_def by (simp add: of_nat_diff)
    then have lo: "val lo * 2 ^ sh = real P - real (unat delta)" using one by (simp add: val_def e(1))
    have "val lo * 2 ^ sh \<le> real (dval ds) * 10 powi n * 2 ^ sh" unfolding lo by (rule t(4))
    then show "val lo \<le> real (dval ds) * 10 powi n" by simp
    have "real (dval ds) * 10 powi n * 2 ^ sh \<le> val hi * 2 ^ sh" unfolding hi by (rule t(3))
    then show "real (dval ds) * 10 powi n \<le> val hi" by simp
  qed
  have start: "0 < Suc j \<Longrightarrow> unat q = 10 ^ (Suc j - 1)" "unat p1 * 2 ^ sh + unat p2 < 2 ^ 64"
    "unat delta < unat p1 * 2 ^ sh + unat p2"
    "([] :: nat list) = [] \<and> 0 < Suc j \<and> 10 ^ (Suc j - 1) \<le> unat p1 \<or> good_digits []"
    using pow P64 d(2) by (simp_all add: split)
  from int_spec [OF start(1) pow(4) p2lt start(2,3,4), of away]
  consider ds n r where "digit_gen_int (Suc j) away delta sh p1 p2 q [] = Inl (Some ds, int n)" "good_digits ds"
      "dval ds * 10 ^ n * 2 ^ sh + r = P" "r \<le> unat delta"
    | buf where "digit_gen_int (Suc j) away delta sh p1 p2 q [] = Inr buf" "good_digits buf"
      "dval buf = unat p1" "unat delta < unat p2"
    by (auto simp: split)
  then show thesis
  proof cases
    case 1
    have "real (dval ds * 10 ^ n * 2 ^ sh + r) = real P" by (simp only: 1(3))
    moreover have "real r \<le> real (unat delta)" using 1(4) by (simp only: of_nat_le_iff)
    ultimately have "real (dval ds) * 10 powi int n * 2 ^ sh \<le> real P"
      "real P - real (unat delta) \<le> real (dval ds) * 10 powi int n * 2 ^ sh" by simp_all
    with 1(1,2) show thesis by (intro fin [of ds "int n"]) (simp_all add: unfold del: digit_gen_int.simps)
  next
    case 2
    from frac_spec [OF sh(1) p2lt 2(4) d(1) 2(2), of away 0] obtain ds m r where
      o: "digit_gen_frac away delta sh p2 0 buf = Some (Some ds, 0 + int m)" "good_digits ds"
      "dval ds * 2 ^ sh + r = (dval buf * 2 ^ sh + unat p2) * 10 ^ m" "r \<le> unat delta * 10 ^ m" by blast
    have "dval ds * 2 ^ sh + r = P * 10 ^ m" using o(3) unfolding 2(3) split .
    then have "real (dval ds * 2 ^ sh + r) = real (P * 10 ^ m)" by (simp only:)
    moreover have "real r \<le> real (unat delta * 10 ^ m)" using o(4) by (simp only: of_nat_le_iff)
    ultimately have *: "real (dval ds) * 2 ^ sh \<le> real P * 10 ^ m"
      "(real P - real (unat delta)) * 10 ^ m \<le> real (dval ds) * 2 ^ sh"
      by (simp_all add: algebra_simps) 
    have "real (dval ds) * 10 powi (- int m) * 2 ^ sh \<le> real P"
      "real P - real (unat delta) \<le> real (dval ds) * 10 powi (- int m) * 2 ^ sh"
      using * by (simp_all add: power_int_minus field_simps)
    with 2 o show thesis by (intro fin [of ds "- int m"]) (simp_all add: unfold del: digit_gen_int.simps)
  qed
qed

section \<open>Whole algorithm\<close>

theorem grisu2_spec:
  assumes "0 < m" "m < inf_mag"
  obtains ds n where "grisu2 (mk_double False m) = Some (ds, n)" "good_digits ds"
    "lower m < real (dval ds) * 10 powi n" "real (dval ds) * 10 powi n < upper m"
proof -
  obtain w lo hi where b: "compute_boundaries (mk_double False m) = Some (w, lo, hi)"
    "val hi = upper m" "val lo = lower m" "e_of lo = e_of hi" "2 ^ 63 \<le> unat (f_of hi)"
    "unat (f_of lo) + 1536 \<le> unat (f_of hi)" "2 ^ 20 \<le> unat (f_of lo)" "- 1137 \<le> e_of hi" "e_of hi \<le> 960"
    using assms by (rule compute_boundaries_spec)
  obtain M_minus W M_plus k where s: "grisu2_scaled lo w hi = grisu2_digit_gen (- k) M_minus W M_plus"
    "scaled_ends lo hi (M_minus, M_plus) k" using b(4,8,9,5,6,7) by (rule scaled_spec)
  from s(2) have e: "e_of M_minus = e_of M_plus" "- 60 \<le> e_of M_plus" "e_of M_plus \<le> - 32"
    "unat (f_of M_minus) < unat (f_of M_plus)" "0 < unat (f_of M_minus)" "2 ^ 61 \<le> unat (f_of M_plus)"
    and v: "val M_plus < upper m * 10 powi k" "lower m * 10 powi k < val M_minus"
    by (simp_all add: scaled_ends_def b(2,3))
  obtain ds n where d: "grisu2_digit_gen (- k) M_minus W M_plus = Some (ds, - k + n)" "good_digits ds"
    "val M_minus \<le> real (dval ds) * 10 powi n" "real (dval ds) * 10 powi n \<le> val M_plus"
    using e by (rule digit_gen_spec)
  have p: "(0 :: real) < 10 powi k" by simp
  have n: "real (dval ds) * 10 powi n = real (dval ds) * 10 powi (- k + n) * 10 powi k"
    using power_int_add [of "10 :: real" "- k + n" k] by (simp add: mult.assoc)
  have "lower m * 10 powi k < real (dval ds) * 10 powi (- k + n) * 10 powi k"
    "real (dval ds) * 10 powi (- k + n) * 10 powi k < upper m * 10 powi k"
    using v d(3,4) unfolding n by linarith+
  then have "lower m < real (dval ds) * 10 powi (- k + n)" "real (dval ds) * 10 powi (- k + n) < upper m"
    using p by (simp_all only: mult_less_cancel_right_pos)
  moreover have "grisu2 (mk_double False m) = Some (ds, - k + n)"
    by (simp add: grisu2_def b(1) s(1) d(1))
  ultimately show thesis using d(2) that by blast
qed

section \<open>Rounding back\<close>

lemma rne_unique:
  assumes "2 * M < (2 * g + 1) * b" "2 * g * b < 2 * M + b" "0 < b"
  shows "rne M b = g"
proof -
  have "2 * \<bar>int (rne M b) * int b - int M\<bar> \<le> int b" by (rule rne_error [OF assms(3)])
  moreover have "int (2 * M) < int ((2 * g + 1) * b)" "int (2 * g * b) < int (2 * M + b)"
    using assms(1,2) by (simp_all only: of_nat_less_iff)
  moreover have "\<bar>a - e\<bar> < h" if "2 * \<bar>a - c\<bar> \<le> h" "2 * c < 2 * e + h" "2 * e < 2 * c + h" for a c e h :: int
    using that by (cases "a \<le> c"; cases "a \<le> e") simp_all
  ultimately have "\<bar>int (rne M b) * int b - int g * int b\<bar> < int b" by (simp add: algebra_simps)
  then have "\<bar>int (rne M b) - int g\<bar> * int b < 1 * int b"
    by (simp add: abs_mult flip: left_diff_distrib)
  then have "\<bar>int (rne M b) - int g\<bar> < 1" by (rule mult_right_less_imp_less) simp
  then show ?thesis by simp
qed

lemma nbits_eq:
  assumes "2 ^ k \<le> n" "n < 2 ^ Suc k"
  shows "nbits n = Suc k"
proof -
  have "(2::nat) ^ k < 2 ^ nbits n" using assms(1) nbits_bounds(1) by (rule le_less_trans)
  then have "k < nbits n" by (rule power_less_imp_less_exp [rotated]) simp
  with nbits_le [OF assms(2)] show ?thesis by simp
qed

lemma round_mag_at:
  assumes "0 < d" "N * one_scaled = M" "f \<le> 2 ^ 53" "s * 2 ^ 52 + f < inf_mag"
    and near: "2 * M < (2 * f + 1) * (d * 2 ^ s)" "2 * f * (d * 2 ^ s) < 2 * M + d * 2 ^ s"
    and low: "0 < s \<Longrightarrow> 2 ^ 52 * (d * 2 ^ s) \<le> M" and up: "M < 2 ^ 53 * (d * 2 ^ s)"
  shows "round_mag N d = s * 2 ^ 52 + f"
proof -
  have "M div d < 2 ^ (s + 53)" using up assms(1) by (simp add: div_less_iff_less_mult power_add mult_ac)
  moreover have "2 ^ (s + 52) \<le> M div d" if "0 < s"
    using low [OF that] assms(1) by (simp add: less_eq_div_iff_mult_less_eq power_add mult_ac)
  ultimately have s: "nbits (M div d) - 53 = s"
    using nbits_le [of "M div d" "s + 53"] nbits_eq [of "s + 52" "M div d"] by (cases s) simp_all
  have "rne M (d * 2 ^ s) = f" using near assms(1) by (intro rne_unique) simp_all
  then show ?thesis using assms(4) by (simp add: round_mag_def Let_def assms(2) s min_def)
qed

lemma half_scaled: "(2::real) powi (- 1075) = 1 / (2 * real one_scaled)"
proof -
  have "(2::real) powi (- int 1075) = inverse (2 ^ 1075)" by (simp only: power_int_minus power_int_of_nat)
  also have "\<dots> = inverse (2 * 2 ^ 1074)" by (simp only: flip: power_Suc) simp
  also have "\<dots> = 1 / (2 * real one_scaled)"
    by (simp only: one_scaled_def of_nat_power of_nat_numeral inverse_eq_divide)
  finally show ?thesis by simp
qed

theorem round_between:
  assumes "0 < m" "m < inf_mag" "0 < d" "lower m < real N / real d" "real N / real d < upper m"
  shows "round_mag N d = m"
proof -
  note sb = sig_bounds [OF assms(1)]
  define g S M where "g = sig m" and "S = shift m" and "M = N * one_scaled"
  have m: "m = S * 2 ^ 52 + g" using sb(5) by (simp add: g_def S_def)
  have one: "0 < real one_scaled" by (simp add: one_scaled_def)
  have p: "(2::real) powi (int S - 1075) = 2 ^ S / (2 * real one_scaled)"
  proof -
    have "int S - 1075 = - 1075 + int S" by simp
    then show ?thesis by (simp only: powi_shift half_scaled) simp
  qed
  have q: "(2::real) powi (int S - 1076) = 2 ^ S / (4 * real one_scaled)"
  proof -
    have "(2::real) powi (int S - 1075) = 2 powi (int S - 1076 + int 1)" by simp
    then have "(2::real) powi (int S - 1075) = 2 powi (int S - 1076) * 2" unfolding powi_shift by simp
    then show ?thesis unfolding p by simp
  qed
  have "real N * 2 * real one_scaled < (2 * real g + 1) * 2 ^ S * real d"
    using assms(3,5) one unfolding upper_def g_def [symmetric] S_def [symmetric] p
    by (simp add: field_simps)
  then have "real (2 * M) < real ((2 * g + 1) * (d * 2 ^ S))" by (simp add: M_def algebra_simps)
  then have up: "2 * M < (2 * g + 1) * (d * 2 ^ S)" by (simp only: of_nat_less_iff)
  have closer: "closer_below m \<longleftrightarrow> 0 < S \<and> g = 2 ^ 52"
  proof
    assume "closer_below m"
    then show "0 < S \<and> g = 2 ^ 52" by (auto simp: closer_below_def S_def g_def shift_def sig_def)
  next
    assume "0 < S \<and> g = 2 ^ 52"
    then have "m = Suc S * 2 ^ 52" "0 < S" unfolding m by simp_all
    then show "closer_below m" by (simp add: closer_below_def)
  qed
  define X where "X = d * 2 ^ S"
  have X: "0 < X" using assms(3) by (simp add: X_def)
  have lo: "if closer_below m then 4 * g * X < 4 * M + X else 2 * g * X < 2 * M + X"
  proof (cases "closer_below m")
    case True
    with assms(3,4) one have "4 * real g * (real d * 2 ^ S) < 4 * (real N * real one_scaled) + real d * 2 ^ S"
      unfolding lower_def g_def [symmetric] S_def [symmetric] q by (simp add: field_simps)
    then have "real (4 * g * X) < real (4 * M + X)" by (simp add: M_def X_def)
    with True show ?thesis by (simp only: of_nat_less_iff if_True)
  next
    case False
    with assms(3,4) one have "2 * real g * (real d * 2 ^ S) < 2 * (real N * real one_scaled) + real d * 2 ^ S"
      unfolding lower_def g_def [symmetric] S_def [symmetric] p by (simp add: field_simps)
    then have "real (2 * g * X) < real (2 * M + X)" by (simp add: M_def X_def)
    with False show ?thesis by (simp only: of_nat_less_iff if_False)
  qed
  have g53: "g < 2 ^ 53" and gS: "S = 0 \<or> 2 ^ 52 \<le> g" using sb by (simp_all add: g_def S_def)
  have bound: "a * X \<le> b * X" if "a \<le> b" for a b using that by simp
  show ?thesis
  proof (cases "closer_below m \<and> M < g * X")
    case False
    have near: "2 * g * X < 2 * M + X" using lo X False by (auto split: if_splits)
    have low: "2 ^ 52 * X \<le> M" if "0 < S"
    proof (cases "closer_below m")
      case True
      with False closer show ?thesis by simp
    next
      case nc: False
      with closer gS that have "2 ^ 53 + 2 \<le> 2 * g" by simp
      from bound [OF this] have "2 * (2 ^ 52 * X) + 2 * X \<le> 2 * g * X" by (simp add: algebra_simps)
      with near show ?thesis by linarith
    qed
    have "2 * g + 1 \<le> 2 * 2 ^ 53" using g53 by simp
    from bound [OF this] have "(2 * g + 1) * X \<le> 2 * (2 ^ 53 * X)" by (simp only: mult.assoc)
    with up have "M < 2 ^ 53 * X" unfolding X_def by linarith
    moreover have "g \<le> 2 ^ 53" "S * 2 ^ 52 + g < inf_mag" using g53 assms(2) m by simp_all
    ultimately show ?thesis unfolding m using assms(3) M_def up near low
      by (intro round_mag_at [where M = M]) (simp_all only: X_def)
  next
    case True
    then obtain r where r: "S = Suc r" "g = 2 ^ 52" using closer gr0_conv_Suc by auto
    define Y where "Y = d * 2 ^ r"
    have XY: "X = 2 * Y" by (simp add: X_def Y_def r)
    have lo': "4 * g * X < 4 * M + X" and hi: "M < 2 ^ 53 * Y" using True lo by (simp_all add: r XY)
    have "round_mag N d = r * 2 ^ 52 + 2 ^ 53"
    proof (rule round_mag_at [where M = M])
      show "r * 2 ^ 52 + 2 ^ 53 < inf_mag" using assms(2) unfolding m r by simp
      show "2 * 2 ^ 53 * (d * 2 ^ r) < 2 * M + d * 2 ^ r" "2 ^ 52 * (d * 2 ^ r) \<le> M"
        using lo' unfolding Y_def [symmetric] XY r by simp_all
      show "2 * M < (2 * 2 ^ 53 + 1) * (d * 2 ^ r)" "M < 2 ^ 53 * (d * 2 ^ r)"
        using hi unfolding Y_def [symmetric] by simp_all
    qed (simp_all add: assms(3) M_def)
    then show ?thesis unfolding m r by simp
  qed
qed

end
