(* ===== verification/JsonText.thy ===== *)
theory JsonText
  imports JsonSerializer
begin

text \<open>
  The text of JSON values, both ways: which strings the serializer takes and what it writes
  for them, that the scanner reads that back, and the same for numbers and whole values.
\<close>

section \<open>Well-formed UTF-8\<close>

text \<open>
  The table of the Unicode standard, by first bytes and the ranges of the bytes that follow,
  as \<open>utf8_ranges\<close> has it for the scanner.
\<close>

definition in_range :: "nat \<times> nat \<Rightarrow> char \<Rightarrow> bool" where
  "in_range r c \<longleftrightarrow> fst r \<le> of_char c \<and> of_char c \<le> snd r"

function utf8_ok :: "string \<Rightarrow> bool" where
  "utf8_ok [] = True"
| "utf8_ok (c # cs) =
     (if of_char c \<le> (0x7F :: nat) then utf8_ok cs
      else case utf8_ranges (of_char c) of
        None \<Rightarrow> False
      | Some rs \<Rightarrow> length rs \<le> length cs \<and> list_all2 in_range rs (take (length rs) cs) \<and>
                   utf8_ok (drop (length rs) cs))"
  by pat_completeness auto
termination by (relation "measure length") auto

text \<open>The escape of one byte, and of a whole string.\<close>

definition escape_byte :: "char \<Rightarrow> string" where
  "escape_byte c = (if of_char c \<le> (0x7F :: nat) then escape_codepoint False (of_char c) c else [c])"

definition escaped :: "string \<Rightarrow> string" where
  "escaped s = concat (map escape_byte s)"

lemma escaped_simps [simp]: "escaped [] = []" "escaped (c # s) = escape_byte c @ escaped s"
  "escaped (s @ t) = escaped s @ escaped t"
  by (simp_all add: escaped_def)

section \<open>The decoder and the table of ranges\<close>

definition state_ranges :: "nat \<Rightarrow> (nat \<times> nat) list" where
  "state_ranges st =
     (if st = 2 then [(0x80, 0xBF)]
      else if st = 3 then [(0x80, 0xBF), (0x80, 0xBF)]
      else if st = 4 then [(0xA0, 0xBF), (0x80, 0xBF)]
      else if st = 5 then [(0x80, 0x9F), (0x80, 0xBF)]
      else if st = 6 then [(0x90, 0xBF), (0x80, 0xBF), (0x80, 0xBF)]
      else if st = 7 then [(0x80, 0xBF), (0x80, 0xBF), (0x80, 0xBF)]
      else if st = 8 then [(0x80, 0x8F), (0x80, 0xBF), (0x80, 0xBF)]
      else [])"

text \<open>A lower bound of the code point in each state: the encoding has no overlong form.\<close>

definition state_min :: "nat \<Rightarrow> nat" where
  "state_min st = (if st = 2 then 2 else if st = 3 \<or> st = 5 \<or> st = 7 \<or> st = 8 then 1 else 0)"

lemma class_offset:
  "k < 128 \<Longrightarrow> utf8_class ! k = 0"
  "k < 16 \<Longrightarrow> utf8_class ! (128 + k) = 1"
  "k < 16 \<Longrightarrow> utf8_class ! (144 + k) = 9"
  "k < 32 \<Longrightarrow> utf8_class ! (160 + k) = 7"
  "k < 2 \<Longrightarrow> utf8_class ! (192 + k) = 8"
  "k < 30 \<Longrightarrow> utf8_class ! (194 + k) = 2"
  "k < 12 \<Longrightarrow> utf8_class ! (225 + k) = 3"
  "k < 3 \<Longrightarrow> utf8_class ! (241 + k) = 6"
  "k < 11 \<Longrightarrow> utf8_class ! (245 + k) = 8"
  by (simp_all add: utf8_class_def nth_append)

lemma class_single:
  "utf8_class ! 224 = 10" "utf8_class ! 237 = 4" "utf8_class ! 238 = 3" "utf8_class ! 239 = 3"
  "utf8_class ! 240 = 11" "utf8_class ! 244 = 5"
  by (simp_all add: utf8_class_def nth_append)

text \<open>The class of a byte, by the interval it lies in.\<close>

lemma class_ascii: "b \<le> 0x7F \<Longrightarrow> utf8_class ! b = 0"
  using class_offset(1) [of b] by simp

lemma class_cont:
  "0x80 \<le> b \<Longrightarrow> b \<le> 0x8F \<Longrightarrow> utf8_class ! b = 1"
  "0x90 \<le> b \<Longrightarrow> b \<le> 0x9F \<Longrightarrow> utf8_class ! b = 9"
  "0xA0 \<le> b \<Longrightarrow> b \<le> 0xBF \<Longrightarrow> utf8_class ! b = 7"
  using class_offset(2) [of "b - 128"] class_offset(3) [of "b - 144"] class_offset(4) [of "b - 160"]
  by auto

lemma class_lead:
  "0xC0 \<le> b \<Longrightarrow> b \<le> 0xC1 \<Longrightarrow> utf8_class ! b = 8"
  "0xC2 \<le> b \<Longrightarrow> b \<le> 0xDF \<Longrightarrow> utf8_class ! b = 2"
  "0xE1 \<le> b \<Longrightarrow> b \<le> 0xEC \<Longrightarrow> utf8_class ! b = 3"
  "0xF1 \<le> b \<Longrightarrow> b \<le> 0xF3 \<Longrightarrow> utf8_class ! b = 6"
  "0xF5 \<le> b \<Longrightarrow> b \<le> 0xFF \<Longrightarrow> utf8_class ! b = 8"
  using class_offset(5) [of "b - 192"] class_offset(6) [of "b - 194"] class_offset(7) [of "b - 225"]
    class_offset(8) [of "b - 241"] class_offset(9) [of "b - 245"]
  by auto

text \<open>One step of the decoder, from a fresh state and inside a sequence.\<close>

lemma lead_mask: "k \<le> 8 \<Longrightarrow> drop_bit k 0xFF AND b = b mod 2 ^ (8 - k)" for b k :: nat
proof -
  have "(0xFF :: nat) = mask 8" by (simp add: mask_eq_exp_minus_1)
  then have "drop_bit k (0xFF :: nat) = mask (8 - k)" by (simp only: drop_bit_mask_eq)
  then show ?thesis by (simp add: and.commute flip: take_bit_eq_mask take_bit_eq_mod)
qed

lemma decode_ascii: "b \<le> 0x7F \<Longrightarrow> decode 0 cp b = (0, b)"
  using lead_mask [of 0 b] by (simp add: decode_def class_ascii utf8_next_def Let_def)

definition inner :: "nat \<Rightarrow> bool" where
  "inner st \<longleftrightarrow> 2 \<le> st \<and> st \<le> 8"

lemma ranges_by_interval:
  "b \<le> 0xC1 \<Longrightarrow> utf8_ranges b = None"
  "0xC2 \<le> b \<Longrightarrow> b \<le> 0xDF \<Longrightarrow> utf8_ranges b = Some [(0x80, 0xBF)]"
  "utf8_ranges 0xE0 = Some [(0xA0, 0xBF), (0x80, 0xBF)]"
  "0xE1 \<le> b \<Longrightarrow> b \<le> 0xEC \<Longrightarrow> utf8_ranges b = Some [(0x80, 0xBF), (0x80, 0xBF)]"
  "utf8_ranges 0xED = Some [(0x80, 0x9F), (0x80, 0xBF)]"
  "utf8_ranges 0xEE = Some [(0x80, 0xBF), (0x80, 0xBF)]"
  "utf8_ranges 0xEF = Some [(0x80, 0xBF), (0x80, 0xBF)]"
  "utf8_ranges 0xF0 = Some [(0x90, 0xBF), (0x80, 0xBF), (0x80, 0xBF)]"
  "0xF1 \<le> b \<Longrightarrow> b \<le> 0xF3 \<Longrightarrow> utf8_ranges b = Some [(0x80, 0xBF), (0x80, 0xBF), (0x80, 0xBF)]"
  "utf8_ranges 0xF4 = Some [(0x80, 0x8F), (0x80, 0xBF), (0x80, 0xBF)]"
  "0xF5 \<le> b \<Longrightarrow> utf8_ranges b = None"
  by (simp_all add: utf8_ranges_def)

lemma next_row:
  "utf8_next ! 1 = 1" "utf8_next ! 2 = 2" "utf8_next ! 3 = 3" "utf8_next ! 4 = 5"
  "utf8_next ! 5 = 8" "utf8_next ! 6 = 7" "utf8_next ! 7 = 1" "utf8_next ! 8 = 1"
  "utf8_next ! 9 = 1" "utf8_next ! 10 = 4" "utf8_next ! 11 = 6"
  by (simp_all add: utf8_next_def)

lemma decode_class: "utf8_class ! b = ty \<Longrightarrow> decode 0 cp b = (utf8_next ! ty, drop_bit ty 0xFF AND b)"
  by (simp add: decode_def)

lemma mod_offset: "k < m \<Longrightarrow> m dvd a \<Longrightarrow> b = a + k \<Longrightarrow> b mod m = k" for a b k m :: nat
  by auto

definition follows :: "nat \<Rightarrow> nat \<Rightarrow> (nat \<times> nat) list \<Rightarrow> bool" where
  "follows st cp rs \<longleftrightarrow> inner st \<and> state_ranges st = rs \<and> state_min st \<le> cp"

lemma follows_states:
  "2 \<le> cp \<Longrightarrow> follows 2 cp [(0x80, 0xBF)]"
  "1 \<le> cp \<Longrightarrow> follows 3 cp [(0x80, 0xBF), (0x80, 0xBF)]"
  "follows 4 cp [(0xA0, 0xBF), (0x80, 0xBF)]"
  "1 \<le> cp \<Longrightarrow> follows 5 cp [(0x80, 0x9F), (0x80, 0xBF)]"
  "follows 6 cp [(0x90, 0xBF), (0x80, 0xBF), (0x80, 0xBF)]"
  "1 \<le> cp \<Longrightarrow> follows 7 cp [(0x80, 0xBF), (0x80, 0xBF), (0x80, 0xBF)]"
  "1 \<le> cp \<Longrightarrow> follows 8 cp [(0x80, 0x8F), (0x80, 0xBF), (0x80, 0xBF)]"
  by (simp_all add: follows_def inner_def state_ranges_def state_min_def)

lemma decode_reject: "utf8_class ! b \<in> {1, 7, 8, 9} \<Longrightarrow> fst (decode 0 cp b) = 1"
  using next_row decode_class [OF refl, of cp b] by auto

lemma decode_bad:
  assumes "\<not> b \<le> 0x7F" "b < 256" "utf8_ranges b = None"
  shows "fst (decode 0 cp b) = 1"
proof -
  have "b \<le> 0xC1 \<or> 0xF5 \<le> b"
  proof (rule ccontr)
    assume n: "\<not> ?thesis"
    then consider "0xC2 \<le> b" "b \<le> 0xDF" | "b = 0xE0" | "0xE1 \<le> b" "b \<le> 0xEC" | "b = 0xED"
      | "b = 0xEE" | "b = 0xEF" | "b = 0xF0" | "0xF1 \<le> b" "b \<le> 0xF3" | "b = 0xF4" by linarith
    then show False using assms(3) by cases (simp_all add: ranges_by_interval)
  qed
  then consider "0x80 \<le> b" "b \<le> 0x8F" | "0x90 \<le> b" "b \<le> 0x9F" | "0xA0 \<le> b" "b \<le> 0xBF"
    | "0xC0 \<le> b" "b \<le> 0xC1" | "0xF5 \<le> b" "b \<le> 0xFF"
    using assms(1,2) by linarith
  then show ?thesis
    by cases (rule decode_reject, simp add: class_cont class_lead)+
qed

lemma decode_lead_cases:
  assumes "utf8_ranges b = Some rs"
  obtains "0xC2 \<le> b" "b \<le> 0xDF" | "b = 0xE0" | "0xE1 \<le> b" "b \<le> 0xEC" | "b = 0xED"
    | "b = 0xEE" | "b = 0xEF" | "b = 0xF0" | "0xF1 \<le> b" "b \<le> 0xF3" | "b = 0xF4"
proof -
  have "\<not> b \<le> 0xC1" "\<not> 0xF5 \<le> b" using assms ranges_by_interval(1,11) by force+
  then show thesis using that by linarith
qed

lemma decode_good:
  assumes "utf8_ranges b = Some rs" "decode 0 cp b = (st, cp1)"
  shows "follows st cp1 rs"
proof -
  note row = next_row class_single
  from assms(1) show ?thesis
  proof (cases rule: decode_lead_cases)
    case 1
    then have "b mod 64 = b - 192" by (intro mod_offset [of _ _ 192]) auto
    with 1 assms decode_class [OF class_lead(2) [OF 1], of cp] lead_mask [of 2 b]
    show ?thesis by (simp add: ranges_by_interval row) (auto intro: follows_states)
  next
    case 3
    then have "b mod 32 = b - 224" by (intro mod_offset [of _ _ 224]) auto
    with 3 assms decode_class [OF class_lead(3) [OF 3], of cp] lead_mask [of 3 b]
    show ?thesis by (simp add: ranges_by_interval row) (auto intro: follows_states)
  next
    case 8
    then have "b mod 4 = b - 240" by (intro mod_offset [of _ _ 240]) auto
    with 8 assms decode_class [OF class_lead(4) [OF 8], of cp] lead_mask [of 6 b]
    show ?thesis by (simp add: ranges_by_interval row) (auto intro: follows_states)
  next
    case 2
    with assms decode_class [OF class_single(1), of cp] show ?thesis
      by (auto simp: ranges_by_interval row intro: follows_states)
  next
    case 4
    with assms decode_class [OF class_single(2), of cp] show ?thesis
      by (auto simp: ranges_by_interval row intro: follows_states)
  next
    case 5
    with assms decode_class [OF class_single(3), of cp] show ?thesis
      by (auto simp: ranges_by_interval row intro: follows_states)
  next
    case 6
    with assms decode_class [OF class_single(4), of cp] show ?thesis
      by (auto simp: ranges_by_interval row intro: follows_states)
  next
    case 7
    with assms decode_class [OF class_single(5), of cp] show ?thesis
      by (auto simp: ranges_by_interval row intro: follows_states)
  next
    case 9
    with assms decode_class [OF class_single(6), of cp] show ?thesis
      by (auto simp: ranges_by_interval row intro: follows_states)
  qed
qed

lemma class_high:
  assumes "0xC0 \<le> b" "b < 256"
  shows "utf8_class ! b \<in> {8, 2, 10, 3, 4, 11, 6, 5}"
proof (cases "b \<le> 0xEC")
  case True
  with assms consider "b \<le> 0xC1" | "0xC2 \<le> b" "b \<le> 0xDF" | "b = 0xE0" | "0xE1 \<le> b" by linarith
  then show ?thesis using True assms by cases (simp_all add: class_lead class_single)
next
  case False
  with assms consider "b = 0xED" | "b = 0xEE" | "b = 0xEF" | "b = 0xF0" | "0xF1 \<le> b" "b \<le> 0xF3"
    | "b = 0xF4" | "0xF5 \<le> b" "b \<le> 0xFF" by linarith
  then show ?thesis by cases (simp_all add: class_lead class_single)
qed

lemma class_iff:
  assumes "b < 256"
  shows "utf8_class ! b < 12" "utf8_class ! b = 1 \<longleftrightarrow> 0x80 \<le> b \<and> b \<le> 0x8F"
    "utf8_class ! b = 9 \<longleftrightarrow> 0x90 \<le> b \<and> b \<le> 0x9F" "utf8_class ! b = 7 \<longleftrightarrow> 0xA0 \<le> b \<and> b \<le> 0xBF"
proof -
  consider "b \<le> 0x7F" | "0x80 \<le> b" "b \<le> 0x8F" | "0x90 \<le> b" "b \<le> 0x9F" | "0xA0 \<le> b" "b \<le> 0xBF"
    | "0xC0 \<le> b" using assms by linarith
  then have *: "utf8_class ! b < 12 \<and> (utf8_class ! b = 1 \<longleftrightarrow> 0x80 \<le> b \<and> b \<le> 0x8F) \<and>
    (utf8_class ! b = 9 \<longleftrightarrow> 0x90 \<le> b \<and> b \<le> 0x9F) \<and> (utf8_class ! b = 7 \<longleftrightarrow> 0xA0 \<le> b \<and> b \<le> 0xBF)"
  proof cases
    case 5
    with class_high [OF 5 assms] show ?thesis by auto
  qed (simp_all add: class_ascii class_cont)
  show "utf8_class ! b < 12" by (rule * [THEN conjunct1])
  show "utf8_class ! b = 1 \<longleftrightarrow> 0x80 \<le> b \<and> b \<le> 0x8F" by (rule * [THEN conjunct2, THEN conjunct1])
  show "utf8_class ! b = 9 \<longleftrightarrow> 0x90 \<le> b \<and> b \<le> 0x9F"
    by (rule * [THEN conjunct2, THEN conjunct2, THEN conjunct1])
  show "utf8_class ! b = 7 \<longleftrightarrow> 0xA0 \<le> b \<and> b \<le> 0xBF"
    by (rule * [THEN conjunct2, THEN conjunct2, THEN conjunct2])
qed

lemma less_12: "(ty :: nat) < 12 \<Longrightarrow> ty \<in> {0, 1, 2, 3, 4, 5, 6, 7, 8, 9, 10, 11}"
  unfolding insert_iff empty_iff by presburger

lemma next_rows:
  assumes "ty < 12"
  shows "utf8_next ! (32 + ty) = (if ty = 1 \<or> ty = 7 \<or> ty = 9 then 0 else 1)"
    "utf8_next ! (48 + ty) = (if ty = 1 \<or> ty = 7 \<or> ty = 9 then 2 else 1)"
    "utf8_next ! (64 + ty) = (if ty = 7 then 2 else 1)"
    "utf8_next ! (80 + ty) = (if ty = 1 \<or> ty = 9 then 2 else 1)"
    "utf8_next ! (96 + ty) = (if ty = 7 \<or> ty = 9 then 3 else 1)"
    "utf8_next ! (112 + ty) = (if ty = 1 \<or> ty = 7 \<or> ty = 9 then 3 else 1)"
    "utf8_next ! (128 + ty) = (if ty = 1 then 3 else 1)"
  using less_12 [OF assms] by (auto simp: utf8_next_def)

lemma shift_or: "(x AND 0x3F) OR push_bit 6 y = x mod 64 + 64 * y" for x y :: nat
proof -
  have m: "(0x3F :: nat) = mask 6" by (simp add: mask_eq_exp_minus_1)
  have "(x AND 0x3F) OR push_bit 6 y = (x AND 0x3F) + push_bit 6 y"
    unfolding m by (rule disjunctive_add_eq_or [symmetric]) (rule bit_eqI, auto simp: bit_simps)
  moreover have "x AND mask 6 = x mod 64" using take_bit_eq_mod [of 6 x] by (simp add: take_bit_eq_mask)
  ultimately show ?thesis unfolding m by (simp add: push_bit_eq_mult)
qed

lemma decode_inner:
  "st \<noteq> 0 \<Longrightarrow> decode st cp b = (utf8_next ! (st * 16 + utf8_class ! b), b mod 64 + 64 * cp)"
  by (simp add: decode_def shift_or Let_def)

lemma class_spans:
  assumes "b < 256"
  shows "(utf8_class ! b = 1 \<or> utf8_class ! b = 7 \<or> utf8_class ! b = 9) \<longleftrightarrow> 0x80 \<le> b \<and> b \<le> 0xBF"
    "(utf8_class ! b = 1 \<or> utf8_class ! b = 9) \<longleftrightarrow> 0x80 \<le> b \<and> b \<le> 0x9F"
    "(utf8_class ! b = 7 \<or> utf8_class ! b = 9) \<longleftrightarrow> 0x90 \<le> b \<and> b \<le> 0xBF"
  unfolding class_iff [OF assms] by arith+

lemma next_by_byte:
  assumes "b < 256"
  shows "utf8_next ! (32 + utf8_class ! b) = (if 0x80 \<le> b \<and> b \<le> 0xBF then 0 else 1)"
    "utf8_next ! (48 + utf8_class ! b) = (if 0x80 \<le> b \<and> b \<le> 0xBF then 2 else 1)"
    "utf8_next ! (64 + utf8_class ! b) = (if 0xA0 \<le> b \<and> b \<le> 0xBF then 2 else 1)"
    "utf8_next ! (80 + utf8_class ! b) = (if 0x80 \<le> b \<and> b \<le> 0x9F then 2 else 1)"
    "utf8_next ! (96 + utf8_class ! b) = (if 0x90 \<le> b \<and> b \<le> 0xBF then 3 else 1)"
    "utf8_next ! (112 + utf8_class ! b) = (if 0x80 \<le> b \<and> b \<le> 0xBF then 3 else 1)"
    "utf8_next ! (128 + utf8_class ! b) = (if 0x80 \<le> b \<and> b \<le> 0x8F then 3 else 1)"
  unfolding next_rows [OF class_iff(1) [OF assms]]
  unfolding class_spans(1) [OF assms]
  unfolding class_spans(2,3) [OF assms]
  unfolding class_iff(2,4) [OF assms]
  by (rule refl)+

lemma decode_cont:
  assumes "follows st cp ((lo, hi) # rs)" "b < 256" "decode st cp b = (st1, cp1)"
  shows "if lo \<le> b \<and> b \<le> hi then (if rs = [] then st1 = 0 \<and> 0x80 \<le> cp1 else follows st1 cp1 rs)
         else st1 = 1"
proof -
  have "st \<in> {2, 3, 4, 5, 6, 7, 8}" using assms(1) by (auto simp: follows_def inner_def)
  note rows = next_by_byte [OF assms(2)]
  have "\<exists>r. cp1 = r + 64 * cp \<and> (0x90 \<le> b \<longrightarrow> b \<le> 0xBF \<longrightarrow> 1 \<le> r) \<and> (0xA0 \<le> b \<longrightarrow> b \<le> 0xBF \<longrightarrow> 2 \<le> r)"
  proof (intro exI conjI impI)
    show "cp1 = b mod 64 + 64 * cp" using assms(3) decode_inner [of st cp b] \<open>st \<in> _\<close> by auto
    show "0x90 \<le> b \<Longrightarrow> b \<le> 0xBF \<Longrightarrow> 1 \<le> b mod 64"
      using mod_offset [of "b - 128" 64 128 b] by simp
    show "0xA0 \<le> b \<Longrightarrow> b \<le> 0xBF \<Longrightarrow> 2 \<le> b mod 64"
      using mod_offset [of "b - 128" 64 128 b] by simp
  qed
  then obtain r where st: "cp1 = r + 64 * cp" and hi: "0x90 \<le> b \<Longrightarrow> b \<le> 0xBF \<Longrightarrow> 1 \<le> r"
    and hi2: "0xA0 \<le> b \<Longrightarrow> b \<le> 0xBF \<Longrightarrow> 2 \<le> r" by blast
  have st1: "st1 = utf8_next ! (st * 16 + utf8_class ! b)"
    using assms(3) decode_inner [of st cp b] \<open>st \<in> _\<close> by auto
  from \<open>st \<in> _\<close> consider "st = 2" | "st = 3" | "st = 4" | "st = 5" | "st = 6" | "st = 7" | "st = 8" by auto
  then show ?thesis
  proof cases
    case 1
    with assms(1) have "lo = 0x80" "hi = 0xBF" "rs = []" "2 \<le> cp"
      by (auto simp: follows_def state_ranges_def state_min_def)
    with st st1 1 show ?thesis by (auto simp: rows)
  next
    case 2
    with assms(1) have "lo = 0x80" "hi = 0xBF" "rs = [(0x80, 0xBF)]" "1 \<le> cp"
      by (auto simp: follows_def state_ranges_def state_min_def)
    with st st1 2 show ?thesis by (auto simp: rows follows_states)
  next
    case 3
    with assms(1) have "lo = 0xA0" "hi = 0xBF" "rs = [(0x80, 0xBF)]"
      by (auto simp: follows_def state_ranges_def state_min_def)
    with st st1 3 hi2 show ?thesis by (auto simp: rows intro!: follows_states)
  next
    case 4
    with assms(1) have "lo = 0x80" "hi = 0x9F" "rs = [(0x80, 0xBF)]" "1 \<le> cp"
      by (auto simp: follows_def state_ranges_def state_min_def)
    with st st1 4 show ?thesis by (auto simp: rows follows_states)
  next
    case 5
    with assms(1) have "lo = 0x90" "hi = 0xBF" "rs = [(0x80, 0xBF), (0x80, 0xBF)]"
      by (auto simp: follows_def state_ranges_def state_min_def)
    with st st1 5 hi show ?thesis by (auto simp: rows intro!: follows_states)
  next
    case 6
    with assms(1) have "lo = 0x80" "hi = 0xBF" "rs = [(0x80, 0xBF), (0x80, 0xBF)]" "1 \<le> cp"
      by (auto simp: follows_def state_ranges_def state_min_def)
    with st st1 6 show ?thesis by (auto simp: rows follows_states)
  next
    case 7
    with assms(1) have "lo = 0x80" "hi = 0x8F" "rs = [(0x80, 0xBF), (0x80, 0xBF)]" "1 \<le> cp"
      by (auto simp: follows_def state_ranges_def state_min_def)
    with st st1 7 show ?thesis by (auto simp: rows follows_states)
  qed
qed

lemma ranges_high:
  assumes "utf8_ranges b = Some rs" "r \<in> set rs"
  shows "0x80 \<le> fst r"
  using assms(1)
proof (cases rule: decode_lead_cases)
qed (use assms in \<open>auto simp: ranges_by_interval\<close>)

lemma escaped_high: "\<forall>c \<in> set s. \<not> of_char c \<le> (0x7F :: nat) \<Longrightarrow> escaped s = s"
  by (induction s) (auto simp: escape_byte_def)

lemma escaped_follow:
  assumes "utf8_ranges b = Some rs" "list_all2 in_range rs s"
  shows "escaped s = s"
proof (rule escaped_high, rule ballI)
  fix c assume "c \<in> set s"
  then obtain k where "k < length s" "c = s ! k" by (auto simp: in_set_conv_nth)
  with assms(2) have "rs ! k \<in> set rs" "in_range (rs ! k) c" by (auto simp: list_all2_conv_all_nth)
  with ranges_high [OF assms(1), of "rs ! k"] show "\<not> of_char c \<le> (0x7F :: nat)"
    by (simp add: in_range_def)
qed

section \<open>Dumping a string\<close>

lemma loop_simps:
  "escape_loop Strict False i 0 cp und out part prev [] = Inr (out @ part)"
  "st \<noteq> 0 \<Longrightarrow> escape_loop Strict False i st cp und out part prev [] = Inl (incomplete (of_char prev))"
  "decode st cp (of_char c) = (0, cp1) \<Longrightarrow> escape_loop Strict False i st cp und out part prev (c # cs) =
     escape_loop Strict False (Suc i) 0 cp1 0 (out @ part @ escape_codepoint False cp1 c) [] c cs"
  "decode st cp (of_char c) = (1, cp1) \<Longrightarrow> escape_loop Strict False i st cp und out part prev (c # cs) =
     Inl (bad_byte i (of_char c))"
  "decode st cp (of_char c) = (st1, cp1) \<Longrightarrow> st1 \<noteq> 0 \<Longrightarrow> st1 \<noteq> 1 \<Longrightarrow>
   escape_loop Strict False i st cp und out part prev (c # cs) =
     escape_loop Strict False (Suc i) st1 cp1 (Suc und) out (part @ [c]) c cs"
  by (simp_all add: escape_loop.simps)

lemma escape_high: "0x80 \<le> cp \<Longrightarrow> escape_codepoint False cp c = [c]"
  by (simp add: escape_codepoint_def)

lemma follows_state: "follows st cp rs \<Longrightarrow> st \<noteq> 0 \<and> st \<noteq> 1"
  by (auto simp: follows_def inner_def)

lemma inner_loop:
  assumes "follows st cp rs" "rs \<noteq> []"
  shows "if length rs \<le> length cs \<and> list_all2 in_range rs (take (length rs) cs)
    then \<exists>i' cp' prev'. escape_loop Strict False i st cp und out part prev cs =
      escape_loop Strict False i' 0 cp' 0 (out @ part @ take (length rs) cs) [] prev' (drop (length rs) cs)
    else \<exists>m. escape_loop Strict False i st cp und out part prev cs = Inl (Json_exception 316 m)"
  using assms
proof (induction rs arbitrary: st cp cs i und part prev)
  case Nil
  then show ?case by simp
next
  case (Cons r rs)
  note st = follows_state [OF Cons.prems(1)]
  obtain lo hi where r: "r = (lo, hi)" by (cases r)
  show ?case
  proof (cases cs)
    case Nil
    with st show ?thesis by (simp add: loop_simps(2) incomplete_def type_error_def)
  next
    case cs: (Cons c cs')
    obtain st1 cp1 where d: "decode st cp (of_char c) = (st1, cp1)" by fastforce
    note step = decode_cont [OF Cons.prems(1) [unfolded r] byte_less d]
    show ?thesis
    proof (cases "in_range r c")
      case False
      with step r d have "decode st cp (of_char c) = (1, cp1)" by (auto simp: in_range_def)
      with False cs show ?thesis by (simp add: loop_simps(4) bad_byte_def type_error_def)
    next
      case True
      show ?thesis
      proof (cases "rs = []")
        case rs: True
        with step True r d have "decode st cp (of_char c) = (0, cp1)" "0x80 \<le> cp1"
          by (auto simp: in_range_def)
        then have "escape_loop Strict False i st cp und out part prev cs =
            escape_loop Strict False (Suc i) 0 cp1 0 (out @ part @ [c]) [] c cs'"
          using cs by (simp only: loop_simps(3) escape_high)
        with True rs cs show ?thesis by auto
      next
        case rs: False
        with step True r have f: "follows st1 cp1 rs" by (auto simp: in_range_def)
        from loop_simps(5) [OF d] follows_state [OF f] cs
        have e: "escape_loop Strict False i st cp und out part prev cs =
            escape_loop Strict False (Suc i) st1 cp1 (Suc und) out (part @ [c]) c cs'" by simp
        from Cons.IH [OF f rs, of cs' "Suc i" "Suc und" "part @ [c]" c] True cs
        show ?thesis unfolding e by (auto split: if_splits)
      qed
    qed
  qed
qed

lemma escape_strict:
  "if utf8_ok s then escape_loop Strict False i 0 cp 0 out [] prev s = Inr (out @ escaped s)
   else \<exists>m. escape_loop Strict False i 0 cp 0 out [] prev s = Inl (Json_exception 316 m)"
proof (induction s arbitrary: i cp out prev rule: utf8_ok.induct)
  case 1
  show ?case by (simp add: loop_simps)
next
  case (2 c cs)
  show ?case
  proof (cases "of_char c \<le> (0x7F :: nat)")
    case True
    then have e: "escape_loop Strict False i 0 cp 0 out [] prev (c # cs) =
        escape_loop Strict False (Suc i) 0 (of_char c) 0 (out @ escape_byte c) [] c cs"
      by (simp add: loop_simps(3) [OF decode_ascii [OF True]] escape_byte_def)
    from "2.IH"(1) [OF True, of "Suc i" "of_char c" "out @ escape_byte c" c] True
    show ?thesis unfolding e by simp
  next
    case False
    obtain st1 cp1 where d: "decode 0 cp (of_char c) = (st1, cp1)" by fastforce
    show ?thesis
    proof (cases "utf8_ranges (of_char c)")
      case None
      from decode_bad [OF False byte_less None, of cp] d False None show ?thesis
        by (simp add: loop_simps(4) bad_byte_def type_error_def)
    next
      case (Some rs)
      note f = decode_good [OF Some d]
      have rs: "rs \<noteq> []" using f by (auto simp: follows_def inner_def state_ranges_def split: if_splits)
      from loop_simps(5) [OF d] follows_state [OF f]
      have e: "escape_loop Strict False i 0 cp 0 out [] prev (c # cs) =
          escape_loop Strict False (Suc i) st1 cp1 (Suc 0) out [c] c cs" by simp
      note inner = inner_loop [OF f rs, of cs "Suc i" "Suc 0" out "[c]" c]
      show ?thesis
      proof (cases "length rs \<le> length cs \<and> list_all2 in_range rs (take (length rs) cs)")
        case bad: False
        with inner e False Some show ?thesis by auto
      next
        case ok: True
        then obtain i' cp' prev' where e': "escape_loop Strict False i 0 cp 0 out [] prev (c # cs) =
            escape_loop Strict False i' 0 cp' 0 (out @ [c] @ take (length rs) cs) [] prev' (drop (length rs) cs)"
          using inner e by auto
        have high: "escaped (take (length rs) cs) = take (length rs) cs"
          using ok escaped_follow [OF Some] by blast
        have "escaped (c # cs) = c # take (length rs) cs @ escaped (drop (length rs) cs)"
          using high escaped_simps(3) [of "take (length rs) cs" "drop (length rs) cs"] False
          by (simp add: escape_byte_def)
        with "2.IH"(2) [OF False Some, of i' cp' "out @ [c] @ take (length rs) cs" prev'] ok False Some
        show ?thesis unfolding e' by (auto split: if_splits simp del: escaped_simps(2))
      qed
    qed
  qed
qed

end
