(* ===== verification/JsonRound.thy ===== *)
theory JsonRound
  imports JsonText
begin

text \<open>
  Reading back what the serializer wrote: strings, integers, whole values. The lexer enters
  these facts through its remaining input \<open>pending\<close> and its token buffer only.
\<close>

section \<open>Single characters\<close>

lemma get_cons:
  assumes "pending l = c # cs"
  shows "current (get l) = Some c" "pending (get l) = cs"
proof -
  show c: "current (get l) = Some c"
    using assms by (auto simp: pending_def current_get split: option.splits if_splits)
  from pending_get_Some [OF c] assms show "pending (get l) = cs" by simp
qed

lemma get_nil:
  assumes "pending l = []"
  shows "current (get l) = None"
  using assms by (auto simp: pending_def current_get split: option.splits if_splits)

lemma pending_unget_get:
  assumes "pending l = c # cs"
  shows "pending (unget (get l)) = c # cs" "current (unget (get l)) = Some c"
  using get_cons [OF assms] by (simp_all add: pending_unget)

section \<open>Strings\<close>

text \<open>What a scanner call may change without anybody noticing.\<close>

definition reads :: "lexer \<Rightarrow> string \<Rightarrow> string \<Rightarrow> lexer \<Rightarrow> bool" where
  "reads l rest added l' \<longleftrightarrow> pending l' = rest \<and> token_buffer l' = token_buffer l @ added \<and>
     ignore_comments l' = ignore_comments l"

lemma hex_value_lower: "n < 16 \<Longrightarrow> hex_value (hex_lower n) = Some n"
proof -
  assume "n < 16"
  then have "n \<in> {0, 1, 2, 3, 4, 5, 6, 7, 8, 9, 10, 11, 12, 13, 14, 15}"
    unfolding insert_iff empty_iff by presburger
  then show ?thesis by (auto simp: hex_lower_def)
qed

lemma get_hex_step:
  assumes "pending l = hex_lower d # cs" "d < 16"
  shows "get_hex (factor # fs) cp l = get_hex fs (cp + push_bit factor d) (get l)"
  using get_cons [OF assms(1)] hex_value_lower [OF assms(2)] by (simp del: hex_value.simps)

lemma get_codepoint_read:
  assumes "pending l = drop 2 (u_escape n) @ rest" "n < 65536"
  shows "\<exists>l'. get_codepoint l = (Some n, l') \<and> reads l rest [] l'"
proof -
  let ?a = "n div 4096 mod 16" let ?b = "n div 256 mod 16" let ?c = "n div 16 mod 16" let ?d = "n mod 16"
  have p: "pending l = hex_lower ?a # hex_lower ?b # hex_lower ?c # hex_lower ?d # rest"
    using assms(1) by (simp add: u_escape_def)
  note g1 = get_cons [OF p] note g2 = get_cons [OF g1(2)] note g3 = get_cons [OF g2(2)]
  note g4 = get_cons [OF g3(2)]
  have sum: "push_bit 12 ?a + push_bit 8 ?b + push_bit 4 ?c + ?d = n"
  proof -
    have "n div 4096 < 16" using assms(2) by (simp add: less_mult_imp_div_less)
    then have a: "?a = n div 4096" by simp
    moreover have "n div 256 = n div 256 div 16 * 16 + ?b" "n div 16 = n div 16 div 16 * 16 + ?c"
      "n = n div 16 * 16 + ?d" by simp_all
    moreover have "n div 256 div 16 = n div 4096" "n div 16 div 16 = n div 256"
      by (simp_all flip: div_mult2_eq)
    ultimately have "?a * 4096 + ?b * 256 + ?c * 16 + ?d = n" by linarith
    moreover have "push_bit 12 ?a = ?a * 4096" "push_bit 8 ?b = ?b * 256" "push_bit 4 ?c = ?c * 16"
      by (simp_all add: push_bit_eq_mult)
    ultimately show ?thesis by linarith
  qed
  have "get_codepoint l = (Some n, get (get (get (get l))))"
    unfolding get_codepoint_def
    using get_hex_step [OF p] get_hex_step [OF g1(2)] get_hex_step [OF g2(2)] get_hex_step [OF g3(2)] sum
    by simp
  with g4 show ?thesis by (simp add: reads_def)
qed

lemma scan_unicode_read:
  assumes "pending l = drop 2 (u_escape n) @ rest" "n < 0x80"
  shows "\<exists>l'. scan_unicode l = (True, l') \<and> reads l rest [char_of n] l'"
proof -
  obtain l' where "get_codepoint l = (Some n, l')" "reads l rest [] l'"
    using get_codepoint_read [OF assms(1)] assms(2) by auto
  with assms(2) show ?thesis by (auto simp: scan_unicode_def utf8_bytes_def reads_def)
qed

text \<open>One byte of a string, escaped or not.\<close>

lemma named_chars:
  "(of_char c :: nat) = 0x08 \<Longrightarrow> c = CHR 0x08"
  "(of_char c :: nat) = 0x09 \<Longrightarrow> c = CHR 0x09"
  "(of_char c :: nat) = 0x0A \<Longrightarrow> c = CHR 0x0A"
  "(of_char c :: nat) = 0x0C \<Longrightarrow> c = CHR 0x0C"
  "(of_char c :: nat) = 0x0D \<Longrightarrow> c = CHR 0x0D"
  "(of_char c :: nat) = 0x22 \<Longrightarrow> c = CHR 0x22"
  "(of_char c :: nat) = 0x5C \<Longrightarrow> c = CHR 0x5C"
  using of_char_eq_iff [where 'a = nat, of c "CHR 0x08"]
    of_char_eq_iff [where 'a = nat, of c "CHR 0x09"]
    of_char_eq_iff [where 'a = nat, of c "CHR 0x0A"]
    of_char_eq_iff [where 'a = nat, of c "CHR 0x0C"]
    of_char_eq_iff [where 'a = nat, of c "CHR 0x0D"]
    of_char_eq_iff [where 'a = nat, of c "CHR 0x22"]
    of_char_eq_iff [where 'a = nat, of c "CHR 0x5C"]
  by simp_all

definition plain :: "char \<Rightarrow> bool" where
  "plain c \<longleftrightarrow> c \<noteq> CHR 0x22 \<and> c \<noteq> CHR 0x5C \<and> (0x20 :: nat) \<le> of_char c \<and> of_char c \<le> (0x7F :: nat)"

lemma escape_cases:
  assumes "of_char c \<le> (0x7F :: nat)"
  obtains d where "escape_byte c = [CHR 0x5C, d]"
      "(d, c) \<in> {(CHR 0x22, CHR 0x22), (CHR 0x5C, CHR 0x5C), (CHR ''b'', CHR 0x08),
        (CHR ''f'', CHR 0x0C), (CHR ''n'', CHR 0x0A), (CHR ''r'', CHR 0x0D), (CHR ''t'', CHR 0x09)}"
  | "escape_byte c = u_escape (of_char c)" "of_char c \<le> (0x1F :: nat)"
  | "escape_byte c = [c]" "plain c"
proof -
  let ?b = "of_char c :: nat"
  note e = escape_byte_def escape_codepoint_def
  consider "?b = 0x08" | "?b = 0x09" | "?b = 0x0A" | "?b = 0x0C" | "?b = 0x0D" | "?b = 0x22" | "?b = 0x5C"
    | "?b \<notin> {0x08, 0x09, 0x0A, 0x0C, 0x0D, 0x22, 0x5C}" by blast
  then show thesis
  proof cases
    case 8
    then have "c \<noteq> CHR 0x22" "c \<noteq> CHR 0x5C" by auto
    with 8 assms that(2,3) show thesis
      by (cases "?b \<le> 0x1F") (simp_all add: e plain_def)
  qed (rule that(1), simp add: e, simp add: named_chars)+
qed

lemma scan_escape_read:
  assumes "of_char c \<le> (0x7F :: nat)" "escape_byte c = CHR 0x5C # e" "pending l = e @ rest"
  shows "\<exists>l'. scan_escape l = (True, l') \<and> reads l rest [c] l'"
  using assms(1)
proof (cases rule: escape_cases)
  case (1 d)
  with assms(2,3) have "pending l = d # rest" by simp
  from get_cons [OF this] 1(2) show ?thesis by (auto simp: scan_escape_def reads_def)
next
  case 2
  with assms(2,3) have p: "pending l = CHR ''u'' # drop 2 (u_escape (of_char c)) @ rest"
    by (auto simp: u_escape_def)
  obtain l' where "scan_unicode (get l) = (True, l')" "reads (get l) rest [char_of (of_char c :: nat)] l'"
    using scan_unicode_read [OF get_cons(2) [OF p]] 2 by auto
  with get_cons [OF p] show ?thesis by (auto simp: scan_escape_def reads_def)
next
  case 3
  with assms(2) show ?thesis by (simp add: plain_def)
qed

text \<open>The bytes behind a lead byte, then a whole string up to the closing quote.\<close>

lemma bytes_read:
  assumes "list_all2 in_range rs s" "pending l = s @ rest"
  shows "\<exists>l'. bytes_in_ranges rs l = (True, l') \<and> reads l rest s l'"
  using assms
proof (induction rs l arbitrary: s rule: bytes_in_ranges.induct)
  case (1 l)
  then show ?case by (simp add: reads_def)
next
  case (2 lo hi rs l)
  then obtain c s' where s: "s = c # s'" "in_range (lo, hi) c" "list_all2 in_range rs s'"
    by (auto simp: list_all2_Cons1)
  with "2.prems"(2) have p: "pending l = c # (s' @ rest)" by simp
  from "2.IH" [OF refl get_cons(1) [OF p] _ s(3)] s(2) get_cons [OF p]
  obtain l' where "bytes_in_ranges rs (add c (get l)) = (True, l')" "reads (add c (get l)) rest s' l'"
    by (auto simp: in_range_def)
  with s get_cons [OF p] show ?case by (auto simp: in_range_def reads_def)
qed

lemma reads_trans:
  "reads l r1 s1 l1 \<Longrightarrow> reads l1 r2 s2 l2 \<Longrightarrow> reads l r2 (s1 @ s2) l2"
  by (simp add: reads_def)

lemma add_current_reads:
  "current l = Some c \<Longrightarrow> reads l (pending l) [c] (add_current l)"
  by (simp add: reads_def add_current_def)

lemma get_reads: "pending l = c # cs \<Longrightarrow> reads l cs [] (get l)"
  using get_cons(2) by (simp add: reads_def)

lemma scan_string_escaped:
  assumes "utf8_ok s" "pending l = escaped s @ CHR 0x22 # rest"
  shows "\<exists>l'. scan_string_loop l = (Value_string, l') \<and> reads l rest s l'"
  using assms
proof (induction s arbitrary: l rule: utf8_ok.induct)
  case 1
  then have p: "pending l = CHR 0x22 # rest" by simp
  show ?case
    by (rule exI [of _ "get l"])
      (simp add: scan_string_loop.simps [of l] get_cons [OF p] reads_def)
next
  case (2 c cs)
  note unf = scan_string_loop.simps [of l]
  have goes_on: "\<exists>l'. scan_string_loop l = (Value_string, l') \<and> reads l rest (c # cs) l'"
    if "scan_string_loop l = scan_string_loop l1" "reads l (escaped cs @ CHR 0x22 # rest) [c] l1"
      "utf8_ok cs" "of_char c \<le> (0x7F :: nat)" for l1
    using "2.IH"(1) [OF that(4,3), of l1] that reads_trans [OF that(2)] by (auto simp: reads_def)
  show ?case
  proof (cases "of_char c \<le> (0x7F :: nat)")
    case True
    with "2.prems" have ok: "utf8_ok cs"
      and p: "pending l = escape_byte c @ escaped cs @ CHR 0x22 # rest" by simp_all
    show ?thesis
    proof (cases "escape_byte c = [c] \<and> plain c")
      case plain: True
      with p have q: "pending l = c # (escaped cs @ CHR 0x22 # rest)" by simp
      from plain have "scan_string_loop l = scan_string_loop (add_current (get l))"
        by (simp add: unf get_cons [OF q] plain_def)
      moreover have "reads l (escaped cs @ CHR 0x22 # rest) [c] (add_current (get l))"
        using get_cons [OF q] by (simp add: reads_def add_current_def)
      ultimately show ?thesis using ok True by (rule goes_on)
    next
      case False
      then obtain e where e: "escape_byte c = CHR 0x5C # e"
        using escape_cases [OF True] by (metis u_escape_def)
      with p have q: "pending l = CHR 0x5C # (e @ escaped cs @ CHR 0x22 # rest)" by simp
      from scan_escape_read [OF True e get_cons(2) [OF q]] obtain l1 where
        l1: "scan_escape (get l) = (True, l1)" "reads (get l) (escaped cs @ CHR 0x22 # rest) [c] l1"
        by blast
      from l1(1) have "scan_string_loop l = scan_string_loop l1"
        by (simp add: unf get_cons [OF q])
      moreover have "reads l (escaped cs @ CHR 0x22 # rest) [c] l1"
        using reads_trans [OF get_reads [OF q] l1(2)] by simp
      ultimately show ?thesis using ok True by (rule goes_on)
    qed
  next
    case False
    with "2.prems"(1) obtain rs where rs: "utf8_ranges (of_char c) = Some rs"
      "list_all2 in_range rs (take (length rs) cs)" "utf8_ok (drop (length rs) cs)"
      by (auto split: option.splits)
    have "escaped cs = take (length rs) cs @ escaped (drop (length rs) cs)"
      using escaped_simps(3) [of "take (length rs) cs" "drop (length rs) cs"]
        escaped_follow [OF rs(1,2)] by simp
    with "2.prems"(2) False have
      q: "pending l = c # (take (length rs) cs @ escaped (drop (length rs) cs) @ CHR 0x22 # rest)"
      by (simp add: escape_byte_def)
    have "pending (add_current (get l)) = take (length rs) cs @ escaped (drop (length rs) cs) @ CHR 0x22 # rest"
      using get_cons [OF q] by simp
    from bytes_read [OF rs(2) this] obtain l1 where l1: "next_byte_in_range rs (get l) = (True, l1)"
      "reads (add_current (get l)) (escaped (drop (length rs) cs) @ CHR 0x22 # rest) (take (length rs) cs) l1"
      by (auto simp: next_byte_in_range_def)
    have r1: "reads l (escaped (drop (length rs) cs) @ CHR 0x22 # rest) (c # take (length rs) cs) l1"
      using l1(2) get_cons [OF q] by (simp add: reads_def add_current_def)
    from False have "c \<noteq> CHR 0x22" "c \<noteq> CHR 0x5C" by auto
    with l1(1) rs(1) False have step: "scan_string_loop l = scan_string_loop l1"
      by (simp add: unf get_cons [OF q])
    from "2.IH"(2) [OF False rs(1,3), of l1] r1 obtain l2 where
      "scan_string_loop l1 = (Value_string, l2)" "reads l1 rest (drop (length rs) cs) l2"
      by (auto simp: reads_def)
    with step reads_trans [OF r1 this(2)] show ?thesis by auto
  qed
qed

end
