(* ===== verification/JsonNumbers.thy ===== *)
theory JsonNumbers
  imports JsonRound
begin

text \<open>
  Numbers both ways: the digit-pair printing of integers against plain decimal notation, and
  the scanner's reading of whatever text its state table accepts.
\<close>

section \<open>Printing integers\<close>

lemma dec_digit: "n < 10 \<Longrightarrow> dec n = [digit_char n]"
  by (simp add: dec.simps [of n] digit_char_def)

lemma dec_step: "10 \<le> n \<Longrightarrow> dec n = dec (n div 10) @ [digit_char (n mod 10)]"
  by (simp add: dec.simps [of n] digit_char_def)

lemma zero_char: "digit_char 0 = CHR ''0''"
  by (rule of_char_eq_iff [where 'a = nat, THEN iffD1]) (simp add: digit_char_def)

lemma dec_two:
  assumes "100 \<le> n"
  shows "dec n = dec (n div 100) @ [digit_char (n mod 100 div 10), digit_char (n mod 100 mod 10)]"
proof -
  have "dec n = dec (n div 10 div 10) @ [digit_char (n div 10 mod 10), digit_char (n mod 10)]"
    using assms dec_step [of n] dec_step [of "n div 10"] by simp
  moreover have "n mod 100 mod 10 = n mod 10" by (simp add: mod_mod_cancel)
  moreover have "n mod 100 div 10 = n div 10 mod 10"
    using mod_mult2_eq [of n 10 10] by simp
  ultimately show ?thesis by (simp flip: div_mult2_eq)
qed

lemma fill_digits_dec: "fill_digits v buf = dec v @ buf"
proof (induction v buf rule: fill_digits.induct)
  case (1 v buf)
  show ?case
  proof (cases "100 \<le> v")
    case True
    with 1 show ?thesis
      by (simp add: fill_digits.simps [of v buf] digits_to_99_def dec_two [of v])
  next
    case False
    then show ?thesis
      by (cases "10 \<le> v")
        (simp_all add: fill_digits.simps [of v buf] digits_to_99_def dec_step [of v] dec_digit)
  qed
qed


lemma count_digits_from_dec: "0 < n \<Longrightarrow> count_digits_from n x = n - 1 + length (dec x)"
proof (induction n x rule: count_digits_from.induct)
  case (1 n x)
  note unf = count_digits_from.simps [of n x]
  consider "x < 10" | "10 \<le> x" "x < 100" | "100 \<le> x" "x < 1000" | "1000 \<le> x" "x < 10000"
    | "10000 \<le> x" by linarith
  then show ?case
  proof cases
    case 1
    with \<open>0 < n\<close> show ?thesis by (simp add: unf dec_digit)
  next
    case 2
    with \<open>0 < n\<close> show ?thesis by (simp add: unf dec_step [of x] dec_digit)
  next
    case 3
    with \<open>0 < n\<close> show ?thesis by (simp add: unf dec_two [of x] dec_digit)
  next
    case 4
    then have "length (dec (x div 100)) = 2" by (simp add: dec_step [of "x div 100"] dec_digit)
    with 4 \<open>0 < n\<close> show ?thesis by (simp add: unf dec_two [of x])
  next
    case 5
    then have "length (dec x) = 4 + length (dec (x div 10000))"
      by (simp add: dec_two [of x] dec_two [of "x div 100"] flip: div_mult2_eq)
    with 5 1 show ?thesis by (simp add: unf)
  qed
qed

lemma count_digits_dec: "count_digits x = length (dec x)"
  by (simp add: count_digits_def count_digits_from_dec)

lemma dump_integer_dec:
  "dump_integer x = (if x < 0 then CHR ''-'' # dec (nat (- x)) else dec (nat x))"
proof (cases "x = 0")
  case True
  then show ?thesis by (simp add: dump_integer_def dec_digit zero_char)
next
  case False
  have "remove_sign x = nat (- x)" if "x < 0" using that by (simp add: remove_sign_def nat_eq_iff)
  with False show ?thesis
    by (simp add: dump_integer_def Let_def fill_digits_dec count_digits_dec)
qed

section \<open>Digits\<close>

lemma digit_char_of: "d < 10 \<Longrightarrow> (of_char (digit_char d) :: nat) = 0x30 + d"
  by (simp add: digit_char_def)

lemma digit_char_digit: "d < 10 \<Longrightarrow> is_digit (digit_char d)"
  by (simp add: is_digit_def digit_char_of)

lemma dec_digits: "list_all is_digit (dec n)"
  by (induction n rule: dec.induct)
    (simp add: dec.simps digit_char_digit flip: digit_char_def)

lemma digits_val_snoc: "digits_val (ds @ [c]) = 10 * digits_val ds + (of_char c - 0x30)"
  by (simp add: digits_val_def)

lemma digits_val_dec: "digits_val (dec n) = n"
proof (induction n rule: dec.induct)
  case (1 n)
  show ?case
  proof (cases "n < 10")
    case True
    then show ?thesis by (simp add: dec_digit digits_val_def digit_char_of)
  next
    case False
    with 1 show ?thesis by (simp add: dec_step digits_val_snoc digit_char_of)
  qed
qed

lemma dec_inj: "dec m = dec n \<longleftrightarrow> m = n"
  using digits_val_dec by metis

lemma dec_first: "0 < n \<Longrightarrow> \<exists>d ds. dec n = digit_char d # ds \<and> 0 < d \<and> d < 10"
proof (induction n rule: dec.induct)
  case (1 n)
  show ?case
  proof (cases "n < 10")
    case True
    with 1 show ?thesis by (simp add: dec_digit) blast
  next
    case False
    then have "0 < n div 10" by (simp add: div_greater_zero_iff)
    from 1(1) [OF False this] obtain d ds where "dec (n div 10) = digit_char d # ds" "0 < d" "d < 10"
      by blast
    with False show ?thesis by (auto simp: dec_step)
  qed
qed

section \<open>Reading a number\<close>

text \<open>The state table run over a text: the type of the token it is, if it is one.\<close>

fun num_accepts :: "num_state \<Rightarrow> token_type \<Rightarrow> string \<Rightarrow> token_type option" where
  "num_accepts st ty [] = (if num_next st None = Done then Some (enter_type st ty) else None)"
| "num_accepts st ty (c # cs) =
     (case num_switch st c of Goto st' \<Rightarrow> num_accepts st' (enter_type st ty) cs | _ \<Rightarrow> None)"

fun number_token :: "string \<Rightarrow> token_type option" where
  "number_token [] = None"
| "number_token (c # cs) =
     (if c = CHR ''-'' then num_accepts Minus Value_unsigned cs
      else if c = CHR ''0'' then num_accepts Zero Value_unsigned cs
      else if is_digit c then num_accepts Any1 Value_unsigned cs else None)"

text \<open>What may follow a number without becoming part of it.\<close>

definition ends_number :: "string \<Rightarrow> bool" where
  "ends_number rest \<longleftrightarrow>
     (case rest of [] \<Rightarrow> True | c # cs \<Rightarrow> \<not> is_digit c \<and> c \<noteq> CHR ''.'' \<and> \<not> is_exp c)"

lemma num_switch_Done:
  "num_next st None = Done \<Longrightarrow> \<not> is_digit c \<Longrightarrow> c \<noteq> CHR ''.'' \<Longrightarrow> \<not> is_exp c \<Longrightarrow> num_switch st c = Done"
  by (cases st) (simp_all add: num_next_def is_digit_def is_exp_def)

lemma scan_number_from_read:
  assumes "num_accepts st ty s = Some ty'" "pending l = s @ rest" "ends_number rest"
  shows "\<exists>l'. scan_number_from st ty l = scan_number_done ty' l' \<and> reads l rest s (unget l')"
  using assms
proof (induction st ty s arbitrary: l rule: num_accepts.induct)
  case (1 st ty)
  note unf = scan_number_from.simps [of st ty l]
  from 1 have ty: "num_next st None = Done" "ty' = enter_type st ty" by (auto split: if_splits)
  show ?case
  proof (cases rest)
    case Nil
    with 1 have "current (get l) = None" by (intro get_nil) simp
    with ty Nil show ?thesis
      by (intro exI [of _ "get l"]) (simp add: unf reads_def pending_def)
  next
    case (Cons c cs)
    with 1 have p: "pending l = c # cs" by simp
    have "num_switch st c = Done"
      using num_switch_Done [OF ty(1)] 1(3) Cons by (simp add: ends_number_def)
    with ty get_cons [OF p] pending_unget_get [OF p] Cons show ?thesis
      by (intro exI [of _ "get l"]) (simp add: unf reads_def num_next_def)
  qed
next
  case (2 st ty c cs)
  from "2.prems" obtain st' where st': "num_switch st c = Goto st'"
    "num_accepts st' (enter_type st ty) cs = Some ty'" by (auto split: num_goto.splits)
  from "2.prems" have p: "pending l = c # (cs @ rest)" by simp
  note g = get_cons [OF p]
  have "pending (add_current (get l)) = cs @ rest" using g by simp
  from "2.IH" [OF st'(1) st'(2) this "2.prems"(3)] obtain l' where
    "scan_number_from st' (enter_type st ty) (add_current (get l)) = scan_number_done ty' l'"
    "reads (add_current (get l)) rest cs (unget l')" by blast
  with st' g show ?case
    by (intro exI [of _ l']) (simp add: scan_number_from.simps [of st ty l] num_next_def reads_def add_current_def)
qed

lemma scan_number_read:
  assumes "number_token (c # cs) = Some ty" "current l = Some c" "pending l = cs @ rest" "ends_number rest"
  shows "\<exists>l'. scan_number l = scan_number_done ty l' \<and> pending (unget l') = rest \<and>
    token_buffer l' = c # cs \<and> ignore_comments l' = ignore_comments l"
proof -
  let ?l = "add_current (reset l)"
  have p: "pending ?l = cs @ rest" "token_buffer ?l = [c]" "current ?l = Some c"
    using assms(2,3) by (simp_all add: add_current_def)
  have "\<exists>st. num_accepts st Value_unsigned cs = Some ty \<and> scan_number l = scan_number_from st Value_unsigned ?l"
    using assms(1) p(3) by (auto simp: scan_number_def split: if_splits)
  then obtain st where st: "num_accepts st Value_unsigned cs = Some ty"
    "scan_number l = scan_number_from st Value_unsigned ?l" by blast
  from scan_number_from_read [OF st(1) p(1) assms(4)] st(2) p(2) show ?thesis
    by (auto simp: reads_def add_current_def split: option.splits)
qed

section \<open>Integers\<close>

lemma accepts_digits:
  "list_all is_digit ds \<Longrightarrow> num_accepts Any1 ty ds = Some ty"
  by (induction ds) (simp_all add: num_next_def is_digit_def is_exp_def)

lemma digit_not_minus: "d < 10 \<Longrightarrow> digit_char d \<noteq> CHR ''-''"
  using digit_char_of [of d] by force

lemma digit_not_zero: "0 < d \<Longrightarrow> d < 10 \<Longrightarrow> digit_char d \<noteq> CHR ''0''"
  using digit_char_of [of d] by force

lemma number_token_dec: "number_token (dec n) = Some Value_unsigned"
proof (cases "n = 0")
  case True
  then show ?thesis by (simp add: dec_digit zero_char num_next_def is_exp_def)
next
  case False
  then obtain d ds where d: "dec n = digit_char d # ds" "0 < d" "d < 10" using dec_first by blast
  then have "list_all is_digit ds" using dec_digits [of n] by simp
  with d show ?thesis
    by (simp add: digit_not_minus digit_not_zero digit_char_digit accepts_digits)
qed

lemma number_token_neg:
  assumes "0 < n"
  shows "number_token (CHR ''-'' # dec n) = Some Value_integer"
proof -
  obtain d ds where d: "dec n = digit_char d # ds" "0 < d" "d < 10" using dec_first [OF assms] by blast
  then have "list_all is_digit ds" using dec_digits [of n] by simp
  with d show ?thesis by (simp add: digit_not_zero digit_char_digit accepts_digits)
qed

end
