(* ===== verification/DoubleText.thy ===== *)
theory DoubleText
  imports GrisuDigits JsonNumbers
begin

text \<open>
  The text \<open>to_chars\<close> writes for a double, as a number token and as \<open>strtod\<close> reads it: every
  finite double comes back bit for bit.
\<close>

section \<open>Decimal texts\<close>

text \<open>Integer part, fraction, exponent: the shape of a floating-point literal.\<close>

definition decimal_text :: "string \<Rightarrow> string \<Rightarrow> string \<Rightarrow> string" where
  "decimal_text ip fp ex = ip @ (if fp = [] then [] else CHR ''.'' # fp) @ ex"

definition int_part :: "string \<Rightarrow> bool" where
  "int_part ip \<longleftrightarrow> ip = ''0'' \<or> (\<exists>c cs. ip = c # cs \<and> c \<noteq> CHR ''0'' \<and> is_digit c \<and> list_all is_digit cs)"

definition exp_part :: "string \<Rightarrow> int \<Rightarrow> bool" where
  "exp_part ex e \<longleftrightarrow> ex = [] \<and> e = 0 \<or>
     (\<exists>xs. xs \<noteq> [] \<and> list_all is_digit xs \<and>
       (ex = CHR ''e'' # CHR ''+'' # xs \<and> e = int (digits_val xs) \<or>
        ex = CHR ''e'' # CHR ''-'' # xs \<and> e = - int (digits_val xs)))"

definition read_decimal :: "nat \<Rightarrow> int \<Rightarrow> nat" where
  "read_decimal m e10 = (if 0 \<le> e10 then round_mag (m * 10 ^ nat e10) 1 else round_mag m (10 ^ nat (- e10)))"

lemma digit_facts:
  "is_digit c \<Longrightarrow> c \<noteq> CHR ''.''" "is_digit c \<Longrightarrow> c \<noteq> CHR ''-''" "is_digit c \<Longrightarrow> c \<noteq> CHR ''+''"
  "is_digit c \<Longrightarrow> \<not> is_exp c" "\<not> is_digit (CHR ''.'')" "\<not> is_digit (CHR ''e'')" "is_exp (CHR ''e'')"
  "is_digit (CHR ''0'')" "\<not> is_digit (CHR 0x00)" "\<not> is_exp (CHR 0x00)" "\<not> is_digit (CHR ''+'')"
  "\<not> is_digit (CHR ''-'')" "\<not> is_exp (CHR ''.'')"
  by (auto simp: is_digit_def is_exp_def)

lemma accepts_all:
  "list_all is_digit cs \<Longrightarrow> num_accepts Any1 ty (cs @ r) = num_accepts Any1 ty r"
  "list_all is_digit cs \<Longrightarrow> num_accepts Decimal2 ty (cs @ r) = num_accepts Decimal2 ty r"
  "list_all is_digit cs \<Longrightarrow> num_accepts Any2 ty (cs @ r) = num_accepts Any2 ty r"
  by (induction cs) simp_all

lemma accepts_exp:
  assumes "exp_part ex e" "st \<in> {Any1, Zero, Decimal2}"
  shows "num_accepts st ty ex = Some (if ex = [] then ty else Value_float)"
proof (cases "ex = []")
  case True
  with assms(2) show ?thesis by (auto simp: num_next_def digit_facts)
next
  case False
  with assms(1) obtain c x xs where ex: "ex = CHR ''e'' # c # x # xs" "c = CHR ''+'' \<or> c = CHR ''-''"
    "is_digit x" "list_all is_digit xs"
  proof -
    from assms(1) False obtain xs where xs: "xs \<noteq> []" "list_all is_digit xs"
      "ex = CHR ''e'' # CHR ''+'' # xs \<or> ex = CHR ''e'' # CHR ''-'' # xs"
      unfolding exp_part_def by blast
    with that show thesis by (cases xs) auto
  qed
  have "num_accepts Any2 Value_float xs = Some Value_float"
    using accepts_all(3) [OF ex(4), of Value_float "[]"] by (simp add: num_next_def digit_facts)
  with assms(2) ex show ?thesis by (auto simp: digit_facts)
qed

lemma accepts_frac:
  assumes "list_all is_digit fp" "exp_part ex e" "st \<in> {Any1, Zero}"
  shows "num_accepts st ty ((if fp = [] then [] else CHR ''.'' # fp) @ ex) =
    Some (if fp = [] \<and> ex = [] then ty else Value_float)"
proof (cases fp)
  case Nil
  with accepts_exp [OF assms(2), of st ty] assms(3) show ?thesis by auto
next
  case (Cons x xs)
  with assms have "num_accepts Decimal2 Value_float (xs @ ex) = Some Value_float"
    by (simp add: accepts_all accepts_exp)
  with Cons assms show ?thesis by (auto simp: digit_facts)
qed

lemma decimal_token:
  assumes "int_part ip" "list_all is_digit fp" "exp_part ex e" "fp \<noteq> [] \<or> ex \<noteq> []"
  shows "number_token (decimal_text ip fp ex) = Some Value_float"
    "number_token (CHR ''-'' # decimal_text ip fp ex) = Some Value_float"
proof -
  note f = accepts_frac [OF assms(2,3)]
  have "number_token (decimal_text ip fp ex) = Some Value_float \<and>
    number_token (CHR ''-'' # decimal_text ip fp ex) = Some Value_float"
  proof (cases "ip = ''0''")
    case True
    with f [of Zero] assms(4) show ?thesis by (simp add: decimal_text_def del: num_accepts.simps) auto
  next
    case False
    with assms(1) obtain c cs where ip: "ip = c # cs" "c \<noteq> CHR ''0''" "is_digit c" "list_all is_digit cs"
      by (auto simp: int_part_def)
    from f [of Any1] assms(4) ip show ?thesis
      by (simp add: decimal_text_def accepts_all digit_facts)
  qed
  then show "number_token (decimal_text ip fp ex) = Some Value_float"
    "number_token (CHR ''-'' # decimal_text ip fp ex) = Some Value_float" by simp_all
qed

lemma takeWhile_digits:
  assumes "list_all is_digit ds" "r = [] \<or> \<not> is_digit (hd r)"
  shows "takeWhile is_digit (ds @ r) = ds" "dropWhile is_digit (ds @ r) = r"
proof -
  have "takeWhile is_digit r = [] \<and> dropWhile is_digit r = r" using assms(2) by (cases r) simp_all
  with assms(1) show "takeWhile is_digit (ds @ r) = ds" "dropWhile is_digit (ds @ r) = r"
    by (induction ds) simp_all
qed

lemma strtod_decimal:
  assumes "list_all is_digit ip" "ip \<noteq> []" "list_all is_digit fp" "exp_part ex e"
  shows "strtod (decimal_text ip fp ex) = mk_double False (read_decimal (digits_val (ip @ fp)) (e - int (length fp)))"
    "strtod (CHR ''-'' # decimal_text ip fp ex) = mk_double True (read_decimal (digits_val (ip @ fp)) (e - int (length fp)))"
proof -
  define t where "t = decimal_text ip fp ex"
  obtain c cs where ip: "ip = c # cs" "is_digit c" using assms(1,2) by (cases ip) auto
  have t0: "take 1 t \<noteq> ''-''" using digit_facts(2) [OF ip(2)] by (simp add: t_def decimal_text_def ip(1))
  define s2 where "s2 = (if fp = [] then [] else CHR ''.'' # fp) @ ex"
  have ex0: "ex = [] \<or> hd ex = CHR ''e''" using assms(4) by (auto simp: exp_part_def)
  then have "s2 = [] \<or> \<not> is_digit (hd s2)" by (auto simp: s2_def digit_facts)
  from takeWhile_digits [OF assms(1) this]
  have ip: "takeWhile is_digit t = ip" "dropWhile is_digit t = s2" by (simp_all add: t_def decimal_text_def s2_def)
  have tf: "takeWhile is_digit (fp @ ex) = fp" "dropWhile is_digit (fp @ ex) = ex"
  proof -
    have "ex = [] \<or> \<not> is_digit (hd ex)" using ex0 by (auto simp: digit_facts)
    from takeWhile_digits [OF assms(3) this]
    show "takeWhile is_digit (fp @ ex) = fp" "dropWhile is_digit (fp @ ex) = ex" .
  qed
  have fp: "(if take 1 s2 = ''.'' then takeWhile is_digit (tl s2) else []) = fp"
    "(if take 1 s2 = ''.'' then dropWhile is_digit (tl s2) else s2) = ex"
    using ex0 tf by (cases ex; cases fp; simp add: s2_def)+
  have ex: "(if ex = [] then 0
                else if take 1 (tl ex) = ''-'' then - int (digits_val (if take 1 (tl ex) = ''-'' \<or> take 1 (tl ex) = ''+'' then tl (tl ex) else (tl ex)))
                else int (digits_val (if take 1 (tl ex) = ''-'' \<or> take 1 (tl ex) = ''+'' then tl (tl ex) else tl ex))) = e"
    using assms(4) by (auto simp: exp_part_def)
  show "strtod t = mk_double False (read_decimal (digits_val (ip @ fp)) (e - int (length fp)))"
    by (simp only: strtod_def Let_def t0 if_False ip fp ex read_decimal_def)
  have neg: "take 1 (CHR ''-'' # t) = ''-''" "tl (CHR ''-'' # t) = t" by simp_all
  show "strtod (CHR ''-'' # t) = mk_double True (read_decimal (digits_val (ip @ fp)) (e - int (length fp)))"
    by (simp only: strtod_def Let_def neg simp_thms if_True ip fp ex read_decimal_def)
qed

section \<open>The text of a digit string\<close>

lemma digits_val_map: "list_all (\<lambda>d. d < 10) ds \<Longrightarrow> digits_val (map digit_char ds) = dval ds"
proof (induction ds rule: rev_induct)
  case Nil
  then show ?case by (simp add: digits_val_def)
next
  case (snoc d ds)
  then show ?case by (simp add: digits_val_snoc digit_char_of)
qed

lemma digits_val_zeros:
  "digits_val (ds @ replicate k (CHR ''0'')) = digits_val ds * 10 ^ k"
  "digits_val (replicate k (CHR ''0'') @ ds) = digits_val ds"
proof -
  show "digits_val (ds @ replicate k (CHR ''0'')) = digits_val ds * 10 ^ k"
  proof (induction k)
    case 0
    then show ?case by simp
  next
    case (Suc k)
    have "ds @ replicate (Suc k) (CHR ''0'') = (ds @ replicate k (CHR ''0'')) @ ''0''"
      by (simp add: replicate_append_same)
    with Suc show ?case by (simp only: digits_val_snoc) simp
  qed
  have "digits_val (replicate k (CHR ''0'')) = 0"
    by (induction k) (simp_all add: digits_val_def)
  then show "digits_val (replicate k (CHR ''0'') @ ds) = digits_val ds"
    by (simp add: digits_val_def)
qed

lemma exp_part_append:
  assumes "\<bar>e\<bar> < 1000"
  shows "\<exists>ex. append_exponent (buf @ ''e'') e = buf @ ex \<and> ex \<noteq> [] \<and> exp_part ex e"
proof -
  define k where "k = nat \<bar>e\<bar>"
  define xs where "xs = (if k < 10 then [CHR ''0'', digit_char k]
    else if k < 100 then [digit_char (k div 10), digit_char (k mod 10)]
    else [digit_char (k div 100), digit_char (k mod 100 div 10), digit_char (k mod 100 mod 10)])"
  have k: "k < 1000" "int k = \<bar>e\<bar>" using assms by (simp_all add: k_def)
  have d: "k div 100 < 10" "k mod 100 div 10 < 10" "k mod 100 mod 10 < 10"
    using k(1) by (simp_all add: div_less_iff_less_mult less_mult_imp_div_less)
  have z: "CHR ''0'' = digit_char 0" by (rule zero_char [symmetric])
  have "list_all is_digit xs \<and> xs \<noteq> [] \<and> digits_val xs = k"
    using d unfolding xs_def z
    by (auto simp: digit_char_digit digits_val_def digit_char_of div_less_iff_less_mult)
  moreover have "append_exponent (buf @ ''e'') e = buf @ CHR ''e'' # (if e < 0 then CHR ''-'' else CHR ''+'') # xs"
    by (simp add: append_exponent_def Let_def xs_def k_def)
  ultimately show ?thesis using k(2)
    by (intro exI [of _ "CHR ''e'' # (if e < 0 then CHR ''-'' else CHR ''+'') # xs"])
      (auto simp: exp_part_def)
qed

lemma format_text:
  assumes "good_digits ds" "\<bar>int (length ds) + n - 1\<bar> < 1000"
  obtains ip fp ex e where
    "format_buffer (map digit_char ds) n (- 4) 15 = decimal_text ip fp ex"
    "int_part ip" "list_all is_digit fp" "exp_part ex e" "fp \<noteq> [] \<or> ex \<noteq> []"
    "real (digits_val (ip @ fp)) * 10 powi (e - int (length fp)) = real (dval ds) * 10 powi n"
proof -
  define b where "b = map digit_char ds"
  define k where "k = int (length ds)"
  have b: "list_all is_digit b" "digits_val b = dval ds" "length b = length ds"
    using assms(1) by (auto simp: b_def good_digits_def digits_val_map list_all_iff digit_char_digit)
  have k: "0 < k" using assms(1) by (simp add: k_def good_digits_def)
  obtain d ds' where ds: "ds = d # ds'" "0 < d" "d < 10" using assms(1) by (cases ds) (auto simp: good_digits_def)
  then have hd: "b = digit_char d # map digit_char ds'" "digit_char d \<noteq> CHR ''0''" "is_digit (digit_char d)"
    by (simp_all add: b_def digit_not_zero digit_char_digit)
  have sub: "list_all is_digit (take j b)" "list_all is_digit (drop j b)" for j
    using b(1) by (auto simp: list_all_iff dest: in_set_takeD in_set_dropD)
  have ip: "int_part (take (Suc j) b @ cs)" if "list_all is_digit cs" for j cs
    using that hd b(1) sub(1) [of "Suc j"] by (auto simp: int_part_def)
  have ne: "b \<noteq> []" using hd(1) by simp
  have none: "exp_part [] 0" by (simp add: exp_part_def)
  note result = that
  consider "k \<le> k + n" "k + n \<le> 15" | "0 < k + n" "k + n \<le> 15" "n < 0" | "- 4 < k + n" "k + n \<le> 0"
    | "\<not> (0 < k + n \<and> k + n \<le> 15)" "\<not> (- 4 < k + n \<and> k + n \<le> 0)" by linarith
  then show thesis
  proof cases
    case 1
    have t: "format_buffer b n (- 4) 15 = decimal_text (b @ replicate (nat n) (CHR ''0'')) ''0'' []"
      using 1 by (simp add: format_buffer_def Let_def b(3) k_def decimal_text_def)
    have v: "digits_val ((b @ replicate (nat n) (CHR ''0'')) @ ''0'') = dval ds * 10 ^ nat n * 10"
      using digits_val_zeros(1) [of "b @ replicate (nat n) (CHR ''0'')" 1] by (simp add: digits_val_zeros b(2))
    show thesis
    proof (rule result [OF _ _ _ none])
      show "format_buffer (map digit_char ds) n (- 4) 15 = decimal_text (b @ replicate (nat n) (CHR ''0'')) ''0'' []"
        using t by (simp add: b_def)
      show "int_part (b @ replicate (nat n) (CHR ''0''))"
        using ip [of "replicate (nat n) (CHR ''0'')" "length b"] by (simp add: list_all_iff digit_facts)
      have "(10::real) powi n = 10 ^ nat n" using 1 by (simp add: power_int_def)
      then show "real (digits_val ((b @ replicate (nat n) (CHR ''0'')) @ ''0'')) * 10 powi (0 - int (length ''0'')) =
          real (dval ds) * 10 powi n"
        unfolding v by (simp add: power_int_minus)
    qed (simp_all add: digit_facts)
  next
    case 2
    define j where "j = nat (k + n)"
    have j: "j < length b" "0 < j" "int j = k + n" using 2 b(3) by (simp_all add: j_def k_def nat_less_iff)
    then have dne: "drop j b \<noteq> []" by simp
    have t: "format_buffer b n (- 4) 15 = decimal_text (take j b) (drop j b) []"
      using 2 dne by (simp add: format_buffer_def Let_def b(3) k_def decimal_text_def j_def)
    show thesis
    proof (rule result [OF _ _ _ none])
      show "format_buffer (map digit_char ds) n (- 4) 15 = decimal_text (take j b) (drop j b) []"
        using t by (simp add: b_def)
      show "int_part (take j b)" using ip [of "[]" "j - 1"] j(2) by simp
      have "0 - int (length (drop j b)) = n" using j b(3) by (simp add: k_def)
      then show "real (digits_val (take j b @ drop j b)) * 10 powi (0 - int (length (drop j b))) =
          real (dval ds) * 10 powi n"
        by (simp only: append_take_drop_id b(2))
    qed (use dne sub in simp_all)
  next
    case 3
    then have "n < 0" using k by linarith
    define j where "j = nat (- (k + n))"
    have t: "format_buffer b n (- 4) 15 = decimal_text ''0'' (replicate j (CHR ''0'') @ b) []"
      using 3 \<open>n < 0\<close> ne by (simp add: format_buffer_def Let_def b(3) k_def decimal_text_def j_def)
    show thesis
    proof (rule result [OF _ _ _ none])
      show "format_buffer (map digit_char ds) n (- 4) 15 = decimal_text ''0'' (replicate j (CHR ''0'') @ b) []"
        using t by (simp add: b_def)
      show "int_part ''0''" by (simp add: int_part_def)
      have "0 - int (length (replicate j (CHR ''0'') @ b)) = n" using 3 b(3) by (simp add: j_def k_def)
      moreover have "digits_val (''0'' @ replicate j (CHR ''0'') @ b) = dval ds"
        using digits_val_zeros(2) [of "Suc j" b] b(2) by simp
      ultimately show "real (digits_val (''0'' @ replicate j (CHR ''0'') @ b)) *
          10 powi (0 - int (length (replicate j (CHR ''0'') @ b))) = real (dval ds) * 10 powi n" by (simp only:)
    qed (use b(1) hd(1) in \<open>auto simp: list_all_iff digit_facts\<close>)
  next
    case 4
    have lim: "\<bar>k + n - 1\<bar> < 1000" using assms(2) by (simp add: k_def)
    define fp where "fp = drop 1 b"
    obtain ex where ex: "append_exponent (take 1 b @ (if fp = [] then [] else CHR ''.'' # fp) @ ''e'') (k + n - 1) =
        (take 1 b @ (if fp = [] then [] else CHR ''.'' # fp)) @ ex" "ex \<noteq> []" "exp_part ex (k + n - 1)"
      using exp_part_append [OF lim, of "take 1 b @ (if fp = [] then [] else CHR ''.'' # fp)"] by auto
    have "format_buffer b n (- 4) 15 =
        append_exponent (take 1 b @ (if fp = [] then [] else CHR ''.'' # fp) @ ''e'') (k + n - 1)"
      using 4 k hd(1) by (auto simp: format_buffer_def Let_def b(3) k_def fp_def b_def ds)
    then have t: "format_buffer b n (- 4) 15 = decimal_text (take 1 b) fp ex"
      by (simp only: ex(1) decimal_text_def append_assoc)
    show thesis
    proof (rule result [OF _ _ _ ex(3)])
      show "format_buffer (map digit_char ds) n (- 4) 15 = decimal_text (take 1 b) fp ex"
        using t by (simp add: b_def)
      show "int_part (take 1 b)" using ip [of "[]" 0] by simp
      have "k + n - 1 - int (length fp) = n" using hd(1) b(3) by (simp add: fp_def k_def)
      then show "real (digits_val (take 1 b @ fp)) * 10 powi (k + n - 1 - int (length fp)) = real (dval ds) * 10 powi n"
        by (simp only: fp_def append_take_drop_id b(2))
    qed (use ex(2) sub in \<open>simp_all add: fp_def\<close>)
  qed
qed

section \<open>Every finite double\<close>

lemma read_decimal_between:
  assumes "0 < m" "m < inf_mag" "lower m < real d * 10 powi n" "real d * 10 powi n < upper m"
  shows "read_decimal d n = m"
proof (cases "0 \<le> n")
  case True
  then have "real d * 10 powi n = real (d * 10 ^ nat n) / real 1" by (simp add: power_int_def)
  with assms have "round_mag (d * 10 ^ nat n) 1 = m" by (intro round_between) simp_all
  with True show ?thesis by (simp add: read_decimal_def)
next
  case False
  then have "real d * 10 powi n = real d / real (10 ^ nat (- n))"
    by (simp add: power_int_def field_simps)
  with assms have "round_mag d (10 ^ nat (- n)) = m" by (intro round_between) simp_all
  with False show ?thesis by (simp add: read_decimal_def)
qed

lemma boundary_range:
  assumes "0 < m" "m < inf_mag"
  shows "2 powi (- 1075) \<le> lower m" "upper m \<le> 2 ^ 1024"
proof -
  note sb = sig_bounds [OF assms(1)]
  define P where "P = (2::real) powi (- 1075)"
  have P: "0 < P" by (simp add: P_def)
  have e: "int (shift m) - 1075 = - 1075 + int (shift m)" by simp
  have E: "(2::real) powi (int (shift m) - 1075) = P * 2 ^ shift m" unfolding e powi_shift P_def ..
  have "2 * 2 powi (int (shift m) - 1076) = (2::real) powi (int (shift m) - 1076 + int 1)"
    unfolding powi_shift by simp
  then have E': "(2::real) powi (int (shift m) - 1076) = P * 2 ^ shift m / 2" using E by simp
  have one: "P * 1 \<le> P * 2 ^ shift m" using P by (intro mult_left_mono) simp_all
  have "1 \<le> real (sig m)" using sb(1) by simp
  then have m: "1 * (P * 2 ^ shift m) \<le> (2 * real (sig m) - 1) * (P * 2 ^ shift m)"
    "2 * (P * 2 ^ shift m / 2) \<le> (4 * real (sig m) - 1) * (P * 2 ^ shift m / 2)"
    using P by (intro mult_right_mono; simp)+
  have "P \<le> (2 * real (sig m) - 1) * (P * 2 ^ shift m)" using one m(1) by (simp only: mult_1 mult_1_right)
  moreover have "P \<le> (4 * real (sig m) - 1) * (P * 2 ^ shift m / 2)"
    by (rule order_trans [OF _ m(2)]) (use one in simp)
  ultimately have "P \<le> lower m" unfolding lower_def E E'
    by (cases "closer_below m") (simp_all only: if_True if_False simp_thms)
  then show "2 powi (- 1075) \<le> lower m" unfolding P_def .
  have "shift m \<le> 2045"
  proof -
    have "m div 2 ^ 52 < 2047" using assms(2) by (simp add: less_mult_imp_div_less)
    then show ?thesis by (simp add: shift_def)
  qed
  then have "(2::real) ^ shift m \<le> 2 ^ 2045" by (intro power_increasing) simp_all
  then have S: "P * 2 ^ shift m \<le> P * 2 ^ 2045" using P by (intro mult_left_mono) simp_all
  have "2 * sig m + 1 \<le> 2 ^ 54" using sb(2) by simp
  then have "real (2 * sig m + 1) \<le> real (2 ^ 54)" by (simp only: of_nat_le_iff)
  then have "(2 * real (sig m) + 1) * (P * 2 ^ shift m) \<le> 2 ^ 54 * (P * 2 ^ 2045)"
    using S P by (intro mult_mono) simp_all
  also have "2 ^ 54 * (P * 2 ^ 2045) = P * 2 ^ (1075 + 1024)"
    by (simp only: mult.left_commute [of _ P] flip: power_add) simp
  also have "\<dots> = (2::real) powi (- 1075 + int (1075 + 1024))" unfolding P_def by (rule powi_shift [symmetric])
  also have "\<dots> = 2 powi int 1024" by simp
  also have "\<dots> = 2 ^ 1024" by (rule power_int_of_nat)
  finally show "upper m \<le> 2 ^ 1024" by (simp only: upper_def E)
qed

lemma dval_bounds:
  assumes "good_digits ds"
  shows "10 ^ (length ds - 1) \<le> dval ds" "dval ds < 10 ^ length ds"
proof -
  have "10 ^ (length ds - 1) \<le> dval ds \<and> dval ds < 10 ^ length ds"
    using assms
  proof (induction ds rule: rev_induct)
    case Nil
    then show ?case by (simp add: good_digits_def)
  next
    case (snoc d ds)
    show ?case
    proof (cases "ds = []")
      case True
      with snoc.prems show ?thesis by (simp add: good_digits_def dval_def)
    next
      case False
      with snoc.prems have "good_digits ds" "d < 10" by (simp_all add: good_digits_def)
      moreover from False obtain l where "length ds = Suc l" by (cases ds) auto
      ultimately show ?thesis using snoc.IH by simp
    qed
  qed
  then show "10 ^ (length ds - 1) \<le> dval ds" "dval ds < 10 ^ length ds" by simp_all
qed

lemma two_ten: "(2::real) ^ 1024 \<le> 10 ^ 512" "(2::real) ^ 1075 \<le> 10 ^ 430"
proof -
  have n: "1024 = 2 * (512 :: nat)" "1075 = 5 * (215 :: nat)" "430 = 2 * (215 :: nat)" by simp_all
  show "(2::real) ^ 1024 \<le> 10 ^ 512" "(2::real) ^ 1075 \<le> 10 ^ 430"
    unfolding n power_mult by (intro power_mono, simp, simp)+
qed

lemma powi_less_exp: "(10::real) powi a < 10 powi b \<Longrightarrow> a < b"
  using power_int_increasing [of b a "10 :: real"] by (cases "a < b") simp_all

lemma exponent_range:
  assumes "0 < m" "m < inf_mag" "good_digits ds"
    "lower m < real (dval ds) * 10 powi n" "real (dval ds) * 10 powi n < upper m"
  shows "\<bar>int (length ds) + n - 1\<bar> < 1000"
proof -
  note r = boundary_range [OF assms(1,2)]
  obtain l where l: "length ds = Suc l" using assms(3) by (cases ds) (auto simp: good_digits_def)
  from dval_bounds [OF assms(3)] have "real (10 ^ l) \<le> real (dval ds)" "real (dval ds) < real (10 ^ Suc l)"
    by (simp_all only: of_nat_le_iff of_nat_less_iff l diff_Suc_1)
  then have d: "10 ^ l * 10 powi n \<le> real (dval ds) * 10 powi n"
    "real (dval ds) * 10 powi n < 10 ^ Suc l * 10 powi n" by simp_all
  have p: "(10::real) ^ j * 10 powi n = 10 powi (int j + n)" for j by (simp add: power_int_add)
  have "(10::real) powi (int l + n) < 2 ^ 1024" using d(1) assms(5) r(2) unfolding p by linarith
  also have "(2::real) ^ 1024 \<le> 10 ^ 512" by (rule two_ten)
  also have "\<dots> = 10 powi int 512" by (rule power_int_of_nat [symmetric])
  finally have "int l + n < int 512" by (rule powi_less_exp)
  moreover have "- 431 < int (Suc l) + n"
  proof -
    have "(10::real) powi (- int 430) = inverse (10 ^ 430)" by (simp only: power_int_minus power_int_of_nat)
    also have "\<dots> \<le> inverse (2 ^ 1075)" by (rule le_imp_inverse_le [OF two_ten(2)]) simp
    also have "\<dots> = 2 powi (- int 1075)" by (simp only: power_int_minus power_int_of_nat)
    also have "\<dots> \<le> lower m" using r(1) by simp
    also have "\<dots> < 10 powi (int (Suc l) + n)" using d(2) assms(4) unfolding p by linarith
    finally have "- int 430 < int (Suc l) + n" by (rule powi_less_exp)
    then show ?thesis by simp
  qed
  ultimately show ?thesis unfolding l by simp
qed

lemma mk_double_split: "mk_double (sign_of x) (mag_of x) = x"
proof -
  have "unat x < 2 ^ 64" using unat_lt_64 [of x] by simp
  then have "sign_of x \<Longrightarrow> unat x mod 2 ^ 63 = unat x - 2 ^ 63" "\<not> sign_of x \<Longrightarrow> unat x mod 2 ^ 63 = unat x"
    by (simp_all add: sign_of_def le_mod_geq less_diff_conv2)
  then have "(if sign_of x then 2 ^ 63 + mag_of x else mag_of x) = unat x"
    by (simp add: sign_of_def mag_of_def)
  then show ?thesis by (simp add: mk_double_def)
qed

lemma to_chars_read:
  assumes "is_finite x"
  obtains t where "to_chars x = Some t" "number_token t = Some Value_float" "strtod t = x"
proof -
  define m where "m = mag_of x"
  define sg where "sg = (if sign_of x then ''-'' else [])"
  have m: "m < inf_mag" using assms by (simp add: m_def is_finite_def)
  have x: "mk_double (sign_of x) m = x" unfolding m_def by (rule mk_double_split)
  note result = that
  have read: thesis if t: "to_chars x = Some (sg @ decimal_text ip fp ex)" "int_part ip" "list_all is_digit fp"
    "exp_part ex e" "fp \<noteq> [] \<or> ex \<noteq> []" "read_decimal (digits_val (ip @ fp)) (e - int (length fp)) = m"
    for ip fp ex e
  proof (rule result [OF t(1)])
    have ip: "list_all is_digit ip" "ip \<noteq> []" using t(2) by (auto simp: int_part_def digit_facts)
    show "number_token (sg @ decimal_text ip fp ex) = Some Value_float"
      using decimal_token [OF t(2-5)] by (simp add: sg_def)
    show "strtod (sg @ decimal_text ip fp ex) = x"
      using strtod_decimal [OF ip t(3,4)] x unfolding t(6) by (cases "sign_of x") (simp_all add: sg_def)
  qed
  show thesis
  proof (cases "m = 0")
    case True
    have "read_decimal 0 (- 1) = 0" by (simp add: read_decimal_def round_mag_def rne_def)
    with True show thesis
      by (intro read [of "''0''" "''0''" "[]" 0])
        (simp_all add: to_chars_def Let_def m_def sg_def decimal_text_def int_part_def exp_part_def digit_facts
          digits_val_def)
  next
    case False
    then have pos: "0 < m" by simp
    from grisu2_spec [OF pos m] obtain ds n where g: "grisu2 (mk_double False m) = Some (ds, n)" "good_digits ds"
      "lower m < real (dval ds) * 10 powi n" "real (dval ds) * 10 powi n < upper m" .
    from format_text [OF g(2) exponent_range [OF pos m g(2-4)]] obtain ip fp ex e where
      f: "format_buffer (map digit_char ds) n (- 4) 15 = decimal_text ip fp ex" "int_part ip"
        "list_all is_digit fp" "exp_part ex e" "fp \<noteq> [] \<or> ex \<noteq> []"
        "real (digits_val (ip @ fp)) * 10 powi (e - int (length fp)) = real (dval ds) * 10 powi n" .
    have "read_decimal (digits_val (ip @ fp)) (e - int (length fp)) = m"
      using pos m g(3,4) unfolding f(6) [symmetric] by (rule read_decimal_between)
    moreover have "to_chars x = Some (sg @ decimal_text ip fp ex)"
      using False g(1) f(1) by (simp add: to_chars_def Let_def m_def sg_def)
    ultimately show thesis using f(2-5) by (intro read)
  qed
qed

text \<open>C29. For every finite double the printer returns, its text is a float literal of the scanner's
  state table, and reading the literal gives the same 64 bits.\<close>

theorem to_chars_reads_back:
  assumes "is_finite x"
  shows "\<exists>t. to_chars x = Some t \<and> number_token t = Some Value_float \<and> strtod t = x"
  using to_chars_read [OF assms] by metis

lemma to_chars_reads_back_witness:
  "\<exists>t. to_chars (0x3FB999999999999A :: 64 word) = Some t \<and> number_token t = Some Value_float \<and>
    strtod t = 0x3FB999999999999A"
  by (rule to_chars_reads_back) (simp add: is_finite_def mag_of_def)

end
