(* ===== verification/JsonRoundTrip.thy ===== *)
theory JsonRoundTrip
  imports DoubleText
begin

text \<open>
  The parser on the serializer's output: tokens first, then whole values by induction on the
  value, then \<open>json::parse(v.dump())\<close>.
\<close>

section \<open>Tokens\<close>

definition stands :: "parser \<Rightarrow> string \<Rightarrow> dom \<Rightarrow> bool list \<Rightarrow> bool" where
  "stands p rest d ss \<longleftrightarrow> pending (m_lexer p) = rest \<and> \<not> ignore_comments (m_lexer p) \<and>
     sax p = d \<and> states p = ss"

lemma scan_start:
  assumes "pending l = c # cs" "c \<noteq> CHR 0xEF" "\<not> is_space c" "\<not> ignore_comments l"
  shows "\<exists>l1. scan l = scan_token l1 \<and> current l1 = Some c \<and> pending l1 = cs \<and> \<not> ignore_comments l1"
proof -
  have space: "current (skip_whitespace k) = Some c \<and> pending (skip_whitespace k) = cs \<and>
      \<not> ignore_comments (skip_whitespace k)"
    if "pending k = c # cs" "\<not> ignore_comments k" for k
    using get_cons [OF that(1)] assms(3) that(2) by (simp add: skip_whitespace.simps [of k] Let_def)
  let ?k = "if chars_read_total l = 0 then unget (get l) else l"
  have "pending ?k = c # cs" "\<not> ignore_comments ?k"
    using assms pending_unget_get [OF assms(1)] by simp_all
  note sk = space [OF this]
  have "scan l = scan_skip_comments (skip_whitespace ?k)"
    using get_cons [OF assms(1)] assms(2) by (simp add: scan_def skip_bom_def Let_def)
  with sk show ?thesis by (auto simp: scan_skip_comments.simps)
qed

lemma token_start:
  assumes "stands p (c # cs) d ss" "c \<noteq> CHR 0xEF" "\<not> is_space c"
  obtains l1 where "get_token p = p\<lparr>last_token := fst (scan_token l1), m_lexer := snd (scan_token l1)\<rparr>"
    "current l1 = Some c" "pending l1 = cs" "\<not> ignore_comments l1"
  using scan_start [of "m_lexer p" c cs] assms that
  by (auto simp: stands_def get_token_def case_prod_unfold)

lemma token_end: "stands p [] d ss \<Longrightarrow> last_token (get_token p) = End_of_input"
proof -
  assume s: "stands p [] d ss"
  have g: "pending k = [] \<Longrightarrow> current (get k) = None" for k by (rule get_nil)
  let ?l = "m_lexer p"
  let ?k = "if chars_read_total ?l = 0 then unget (get ?l) else ?l"
  have p: "pending ?l = []" "\<not> ignore_comments ?l" using s by (simp_all add: stands_def)
  have "pending (unget (get ?l)) = []" using g [OF p(1)] by (simp add: pending_def)
  with p have k: "pending ?k = []" "\<not> ignore_comments ?k" by simp_all
  have "scan ?l = scan_skip_comments (skip_whitespace ?k)"
    using g [OF p(1)] by (simp add: scan_def skip_bom_def Let_def)
  then have "fst (scan ?l) = End_of_input"
    using g [OF k(1)] k(2)
    by (simp add: skip_whitespace.simps [of ?k] scan_skip_comments.simps scan_token_def Let_def)
  then show ?thesis by (simp add: get_token_def case_prod_unfold)
qed

fun structural :: "char \<Rightarrow> token_type option" where
  "structural c =
     (if c = CHR ''['' then Some Begin_array else if c = CHR '']'' then Some End_array
      else if c = CHR ''{'' then Some Begin_object else if c = CHR ''}'' then Some End_object
      else if c = CHR '':'' then Some Name_separator else if c = CHR '','' then Some Value_separator
      else None)"

lemma token_structural:
  assumes "stands p (c # cs) d ss" "structural c = Some ty"
  shows "last_token (get_token p) = ty \<and> stands (get_token p) cs d ss"
proof -
  have c: "c \<noteq> CHR 0xEF" "\<not> is_space c"
    using assms(2) by (auto simp: is_space_def split: if_splits)
  obtain l1 where l1: "get_token p = p\<lparr>last_token := fst (scan_token l1), m_lexer := snd (scan_token l1)\<rparr>"
    "current l1 = Some c" "pending l1 = cs" "\<not> ignore_comments l1"
    using assms(1) c by (rule token_start)
  have "scan_token l1 = (ty, l1)"
    using l1(2) assms(2) by (auto simp: scan_token_def split: if_splits)
  with l1 assms(1) show ?thesis by (simp add: stands_def)
qed

lemma token_string:
  assumes "stands p (CHR 0x22 # escaped s @ CHR 0x22 # rest) d ss" "utf8_ok s"
  shows "last_token (get_token p) = Value_string \<and> token_buffer (m_lexer (get_token p)) = s \<and>
    stands (get_token p) rest d ss"
proof -
  obtain l1 where l1: "get_token p = p\<lparr>last_token := fst (scan_token l1), m_lexer := snd (scan_token l1)\<rparr>"
    "current l1 = Some (CHR 0x22)" "pending l1 = escaped s @ CHR 0x22 # rest" "\<not> ignore_comments l1"
    using assms(1) by (rule token_start) (simp_all add: is_space_def)
  have "pending (reset l1) = escaped s @ CHR 0x22 # rest" using l1(3) by simp
  from scan_string_escaped [OF assms(2) this] obtain l' where
    "scan_string_loop (reset l1) = (Value_string, l')" "reads (reset l1) rest s l'" by blast
  with l1 assms(1) show ?thesis
    by (simp add: scan_token_def scan_string_def stands_def reads_def is_digit_def)
qed

lemma number_start:
  "number_token (c # cs) = Some ty \<Longrightarrow> c = CHR ''-'' \<or> is_digit c"
  by (auto simp: is_digit_def split: if_splits)

lemma non_digits:
  "\<not> is_digit (CHR 0xEF)" "\<not> is_digit (CHR '' '')" "\<not> is_digit (CHR 0x09)" "\<not> is_digit (CHR 0x0A)"
  "\<not> is_digit (CHR 0x0D)" "\<not> is_digit (CHR ''['')" "\<not> is_digit (CHR '']'')" "\<not> is_digit (CHR ''{'')"
  "\<not> is_digit (CHR ''}'')" "\<not> is_digit (CHR '':'')" "\<not> is_digit (CHR '','')" "\<not> is_digit (CHR ''t'')"
  "\<not> is_digit (CHR ''f'')" "\<not> is_digit (CHR ''n'')" "\<not> is_digit (CHR 0x22)"
  by (simp_all add: is_digit_def)

lemma digit_differs: "is_digit c \<Longrightarrow> \<not> is_digit e \<Longrightarrow> c = e \<longleftrightarrow> False"
  by blast

lemma number_char:
  assumes "c = CHR ''-'' \<or> is_digit c"
  shows "c \<noteq> CHR 0xEF" "\<not> is_space c" "current l = Some c \<Longrightarrow> scan_token l = scan_number l"
  using assms
  by (elim disjE; simp add: is_space_def scan_token_def digit_differs non_digits)+

lemma token_number:
  assumes "stands p (c # cs @ rest) d ss" "number_token (c # cs) = Some ty" "ends_number rest"
  shows "\<exists>l. last_token (get_token p) = fst (scan_number_done ty l) \<and>
    m_lexer (get_token p) = snd (scan_number_done ty l) \<and> token_buffer l = c # cs \<and>
    pending (unget l) = rest \<and> \<not> ignore_comments l \<and>
    sax (get_token p) = d \<and> states (get_token p) = ss"
proof -
  note c = number_char [OF number_start [OF assms(2)]]
  obtain l1 where l1: "get_token p = p\<lparr>last_token := fst (scan_token l1), m_lexer := snd (scan_token l1)\<rparr>"
    "current l1 = Some c" "pending l1 = cs @ rest" "\<not> ignore_comments l1"
    using assms(1) c(1,2) by (rule token_start)
  note c(3) [OF l1(2)]
  with scan_number_read [OF assms(2) l1(2,3) assms(3)] l1 assms(1) show ?thesis
    by (auto simp: stands_def)
qed

lemma scan_literal_read:
  assumes "pending l = s @ rest"
  shows "\<exists>l'. scan_literal s ty l = (ty, l') \<and> pending l' = rest \<and> ignore_comments l' = ignore_comments l"
  using assms
proof (induction s arbitrary: l)
  case Nil
  then show ?case by simp
next
  case (Cons c s)
  then have p: "pending l = c # (s @ rest)" by simp
  from Cons.IH [OF get_cons(2) [OF p]] get_cons(1) [OF p] show ?case by simp
qed

lemma token_literal:
  assumes "stands p (c # cs @ rest) d ss" "c \<noteq> CHR 0xEF" "\<not> is_space c"
    "\<And>l. current l = Some c \<Longrightarrow> scan_token l = scan_literal cs ty l"
  shows "last_token (get_token p) = ty \<and> stands (get_token p) rest d ss"
proof -
  obtain l1 where l1: "get_token p = p\<lparr>last_token := fst (scan_token l1), m_lexer := snd (scan_token l1)\<rparr>"
    "current l1 = Some c" "pending l1 = cs @ rest" "\<not> ignore_comments l1"
    using assms(1-3) by (rule token_start)
  from scan_literal_read [OF l1(3), of ty] obtain l' where
    "scan_literal cs ty l1 = (ty, l')" "pending l' = rest" "ignore_comments l' = ignore_comments l1"
    by blast
  with l1 assms(4) [OF l1(2)] assms(1) show ?thesis by (simp add: stands_def)
qed

lemma token_literals:
  "stands p (''true'' @ rest) d ss \<Longrightarrow> last_token (get_token p) = Literal_true \<and> stands (get_token p) rest d ss"
  "stands p (''false'' @ rest) d ss \<Longrightarrow> last_token (get_token p) = Literal_false \<and> stands (get_token p) rest d ss"
  "stands p (''null'' @ rest) d ss \<Longrightarrow> last_token (get_token p) = Literal_null \<and> stands (get_token p) rest d ss"
  using token_literal [of p "CHR ''t''" "''rue''" rest d ss Literal_true]
    token_literal [of p "CHR ''f''" "''alse''" rest d ss Literal_false]
    token_literal [of p "CHR ''n''" "''ull''" rest d ss Literal_null]
  by (simp_all add: is_space_def scan_token_def)

section \<open>Values that survive\<close>

text \<open>
  A non-negative integer comes back as an unsigned one; everything else comes back as it was.
  What can come back is what has a text: strings that are not UTF-8, infinities, NaNs, binary
  and discarded values have none, and an object needs distinct keys in order.
\<close>

fun canon :: "json \<Rightarrow> json" and canon_members :: "(string \<times> json) list \<Rightarrow> (string \<times> json) list"
and canon_elements :: "json list \<Rightarrow> json list" where
  "canon (JObject ms) = JObject (canon_members ms)"
| "canon (JArray vs) = JArray (canon_elements vs)"
| "canon (JInt n) = (if 0 \<le> n then JUnsigned n else JInt n)"
| "canon (JUnsigned n) = JUnsigned n"
| "canon (JString s) = JString s"
| "canon (JBool b) = JBool b"
| "canon (JFloat x) = JFloat x"
| "canon (JBinary bs t) = JBinary bs t"
| "canon JNull = JNull"
| "canon JDiscarded = JDiscarded"
| "canon_members [] = []"
| "canon_members ((k, v) # ms) = (k, canon v) # canon_members ms"
| "canon_elements [] = []"
| "canon_elements (v # vs) = canon v # canon_elements vs"

fun readable :: "json \<Rightarrow> bool" and readable_members :: "(string \<times> json) list \<Rightarrow> bool"
and readable_elements :: "json list \<Rightarrow> bool" where
  "readable (JObject ms) \<longleftrightarrow> obj_ok ms \<and> readable_members ms"
| "readable (JArray vs) \<longleftrightarrow> readable_elements vs"
| "readable (JInt n) \<longleftrightarrow> in_i64 n"
| "readable (JUnsigned n) \<longleftrightarrow> 0 \<le> n \<and> n \<le> u64_max"
| "readable (JString s) \<longleftrightarrow> utf8_ok s"
| "readable (JBool b) \<longleftrightarrow> True"
| "readable (JFloat x) \<longleftrightarrow> is_finite x"
| "readable (JBinary bs t) \<longleftrightarrow> False"
| "readable JNull \<longleftrightarrow> True"
| "readable JDiscarded \<longleftrightarrow> False"
| "readable_members [] \<longleftrightarrow> True"
| "readable_members ((k, v) # ms) \<longleftrightarrow> utf8_ok k \<and> readable v \<and> readable_members ms"
| "readable_elements [] \<longleftrightarrow> True"
| "readable_elements (v # vs) \<longleftrightarrow> readable v \<and> readable_elements vs"

lemma keys_canon [simp]: "map fst (canon_members ms) = map fst ms"
  by (induction ms) auto

lemma dump_escaped_Inr: "dump_escaped Strict False s = Inr t \<longleftrightarrow> utf8_ok s \<and> t = escaped s"
  using escape_strict [of s 0 0 "[]" "CHR 0x00"]
  by (auto simp: dump_escaped_def split: if_splits)

text \<open>Adding a key behind all others.\<close>

lemma assign_last:
  assumes "\<forall>x \<in> set us. str_less (fst x) k"
  shows "obj_assign k v (obj_emplace k w us) = us @ [(k, v)]"
  using assms
proof (induction us)
  case Nil
  then show ?case by simp
next
  case (Cons x us)
  obtain k' v' where x: "x = (k', v')" by (cases x)
  with Cons.prems have "str_less k' k" by simp
  then have "k \<noteq> k'" "\<not> str_less k k'" using str_less_asym str_less_irrefl by blast+
  with Cons x show ?case by simp
qed

section \<open>Numbers as values\<close>

text \<open>Reading a text from the token in front of it to the value it stands for.\<close>

definition reads_as :: "string \<Rightarrow> json \<Rightarrow> bool" where
  "reads_as t v \<longleftrightarrow> (\<forall>p rest d ss. ends_number rest \<longrightarrow> stands p (t @ rest) d ss \<longrightarrow>
     last_token (get_token p) \<noteq> End_array \<and>
     (\<exists>p'. sax_parse_loop False (get_token p) = sax_parse_loop True p' \<and>
        stands p' rest (handle_value v d) ss))"

lemma reads_as_token:
  assumes "\<And>p rest d ss. ends_number rest \<Longrightarrow> stands p (t @ rest) d ss \<Longrightarrow>
    stands (get_token p) rest d ss \<and>
    value_switch (get_token p) = Continue True (on_sax (handle_value v) (get_token p))"
  shows "reads_as t v"
  unfolding reads_as_def
proof (intro allI impI)
  fix p rest d ss
  assume "ends_number rest" "stands p (t @ rest) d ss"
  from assms [OF this] have s: "stands (get_token p) rest d ss"
    and v: "value_switch (get_token p) = Continue True (on_sax (handle_value v) (get_token p))" by blast+
  have "sax_parse_loop False (get_token p) = sax_parse_loop True (on_sax (handle_value v) (get_token p))"
    using v by (simp add: sax_parse_loop.simps [of False] sax_parse_loop.simps [of True])
  moreover have "stands (on_sax (handle_value v) (get_token p)) rest (handle_value v d) ss"
    using s by (simp add: stands_def on_sax_def)
  moreover have "last_token (get_token p) \<noteq> End_array" using v by (auto simp: value_switch_def)
  ultimately show "last_token (get_token p) \<noteq> End_array \<and>
      (\<exists>p'. sax_parse_loop False (get_token p) = sax_parse_loop True p' \<and>
        stands p' rest (handle_value v d) ss)" by blast
qed

lemma number_nonempty: "number_token t = Some ty \<Longrightarrow> \<exists>c cs. t = c # cs"
  by (cases t) auto

lemma reads_unsigned: "int n \<le> u64_max \<Longrightarrow> reads_as (dec n) (JUnsigned (int n))"
proof (rule reads_as_token)
  fix p rest d ss
  assume n: "int n \<le> u64_max" and r: "ends_number rest" "stands p (dec n @ rest) d ss"
  obtain c cs where c: "dec n = c # cs" using number_nonempty number_token_dec by blast
  from token_number [of p c cs rest d ss Value_unsigned] r number_token_dec [of n] c
  obtain l where "last_token (get_token p) = fst (scan_number_done Value_unsigned l)"
    "m_lexer (get_token p) = snd (scan_number_done Value_unsigned l)" "token_buffer l = dec n"
    "pending (unget l) = rest" "\<not> ignore_comments l" "sax (get_token p) = d" "states (get_token p) = ss"
    by auto
  with n show "stands (get_token p) rest d ss \<and>
      value_switch (get_token p) = Continue True (on_sax (handle_value (JUnsigned (int n))) (get_token p))"
    by (simp add: stands_def scan_number_done_def digits_val_dec value_switch_def)
qed

lemma reads_negative: "0 < n \<Longrightarrow> in_i64 (- int n) \<Longrightarrow> reads_as (CHR ''-'' # dec n) (JInt (- int n))"
proof (rule reads_as_token)
  fix p rest d ss
  assume n: "0 < n" "in_i64 (- int n)" and r: "ends_number rest" "stands p ((CHR ''-'' # dec n) @ rest) d ss"
  from token_number [of p "CHR ''-''" "dec n" rest d ss Value_integer] r number_token_neg [OF n(1)]
  obtain l where "last_token (get_token p) = fst (scan_number_done Value_integer l)"
    "m_lexer (get_token p) = snd (scan_number_done Value_integer l)" "token_buffer l = CHR ''-'' # dec n"
    "pending (unget l) = rest" "\<not> ignore_comments l" "sax (get_token p) = d" "states (get_token p) = ss"
    by auto
  with n show "stands (get_token p) rest d ss \<and>
      value_switch (get_token p) = Continue True (on_sax (handle_value (JInt (- int n))) (get_token p))"
    by (simp add: stands_def scan_number_done_def digits_val_dec value_switch_def in_i64_def)
qed

lemma reads_float: "to_chars x = Some t \<Longrightarrow> is_finite x \<Longrightarrow> reads_as t (JFloat x)"
proof (rule reads_as_token)
  fix p rest d ss
  assume x: "to_chars x = Some t" "is_finite x" and r: "ends_number rest" "stands p (t @ rest) d ss"
  obtain t' where "to_chars x = Some t'" "number_token t' = Some Value_float" "strtod t' = x"
    using x(2) by (rule to_chars_read)
  with x have ok: "is_finite x" "number_token t = Some Value_float" "strtod t = x" by simp_all
  obtain c cs where c: "t = c # cs" using number_nonempty ok(2) by blast
  from token_number [of p c cs rest d ss Value_float] r ok(2) c
  obtain l where "last_token (get_token p) = fst (scan_number_done Value_float l)"
    "m_lexer (get_token p) = snd (scan_number_done Value_float l)" "token_buffer l = t"
    "pending (unget l) = rest" "\<not> ignore_comments l" "sax (get_token p) = d" "states (get_token p) = ss"
    by auto
  with ok show "stands (get_token p) rest d ss \<and>
      value_switch (get_token p) = Continue True (on_sax (handle_value (JFloat x)) (get_token p))"
    by (simp add: stands_def scan_number_done_def value_switch_def)
qed

section \<open>Containers\<close>

lemma loop_values:
  "value_switch p = Continue False p1 \<Longrightarrow> sax_parse_loop False p = sax_parse_loop False p1"
  "value_switch p = Continue True p1 \<Longrightarrow> sax_parse_loop False p = sax_parse_loop True p1"
  "state_eval p = Continue b p1 \<Longrightarrow> sax_parse_loop True p = sax_parse_loop b p1"
  "state_eval p = Finished p1 \<Longrightarrow> sax_parse_loop True p = Inr p1"
  by (subst sax_parse_loop.simps, simp)
    (subst sax_parse_loop.simps, simp add: sax_parse_loop.simps [of True],
     (subst sax_parse_loop.simps, cases b, simp_all)+)

lemma stands_sax: "stands p rest d ss \<Longrightarrow> stands (on_sax f p) rest (f d) ss"
  by (simp add: stands_def on_sax_def)

lemma stands_states: "stands p rest d ss \<Longrightarrow> stands (p\<lparr>states := ss'\<rparr>) rest d ss'"
  by (simp add: stands_def)

lemma stands_states_of: "stands p rest d ss \<Longrightarrow> states p = ss"
  by (simp add: stands_def)

lemma ends_number_simps [simp]:
  "ends_number (CHR '','' # r)" "ends_number (CHR '']'' # r)" "ends_number (CHR ''}'' # r)" "ends_number []"
  by (simp_all add: ends_number_def is_digit_def is_exp_def)

lemma reads_asD:
  "reads_as t v \<Longrightarrow> stands p (t @ rest) d ss \<Longrightarrow> ends_number rest \<Longrightarrow>
   \<exists>p'. sax_parse_loop False (get_token p) = sax_parse_loop True p' \<and> stands p' rest (handle_value v d) ss"
  unfolding reads_as_def by blast

text \<open>The end of a container.\<close>

lemma close_array:
  assumes "stands p (CHR '']'' # rest) d (True # ss)" "ref_stack d = In_array us # fs"
  shows "\<exists>p'. sax_parse_loop True p = sax_parse_loop True p' \<and>
    stands p' rest (handle_value (JArray us) (d\<lparr>ref_stack := fs\<rparr>)) ss"
proof -
  from token_structural [OF assms(1), of End_array]
  have t: "last_token (get_token p) = End_array" "stands (get_token p) rest d (True # ss)" by simp_all
  let ?p = "(on_sax end_container (get_token p))\<lparr>states := ss\<rparr>"
  have "state_eval p = Continue True ?p"
    using t stands_states_of [OF assms(1)] by (simp add: state_eval_def)
  moreover have "stands ?p rest (handle_value (JArray us) (d\<lparr>ref_stack := fs\<rparr>)) ss"
    using stands_states [OF stands_sax [OF t(2), of end_container]] assms(2)
    by (simp add: end_container_def)
  ultimately show ?thesis using loop_values(3) by blast
qed

lemma close_object:
  assumes "stands p (CHR ''}'' # rest) d (False # ss)" "ref_stack d = In_object us k # fs"
  shows "\<exists>p'. sax_parse_loop True p = sax_parse_loop True p' \<and>
    stands p' rest (handle_value (JObject us) (d\<lparr>ref_stack := fs\<rparr>)) ss"
proof -
  from token_structural [OF assms(1), of End_object]
  have t: "last_token (get_token p) = End_object" "stands (get_token p) rest d (False # ss)" by simp_all
  let ?p = "(on_sax end_container (get_token p))\<lparr>states := ss\<rparr>"
  have "state_eval p = Continue True ?p"
    using t stands_states_of [OF assms(1)] by (simp add: state_eval_def)
  moreover have "stands ?p rest (handle_value (JObject us) (d\<lparr>ref_stack := fs\<rparr>)) ss"
    using stands_states [OF stands_sax [OF t(2), of end_container]] assms(2)
    by (simp add: end_container_def)
  ultimately show ?thesis using loop_values(3) by blast
qed

text \<open>The elements of an array up to its end, each read by \<open>reads_as\<close>.\<close>

fun join :: "string list \<Rightarrow> string" where
  "join [] = []"
| "join [t] = t"
| "join (t # u # ts) = t @ CHR '','' # join (u # ts)"

lemma elements_read:
  assumes "list_all2 reads_as ts vs" "ts \<noteq> []"
    and "stands p (join ts @ CHR '']'' # rest) d (True # ss)" "ref_stack d = In_array us # fs"
  shows "\<exists>p'. sax_parse_loop False (get_token p) = sax_parse_loop True p' \<and>
    stands p' rest (handle_value (JArray (us @ vs)) (d\<lparr>ref_stack := fs\<rparr>)) ss"
  using assms
proof (induction ts arbitrary: vs p d us rule: join.induct)
  case 1
  then show ?case by simp
next
  case (2 t)
  then obtain v where v: "vs = [v]" "reads_as t v" by (auto simp: list_all2_Cons1)
  have "stands p (t @ CHR '']'' # rest) d (True # ss)" using 2(3) by simp
  from reads_asD [OF v(2) this] obtain p1 where p1:
    "sax_parse_loop False (get_token p) = sax_parse_loop True p1"
    "stands p1 (CHR '']'' # rest) (handle_value v d) (True # ss)" by auto
  have "ref_stack (handle_value v d) = In_array (us @ [v]) # fs"
    using 2(4) by (simp add: handle_value_def)
  from close_array [OF p1(2) this] p1(1) v(1) 2(4) show ?case
    by (simp add: handle_value_def)
next
  case (3 t u ts)
  then obtain v vs' where v: "vs = v # vs'" "reads_as t v" "list_all2 reads_as (u # ts) vs'"
    by (auto simp: list_all2_Cons1)
  have "stands p (t @ CHR '','' # join (u # ts) @ CHR '']'' # rest) d (True # ss)" using "3.prems"(3) by simp
  from reads_asD [OF v(2) this] obtain p1 where p1:
    "sax_parse_loop False (get_token p) = sax_parse_loop True p1"
    "stands p1 (CHR '','' # join (u # ts) @ CHR '']'' # rest) (handle_value v d) (True # ss)" by auto
  from token_structural [OF p1(2), of Value_separator]
  have t: "last_token (get_token p1) = Value_separator"
    "stands (get_token p1) (join (u # ts) @ CHR '']'' # rest) (handle_value v d) (True # ss)" by simp_all
  have "state_eval p1 = Continue False (get_token (get_token p1))"
    using t stands_states_of [OF p1(2)] by (simp add: state_eval_def)
  note step = p1(1) [unfolded loop_values(3) [OF this]]
  have r: "ref_stack (handle_value v d) = In_array (us @ [v]) # fs"
    using "3.prems"(4) by (simp add: handle_value_def)
  from "3.IH" [OF v(3) _ t(2) r] v(1) "3.prems"(4) step show ?case by (simp add: handle_value_def)
qed

lemma join_head: "ends_number r \<Longrightarrow> \<exists>r'. join (t # ts) @ r = t @ r' \<and> ends_number r'"
  by (cases ts) auto

lemma array_reads:
  assumes "list_all2 reads_as ts vs"
  shows "reads_as (''['' @ join ts @ '']'') (JArray vs)"
  unfolding reads_as_def
proof (intro allI impI)
  fix p rest d ss
  assume "stands p ((''['' @ join ts @ '']'') @ rest) d ss"
  then have "stands p (CHR ''['' # join ts @ CHR '']'' # rest) d ss" by simp
  from token_structural [OF this, of Begin_array]
  have t: "last_token (get_token p) = Begin_array" "stands (get_token p) (join ts @ CHR '']'' # rest) d ss"
    by simp_all
  let ?p1 = "on_sax start_array (get_token p)"
  have s1: "stands ?p1 (join ts @ CHR '']'' # rest) (start_array d) ss" using t(2) by (rule stands_sax)
  have r: "ref_stack (start_array d) = In_array [] # ref_stack d" "(start_array d)\<lparr>ref_stack := ref_stack d\<rparr> = d"
    by (simp_all add: start_array_def)
  have "\<exists>p'. sax_parse_loop False (get_token p) = sax_parse_loop True p' \<and>
      stands p' rest (handle_value (JArray vs) d) ss"
  proof (cases "ts = []")
    case True
    with assms have vs: "vs = []" by simp
    from s1 True have "stands ?p1 (CHR '']'' # rest) (start_array d) ss" by simp
    from token_structural [OF this, of End_array]
    have e: "last_token (get_token ?p1) = End_array" "stands (get_token ?p1) rest (start_array d) ss" by simp_all
    have "value_switch (get_token p) = Continue True (on_sax end_container (get_token ?p1))"
      using t(1) e(1) by (simp add: value_switch_def Let_def)
    moreover have "stands (on_sax end_container (get_token ?p1)) rest (handle_value (JArray vs) d) ss"
      using stands_sax [OF e(2), of end_container] r vs by (simp add: end_container_def)
    ultimately show ?thesis using loop_values(2) by blast
  next
    case False
    define q where "q = ?p1\<lparr>states := True # ss\<rparr>"
    have gt: "get_token q = (get_token ?p1)\<lparr>states := True # ss\<rparr>"
      by (simp add: q_def get_token_def case_prod_unfold)
    have sq: "stands q (join ts @ CHR '']'' # rest) (start_array d) (True # ss)"
      unfolding q_def using s1 by (rule stands_states)
    obtain t ts' v where ts: "ts = t # ts'" "reads_as t v"
      using False assms by (cases ts) (auto simp: list_all2_Cons1)
    obtain r' where "join ts @ CHR '']'' # rest = t @ r'" "ends_number r'"
      using join_head [of "CHR '']'' # rest" t ts'] ts(1) by auto
    with s1 ts(2) have "last_token (get_token ?p1) \<noteq> End_array"
      unfolding reads_as_def by metis
    then have "value_switch (get_token p) = Continue False (get_token q)"
      using t s1 by (simp add: value_switch_def Let_def gt stands_def)
    from loop_values(1) [OF this] elements_read [OF assms False sq r(1)] r(2) show ?thesis by simp
  qed
  with t(1) show "last_token (get_token p) \<noteq> End_array \<and>
      (\<exists>p'. sax_parse_loop False (get_token p) = sax_parse_loop True p' \<and>
        stands p' rest (handle_value (JArray vs) d) ss)" by simp
qed

text \<open>A key with its colon, then the members of an object up to its end.\<close>

definition member_text :: "string \<times> string \<Rightarrow> string" where
  "member_text kt = CHR 0x22 # escaped (fst kt) @ CHR 0x22 # CHR '':'' # snd kt"

definition member_reads :: "string \<times> string \<Rightarrow> string \<times> json \<Rightarrow> bool" where
  "member_reads kt kv \<longleftrightarrow> fst kt = fst kv \<and> utf8_ok (fst kv) \<and> reads_as (snd kt) (snd kv)"

lemma key_read:
  assumes "stands p (CHR 0x22 # escaped k @ CHR 0x22 # CHR '':'' # rest) d ss" "utf8_ok k"
    and "\<And>q. stands q rest (dom_key k d) ss \<Longrightarrow> stands (f q) rest (dom_key k d) ss'"
  shows "\<exists>q. parse_key f (get_token p) = Continue False (get_token q) \<and> stands q rest (dom_key k d) ss'"
proof -
  from token_string [OF assms(1,2)] have t: "last_token (get_token p) = Value_string"
    "token_buffer (m_lexer (get_token p)) = k" "stands (get_token p) (CHR '':'' # rest) d ss" by simp_all
  note s = stands_sax [OF t(3), of "dom_key k"]
  from token_structural [OF s, of Name_separator]
  have c: "last_token (get_token (on_sax (dom_key k) (get_token p))) = Name_separator"
    "stands (get_token (on_sax (dom_key k) (get_token p))) rest (dom_key k d) ss" by simp_all
  from assms(3) [OF c(2)] c(1) t(1,2) show ?thesis
    by (auto simp: parse_key_def Let_def)
qed

lemma key_value_doms:
  assumes "ref_stack d = In_object us k0 # fs" "\<forall>x \<in> set us. str_less (fst x) k"
  shows "handle_value v (dom_key k d) = d\<lparr>ref_stack := In_object (us @ [(k, v)]) k # fs\<rparr>"
  using assms by (simp add: dom_key_def handle_value_def assign_last)

lemma members_read:
  assumes "list_all2 member_reads ts ms" "ts \<noteq> []"
    and "stands p (join (map member_text ts) @ CHR ''}'' # rest) d ss0"
    and "ref_stack d = In_object us k0 # fs" "sorted_wrt str_less (map fst us @ map fst ms)"
    and "\<And>q r d. stands q r d ss0 \<Longrightarrow> stands (f q) r d (False # ss)"
  shows "\<exists>q p'. parse_key f (get_token p) = Continue False q \<and>
    sax_parse_loop False q = sax_parse_loop True p' \<and>
    stands p' rest (handle_value (JObject (us @ ms)) (d\<lparr>ref_stack := fs\<rparr>)) ss"
  using assms
proof (induction ts arbitrary: ms p d us k0 ss0 f)
  case Nil
  then show ?case by simp
next
  case (Cons kt ts)
  obtain kv ms' where kv: "ms = kv # ms'" "member_reads kt kv" "list_all2 member_reads ts ms'"
    using Cons.prems(1) by (auto simp: list_all2_Cons1)
  obtain k v where "kv = (k, v)" by (cases kv)
  with kv have ms: "ms = (k, v) # ms'" "fst kt = k" "utf8_ok k" "reads_as (snd kt) v"
    "list_all2 member_reads ts ms'" by (simp_all add: member_reads_def)
  have less: "\<forall>x \<in> set us. str_less (fst x) k"
    using Cons.prems(5) ms(1) by (auto simp: sorted_wrt_append)
  define r where "r = (if ts = [] then CHR ''}'' # rest else CHR '','' # join (map member_text ts) @ CHR ''}'' # rest)"
  have r: "ends_number r" by (simp add: r_def)
  have "join (map member_text (kt # ts)) @ CHR ''}'' # rest =
      CHR 0x22 # escaped k @ CHR 0x22 # CHR '':'' # (snd kt @ r)"
    using ms(2) by (cases ts) (simp_all add: r_def member_text_def)
  with Cons.prems(3) have s: "stands p (CHR 0x22 # escaped k @ CHR 0x22 # CHR '':'' # (snd kt @ r)) d ss0"
    by simp
  from key_read [OF s ms(3), of f "False # ss"] Cons.prems(6) obtain q where
    q: "parse_key f (get_token p) = Continue False (get_token q)"
    "stands q (snd kt @ r) (dom_key k d) (False # ss)" by blast
  let ?d = "d\<lparr>ref_stack := In_object (us @ [(k, v)]) k # fs\<rparr>"
  from reads_asD [OF ms(4) q(2) r] obtain p1 where p1:
    "sax_parse_loop False (get_token q) = sax_parse_loop True p1" "stands p1 r ?d (False # ss)"
    using key_value_doms [OF Cons.prems(4) less] by auto
  show ?case
  proof (cases "ts = []")
    case True
    then have "ms' = []" using ms(5) by simp
    from p1(2) True have "stands p1 (CHR ''}'' # rest) ?d (False # ss)" by (simp add: r_def)
    from close_object [OF this] q(1) p1(1) ms(1) \<open>ms' = []\<close> show ?thesis by auto
  next
    case False
    with p1(2) have p1': "stands p1 (CHR '','' # join (map member_text ts) @ CHR ''}'' # rest) ?d (False # ss)"
      by (simp add: r_def)
    from token_structural [OF p1', of Value_separator]
    have t: "last_token (get_token p1) = Value_separator"
      "stands (get_token p1) (join (map member_text ts) @ CHR ''}'' # rest) ?d (False # ss)" by simp_all
    have "ref_stack ?d = In_object (us @ [(k, v)]) k # fs" by simp
    from Cons.IH [OF ms(5) False t(2) this, of "\<lambda>q. q"] Cons.prems(5) ms(1)
    obtain q2 p2 where q2: "parse_key (\<lambda>q. q) (get_token (get_token p1)) = Continue False q2"
      "sax_parse_loop False q2 = sax_parse_loop True p2"
      "stands p2 rest (handle_value (JObject (us @ ms)) (d\<lparr>ref_stack := fs\<rparr>)) ss" by auto
    have "state_eval p1 = Continue False q2"
      using t(1) q2(1) stands_states_of [OF p1'] by (simp add: state_eval_def)
    from loop_values(3) [OF this] q(1) p1(1) q2(2,3) show ?thesis by metis
  qed
qed

lemma object_reads:
  assumes "list_all2 member_reads ts ms" "obj_ok ms"
  shows "reads_as (''{'' @ join (map member_text ts) @ ''}'') (JObject ms)"
  unfolding reads_as_def
proof (intro allI impI)
  fix p rest d ss
  assume "stands p ((''{'' @ join (map member_text ts) @ ''}'') @ rest) d ss"
  then have "stands p (CHR ''{'' # join (map member_text ts) @ CHR ''}'' # rest) d ss" by simp
  from token_structural [OF this, of Begin_object]
  have t: "last_token (get_token p) = Begin_object"
    "stands (get_token p) (join (map member_text ts) @ CHR ''}'' # rest) d ss"
    by simp_all
  let ?p1 = "on_sax start_object (get_token p)"
  have s1: "stands ?p1 (join (map member_text ts) @ CHR ''}'' # rest) (start_object d) ss"
    using t(2) by (rule stands_sax)
  have r: "ref_stack (start_object d) = In_object [] [] # ref_stack d"
    "(start_object d)\<lparr>ref_stack := ref_stack d\<rparr> = d"
    by (simp_all add: start_object_def)
  have "\<exists>p'. sax_parse_loop False (get_token p) = sax_parse_loop True p' \<and>
      stands p' rest (handle_value (JObject ms) d) ss"
  proof (cases "ts = []")
    case True
    with assms have ms: "ms = []" by simp
    from s1 True have "stands ?p1 (CHR ''}'' # rest) (start_object d) ss" by simp
    from token_structural [OF this, of End_object]
    have e: "last_token (get_token ?p1) = End_object" "stands (get_token ?p1) rest (start_object d) ss"
      by simp_all
    have "value_switch (get_token p) = Continue True (on_sax end_container (get_token ?p1))"
      using t(1) e(1) by (simp add: value_switch_def Let_def)
    moreover have "stands (on_sax end_container (get_token ?p1)) rest (handle_value (JObject ms) d) ss"
      using stands_sax [OF e(2), of end_container] r ms by (simp add: end_container_def)
    ultimately show ?thesis using loop_values(2) by blast
  next
    case False
    let ?f = "\<lambda>q. q\<lparr>states := False # states q\<rparr>"
    have f: "stands (?f q) x y (False # ss)" if "stands q x y ss" for q x y
      using that by (simp add: stands_def)
    from members_read [where f = ?f, OF assms(1) False s1 r(1) _ f] assms(2)
    obtain q p' where q: "parse_key ?f (get_token ?p1) = Continue False q"
      "sax_parse_loop False q = sax_parse_loop True p'"
      "stands p' rest (handle_value (JObject ms) d) ss"
      using r(2) by (auto simp: obj_ok_def)
    obtain kt ts' where kt: "ts = kt # ts'" using False by (cases ts) auto
    obtain r' where "join (map member_text ts) @ CHR ''}'' # rest = member_text kt @ r'"
      using join_head [of "CHR ''}'' # rest" "member_text kt" "map member_text ts'"] kt by auto
    with s1 have s2: "stands ?p1 (CHR 0x22 # escaped (fst kt) @ CHR 0x22 # (CHR '':'' # snd kt @ r')) (start_object d) ss"
      by (simp add: member_text_def)
    have "utf8_ok (fst kt)" using assms(1) kt by (auto simp: list_all2_Cons1 member_reads_def)
    from token_string [OF s2 this] have "last_token (get_token ?p1) = Value_string" by simp
    then have "value_switch (get_token p) = Continue False q"
      using t(1) q(1) by (simp add: value_switch_def Let_def)
    from loop_values(1) [OF this] q(2,3) show ?thesis by auto
  qed
  with t(1) show "last_token (get_token p) \<noteq> End_array \<and>
      (\<exists>p'. sax_parse_loop False (get_token p) = sax_parse_loop True p' \<and>
        stands p' rest (handle_value (JObject ms) d) ss)" by simp
qed

section \<open>The serializer's output, read back\<close>

lemma integer_reads: "in_i64 n \<Longrightarrow> reads_as (dump_integer n) (canon (JInt n))"
proof (cases "0 \<le> n")
  case True
  assume "in_i64 n"
  with True have "int (nat n) \<le> u64_max" by (simp add: in_i64_def i64_max_def u64_max_def)
  from reads_unsigned [OF this] True show ?thesis by (simp add: dump_integer_dec)
next
  case False
  assume "in_i64 n"
  with False reads_negative [of "nat (- n)"] show ?thesis by (simp add: dump_integer_dec)
qed

lemma literal_reads_as:
  assumes "\<And>p rest d ss. stands p (t @ rest) d ss \<Longrightarrow>
      last_token (get_token p) = ty \<and> stands (get_token p) rest d ss"
    and "\<And>p. last_token p = ty \<Longrightarrow> value_switch p = Continue True (on_sax (handle_value v) p)"
  shows "reads_as t v"
  using assms by (intro reads_as_token) blast

lemma literal_reads:
  "reads_as ''true'' (JBool True)" "reads_as ''false'' (JBool False)" "reads_as ''null'' JNull"
proof -
  show "reads_as ''true'' (JBool True)"
    by (rule literal_reads_as [OF token_literals(1)]) (simp_all add: value_switch_def)
  show "reads_as ''false'' (JBool False)"
    by (rule literal_reads_as [OF token_literals(2)]) (simp_all add: value_switch_def)
  show "reads_as ''null'' JNull"
    by (rule literal_reads_as [OF token_literals(3)]) (simp_all add: value_switch_def)
qed

lemma string_reads: "utf8_ok s \<Longrightarrow> reads_as (in_quotes (escaped s)) (JString s)"
proof (rule reads_as_token)
  fix p rest d ss
  assume u: "utf8_ok s" and "stands p (in_quotes (escaped s) @ rest) d ss"
  then have "stands p (CHR 0x22 # escaped s @ CHR 0x22 # rest) d ss" by (simp add: in_quotes_def)
  from token_string [OF this u] show "stands (get_token p) rest d ss \<and>
      value_switch (get_token p) = Continue True (on_sax (handle_value (JString s)) (get_token p))"
    by (simp add: value_switch_def)
qed

lemma dump_reads:
  "readable v \<Longrightarrow> dump_value Strict False False 0 0 v = Inr t \<Longrightarrow> reads_as t (canon v)"
  "readable_members ms \<Longrightarrow> dump_members Strict False False 0 0 ms = Inr t \<Longrightarrow>
     \<exists>ts. list_all2 member_reads ts (canon_members ms) \<and> t = join (map member_text ts)"
  "readable_elements vs \<Longrightarrow> dump_elements Strict False False 0 0 vs = Inr t \<Longrightarrow>
     \<exists>ts. list_all2 reads_as ts (canon_elements vs) \<and> t = join ts"
proof (induction v and ms and vs arbitrary: t and t and t
    rule: canon_canon_members_canon_elements.induct)
  case (1 ms)
  show ?case
  proof (cases "ms = []")
    case True
    with 1 object_reads [of "[]" "[]"] show ?thesis by (simp add: obj_ok_def)
  next
    case False
    with 1 obtain u ts where u: "t = ''{'' @ u @ ''}''" "list_all2 member_reads ts (canon_members ms)"
      "u = join (map member_text ts)" by (auto simp: res_bind_Inr)
    have "obj_ok (canon_members ms)" using 1(2) by (simp add: obj_ok_def)
    from object_reads [OF u(2) this] u show ?thesis by simp
  qed
next
  case (2 vs)
  show ?case
  proof (cases "vs = []")
    case True
    with 2 array_reads [of "[]" "[]"] show ?thesis by simp
  next
    case False
    with 2 obtain u ts where "t = ''['' @ u @ '']''" "list_all2 reads_as ts (canon_elements vs)"
      "u = join ts" by (auto simp: res_bind_Inr)
    with array_reads show ?thesis by simp
  qed
next
  case (3 n)
  then show ?case using integer_reads [of n] by auto
next
  case (4 n)
  with reads_unsigned [of "nat n"] show ?case by (simp add: dump_integer_dec)
next
  case (5 s)
  then show ?case using string_reads by (auto simp: res_bind_Inr dump_escaped_Inr)
next
  case (6 b)
  then show ?case using literal_reads by (auto split: if_splits)
next
  case (7 x)
  then show ?case using reads_float [of x t]
    by (auto simp: dump_float_def split: option.splits if_splits)
next
  case (9)
  then show ?case using literal_reads by simp
next
  case (11)
  then show ?case by simp
next
  case (12 k v ms)
  from "12.prems" obtain tv rest where p: "utf8_ok k" "dump_value Strict False False 0 0 v = Inr tv"
    "dump_members Strict False False 0 0 ms = Inr rest"
    "t = in_quotes (escaped k) @ '':'' @ tv @ (if ms = [] then [] else '','') @ rest"
    by (auto simp: res_bind_Inr dump_escaped_Inr)
  from "12.IH"(1) [OF _ p(2)] "12.prems"(1) have v: "reads_as tv (canon v)" by simp
  from "12.IH"(2) [OF _ p(3)] "12.prems"(1) obtain ts where
    ts: "list_all2 member_reads ts (canon_members ms)" "rest = join (map member_text ts)" by auto
  have "t = join (map member_text ((k, tv) # ts))"
    using p(4) ts by (cases ms; cases ts) (auto simp: member_text_def in_quotes_def list_all2_Cons1)
  moreover have "list_all2 member_reads ((k, tv) # ts) (canon_members ((k, v) # ms))"
    using v ts(1) p(1) by (simp add: member_reads_def)
  ultimately show ?case by blast
next
  case (13)
  then show ?case by simp
next
  case (14 v vs)
  from "14.prems" obtain tv rest where p: "dump_value Strict False False 0 0 v = Inr tv"
    "dump_elements Strict False False 0 0 vs = Inr rest"
    "t = tv @ (if vs = [] then [] else '','') @ rest"
    by (auto simp: res_bind_Inr)
  from "14.IH"(1) [OF _ p(1)] "14.prems"(1) have v: "reads_as tv (canon v)" by simp
  from "14.IH"(2) [OF _ p(2)] "14.prems"(1) obtain ts where
    ts: "list_all2 reads_as ts (canon_elements vs)" "rest = join ts" by auto
  have "t = join (tv # ts)"
    using p(3) ts by (cases vs; cases ts) auto
  moreover have "list_all2 reads_as (tv # ts) (canon_elements (v # vs))"
    using v ts(1) by simp
  ultimately show ?case by blast
qed simp_all

lemma dump_readable:
  "readable v \<Longrightarrow> \<exists>t. dump_value Strict False False 0 0 v = Inr t"
  "readable_members ms \<Longrightarrow> \<exists>t. dump_members Strict False False 0 0 ms = Inr t"
  "readable_elements vs \<Longrightarrow> \<exists>t. dump_elements Strict False False 0 0 vs = Inr t"
proof (induction v and ms and vs rule: readable_readable_members_readable_elements.induct)
  case (7 x)
  then have "is_finite x" by simp
  then obtain t where "to_chars x = Some t" by (rule to_chars_read)
  then show ?case by (simp add: dump_float_def)
next
  case (12 k v ms)
  then show ?case by (auto simp: dump_escaped_Inr [THEN iffD2])
qed (auto simp: dump_escaped_Inr [THEN iffD2])

lemma json_parse_dump:
  assumes "readable v" "json_dump v = Inr t"
  shows "json_parse t = Inr (canon v)"
proof -
  define p where "p = \<lparr>last_token = Uninitialized, m_lexer = new_lexer t False,
    sax = \<lparr>root = JNull, ref_stack = []\<rparr>, states = []\<rparr>"
  let ?d = "\<lparr>root = JNull, ref_stack = []\<rparr>"
  have "stands p (t @ []) ?d []" by (simp add: p_def stands_def new_lexer_def pending_def)
  moreover have "reads_as t (canon v)"
    using dump_reads(1) assms by (simp add: json_dump_def)
  ultimately obtain p' where p': "sax_parse_loop False (get_token p) = sax_parse_loop True p'"
    "stands p' [] (handle_value (canon v) ?d) []" using reads_asD ends_number_simps(4) by metis
  have "state_eval p' = Finished p'" using stands_states_of [OF p'(2)] by (simp add: state_eval_def)
  from loop_values(4) [OF this] p'(1) have loop: "sax_parse_loop False (get_token p) = Inr p'" by simp
  have "sax (get_token p') = sax p'" by (simp add: get_token_def case_prod_unfold)
  with token_end [OF p'(2)] loop p'(2) show ?thesis
    by (simp add: json_parse_def json_parse_with_def parser_parse_def new_parser_def p_def [symmetric]
        stands_def handle_value_def Let_def)
qed

section \<open>Properties\<close>

text \<open>C27. What \<open>dump\<close> writes, \<open>parse\<close> reads back: every value whose strings are UTF-8, whose integers
  fit their types, whose doubles are finite and which has no binary or discarded part is
  written, and what is written reads as the same value, doubles bit for bit, non-negative
  integers as unsigned ones. Strings hold any characters, nesting is of any depth.\<close>

theorem json_dump_parse:
  assumes "readable v"
  shows "\<exists>t. json_dump v = Inr t \<and> json_parse t = Inr (canon v)"
  using dump_readable(1) [OF assms] json_parse_dump [OF assms] by (auto simp: json_dump_def)

definition demo_json :: json where
  "demo_json = JObject [(''a'', JArray [JInt (- 12), JNull, JString [CHR 0x22, CHR 0x0A]]),
     (''b'', JObject []), (''c'', JBool True), (''d'', JFloat 0x3FB999999999999A)]"

theorem json_dump_parse_witness:
  "\<exists>t. json_dump demo_json = Inr t \<and> json_parse t = Inr demo_json"
proof -
  have ok: "readable demo_json"
    by (simp add: demo_json_def obj_ok_def in_i64_def i64_min_def i64_max_def is_finite_def mag_of_def)
  have "canon demo_json = demo_json" by (simp add: demo_json_def)
  then show ?thesis using json_dump_parse [OF ok] by simp
qed

text \<open>\<open>dump\<close> accepts a string exactly when it is well-formed UTF-8 (no overlong form, no surrogate,
  nothing above U+10FFFF), and then writes every byte as its escape says; any other string is
  the exception \<open>type_error.316\<close>.\<close>

theorem dump_string_exact:
  "if utf8_ok s then json_dump (JString s) = Inr (in_quotes (escaped s))
   else \<exists>m. json_dump (JString s) = Inl (Json_exception 316 m)"
  using escape_strict [of s 0 0 "[]" "CHR 0x00"]
  by (auto simp: json_dump_def dump_escaped_def split: if_splits)

text \<open>The fast integer printer, two digits a round from a table into a buffer sized by counting
  digits four at a time, writes the plain decimal numeral, for every integer.\<close>

theorem dump_integer_decimal:
  "json_dump (JInt n) = Inr (if n < 0 then CHR ''-'' # dec (nat (- n)) else dec (nat n))"
  by (simp add: json_dump_def dump_integer_dec)

end
