(* ===== verification/Sealing.thy ===== *)
theory Sealing
  imports Crypto JsonRoundTrip
begin

text \<open>
  The way of one payment instruction through rupee conversion, JSON text, encryption and back:
  \<open>PaymentInstruction::to_json\<close>, \<open>dump\<close>, \<open>encrypt\<close> on the phone, \<open>decrypt\<close>, \<open>parse\<close>, \<open>from_json\<close> on
  the server.
\<close>

section \<open>Amounts that survive are finite\<close>

text \<open>A product with an infinity or a NaN stays one, and its cast is undefined.\<close>

lemma paise_of_rupees_finite:
  assumes "paise_of_rupees x = Inr a"
  shows "is_finite x"
proof (rule ccontr)
  assume nf: "\<not> is_finite x"
  define b where "b = round_mag 100 1"
  have b: "scaled b = 100 * one_scaled" "b < inf_mag"
    using round_mag_int_exact [of 100] by (simp_all add: b_def)
  have "b \<noteq> 0"
  proof
    assume "b = 0"
    with b(1) one_scaled_pos show False by (simp add: scaled_zero)
  qed
  moreover have h: "double_of_int 100 = mk_double False b" by (simp add: double_of_int_def b_def)
  ultimately have "mag_of (double_mul x (double_of_int 100)) \<in> {inf_mag, inf_mag + 2 ^ 51}"
    using nf b(2) unfolding h
    by (simp add: double_mul_def Let_def finite_simps is_nan_def is_finite_def the_nan_def)
  then have "\<not> is_finite (double_mul x (double_of_int 100))" by (auto simp: is_finite_def)
  with assms show False
    by (simp add: paise_of_rupees_def double_round_def double_to_i64_def Let_def)
qed

text \<open>A payment that was printed has texts the parser takes amt.\<close>

lemma dumped_payment:
  assumes "json_dump (payment_to_json p) = Inr t"
  shows "utf8_ok (pi_senderVpa p) \<and> utf8_ok (pi_receiverVpa p) \<and> utf8_ok (pi_pinHash p) \<and> utf8_ok (pi_nonce p)"
  using assms
  by (auto simp: payment_to_json_def to_json_simps json_dump_def res_bind_Inr dump_escaped_Inr)

lemma readable_payment:
  assumes "is_finite (rupees_of_paise (pi_amount p))" "in_i64 (pi_signedAt p)"
    and "utf8_ok (pi_senderVpa p) \<and> utf8_ok (pi_receiverVpa p) \<and> utf8_ok (pi_pinHash p) \<and> utf8_ok (pi_nonce p)"
  shows "readable (payment_to_json p)"
  using assms by (simp add: payment_to_json_def to_json_simps obj_ok_def)

lemma printed_payment_parses:
  assumes "\<bar>pi_amount p\<bar> < 2 ^ 51" "in_i64 (pi_signedAt p)" "json_dump (payment_to_json p) = Inr t"
  shows "res_bind (json_parse t) payment_from_json = Inr p"
proof -
  note amt = paise_rupees_roundtrip' [OF assms(1)]
  note r = readable_payment [OF paise_of_rupees_finite [OF amt] assms(2) dumped_payment [OF assms(3)]]
  have "payment_from_json (canon (payment_to_json p)) = Inr p"
    using amt assms(2) by (simp add: payment_to_json_def payment_from_json_def to_json_simps wrap_id)
  with json_parse_dump [OF r assms(3)] show ?thesis by simp
qed

lemma payment_prints:
  assumes "\<bar>pi_amount p\<bar> < 2 ^ 51" "in_i64 (pi_signedAt p)"
    and "utf8_ok (pi_senderVpa p) \<and> utf8_ok (pi_receiverVpa p) \<and> utf8_ok (pi_pinHash p) \<and> utf8_ok (pi_nonce p)"
  obtains t where "json_dump (payment_to_json p) = Inr t"
  using dump_readable(1) [OF readable_payment [OF paise_of_rupees_finite [OF paise_rupees_roundtrip' [OF assms(1)]] assms(2,3)]]
  by (auto simp: json_dump_def)

lemma sealed_opens:
  assumes "openssl_ok ssl key"
    and "\<forall>k. draw 0 = Some k \<longrightarrow> length k = AES_KEY_BYTES" "\<forall>iv. draw 1 = Some iv \<longrightarrow> length iv = GCM_IV_BYTES"
    and "\<bar>pi_amount p\<bar> < 2 ^ 51" "in_i64 (pi_signedAt p)"
    and "encrypt ssl key draw seed (payment_to_json p) = Inr s"
  shows "res_bind (decrypt ssl key s) payment_from_json = Inr p"
proof -
  obtain plain where "json_dump (payment_to_json p) = Inr plain" "decrypt ssl key s = json_parse plain"
    using decrypt_encrypt [OF assms(1) _ _ assms(6)] assms(2,3) by (auto simp: AES_KEY_BYTES_def GCM_IV_BYTES_def)
  with printed_payment_parses [OF assms(4,5)] show ?thesis by simp
qed

section \<open>Property\<close>

text \<open>C24. From the sender's instruction to the server's and back to the same six fields,
  for amounts below \<open>2 ^ 51\<close> paise and dates of 64 bits: sealed and opened with a library that
  behaves as documented, whatever is drawn for key and nonce.\<close>

theorem sealed_payment_opens:
  assumes "openssl_ok ssl key"
    and "\<forall>k. draw 0 = Some k \<longrightarrow> length k = AES_KEY_BYTES" "\<forall>iv. draw 1 = Some iv \<longrightarrow> length iv = GCM_IV_BYTES"
    and "\<bar>pi_amount p\<bar> < 2 ^ 51" "in_i64 (pi_signedAt p)"
    and "encrypt ssl key draw seed (payment_to_json p) = Inr s"
  shows "res_bind (decrypt ssl key s) payment_from_json = Inr p"
  by (rule sealed_opens [OF assms])

definition sealed_demo :: payment where
  "sealed_demo = \<lparr>pi_senderVpa = ''alice@demo'', pi_receiverVpa = ''bob@demo'', pi_amount = 12345,
     pi_pinHash = ''abc'', pi_nonce = ''n-1'', pi_signedAt = 1000\<rparr>"

theorem sealed_payment_opens_witness:
  "\<exists>s. encrypt demo_ssl ''key'' demo_draw 0 (payment_to_json sealed_demo) = Inr s \<and>
     res_bind (decrypt demo_ssl ''key'' s) payment_from_json = Inr sealed_demo"
proof -
  have range: "\<bar>pi_amount sealed_demo\<bar> < 2 ^ 51" "in_i64 (pi_signedAt sealed_demo)"
    by (simp_all add: sealed_demo_def in_i64_def i64_min_def i64_max_def)
  then obtain plain where "json_dump (payment_to_json sealed_demo) = Inr plain"
    by (rule payment_prints) (simp add: sealed_demo_def)
  then have "\<exists>s. encrypt demo_ssl ''key'' demo_draw 0 (payment_to_json sealed_demo) = Inr s"
    by (simp add: encrypt_def aes_seal_def rsa_seal_def demo_ssl_def demo_draw_def)
  then obtain s where s: "encrypt demo_ssl ''key'' demo_draw 0 (payment_to_json sealed_demo) = Inr s" ..
  have "res_bind (decrypt demo_ssl ''key'' s) payment_from_json = Inr sealed_demo"
    by (rule sealed_payment_opens [OF demo_ssl_ok _ _ range s])
      (simp_all add: demo_draw_def AES_KEY_BYTES_def GCM_IV_BYTES_def)
  with s show ?thesis by blast
qed

end
