(* ===== verification/Ingestion.thy ===== *)
theory Ingestion
  imports Settlement Idempotency Sealing
begin

text \<open>
  \<open>src/cpp/service/BridgeIngestionService.{h,cpp}\<close>: what happens to a packet a bridge uploads.
  The service owns nothing; its state is the idempotency map and the database it shares with
  the other services. Printing to the console is left out.

  The clock is a parameter: \<open>clk 0\<close> is the reading inside \<open>claim\<close>, \<open>clk 1\<close> the one of the
  freshness check, \<open>clk (k + 1)\<close> the one of the \<open>k\<close>-th settlement attempt. A value of the sum
  type's left side is an execution the language gives no meaning; every C++ exception is caught
  here and becomes a result.
\<close>

section \<open>The service\<close>

record ingest_result =
  ir_outcome :: string
  ir_packetHash :: string
  ir_reason :: string
  ir_transactionId :: "int option"

record services =
  svc_seen :: seen
  svc_db :: database

definition maxAgeSeconds :: int where "maxAgeSeconds = 86400"

definition invalid :: "string \<Rightarrow> string \<Rightarrow> ingest_result" where
  "invalid h reason = \<lparr>ir_outcome = ''INVALID'', ir_packetHash = h, ir_reason = reason,
     ir_transactionId = None\<rparr>"

text \<open>The outer handler. \<open>what()\<close> is a C string.\<close>

definition ingestion_error :: "exn \<Rightarrow> ingest_result res" where
  "ingestion_error e =
     (if is_undefined e then Inl e
      else Inr (invalid ''?'' (''internal_error: '' @ c_str (what e))))"

text \<open>Behind the gate: decrypt, check the age, settle.\<close>

definition ingest_claimed ::
    "openssl \<Rightarrow> string \<Rightarrow> engine \<Rightarrow> (nat \<Rightarrow> int) \<Rightarrow> mesh_packet \<Rightarrow> string \<Rightarrow> string \<Rightarrow> int \<Rightarrow>
     database \<Rightarrow> ingest_result res \<times> database" where
  "ingest_claimed ssl key E clk packet h bridge hops db =
     (case res_bind (decrypt ssl key (ciphertext packet)) payment_from_json of
        Inl e \<Rightarrow> (if is_undefined e then Inl e else Inr (invalid h ''decryption_failed''), db)
      | Inr p \<Rightarrow>
          (case sub_i64 (clk 1) (pi_signedAt p) of
             Inl e \<Rightarrow> (Inl e, db)
           | Inr d \<Rightarrow>
               let ageSeconds = trunc_div d 1000 in
               if maxAgeSeconds < ageSeconds then (Inr (invalid h ''stale_packet''), db)
               else if ageSeconds < - 300 then (Inr (invalid h ''future_dated''), db)
               else
                 (case settle E (\<lambda>k. clk (Suc k)) p h bridge hops db of
                    (Inl e, db') \<Rightarrow> (ingestion_error e, db')
                  | (Inr tx, db') \<Rightarrow>
                      (Inr \<lparr>ir_outcome = statusToString (tx_status tx), ir_packetHash = h,
                            ir_reason = [], ir_transactionId = Some (tx_id tx)\<rparr>, db'))))"

definition ingest ::
    "openssl \<Rightarrow> string \<Rightarrow> engine \<Rightarrow> (nat \<Rightarrow> int) \<Rightarrow> mesh_packet \<Rightarrow> string \<Rightarrow> int \<Rightarrow>
     services \<Rightarrow> ingest_result res \<times> services" where
  "ingest ssl key E clk packet bridge hops sv =
     (case hashCiphertext ssl (ciphertext packet) of
        Inl e \<Rightarrow> (ingestion_error e, sv)
      | Inr h \<Rightarrow>
          (case claim (clk 0) h (svc_seen sv) of
             (False, seen') \<Rightarrow>
               (Inr \<lparr>ir_outcome = ''DUPLICATE_DROPPED'', ir_packetHash = h, ir_reason = [],
                     ir_transactionId = None\<rparr>, sv\<lparr>svc_seen := seen'\<rparr>)
           | (True, seen') \<Rightarrow>
               (case ingest_claimed ssl key E clk packet h bridge hops (svc_db sv) of
                  (r, db') \<Rightarrow> (r, \<lparr>svc_seen = seen', svc_db = db'\<rparr>))))"

section \<open>What the specification of settlement does to the tables\<close>

text \<open>The rows a ledger holds, by hash, and what payments to oneself have added so far.\<close>

definition ledger_hashes :: "tables \<Rightarrow> string set" where
  "ledger_hashes t = row_packetHash ` set (transactions t)"

definition self_settled :: "tx_row \<Rightarrow> int" where
  "self_settled r = (if row_status r = ''SETTLED'' \<and> row_senderVpa r = row_receiverVpa r
     then row_amount r else 0)"

definition minted :: "tables \<Rightarrow> int" where
  "minted t = sum_list (map self_settled (transactions t))"

lemma spec_record_Inl: "spec_record p h b n now st t t0 = (Inl e, t') \<Longrightarrow> t' = t0 \<and> \<not> is_undefined e"
  by (auto simp: spec_record_def split: sum.splits prod.splits)

lemma spec_record_ledger:
  assumes "spec_record p h b n now st t t0 = (Inr tx, t')"
  shows "transactions t' = transactions t @ [bind_transaction tx]" "accounts t' = accounts t"
    "tx_packetHash tx = h" "tx_status tx = st" "tx_senderVpa tx = pi_senderVpa p"
    "tx_receiverVpa tx = pi_receiverVpa p" "tx_amount tx = pi_amount p"
    "c_str h \<notin> ledger_hashes t"
  using spec_record_Inr [OF assms] by (simp_all add: settlement_tx_def ledger_hashes_def)

lemma settle_spec_Inl: "settle_spec p h b n now t = (Inl e, t') \<Longrightarrow> t' = t"
  by (auto simp: settle_spec_def dest: spec_record_Inl split: option.splits if_splits)

lemma settle_spec_cases:
  assumes "settle_spec p h b n now t = (Inr tx, t')"
  obtains (rejected) s where "sql_select_account (c_str (pi_senderVpa p)) t = Some s"
      "0 < pi_amount p" "balance s < pi_amount p" "spec_record p h b n now REJECTED t t = (Inr tx, t')"
  | (settled) s c where "sql_select_account (c_str (pi_senderVpa p)) t = Some s"
      "sql_select_account (c_str (pi_receiverVpa p)) t = Some c"
      "0 < pi_amount p" "pi_amount p \<le> balance s" "in_i64 (balance c + pi_amount p)"
      "spec_record p h b n now SETTLED
         (sql_upsert_account (credit p c) (sql_upsert_account (debit p s) t)) t = (Inr tx, t')"
  using assms by (auto simp: settle_spec_def split: option.splits if_splits)

lemma settle_spec_ledger:
  assumes "settle_spec p h b n now t = (Inr tx, t')"
  shows "transactions t' = transactions t @ [bind_transaction tx]" "tx_packetHash tx = h"
    "tx_status tx = SETTLED \<or> tx_status tx = REJECTED \<and> accounts t' = accounts t"
    "tx_senderVpa tx = pi_senderVpa p" "tx_receiverVpa tx = pi_receiverVpa p"
    "tx_amount tx = pi_amount p" "c_str h \<notin> ledger_hashes t"
proof -
  obtain st t0 where rec: "spec_record p h b n now st t0 t = (Inr tx, t')"
    and t0: "transactions t0 = transactions t" and st: "st = SETTLED \<or> st = REJECTED \<and> t0 = t"
    using assms by (rule settle_spec_cases) (erule that, simp, simp)+
  note l = spec_record_ledger [OF rec]
  from l t0 show "transactions t' = transactions t @ [bind_transaction tx]" "tx_packetHash tx = h"
    "tx_senderVpa tx = pi_senderVpa p" "tx_receiverVpa tx = pi_receiverVpa p"
    "tx_amount tx = pi_amount p" "c_str h \<notin> ledger_hashes t"
    by (simp_all only: ledger_hashes_def not_False_eq_True)
  from l(2,4) st show "tx_status tx = SETTLED \<or> tx_status tx = REJECTED \<and> accounts t' = accounts t"
    by blast
qed

lemma settle_spec_keeps:
  assumes "tables_ok t" "settle_spec p h b n now t = (Inr tx, t')"
  shows "tables_ok t'"
proof -
  have ok: "accounts_ok t" "ledger_ok t" using assms(1) by (simp_all add: tables_ok_def)
  have rec: "tables_ok t'" if "spec_record p h b n now st t0 t = (Inr tx, t')" "accounts_ok t0" "ledger_ok t0" for st t0
    using that by (auto simp: spec_record_def tables_ok_def accounts_ok_insert ledger_ok_insert
        split: sum.splits prod.splits)
  from assms(2) show ?thesis
  proof (cases rule: settle_spec_cases)
    case (rejected s)
    with rec ok show ?thesis by blast
  next
    case (settled s c)
    have d: "accounts_ok (sql_upsert_account (debit p s) t)"
      using accounts_ok_debit [OF ok(1) settled(1)] settled(3,4) by simp
    have "accounts_ok (sql_upsert_account (credit p c) (sql_upsert_account (debit p s) t))"
      using accounts_ok_credit [OF ok(1) d settled(2)] settled(3,5) by simp
    moreover have "ledger_ok (sql_upsert_account (credit p c) (sql_upsert_account (debit p s) t))"
      using ok(2) by simp
    ultimately show ?thesis using rec settled(6) by blast
  qed
qed

lemma minted_append: "transactions t' = transactions t @ [r] \<Longrightarrow> minted t' = minted t + self_settled r"
  by (simp add: minted_def)

text \<open>The money in the accounts grows by what payments to oneself create, and by nothing else.\<close>

lemma settle_spec_minted:
  assumes "accounts_ok t" "settle_spec p h b n now t = (r, t')"
  shows "total_balance t' - minted t' = total_balance t - minted t"
proof (cases r)
  case (Inl e)
  with assms show ?thesis by (auto dest: settle_spec_Inl)
next
  case (Inr tx)
  with assms(2) have run: "settle_spec p h b n now t = (Inr tx, t')" by simp
  note l = settle_spec_ledger [OF run]
  note st = l(3)
  have ma: "minted t' = minted t + self_settled (bind_transaction tx)" using l(1) by (rule minted_append)
  have ss: "self_settled (bind_transaction tx) =
      (if tx_status tx = SETTLED \<and> c_str (pi_senderVpa p) = c_str (pi_receiverVpa p) then pi_amount p else 0)"
    using l(4-6) by (cases "tx_status tx") (simp_all add: self_settled_def bind_transaction_def c_str_def)
  show ?thesis
  proof (cases "c_str (pi_senderVpa p) = c_str (pi_receiverVpa p)")
    case False
    with settle_spec_total [OF assms(1) False, of h b n now] run ma ss show ?thesis by simp
  next
    case True
    show ?thesis
    proof (cases "tx_status tx = SETTLED")
      case set: True
      with settle_spec_self_total [OF assms(1) True run] ma ss True show ?thesis by simp
    next
      case False
      with st have "total_balance t' = total_balance t" by (simp add: total_balance_def)
      with False ma ss show ?thesis by simp
    qed
  qed
qed

section \<open>Every course an upload can take\<close>

definition services_ok :: "services \<Rightarrow> bool" where
  "services_ok sv \<longleftrightarrow> saved (svc_db sv) = None \<and> tables_ok (cur (svc_db sv))"

definition ledger_of :: "services \<Rightarrow> string set" where
  "ledger_of sv = ledger_hashes (cur (svc_db sv))"

text \<open>The age window in milliseconds.\<close>

definition fresh :: "int \<Rightarrow> int \<Rightarrow> bool" where
  "fresh now signedAt \<longleftrightarrow> - 301000 < now - signedAt \<and> now - signedAt < 86401000"

lemma trunc_div_limits:
  "maxAgeSeconds < trunc_div d 1000 \<longleftrightarrow> 86401000 \<le> d" "trunc_div d 1000 < - 300 \<longleftrightarrow> d \<le> - 301000"
proof -
  obtain q m where q: "\<bar>d\<bar> = 1000 * q + m" "0 \<le> m" "m < 1000" "q = \<bar>d\<bar> div 1000"
    by (metis mult_div_mod_eq pos_mod_bound pos_mod_sign zero_less_numeral)
  have t: "trunc_div d 1000 = (if d < 0 then - q else q)"
    by (simp add: trunc_div_def q(4))
  show "maxAgeSeconds < trunc_div d 1000 \<longleftrightarrow> 86401000 \<le> d" "trunc_div d 1000 < - 300 \<longleftrightarrow> d \<le> - 301000"
    unfolding t maxAgeSeconds_def using q(1-3) by (cases "d < 0"; simp; linarith)+
qed

lemma hash_no_nul:
  assumes "hashCiphertext ssl s = Inr h"
  shows "no_nul h"
proof -
  have hex: "hex_lower d \<noteq> CHR 0x00" if "d < 16" for d
  proof -
    have "''0123456789abcdef'' ! d \<in> set ''0123456789abcdef''" using that by (intro nth_mem) simp
    then show ?thesis by (auto simp: hex_lower_def)
  qed
  have "hex_lower (of_char c div 16) \<noteq> CHR 0x00" "hex_lower (of_char c mod 16) \<noteq> CHR 0x00" for c
    using hex [of "of_char c div 16"] hex [of "of_char c mod 16"] byte_less [of c] by linarith+
  then have "no_nul (concat (map hex_byte bs))" for bs
    by (induction bs) (simp_all add: no_nul_def hex_byte_def)
  with assms show ?thesis by (auto simp: hashCiphertext_def res_bind_Inr)
qed

lemma ingest_claimed_cases:
  assumes "healthy E" "saved db = None" "accounts_ok (cur db)"
    and "ingest_claimed ssl key E clk packet h bridge hops db = (r, db')"
  obtains (kept) "cur db' = cur db" "saved db' = None"
      "\<And>x. r = Inr x \<Longrightarrow> ir_transactionId x = None \<and> ir_outcome x = ''INVALID''"
  | (recorded) p tx where "res_bind (decrypt ssl key (ciphertext packet)) payment_from_json = Inr p"
      "fresh (clk 1) (pi_signedAt p)" "saved db' = None"
      "settle_spec p h bridge hops (clk 2) (cur db) = (Inr tx, cur db')"
      "r = Inr \<lparr>ir_outcome = statusToString (tx_status tx), ir_packetHash = h, ir_reason = [],
                ir_transactionId = Some (tx_id tx)\<rparr>"
proof (cases "res_bind (decrypt ssl key (ciphertext packet)) payment_from_json")
  case (Inl e)
  with assms(2,4) show ?thesis
    by (intro kept) (auto simp: ingest_claimed_def invalid_def split: if_splits)
next
  case (Inr p)
  note dec = this
  show ?thesis
  proof (cases "sub_i64 (clk 1) (pi_signedAt p)")
    case (Inl e)
    with dec assms(2,4) show ?thesis by (intro kept) (auto simp: ingest_claimed_def)
  next
    case (Inr d)
    then have d: "d = clk 1 - pi_signedAt p" by (simp add: sub_i64_Inr)
    note run = assms(4) [unfolded ingest_claimed_def dec sum.case Inr Let_def trunc_div_limits]
    show ?thesis
    proof (cases "fresh (clk 1) (pi_signedAt p)")
      case False
      with run d assms(2) show ?thesis
        by (intro kept) (auto simp: fresh_def invalid_def split: if_splits)
    next
      case True
      obtain q db1 where s: "settle E (\<lambda>k. clk (Suc k)) p h bridge hops db = (q, db1)" by fastforce
      with healthy_settle [OF assms(1-3), of "\<lambda>k. clk (Suc k)" p h bridge hops]
      have spec: "settle_spec p h bridge hops (clk 2) (cur db) = (q, cur db1)" "saved db1 = None"
        by (simp_all add: prod_eq_iff numeral_2_eq_2)
      show ?thesis
      proof (cases q)
        case (Inl e)
        with run s True d settle_spec_Inl [of p h bridge hops "clk 2" "cur db" e] spec show ?thesis
          by (intro kept) (auto simp: fresh_def ingestion_error_def invalid_def split: if_splits)
      next
        case (Inr tx)
        with run s True d spec dec show ?thesis
          by (intro recorded) (auto simp: fresh_def)
      qed
    qed
  qed
qed

lemma ingest_cases:
  assumes "healthy E" "services_ok sv" "ingest ssl key E clk packet bridge hops sv = (r, sv')"
  obtains (kept) "cur (svc_db sv') = cur (svc_db sv)" "saved (svc_db sv') = None"
      "\<And>x. r = Inr x \<Longrightarrow> ir_transactionId x = None \<and> ir_outcome x \<in> {''INVALID'', ''DUPLICATE_DROPPED''}"
  | (recorded) h p tx where "hashCiphertext ssl (ciphertext packet) = Inr h"
      "map_of (svc_seen sv) h = None"
      "res_bind (decrypt ssl key (ciphertext packet)) payment_from_json = Inr p"
      "fresh (clk 1) (pi_signedAt p)" "saved (svc_db sv') = None"
      "settle_spec p h bridge hops (clk 2) (cur (svc_db sv)) = (Inr tx, cur (svc_db sv'))"
      "r = Inr \<lparr>ir_outcome = statusToString (tx_status tx), ir_packetHash = h, ir_reason = [],
                ir_transactionId = Some (tx_id tx)\<rparr>"
proof (cases "hashCiphertext ssl (ciphertext packet)")
  case (Inl e)
  with assms show ?thesis
    by (intro kept)
      (auto simp: ingest_def ingestion_error_def invalid_def services_ok_def split: if_splits)
next
  case (Inr h)
  note hash = this
  have db: "saved (svc_db sv) = None" "accounts_ok (cur (svc_db sv))"
    using assms(2) by (simp_all add: services_ok_def tables_ok_def)
  show ?thesis
  proof (cases "map_of (svc_seen sv) h")
    case (Some t)
    with hash assms(3) db show ?thesis
      by (intro kept) (auto simp: ingest_def claim_def)
  next
    case None
    obtain q db1 where i: "ingest_claimed ssl key E clk packet h bridge hops (svc_db sv) = (q, db1)"
      by fastforce
    with None hash assms(3) have sv': "q = r" "svc_db sv' = db1"
      by (auto simp: ingest_def claim_def)
    from assms(1) db i show ?thesis
    proof (cases rule: ingest_claimed_cases)
      case k: kept
      show ?thesis
        by (rule kept) (use k sv' in auto)
    next
      case k: (recorded p tx)
      show ?thesis
        by (rule recorded [OF hash None k(1,2)]) (use k(3-5) sv' in auto)
    qed
  qed
qed

section \<open>A run of the service\<close>

text \<open>
  Uploads in the order they take effect, with eviction passes and resets of the idempotency
  cache in between.
\<close>

datatype event =
    Upload "nat \<Rightarrow> int" mesh_packet string int
  | Evictor "wakeup list"
  | Cache_cleared

fun run_events ::
    "openssl \<Rightarrow> string \<Rightarrow> engine \<Rightarrow> event list \<Rightarrow> services \<Rightarrow> ingest_result res list \<times> services" where
  "run_events ssl key E [] sv = ([], sv)"
| "run_events ssl key E (Upload clk packet bridge hops # es) sv =
     (let (r, sv1) = ingest ssl key E clk packet bridge hops sv;
          (rs, sv2) = run_events ssl key E es sv1
      in (r # rs, sv2))"
| "run_events ssl key E (Evictor ws # es) sv =
     run_events ssl key E es (sv\<lparr>svc_seen := evictExpired ws (svc_seen sv)\<rparr>)"
| "run_events ssl key E (Cache_cleared # es) sv =
     run_events ssl key E es (sv\<lparr>svc_seen := seen_clear (svc_seen sv)\<rparr>)"

text \<open>An upload that put a row for hash \<open>h\<close> into the ledger.\<close>

definition recorded_for :: "string \<Rightarrow> ingest_result res \<Rightarrow> bool" where
  "recorded_for h r = (case r of Inl e \<Rightarrow> False
     | Inr x \<Rightarrow> ir_packetHash x = h \<and> ir_transactionId x \<noteq> None)"

lemma ingest_step:
  assumes "healthy E" "services_ok sv" "ingest ssl key E clk packet bridge hops sv = (r, sv')"
  shows "services_ok sv'"
    and "of_bool (recorded_for h r) + of_bool (h \<in> ledger_of sv) = (of_bool (h \<in> ledger_of sv') :: nat)"
    and "total_balance (cur (svc_db sv')) - minted (cur (svc_db sv')) =
         total_balance (cur (svc_db sv)) - minted (cur (svc_db sv))"
proof -
  have ok: "saved (svc_db sv) = None" "accounts_ok (cur (svc_db sv))" "tables_ok (cur (svc_db sv))"
    using assms(2) by (simp_all add: services_ok_def tables_ok_def)
  have "services_ok sv' \<and>
      of_bool (recorded_for h r) + of_bool (h \<in> ledger_of sv) = (of_bool (h \<in> ledger_of sv') :: nat) \<and>
      total_balance (cur (svc_db sv')) - minted (cur (svc_db sv')) =
      total_balance (cur (svc_db sv)) - minted (cur (svc_db sv))"
    using assms
  proof (cases rule: ingest_cases)
    case kept
    have "\<not> recorded_for h r" using kept(3) by (cases r) (auto simp: recorded_for_def)
    with kept(1,2) ok show ?thesis by (simp add: services_ok_def ledger_of_def)
  next
    case (recorded g p tx)
    note l = settle_spec_ledger [OF recorded(6)]
    have g: "c_str g = g" using hash_no_nul [OF recorded(1)] by simp
    have "ledger_of sv' = insert g (ledger_of sv)" "g \<notin> ledger_of sv"
      using l(1,2,7) g by (simp_all add: ledger_of_def ledger_hashes_def bind_transaction_def)
    moreover have "recorded_for h r \<longleftrightarrow> h = g" using recorded(7) by (auto simp: recorded_for_def)
    moreover have "tables_ok (cur (svc_db sv'))"
      using settle_spec_keeps [OF ok(3) recorded(6)] .
    ultimately show ?thesis
      using settle_spec_minted [OF ok(2) recorded(6)] recorded(5) by (auto simp: services_ok_def)
  qed
  then show "services_ok sv'"
    and "of_bool (recorded_for h r) + of_bool (h \<in> ledger_of sv) = (of_bool (h \<in> ledger_of sv') :: nat)"
    and "total_balance (cur (svc_db sv')) - minted (cur (svc_db sv')) =
         total_balance (cur (svc_db sv)) - minted (cur (svc_db sv))" by blast+
qed

lemma run_events_facts:
  assumes "healthy E" "services_ok sv" "run_events ssl key E es sv = (rs, sv')"
  shows "services_ok sv' \<and>
    length (filter (recorded_for h) rs) + of_bool (h \<in> ledger_of sv) = of_bool (h \<in> ledger_of sv') \<and>
    total_balance (cur (svc_db sv')) - minted (cur (svc_db sv')) =
    total_balance (cur (svc_db sv)) - minted (cur (svc_db sv))"
  using assms
proof (induction ssl key E es sv arbitrary: rs rule: run_events.induct)
  case (2 ssl key E clk packet bridge hops es sv)
  obtain r sv1 where i: "ingest ssl key E clk packet bridge hops sv = (r, sv1)" by fastforce
  obtain rs1 sv2 where t: "run_events ssl key E es sv1 = (rs1, sv2)" by fastforce
  from "2.prems"(3) i t have rs: "rs = r # rs1" "sv2 = sv'" by auto
  note s = ingest_step [OF "2.prems"(1,2) i]
  from "2.IH" [OF i [symmetric] refl "2.prems"(1) s(1)] t rs(2) s(2) [of h] s(3) show ?case
    by (auto simp: rs(1) of_bool_def split: if_splits)
qed (auto simp: services_ok_def ledger_of_def)

section \<open>A packet for the witnesses\<close>

text \<open>An instruction sealed with the library of the witnesses: 250 rupees from Alice to Bob.\<close>

definition demo_text :: "int \<Rightarrow> json" where
  "demo_text t = JObject [(''amount'', JUnsigned 250), (''nonce'', JString ''n-1''),
     (''pinHash'', JString ''abc''), (''receiverVpa'', JString ''bob@demo''),
     (''senderVpa'', JString ''alice@demo''), (''signedAt'', if t < 0 then JInt t else JUnsigned t)]"

lemma demo_text_dump:
  obtains s where "json_dump (demo_text t) = Inr s"
proof -
  have "dump_escaped Strict False s = Inr (escaped s)"
    if "s \<in> {''amount'', ''nonce'', ''pinHash'', ''receiverVpa'', ''senderVpa'', ''signedAt'',
             ''n-1'', ''abc'', ''bob@demo'', ''alice@demo''}" for s
  proof -
    have "utf8_ok s" using that by auto
    then show ?thesis using dump_escaped_Inr [of s "escaped s"] by simp
  qed
  then have "\<exists>s. json_dump (demo_text t) = Inr s"
    by (simp add: demo_text_def json_dump_def)
  with that show thesis by blast
qed

lemma demo_text_payment:
  assumes "in_i64 t"
  shows "payment_from_json (demo_text t) = Inr (demo_payment\<lparr>pi_signedAt := t\<rparr>)"
proof -
  have "paise_of_rupees (double_of_int 250) = Inr 25000"
    using paise_of_whole_rupees [of 250] by simp
  with assms show ?thesis
    by (simp add: payment_from_json_def demo_text_def at_to_def demo_payment_def wrap_id)
qed

definition demo_packet_of :: "string \<Rightarrow> mesh_packet" where
  "demo_packet_of s = \<lparr>packetId = ''p-1'', ttl = 4, createdAt = 1000, ciphertext = s\<rparr>"

lemma demo_packet_simps [simp]: "ciphertext (demo_packet_of s) = s" "ttl (demo_packet_of s) = 4"
  "packetId (demo_packet_of s) = ''p-1''"
  by (simp_all add: demo_packet_of_def)

lemma demo_sealed_text:
  assumes "in_i64 t"
  obtains s where "decrypt demo_ssl ''key'' s = Inr (demo_text t)"
proof -
  obtain plain where plain: "json_dump (demo_text t) = Inr plain" by (rule demo_text_dump)
  have "\<exists>s. encrypt demo_ssl ''key'' demo_draw 0 (demo_text t) = Inr s"
    by (simp add: encrypt_def plain aes_seal_def rsa_seal_def demo_ssl_def demo_draw_def)
  then obtain s where s: "encrypt demo_ssl ''key'' demo_draw 0 (demo_text t) = Inr s" by blast
  have "decrypt demo_ssl ''key'' s = json_parse plain"
    using decrypt_encrypt [OF demo_ssl_ok _ _ s] plain by (auto simp: demo_draw_def)
  moreover have "readable (demo_text t)"
    using assms by (simp add: demo_text_def obj_ok_def u64_max_def in_i64_def i64_max_def)
  moreover have "canon (demo_text t) = demo_text t" by (simp add: demo_text_def)
  ultimately have "decrypt demo_ssl ''key'' s = Inr (demo_text t)"
    using json_parse_dump [OF _ plain] by simp
  with that show thesis .
qed

lemma demo_sealed_payment:
  assumes "in_i64 t"
  obtains s h where "res_bind (decrypt demo_ssl ''key'' s) payment_from_json =
      Inr (demo_payment\<lparr>pi_signedAt := t\<rparr>)" "hashCiphertext demo_ssl s = Inr h" "no_nul h"
proof -
  obtain s where s: "decrypt demo_ssl ''key'' s = Inr (demo_text t)"
    using assms by (rule demo_sealed_text)
  have "\<exists>h. hashCiphertext demo_ssl s = Inr h"
    by (simp add: hashCiphertext_def demo_ssl_def)
  then obtain h where h: "hashCiphertext demo_ssl s = Inr h" by blast
  from that [of s h] s h hash_no_nul [OF h] demo_text_payment [OF assms] show thesis by simp
qed

text \<open>What an upload gives when the gate is open and the packet opens to a payment.\<close>

lemma ingest_opened:
  assumes "hashCiphertext ssl (ciphertext packet) = Inr h" "map_of (svc_seen sv) h = None"
    and "res_bind (decrypt ssl key (ciphertext packet)) payment_from_json = Inr p"
  shows "\<not> in_i64 (clk 1 - pi_signedAt p) \<Longrightarrow>
      ingest ssl key E clk packet bridge hops sv =
        (Inl (Undefined ''signed integer overflow''), sv\<lparr>svc_seen := (h, clk 0) # svc_seen sv\<rparr>)"
    and "in_i64 (clk 1 - pi_signedAt p) \<Longrightarrow> 86401000 \<le> clk 1 - pi_signedAt p \<Longrightarrow>
      ingest ssl key E clk packet bridge hops sv =
        (Inr (invalid h ''stale_packet''), sv\<lparr>svc_seen := (h, clk 0) # svc_seen sv\<rparr>)"
    and "in_i64 (clk 1 - pi_signedAt p) \<Longrightarrow> clk 1 - pi_signedAt p \<le> - 301000 \<Longrightarrow>
      ingest ssl key E clk packet bridge hops sv =
        (Inr (invalid h ''future_dated''), sv\<lparr>svc_seen := (h, clk 0) # svc_seen sv\<rparr>)"
    and "in_i64 (clk 1 - pi_signedAt p) \<Longrightarrow> fresh (clk 1) (pi_signedAt p) \<Longrightarrow>
      ingest ssl key E clk packet bridge hops sv =
        (case settle E (\<lambda>k. clk (Suc k)) p h bridge hops (svc_db sv) of
           (Inl e, db) \<Rightarrow> (ingestion_error e, \<lparr>svc_seen = (h, clk 0) # svc_seen sv, svc_db = db\<rparr>)
         | (Inr tx, db) \<Rightarrow>
             (Inr \<lparr>ir_outcome = statusToString (tx_status tx), ir_packetHash = h, ir_reason = [],
                   ir_transactionId = Some (tx_id tx)\<rparr>,
              \<lparr>svc_seen = (h, clk 0) # svc_seen sv, svc_db = db\<rparr>))"
  using assms
  by (auto simp: ingest_def claim_def ingest_claimed_def sub_i64_def chk_i64_def Let_def
      trunc_div_limits fresh_def split: prod.splits sum.splits)

lemma services_eta: "sv\<lparr>svc_seen := x\<rparr> = \<lparr>svc_seen = x, svc_db = svc_db sv\<rparr>"
  by (cases sv) simp

definition demo_services :: services where
  "demo_services = \<lparr>svc_seen = [], svc_db = demo_db\<rparr>"

lemma demo_services_simps [simp]: "svc_seen demo_services = []" "svc_db demo_services = demo_db"
  "services_ok demo_services"
  by (simp_all add: demo_services_def services_ok_def)

lemma demo_settles:
  "fst (settle_spec (demo_payment\<lparr>pi_signedAt := t\<rparr>) h b n now seeded_tables) =
     Inr ((settlement_tx (demo_payment\<lparr>pi_signedAt := t\<rparr>) h b n now SETTLED)\<lparr>tx_id := 1\<rparr>)"
  by (simp add: settle_spec_def spec_record_def demo_payment_def c_str_def in_i64_def i64_min_def
      i64_max_def sql_insert_transaction_def)

lemma demo_ingest:
  assumes "res_bind (decrypt demo_ssl key s) payment_from_json = Inr (demo_payment\<lparr>pi_signedAt := 1000\<rparr>)"
    and "hashCiphertext demo_ssl s = Inr h"
  shows "fst (ingest demo_ssl key (\<lambda>n. None) (\<lambda>k. 5000) (demo_packet_of s) ''phone-bridge'' 1 demo_services) =
    Inr \<lparr>ir_outcome = ''SETTLED'', ir_packetHash = h, ir_reason = [], ir_transactionId = Some 1\<rparr>"
proof -
  let ?p = "demo_payment\<lparr>pi_signedAt := 1000\<rparr>"
  obtain r db where r: "settle (\<lambda>n. None) (\<lambda>k. 5000) ?p h ''phone-bridge'' 1 demo_db = (r, db)"
    by fastforce
  with healthy_settle(1) [of "\<lambda>n. None" demo_db "\<lambda>k. 5000" ?p h "''phone-bridge''" 1]
    demo_settles [of 1000 h "''phone-bridge''" 1 5000]
  have "r = Inr ((settlement_tx ?p h ''phone-bridge'' 1 5000 SETTLED)\<lparr>tx_id := 1\<rparr>)" by simp
  with r ingest_opened(4) [of demo_ssl "demo_packet_of s" h demo_services key ?p "\<lambda>k. 5000"
      "\<lambda>n. None" "''phone-bridge''" 1] assms
  show ?thesis
    by (simp add: fresh_def in_i64_def i64_min_def i64_max_def settlement_tx_def)
qed

section \<open>Properties\<close>

text \<open>C9. While no SQLite call fails, a packet is settled or rejected on the books at most once, over any
  sequence of uploads, eviction passes and cache resets, one at a time: uploads that report a
  transaction for a hash, and hashes in the ledger, are counted exactly. The cache may forget;
  the ledger does not.\<close>

theorem ingest_records_once:
  assumes "healthy E" "services_ok sv" "run_events ssl key E es sv = (rs, sv')"
  shows "length (filter (recorded_for h) rs) + of_bool (h \<in> ledger_of sv) = of_bool (h \<in> ledger_of sv')"
  using run_events_facts [OF assms] by blast

theorem ingest_records_once_witness:
  "\<exists>s h rs sv'. run_events demo_ssl ''key'' (\<lambda>n. None)
      [Upload (\<lambda>k. 5000) (demo_packet_of s) ''phone-bridge'' 1, Cache_cleared,
       Upload (\<lambda>k. 6000) (demo_packet_of s) ''phone-bridge'' 2] demo_services = (rs, sv') \<and>
     recorded_for h (hd rs) \<and> length (filter (recorded_for h) rs) = 1 \<and> h \<in> ledger_of sv'"
proof -
  obtain s h where sh: "res_bind (decrypt demo_ssl ''key'' s) payment_from_json =
      Inr (demo_payment\<lparr>pi_signedAt := 1000\<rparr>)" "hashCiphertext demo_ssl s = Inr h"
    by (rule demo_sealed_payment [of 1000]) (simp add: in_i64_def i64_min_def i64_max_def)
  let ?es = "[Upload (\<lambda>k. 5000) (demo_packet_of s) ''phone-bridge'' 1, Cache_cleared,
       Upload (\<lambda>k. 6000) (demo_packet_of s) ''phone-bridge'' 2]"
  obtain rs sv' where run: "run_events demo_ssl ''key'' (\<lambda>n. None) ?es demo_services = (rs, sv')"
    by fastforce
  have "recorded_for h (hd rs)"
    using run demo_ingest [OF sh] by (auto simp: recorded_for_def Let_def split: prod.splits)
  moreover have "length (filter (recorded_for h) rs) + of_bool (h \<in> ledger_of demo_services) =
      of_bool (h \<in> ledger_of sv')"
    by (rule ingest_records_once [OF _ _ run]) simp_all
  moreover have "rs \<noteq> []" using run by (auto simp: Let_def split: prod.splits)
  ultimately have "length (filter (recorded_for h) rs) = 1 \<and> h \<in> ledger_of sv'"
    by (cases rs) (auto simp: of_bool_def split: if_splits)
  with run \<open>recorded_for h (hd rs)\<close> show ?thesis by blast
qed

text \<open>While no SQLite call fails, over any such sequence the money in the accounts changes only by
  what settled payments from an account to itself add; without such payments the total stays what
  it was. The tables stay well formed.\<close>

theorem ingest_run_money:
  assumes "healthy E" "services_ok sv" "run_events ssl key E es sv = (rs, sv')"
  shows "services_ok sv' \<and> total_balance (cur (svc_db sv')) - minted (cur (svc_db sv')) =
    total_balance (cur (svc_db sv)) - minted (cur (svc_db sv))"
  using run_events_facts [OF assms] by blast

theorem ingest_run_money_witness:
  "\<exists>s rs sv'. (\<exists>j. decrypt demo_ssl ''key'' s = Inr j) \<and> run_events demo_ssl ''key'' (\<lambda>n. None)
      [Upload (\<lambda>k. 5000) (demo_packet_of s) ''phone-bridge'' 1, Evictor [Timed_out 90000000],
       Upload (\<lambda>k. 90000001) (demo_packet_of s) ''phone-bridge'' 1] demo_services = (rs, sv') \<and>
     total_balance (cur (svc_db sv')) = 900000 + minted (cur (svc_db sv'))"
proof -
  obtain s where s: "decrypt demo_ssl ''key'' s = Inr (demo_text 1000)"
    by (rule demo_sealed_text [of 1000]) (simp add: in_i64_def i64_min_def i64_max_def)
  obtain rs sv' where run: "run_events demo_ssl ''key'' (\<lambda>n. None)
      [Upload (\<lambda>k. 5000) (demo_packet_of s) ''phone-bridge'' 1, Evictor [Timed_out 90000000],
       Upload (\<lambda>k. 90000001) (demo_packet_of s) ''phone-bridge'' 1] demo_services = (rs, sv')"
    by fastforce
  have "minted seeded_tables = 0" by (simp add: minted_def seeded_tables_def)
  then show ?thesis
    using ingest_run_money [OF _ _ run] run s by (force simp: seeded_total)
qed

lemma select_same_accounts: "accounts t = accounts t' \<Longrightarrow> sql_select_account v t = sql_select_account v t'"
  by (simp add: sql_select_account_def)

lemma settle_spec_settled:
  assumes "accounts_ok t" "settle_spec p h b n now t = (Inr tx, t')" "tx_status tx = SETTLED"
  obtains s c where "sql_select_account (c_str (pi_senderVpa p)) t = Some s"
    "sql_select_account (c_str (pi_receiverVpa p)) t = Some c" "0 < pi_amount p" "pi_amount p \<le> balance s"
    "c_str (pi_senderVpa p) \<noteq> c_str (pi_receiverVpa p) \<Longrightarrow>
       map_option balance (sql_select_account (c_str (pi_senderVpa p)) t') = Some (balance s - pi_amount p)"
    "map_option balance (sql_select_account (c_str (pi_receiverVpa p)) t') = Some (balance c + pi_amount p)"
    "\<And>v. v \<noteq> c_str (pi_senderVpa p) \<Longrightarrow> v \<noteq> c_str (pi_receiverVpa p) \<Longrightarrow>
       sql_select_account v t' = sql_select_account v t"
  using assms(2)
proof (cases rule: settle_spec_cases)
  case (rejected s)
  with spec_record_ledger(4) [OF rejected(4)] assms(3) show ?thesis by simp
next
  case (settled s c)
  let ?t = "sql_upsert_account (credit p c) (sql_upsert_account (debit p s) t)"
  have sel: "sql_select_account v t' = sql_select_account v ?t" for v
    by (rule select_same_accounts) (rule spec_record_ledger(2) [OF settled(6)])
  note k = selected_vpa [OF assms(1) settled(1)] selected_vpa [OF assms(1) settled(2)]
  show ?thesis
    by (rule that [OF settled(1-4)])
      (use k in \<open>auto simp: sel acc.select_upsert\<close>)
qed

text \<open>C10. While no SQLite call fails, an upload answered with SETTLED is a payment that was sealed for this
  server, young enough, seen by no earlier upload and not yet in the ledger. The sender had the
  money, the receiver gained exactly the amount, a sender other than the receiver lost exactly
  the amount (a payment to oneself is not taken from anyone), nobody else's account was touched,
  and the ledger gained one SETTLED row of that amount under the packet's hash.\<close>

theorem ingest_settled_sound:
  assumes "healthy E" "services_ok sv"
    and "ingest ssl key E clk packet bridge hops sv = (Inr x, sv')" "ir_outcome x = ''SETTLED''"
  shows "\<exists>h j p s c row. hashCiphertext ssl (ciphertext packet) = Inr h \<and>
    decrypt ssl key (ciphertext packet) = Inr j \<and> payment_from_json j = Inr p \<and>
    fresh (clk 1) (pi_signedAt p) \<and> map_of (svc_seen sv) h = None \<and> h \<notin> ledger_of sv \<and>
    sql_select_account (c_str (pi_senderVpa p)) (cur (svc_db sv)) = Some s \<and>
    sql_select_account (c_str (pi_receiverVpa p)) (cur (svc_db sv)) = Some c \<and>
    0 < pi_amount p \<and> pi_amount p \<le> balance s \<and>
    (c_str (pi_senderVpa p) \<noteq> c_str (pi_receiverVpa p) \<longrightarrow>
       map_option balance (sql_select_account (c_str (pi_senderVpa p)) (cur (svc_db sv'))) =
         Some (balance s - pi_amount p)) \<and>
    map_option balance (sql_select_account (c_str (pi_receiverVpa p)) (cur (svc_db sv'))) =
      Some (balance c + pi_amount p) \<and>
    (\<forall>v. v \<noteq> c_str (pi_senderVpa p) \<longrightarrow> v \<noteq> c_str (pi_receiverVpa p) \<longrightarrow>
       sql_select_account v (cur (svc_db sv')) = sql_select_account v (cur (svc_db sv))) \<and>
    transactions (cur (svc_db sv')) = transactions (cur (svc_db sv)) @ [row] \<and>
    row_packetHash row = h \<and> row_amount row = pi_amount p \<and> row_status row = ''SETTLED''"
  using assms(1-3)
proof (cases rule: ingest_cases)
  case kept
  with assms(4) show ?thesis by auto
next
  case (recorded h p tx)
  have ok: "accounts_ok (cur (svc_db sv))" using assms(2) by (simp add: services_ok_def tables_ok_def)
  have "statusToString (tx_status tx) = statusToString SETTLED"
    using recorded(7) assms(4) by simp
  then have st: "tx_status tx = SETTLED" by (simp only: statusToString_inj)
  note l = settle_spec_ledger [OF recorded(6)]
  have h: "c_str h = h" using hash_no_nul [OF recorded(1)] by simp
  obtain j where j: "decrypt ssl key (ciphertext packet) = Inr j" "payment_from_json j = Inr p"
    using recorded(3) by (auto simp: res_bind_Inr)
  let ?row = "bind_transaction tx"
  have row: "row_packetHash ?row = h" "row_amount ?row = pi_amount p" "row_status ?row = ''SETTLED''"
    using l(2,6) st h by (simp_all add: bind_transaction_def c_str_def)
  have new: "h \<notin> ledger_of sv" using l(7) h by (simp add: ledger_of_def)
  obtain s c where sc: "sql_select_account (c_str (pi_senderVpa p)) (cur (svc_db sv)) = Some s"
    "sql_select_account (c_str (pi_receiverVpa p)) (cur (svc_db sv)) = Some c"
    "0 < pi_amount p" "pi_amount p \<le> balance s"
    "c_str (pi_senderVpa p) \<noteq> c_str (pi_receiverVpa p) \<Longrightarrow>
       map_option balance (sql_select_account (c_str (pi_senderVpa p)) (cur (svc_db sv'))) =
         Some (balance s - pi_amount p)"
    "map_option balance (sql_select_account (c_str (pi_receiverVpa p)) (cur (svc_db sv'))) =
      Some (balance c + pi_amount p)"
    "\<And>v. v \<noteq> c_str (pi_senderVpa p) \<Longrightarrow> v \<noteq> c_str (pi_receiverVpa p) \<Longrightarrow>
       sql_select_account v (cur (svc_db sv')) = sql_select_account v (cur (svc_db sv))"
    using settle_spec_settled [OF ok recorded(6) st] by blast
  show ?thesis
    by (rule exI [of _ h], rule exI [of _ j], rule exI [of _ p], rule exI [of _ s], rule exI [of _ c],
        rule exI [of _ ?row]) (use recorded(1,2,4) j sc row new l(1) in simp)
qed

theorem ingest_settled_sound_witness:
  "\<exists>s x sv'. ingest demo_ssl ''key'' (\<lambda>n. None) (\<lambda>k. 5000) (demo_packet_of s) ''phone-bridge'' 1 demo_services
       = (Inr x, sv') \<and> ir_outcome x = ''SETTLED'' \<and> length (transactions (cur (svc_db sv'))) = 1"
proof -
  obtain s h where sh: "res_bind (decrypt demo_ssl ''key'' s) payment_from_json =
      Inr (demo_payment\<lparr>pi_signedAt := 1000\<rparr>)" "hashCiphertext demo_ssl s = Inr h"
    by (rule demo_sealed_payment [of 1000]) (simp add: in_i64_def i64_min_def i64_max_def)
  obtain r sv' where r: "ingest demo_ssl ''key'' (\<lambda>n. None) (\<lambda>k. 5000) (demo_packet_of s) ''phone-bridge'' 1
      demo_services = (r, sv')" by fastforce
  with demo_ingest [OF sh] obtain x where x: "r = Inr x" "ir_outcome x = ''SETTLED''" by auto
  with r have i: "ingest demo_ssl ''key'' (\<lambda>n. None) (\<lambda>k. 5000) (demo_packet_of s) ''phone-bridge'' 1
      demo_services = (Inr x, sv')" by simp
  have "length (transactions (cur (svc_db sv'))) = 1"
    using ingest_settled_sound [OF _ _ i x(2)] by (auto simp: seeded_tables_def)
  with i x(2) show ?thesis by blast
qed

text \<open>C11. The age check, to the millisecond. Division truncates towards zero, so a payment is stale from
  86,401,000 ms on and future-dated from 301,000 ms ahead, not from 86,400,000 and 300,000; in
  either case nothing but the claim is left behind. In between it goes to settlement.\<close>

theorem ingest_freshness:
  assumes "hashCiphertext ssl (ciphertext packet) = Inr h" "map_of (svc_seen sv) h = None"
    and "decrypt ssl key (ciphertext packet) = Inr j" "payment_from_json j = Inr p"
    and "in_i64 (clk 1 - pi_signedAt p)"
  shows "if 86401000 \<le> clk 1 - pi_signedAt p
    then ingest ssl key E clk packet bridge hops sv =
      (Inr (invalid h ''stale_packet''), sv\<lparr>svc_seen := (h, clk 0) # svc_seen sv\<rparr>)
    else if clk 1 - pi_signedAt p \<le> - 301000
    then ingest ssl key E clk packet bridge hops sv =
      (Inr (invalid h ''future_dated''), sv\<lparr>svc_seen := (h, clk 0) # svc_seen sv\<rparr>)
    else svc_db (snd (ingest ssl key E clk packet bridge hops sv)) =
      snd (settle E (\<lambda>k. clk (Suc k)) p h bridge hops (svc_db sv))"
proof -
  have dec: "res_bind (decrypt ssl key (ciphertext packet)) payment_from_json = Inr p"
    using assms(3,4) by simp
  note o = ingest_opened [OF assms(1,2) dec, of clk E bridge hops]
  show ?thesis
    using o(2-4) assms(5) by (auto simp: fresh_def split: prod.splits sum.splits)
qed

theorem ingest_freshness_witness:
  "\<exists>s h. fst (ingest demo_ssl ''key'' (\<lambda>n. None) (\<lambda>k. 86402000) (demo_packet_of s) ''b'' 1 demo_services) =
      Inr (invalid h ''stale_packet'') \<and>
    snd (ingest demo_ssl ''key'' (\<lambda>n. None) (\<lambda>k. 86401999) (demo_packet_of s) ''b'' 1 demo_services) \<noteq>
      demo_services\<lparr>svc_seen := [(h, 86401999)]\<rparr>"
proof -
  obtain s h where sh: "res_bind (decrypt demo_ssl ''key'' s) payment_from_json =
      Inr (demo_payment\<lparr>pi_signedAt := 1000\<rparr>)" "hashCiphertext demo_ssl s = Inr h"
    by (rule demo_sealed_payment [of 1000]) (simp add: in_i64_def i64_min_def i64_max_def)
  obtain j where j: "decrypt demo_ssl ''key'' s = Inr j"
      "payment_from_json j = Inr (demo_payment\<lparr>pi_signedAt := 1000\<rparr>)"
    using sh(1) by (auto simp: res_bind_Inr)
  let ?p = "demo_payment\<lparr>pi_signedAt := 1000\<rparr>"
  note fr = ingest_freshness [of demo_ssl "demo_packet_of s" h demo_services "''key''" j ?p _ "\<lambda>n. None" "''b''" 1]
  have old: "ingest demo_ssl ''key'' (\<lambda>n. None) (\<lambda>k. 86402000) (demo_packet_of s) ''b'' 1 demo_services =
      (Inr (invalid h ''stale_packet''), demo_services\<lparr>svc_seen := [(h, 86402000)]\<rparr>)"
    using fr [of "\<lambda>k. 86402000"] sh(2) j by (simp add: in_i64_def i64_min_def i64_max_def)
  have young: "svc_db (snd (ingest demo_ssl ''key'' (\<lambda>n. None) (\<lambda>k. 86401999) (demo_packet_of s) ''b'' 1
      demo_services)) = snd (settle (\<lambda>n. None) (\<lambda>k. 86401999) ?p h ''b'' 1 demo_db)"
    using fr [of "\<lambda>k. 86401999"] sh(2) j by (simp add: in_i64_def i64_min_def i64_max_def)
  have "snd (settle_spec ?p h ''b'' 1 86401999 seeded_tables) \<noteq> seeded_tables"
    using settle_spec_ledger(1) [of ?p h "''b''" 1 86401999 seeded_tables] demo_settles [of 1000 h "''b''" 1 86401999]
    by (metis append_self_conv list.distinct(1) prod.collapse)
  then have "cur (snd (settle (\<lambda>n. None) (\<lambda>k. 86401999) ?p h ''b'' 1 demo_db)) \<noteq> seeded_tables"
    using healthy_settle(2) [of "\<lambda>n. None" demo_db "\<lambda>k. 86401999" ?p h "''b''" 1] by simp
  then have "snd (settle (\<lambda>n. None) (\<lambda>k. 86401999) ?p h ''b'' 1 demo_db) \<noteq> demo_db" by (metis demo_db_simps(1))
  with old young show ?thesis
    by (intro exI [of _ s] exI [of _ h]) (auto simp: demo_services_def)
qed

text \<open>C13. The sender chooses the date, and the subtraction does not look at it: a payment dated so far in
  the past that the age does not fit 64 bits makes the age check itself undefined behaviour.\<close>

theorem ingest_date_overflow_undefined:
  assumes "hashCiphertext ssl (ciphertext packet) = Inr h" "map_of (svc_seen sv) h = None"
    and "decrypt ssl key (ciphertext packet) = Inr j" "payment_from_json j = Inr p"
    and "pi_signedAt p < clk 1 - i64_max"
  shows "fst (ingest ssl key E clk packet bridge hops sv) = Inl (Undefined ''signed integer overflow'')"
proof -
  have dec: "res_bind (decrypt ssl key (ciphertext packet)) payment_from_json = Inr p"
    using assms(3,4) by simp
  have "\<not> in_i64 (clk 1 - pi_signedAt p)" using assms(5) by (simp add: in_i64_def)
  from ingest_opened(1) [OF assms(1,2) dec, of clk] this show ?thesis by simp
qed

theorem ingest_date_overflow_undefined_witness:
  "\<exists>s. fst (ingest demo_ssl ''key'' (\<lambda>n. None) (\<lambda>k. 1700000000000) (demo_packet_of s) ''b'' 1 demo_services) =
     Inl (Undefined ''signed integer overflow'')"
proof -
  obtain s h where sh: "res_bind (decrypt demo_ssl ''key'' s) payment_from_json =
      Inr (demo_payment\<lparr>pi_signedAt := - 9223372036854775807\<rparr>)" "hashCiphertext demo_ssl s = Inr h"
    by (rule demo_sealed_payment [of "- 9223372036854775807"]) (simp add: in_i64_def i64_min_def i64_max_def)
  obtain j where j: "decrypt demo_ssl ''key'' s = Inr j"
      "payment_from_json j = Inr (demo_payment\<lparr>pi_signedAt := - 9223372036854775807\<rparr>)"
    using sh(1) by (auto simp: res_bind_Inr)
  show ?thesis
    by (rule exI, rule ingest_date_overflow_undefined [of _ "demo_packet_of s" h _ _ j "demo_payment\<lparr>pi_signedAt := - 9223372036854775807\<rparr>"])
      (use sh(2) j in \<open>simp_all add: i64_max_def demo_payment_def\<close>)
qed

text \<open>C12. After an upload of a ciphertext, whatever came of it, every further upload of the same ciphertext
  is dropped and changes nothing, until the cache forgets the hash, for every engine. That holds for a first
  upload that failed as well: the claim is not given back, so a payment whose settlement hit a
  locked database is lost to every retry for a day.\<close>

theorem ingest_duplicate_inert:
  assumes "hashCiphertext ssl (ciphertext packet) = Inr h"
    and "snd (ingest ssl key E clk packet bridge hops sv) = sv1" "ciphertext packet' = ciphertext packet"
  shows "ingest ssl key' E' clk' packet' bridge' hops' sv1 =
    (Inr \<lparr>ir_outcome = ''DUPLICATE_DROPPED'', ir_packetHash = h, ir_reason = [], ir_transactionId = None\<rparr>, sv1)"
proof -
  have "map_of (svc_seen sv1) h \<noteq> None"
    using assms(1,2) by (auto simp: ingest_def claim_def split: option.splits prod.splits)
  with assms(1,3) show ?thesis by (auto simp: ingest_def claim_def)
qed

theorem ingest_duplicate_inert_witness:
  "\<exists>s h x sv1. ingest demo_ssl ''key'' (\<lambda>n. Some (Fault ''database is locked'' False)) (\<lambda>k. 5000) (demo_packet_of s) ''b'' 1
       demo_services = (Inr x, sv1) \<and> ir_reason x \<noteq> [] \<and> ir_transactionId x = None \<and>
     ingest demo_ssl ''key'' (\<lambda>n. None) (\<lambda>k. 6000) (demo_packet_of s) ''b'' 1 sv1 =
       (Inr \<lparr>ir_outcome = ''DUPLICATE_DROPPED'', ir_packetHash = h, ir_reason = [], ir_transactionId = None\<rparr>, sv1)"
proof -
  obtain s h where sh: "res_bind (decrypt demo_ssl ''key'' s) payment_from_json =
      Inr (demo_payment\<lparr>pi_signedAt := 1000\<rparr>)" "hashCiphertext demo_ssl s = Inr h"
    by (rule demo_sealed_payment [of 1000]) (simp add: in_i64_def i64_min_def i64_max_def)
  let ?p = "demo_payment\<lparr>pi_signedAt := 1000\<rparr>" and ?E = "\<lambda>n :: nat. Some (Fault ''database is locked'' False)"
  have "\<exists>db. settle ?E (\<lambda>k. 5000) ?p h ''b'' 1 demo_db =
      (Inl (Invalid_argument ''Unknown sender VPA: alice@demo''), db)"
    by (simp add: settle_def settle_from.simps [of _ _ _ _ _ _ "Suc 0"] maxAttempts_def settle_attempt_def
        findById_def engine_call_def Let_def demo_payment_def)
  then obtain db where db: "settle ?E (\<lambda>k. 5000) ?p h ''b'' 1 demo_db =
      (Inl (Invalid_argument ''Unknown sender VPA: alice@demo''), db)" by blast
  have hash: "hashCiphertext demo_ssl (ciphertext (demo_packet_of s)) = Inr h"
    using sh(2) by simp
  have dec: "res_bind (decrypt demo_ssl ''key'' (ciphertext (demo_packet_of s))) payment_from_json = Inr ?p"
    using sh(1) by simp
  have "\<exists>sv1. ingest demo_ssl ''key'' ?E (\<lambda>k. 5000) (demo_packet_of s) ''b'' 1 demo_services =
      (Inr (invalid ''?'' (''internal_error: '' @ c_str ''Unknown sender VPA: alice@demo'')), sv1)"
    using ingest_opened(4) [OF hash _ dec, where clk = "\<lambda>k. 5000" and sv = demo_services] db
    by (simp add: in_i64_def i64_min_def i64_max_def fresh_def ingestion_error_def)
  then obtain sv1 where i: "ingest demo_ssl ''key'' ?E (\<lambda>k. 5000) (demo_packet_of s) ''b'' 1 demo_services =
      (Inr (invalid ''?'' (''internal_error: '' @ c_str ''Unknown sender VPA: alice@demo'')), sv1)" by blast
  from ingest_duplicate_inert [OF hash, of "''key''" ?E "\<lambda>k. 5000" "''b''" 1 demo_services sv1
      "demo_packet_of s" "''key''" "\<lambda>n. None" "\<lambda>k. 6000" "''b''" 1] i
  show ?thesis by (fastforce simp: invalid_def)
qed

end
