(* ===== verification/Mesh.thy ===== *)
theory Mesh
  imports Model "HOL-Library.AList" "HOL-Library.Multiset"
begin

text \<open>
  \<open>src/cpp/service/MeshSimulatorService.{h,cpp}\<close>: the virtual phones, packet injection, the
  gossip round, the uploads of the phones with internet, and the reset.

  Both containers are hash maps, whose iteration order the language leaves open. The
  devices are never added or removed after construction, so the device list is kept in
  whatever order it iterates; the packets of one device are an association list in order of
  first insertion, and the order in which a walk over them meets them is the parameter
  \<open>iter\<close>, of which the properties assume only that it permutes the entries.
\<close>

section \<open>\<open>VirtualDevice\<close>\<close>

record device =
  deviceId :: string
  hasInternet :: bool
  heldPackets :: "(string \<times> mesh_packet) list"

type_synonym iter_order = "(string \<times> mesh_packet) list \<Rightarrow> (string \<times> mesh_packet) list"

definition new_device :: "string \<Rightarrow> bool \<Rightarrow> device" where
  "new_device i internet = \<lparr>deviceId = i, hasInternet = internet, heldPackets = []\<rparr>"

definition hold :: "mesh_packet \<Rightarrow> device \<Rightarrow> device" where
  "hold p d = d\<lparr>heldPackets := AList.update (packetId p) p (heldPackets d)\<rparr>"

definition holds :: "device \<Rightarrow> string \<Rightarrow> bool" where
  "holds d i \<longleftrightarrow> map_of (heldPackets d) i \<noteq> None"

definition packetCount :: "device \<Rightarrow> int" where
  "packetCount d = int (length (heldPackets d))"

definition getHeldPackets :: "iter_order \<Rightarrow> device \<Rightarrow> mesh_packet list" where
  "getHeldPackets iter d = map snd (iter (heldPackets d))"

definition clear_device :: "device \<Rightarrow> device" where
  "clear_device d = d\<lparr>heldPackets := []\<rparr>"

section \<open>\<open>MeshSimulatorService\<close>\<close>

type_synonym mesh = "(string \<times> device) list"

definition default_devices :: mesh where
  "default_devices =
    [(''phone-alice'', new_device ''phone-alice'' False),
     (''phone-stranger1'', new_device ''phone-stranger1'' False),
     (''phone-stranger2'', new_device ''phone-stranger2'' False),
     (''phone-stranger3'', new_device ''phone-stranger3'' False),
     (''phone-bridge'', new_device ''phone-bridge'' True)]"

definition getDevices :: "mesh \<Rightarrow> device list" where
  "getDevices m = map snd m"

definition getDevice :: "mesh \<Rightarrow> string \<Rightarrow> device option" where
  "getDevice m i = map_of m i"

text \<open>A call through the \<open>shared_ptr\<close> stored under a key changes that device in place.\<close>

definition at_device :: "string \<Rightarrow> (device \<Rightarrow> device) \<Rightarrow> mesh \<Rightarrow> mesh" where
  "at_device k f m = map (\<lambda>(k', d). (k', if k' = k then f d else d)) m"

definition inject :: "string \<Rightarrow> mesh_packet \<Rightarrow> mesh \<Rightarrow> mesh res" where
  "inject sender p m =
     (case getDevice m sender of
        None \<Rightarrow> Inl (Invalid_argument (''Unknown device: '' @ sender))
      | Some d \<Rightarrow> Inr (at_device sender (hold p) m))"

definition snapshotMap :: "mesh \<Rightarrow> string \<rightharpoonup> int" where
  "snapshotMap m = map_option packetCount \<circ> map_of m"

text \<open>
  The three nested loops of a gossip round over the device list, the snapshot taken before
  them, and the counter of transfers. The body of the innermost loop is \<open>deliver\<close>, after the
  test that the two devices are not the same object.
\<close>

definition deliver :: "mesh_packet \<Rightarrow> string \<Rightarrow> int \<times> mesh \<Rightarrow> int \<times> mesh" where
  "deliver p dst st =
     (case st of (n, m) \<Rightarrow>
        (case map_of m dst of
           None \<Rightarrow> (n, m)
         | Some d \<Rightarrow>
             if holds d (packetId p) then (n, m)
             else (n + 1, at_device dst (hold (p\<lparr>ttl := ttl p - 1\<rparr>)) m)))"

definition gossip_packet :: "mesh \<Rightarrow> string \<Rightarrow> mesh_packet \<Rightarrow> int \<times> mesh \<Rightarrow> int \<times> mesh" where
  "gossip_packet deviceList src p st =
     (if ttl p \<le> 0 then st
      else fold (\<lambda>(dst, d) st. if dst = src then st else deliver p dst st) deviceList st)"

definition gossipOnce :: "iter_order \<Rightarrow> mesh \<Rightarrow> (int \<times> (string \<rightharpoonup> int)) \<times> mesh" where
  "gossipOnce iter m =
     (let snapshot = map_of (map (\<lambda>(k, d). (deviceId d, getHeldPackets iter d)) m);
          (transfers, m') =
            fold (\<lambda>(src, d) st.
                fold (gossip_packet m src)
                  (case snapshot (deviceId d) of None \<Rightarrow> [] | Some ps \<Rightarrow> ps) st)
              m (0, m)
      in ((transfers, snapshotMap m'), m'))"

definition collectBridgeUploads :: "iter_order \<Rightarrow> mesh \<Rightarrow> (string \<times> mesh_packet) list" where
  "collectBridgeUploads iter m =
     concat (map (\<lambda>(k, d). if \<not> hasInternet d then []
                           else map (\<lambda>p. (deviceId d, p)) (getHeldPackets iter d)) m)"

definition resetMesh :: "mesh \<Rightarrow> mesh" where
  "resetMesh m = map (\<lambda>(k, d). (k, clear_device d)) m"

section \<open>Well-formed meshes\<close>

definition iter_ok :: "iter_order \<Rightarrow> bool" where
  "iter_ok iter \<longleftrightarrow> (\<forall>xs. mset (iter xs) = mset xs)"

definition device_ok :: "device \<Rightarrow> bool" where
  "device_ok d \<longleftrightarrow> distinct (map fst (heldPackets d)) \<and>
     list_all (\<lambda>(i, p). packetId p = i) (heldPackets d)"

definition mesh_ok :: "mesh \<Rightarrow> bool" where
  "mesh_ok m \<longleftrightarrow> distinct (map fst m) \<and> list_all (\<lambda>(k, d). deviceId d = k \<and> device_ok d) m"

text \<open>The packet a device holds under an id.\<close>

definition held_at :: "mesh \<Rightarrow> string \<Rightarrow> string \<Rightarrow> mesh_packet option" where
  "held_at m k i = (case map_of m k of None \<Rightarrow> None | Some d \<Rightarrow> map_of (heldPackets d) i)"

definition total_held :: "mesh \<Rightarrow> int" where
  "total_held m = sum_list (map (packetCount \<circ> snd) m)"

lemma mesh_ok_default [simp]: "mesh_ok default_devices"
  by (simp add: mesh_ok_def default_devices_def new_device_def device_ok_def)

lemma iter_ok_set: "iter_ok iter \<Longrightarrow> set (iter xs) = set xs"
  unfolding iter_ok_def using mset_eq_setD by blast

lemma map_fst_at_device [simp]: "map fst (at_device k f m) = map fst m"
  by (induction m) (auto simp: at_device_def)

lemma map_of_at_device:
  "map_of (at_device k f m) k' = (if k' = k then map_option f (map_of m k) else map_of m k')"
  by (induction m) (auto simp: at_device_def)

lemma mesh_ok_lookup: "mesh_ok m \<Longrightarrow> map_of m k = Some d \<Longrightarrow> deviceId d = k \<and> device_ok d"
  unfolding mesh_ok_def list_all_iff by (drule map_of_SomeD) auto

lemma set_update_subset: "set (AList.update k v xs) \<subseteq> insert (k, v) (set xs)"
  by (induction xs) auto

lemma length_update:
  "length (AList.update k v xs) = length xs + (if map_of xs k = None then 1 else 0)"
  by (induction xs) auto

lemma device_ok_hold: "device_ok d \<Longrightarrow> device_ok (hold p d)"
  using set_update_subset [of "packetId p" p "heldPackets d"]
  by (auto simp: device_ok_def hold_def list_all_iff distinct_update)

lemma hold_simps [simp]:
  "deviceId (hold p d) = deviceId d" "hasInternet (hold p d) = hasInternet d"
  "map_of (heldPackets (hold p d)) i = (if i = packetId p then Some p else map_of (heldPackets d) i)"
  by (simp_all add: hold_def update_conv')

lemma mesh_ok_at_device:
  assumes "mesh_ok m" "\<And>d. device_ok d \<Longrightarrow> device_ok (f d)" "\<And>d. deviceId (f d) = deviceId d"
  shows "mesh_ok (at_device k f m)"
proof -
  have "map fst (at_device k f m) = map fst m" by simp
  moreover have "list_all (\<lambda>(k, d). deviceId d = k \<and> device_ok d) (at_device k f m)"
    using assms by (auto simp: mesh_ok_def at_device_def list_all_iff)
  ultimately show ?thesis using assms(1) by (simp add: mesh_ok_def)
qed

lemma held_at_hold:
  "held_at (at_device k (hold p) m) k' i =
     (if k' = k \<and> i = packetId p \<and> map_of m k \<noteq> None then Some p else held_at m k' i)"
  by (auto simp: held_at_def map_of_at_device split: option.splits)

lemma total_held_hold:
  assumes "distinct (map fst m)" "map_of m k = Some d" "\<not> holds d (packetId p)"
  shows "total_held (at_device k (hold p) m) = total_held m + 1"
  using assms
proof (induction m)
  case Nil
  then show ?case by simp
next
  case (Cons x xs)
  obtain k' d' where x: "x = (k', d')" by (cases x)
  show ?case
  proof (cases "k' = k")
    case True
    with Cons.prems x have "d' = d" "k \<notin> fst ` set xs" by auto
    then have "at_device k (hold p) xs = xs" by (induction xs) (auto simp: at_device_def)
    then have "at_device k (hold p) ((k', d') # xs) = (k, hold p d) # xs"
      using True \<open>d' = d\<close> by (simp add: at_device_def)
    moreover have "packetCount (hold p d) = packetCount d + 1"
      using Cons.prems(3) by (simp add: packetCount_def hold_def length_update holds_def)
    ultimately show ?thesis using True x \<open>d' = d\<close> by (simp add: total_held_def)
  next
    case False
    with Cons x show ?thesis by (simp add: at_device_def total_held_def)
  qed
qed

section \<open>A round is a sequence of deliveries\<close>

definition deliveries :: "iter_order \<Rightarrow> mesh \<Rightarrow> (mesh_packet \<times> string) list" where
  "deliveries iter m =
     concat (map (\<lambda>(src, d). concat (map (\<lambda>p.
        if ttl p \<le> 0 then [] else map (\<lambda>dst. (p, dst)) (filter (\<lambda>dst. dst \<noteq> src) (map fst m)))
        (getHeldPackets iter d))) m)"

definition deliver_all :: "(mesh_packet \<times> string) list \<Rightarrow> int \<times> mesh \<Rightarrow> int \<times> mesh" where
  "deliver_all = fold (\<lambda>(p, dst). deliver p dst)"

lemma deliver_all_append: "deliver_all (xs @ ys) st = deliver_all ys (deliver_all xs st)"
  by (simp add: deliver_all_def)

lemma gossip_packet_deliveries:
  "gossip_packet ds src p st = deliver_all (if ttl p \<le> 0 then []
     else map (\<lambda>dst. (p, dst)) (filter (\<lambda>dst. dst \<noteq> src) (map fst ds))) st"
proof -
  have "fold (\<lambda>(dst, d) st. if dst = src then st else deliver p dst st) ds st =
      deliver_all (map (\<lambda>dst. (p, dst)) (filter (\<lambda>dst. dst \<noteq> src) (map fst ds))) st"
    by (induction ds arbitrary: st) (auto simp: deliver_all_def)
  then show ?thesis by (simp add: gossip_packet_def deliver_all_def)
qed

lemma fold_deliver_all:
  "(\<And>x st. x \<in> set xs \<Longrightarrow> f x st = deliver_all (g x) st) \<Longrightarrow>
     fold f xs st = deliver_all (concat (map g xs)) st"
  by (induction xs arbitrary: st) (auto simp: deliver_all_append, simp add: deliver_all_def)

lemma gossipOnce_deliveries:
  assumes "mesh_ok m" "gossipOnce iter m = ((n, counts), m')"
  shows "deliver_all (deliveries iter m) (0, m) = (n, m')" "counts = snapshotMap m'"
proof -
  have snap: "map_of (map (\<lambda>(k, d). (deviceId d, getHeldPackets iter d)) m) (deviceId d) =
      Some (getHeldPackets iter d)" if "(k, d) \<in> set m" for k d
  proof -
    have eq: "map (\<lambda>(k, d). (deviceId d, getHeldPackets iter d)) m =
        map (\<lambda>(k, d). (k, getHeldPackets iter d)) m"
      using assms(1) by (auto simp: mesh_ok_def list_all_iff)
    have "distinct (map fst (map (\<lambda>(k, d). (k, getHeldPackets iter d)) m))"
      using assms(1) by (simp add: mesh_ok_def o_def case_prod_unfold)
    moreover have "(k, getHeldPackets iter d) \<in> set (map (\<lambda>(k, d). (k, getHeldPackets iter d)) m)"
      using that by force
    moreover have "deviceId d = k" using assms(1) that by (auto simp: mesh_ok_def list_all_iff)
    ultimately show ?thesis unfolding eq by (auto intro!: map_of_is_SomeI)
  qed
  have inner: "fold (gossip_packet m src) ps st = deliver_all (concat (map (\<lambda>p.
        if ttl p \<le> 0 then [] else map (\<lambda>dst. (p, dst)) (filter (\<lambda>dst. dst \<noteq> src) (map fst m))) ps)) st"
    for src ps st
    by (rule fold_deliver_all) (simp add: gossip_packet_deliveries)
  have "fold (\<lambda>(src, d) st. fold (gossip_packet m src)
        (case map_of (map (\<lambda>(k, d). (deviceId d, getHeldPackets iter d)) m) (deviceId d) of
           None \<Rightarrow> [] | Some ps \<Rightarrow> ps) st) m (0, m)
      = deliver_all (deliveries iter m) (0, m)"
    unfolding deliveries_def
    by (rule fold_deliver_all) (auto simp: snap inner)
  with assms(2) show "deliver_all (deliveries iter m) (0, m) = (n, m')" "counts = snapshotMap m'"
    by (auto simp: gossipOnce_def Let_def split: prod.splits)
qed

lemma deliver_cases:
  assumes "mesh_ok m" "k \<in> fst ` set m" "deliver p k (n, m) = (n', m')"
  shows "(held_at m k (packetId p) \<noteq> None \<and> n' = n \<and> m' = m) \<or>
    (held_at m k (packetId p) = None \<and> n' = n + 1 \<and>
     m' = at_device k (hold (p\<lparr>ttl := ttl p - 1\<rparr>)) m)"
proof -
  obtain d where "map_of m k = Some d" using assms(2) by (metis map_of_eq_None_iff option.exhaust)
  with assms(3) show ?thesis by (auto simp: deliver_def held_at_def holds_def split: if_splits)
qed

lemma deliver_step:
  assumes "mesh_ok m" "k \<in> fst ` set m" "deliver p k (n, m) = (n', m')"
  shows "mesh_ok m'" "map fst m' = map fst m" "map (hasInternet \<circ> snd) m' = map (hasInternet \<circ> snd) m"
    and "n' - n = total_held m' - total_held m" "n \<le> n'"
    and "held_at m' j i = (if j = k \<and> i = packetId p \<and> held_at m k i = None
           then Some (p\<lparr>ttl := ttl p - 1\<rparr>) else held_at m j i)"
proof -
  obtain d where d: "map_of m k = Some d" using assms(2) by (metis map_of_eq_None_iff option.exhaust)
  let ?m = "at_device k (hold (p\<lparr>ttl := ttl p - 1\<rparr>)) m"
  have "mesh_ok ?m" using assms(1) by (intro mesh_ok_at_device) (auto simp: device_ok_hold)
  moreover have "map (hasInternet \<circ> snd) ?m = map (hasInternet \<circ> snd) m"
    by (auto simp: at_device_def split: if_splits)
  moreover have "held_at m k (packetId p) = None \<Longrightarrow> total_held ?m = total_held m + 1"
    using total_held_hold [OF _ d, of "p\<lparr>ttl := ttl p - 1\<rparr>"] assms(1) d
    by (simp add: held_at_def holds_def mesh_ok_def)
  ultimately show "mesh_ok m'" "map fst m' = map fst m" "n' - n = total_held m' - total_held m" "n \<le> n'"
    and "map (hasInternet \<circ> snd) m' = map (hasInternet \<circ> snd) m"
    using deliver_cases [OF assms] assms(1) by auto
  show "held_at m' j i = (if j = k \<and> i = packetId p \<and> held_at m k i = None
           then Some (p\<lparr>ttl := ttl p - 1\<rparr>) else held_at m j i)"
    using deliver_cases [OF assms] d by (auto simp: held_at_hold)
qed

lemma deliver_all_frame:
  assumes "mesh_ok m" "snd ` set ds \<subseteq> fst ` set m" "deliver_all ds (n, m) = (n', m')"
  shows "mesh_ok m' \<and> map fst m' = map fst m \<and>
    map (hasInternet \<circ> snd) m' = map (hasInternet \<circ> snd) m \<and>
    n' - n = total_held m' - total_held m \<and> n \<le> n'"
  using assms
proof (induction ds arbitrary: n m)
  case Nil
  then show ?case by (simp add: deliver_all_def)
next
  case (Cons x ds)
  obtain p k where x: "x = (p, k)" by (cases x)
  obtain n1 m1 where d: "deliver p k (n, m) = (n1, m1)" by fastforce
  have k: "k \<in> fst ` set m" using Cons.prems(2) x by auto
  note st = deliver_step [OF Cons.prems(1) k d]
  have "fst ` set m1 = fst ` set m" using st(2) by (metis list.set_map)
  with Cons.prems(2) have keys: "snd ` set ds \<subseteq> fst ` set m1" by auto
  have rest: "deliver_all ds (n1, m1) = (n', m')"
    using Cons.prems(3) x d by (simp add: deliver_all_def)
  show ?case using Cons.IH [OF st(1) keys rest] st(2-5) by (simp add: o_def)
qed

text \<open>A device ends up with what it held, else with a copy of the first matching delivery.\<close>

lemma deliver_all_held:
  assumes "mesh_ok m" "snd ` set ds \<subseteq> fst ` set m" "deliver_all ds (n, m) = (n', m')"
  shows "held_at m' j i = (case held_at m j i of Some q \<Rightarrow> Some q
     | None \<Rightarrow> map_option (\<lambda>(p, k). p\<lparr>ttl := ttl p - 1\<rparr>) (find (\<lambda>(p, k). k = j \<and> packetId p = i) ds))"
  using assms
proof (induction ds arbitrary: n m)
  case Nil
  then show ?case by (simp add: deliver_all_def split: option.splits)
next
  case (Cons x ds)
  obtain p k where x: "x = (p, k)" by (cases x)
  obtain n1 m1 where d: "deliver p k (n, m) = (n1, m1)" by fastforce
  have k: "k \<in> fst ` set m" using Cons.prems(2) x by auto
  note st = deliver_step [OF Cons.prems(1) k d]
  have "fst ` set m1 = fst ` set m" using st(2) by (metis list.set_map)
  with Cons.prems(2) have keys: "snd ` set ds \<subseteq> fst ` set m1" by auto
  have rest: "deliver_all ds (n1, m1) = (n', m')"
    using Cons.prems(3) x d by (simp add: deliver_all_def)
  note IH = Cons.IH [OF st(1) keys rest]
  show ?case
  proof (cases "j = k \<and> i = packetId p \<and> held_at m k i = None")
    case True
    then have "held_at m1 j i = Some (p\<lparr>ttl := ttl p - 1\<rparr>)" "held_at m j i = None"
      using st(6) [of j i] by auto
    with IH True x show ?thesis by simp
  next
    case False
    then have "held_at m1 j i = held_at m j i" using st(6) [of j i] by auto
    with IH False x show ?thesis by (auto split: option.splits)
  qed
qed

lemma deliver_all_idle:
  assumes "\<forall>(p, k) \<in> set ds. held_at m k (packetId p) \<noteq> None"
  shows "deliver_all ds (n, m) = (n, m)"
  using assms
proof (induction ds)
  case Nil
  then show ?case by (simp add: deliver_all_def)
next
  case (Cons x ds)
  then have "(case x of (p, k) \<Rightarrow> deliver p k) (n, m) = (n, m)"
    by (auto simp: deliver_def held_at_def holds_def split: option.splits)
  with Cons show ?case by (simp add: deliver_all_def)
qed

lemma held_at_packetId:
  assumes "mesh_ok m" "held_at m k i = Some p"
  shows "packetId p = i"
proof -
  obtain d where d: "map_of m k = Some d" "map_of (heldPackets d) i = Some p"
    using assms(2) by (auto simp: held_at_def split: option.splits)
  from mesh_ok_lookup [OF assms(1) d(1)] map_of_SomeD [OF d(2)] show ?thesis
    by (auto simp: device_ok_def list_all_iff)
qed

lemma deliveries_in:
  assumes "mesh_ok m" "iter_ok iter"
  shows "(p, j) \<in> set (deliveries iter m) \<longleftrightarrow>
    (\<exists>src. src \<noteq> j \<and> j \<in> fst ` set m \<and> held_at m src (packetId p) = Some p \<and> 0 < ttl p)"
proof -
  have packets: "p \<in> set (getHeldPackets iter d) \<longleftrightarrow> map_of (heldPackets d) (packetId p) = Some p"
    if "device_ok d" for d
  proof -
    have "p \<in> set (getHeldPackets iter d) \<longleftrightarrow> p \<in> snd ` set (heldPackets d)"
      by (simp add: getHeldPackets_def iter_ok_set [OF assms(2)])
    also have "\<dots> \<longleftrightarrow> (packetId p, p) \<in> set (heldPackets d)"
      using that by (force simp: device_ok_def list_all_iff)
    finally show ?thesis using that by (simp add: device_ok_def)
  qed
  have at: "(\<exists>d. (src, d) \<in> set m \<and> p \<in> set (getHeldPackets iter d)) \<longleftrightarrow>
      held_at m src (packetId p) = Some p" for src
  proof (cases "map_of m src")
    case None
    then have "(src, d) \<notin> set m" for d by (auto simp: map_of_eq_None_iff rev_image_eqI)
    with None show ?thesis by (simp add: held_at_def)
  next
    case (Some d)
    have "(src, d') \<in> set m \<longleftrightarrow> d' = d" for d'
      using assms(1) Some by (metis map_of_eq_Some_iff mesh_ok_def option.inject)
    then show ?thesis
      using packets mesh_ok_lookup [OF assms(1) Some] Some by (simp add: held_at_def)
  qed
  have "(p, j) \<in> set (deliveries iter m) \<longleftrightarrow>
      (\<exists>src d. (src, d) \<in> set m \<and> p \<in> set (getHeldPackets iter d) \<and> 0 < ttl p \<and>
         j \<in> fst ` set m \<and> j \<noteq> src)"
  proof
    assume "(p, j) \<in> set (deliveries iter m)"
    then show "\<exists>src d. (src, d) \<in> set m \<and> p \<in> set (getHeldPackets iter d) \<and> 0 < ttl p \<and>
        j \<in> fst ` set m \<and> j \<noteq> src"
      by (auto simp: deliveries_def split: if_splits; force)
  next
    assume "\<exists>src d. (src, d) \<in> set m \<and> p \<in> set (getHeldPackets iter d) \<and> 0 < ttl p \<and>
        j \<in> fst ` set m \<and> j \<noteq> src"
    then obtain src d where *: "(src, d) \<in> set m" "p \<in> set (getHeldPackets iter d)" "0 < ttl p"
      "j \<in> set (filter (\<lambda>dst. dst \<noteq> src) (map fst m))" by auto
    then have "(p, j) \<in> set (concat (map (\<lambda>p. if ttl p \<le> 0 then []
        else map (\<lambda>dst. (p, dst)) (filter (\<lambda>dst. dst \<noteq> src) (map fst m))) (getHeldPackets iter d)))"
      by (simp only: set_concat set_map) (rule UN_I [OF imageI [OF *(2)]], use *(3,4) in auto)
    with *(1) show "(p, j) \<in> set (deliveries iter m)"
      unfolding deliveries_def set_concat set_map by (intro UN_I [OF imageI [OF *(1)]]) simp
  qed
  also have "\<dots> \<longleftrightarrow> (\<exists>src. src \<noteq> j \<and> j \<in> fst ` set m \<and>
      (\<exists>d. (src, d) \<in> set m \<and> p \<in> set (getHeldPackets iter d)) \<and> 0 < ttl p)"
    by (intro iff_exI) (simp only: ex_simps conj_ac neq_commute [of j])
  also have "\<dots> \<longleftrightarrow> (\<exists>src. src \<noteq> j \<and> j \<in> fst ` set m \<and> held_at m src (packetId p) = Some p \<and> 0 < ttl p)"
    by (simp only: at)
  finally show ?thesis .
qed

lemma gossip_facts:
  assumes "mesh_ok m" "iter_ok iter" "gossipOnce iter m = ((n, counts), m')"
  shows "mesh_ok m'" "map fst m' = map fst m" "map (hasInternet \<circ> snd) m' = map (hasInternet \<circ> snd) m"
    and "n = total_held m' - total_held m" "0 \<le> n"
    and "held_at m j i = Some q \<Longrightarrow> held_at m' j i = Some q"
    and "held_at m' j i \<noteq> None \<longleftrightarrow> held_at m j i \<noteq> None \<or>
      (j \<in> fst ` set m \<and> (\<exists>src p. src \<noteq> j \<and> held_at m src i = Some p \<and> 0 < ttl p))"
    and "held_at m' j i = Some q \<Longrightarrow> held_at m j i = Some q \<or>
      (held_at m j i = None \<and>
       (\<exists>src p. src \<noteq> j \<and> held_at m src i = Some p \<and> 0 < ttl p \<and> q = p\<lparr>ttl := ttl p - 1\<rparr>))"
proof -
  have sub: "snd ` set (deliveries iter m) \<subseteq> fst ` set m"
  proof
    fix k assume "k \<in> snd ` set (deliveries iter m)"
    then obtain p where "(p, k) \<in> set (deliveries iter m)" by (metis imageE prod.collapse)
    then show "k \<in> fst ` set m" unfolding deliveries_in [OF assms(1,2)] by (elim exE conjE)
  qed
  note run = gossipOnce_deliveries(1) [OF assms(1,3)]
  note f = deliver_all_frame [OF assms(1) sub run]
  note h = deliver_all_held [OF assms(1) sub run, of j i]
  note pid = held_at_packetId [OF assms(1)]
  show "mesh_ok m'" "map fst m' = map fst m" "map (hasInternet \<circ> snd) m' = map (hasInternet \<circ> snd) m"
    "0 \<le> n" using f by blast+
  show "n = total_held m' - total_held m" using f by linarith
  show "held_at m j i = Some q \<Longrightarrow> held_at m' j i = Some q" using h by simp
  let ?find = "find (\<lambda>(p, k). k = j \<and> packetId p = i) (deliveries iter m)"
  have "?find \<noteq> None \<longleftrightarrow> (\<exists>p. (p, j) \<in> set (deliveries iter m) \<and> packetId p = i)"
    by (auto simp: find_None_iff)
  also have "\<dots> \<longleftrightarrow> j \<in> fst ` set m \<and> (\<exists>src p. src \<noteq> j \<and> held_at m src i = Some p \<and> 0 < ttl p)"
    using deliveries_in [OF assms(1,2)] pid by blast
  finally show "held_at m' j i \<noteq> None \<longleftrightarrow> held_at m j i \<noteq> None \<or>
      (j \<in> fst ` set m \<and> (\<exists>src p. src \<noteq> j \<and> held_at m src i = Some p \<and> 0 < ttl p))"
    using h by (simp split: option.splits)
  assume q: "held_at m' j i = Some q"
  show "held_at m j i = Some q \<or> (held_at m j i = None \<and>
       (\<exists>src p. src \<noteq> j \<and> held_at m src i = Some p \<and> 0 < ttl p \<and> q = p\<lparr>ttl := ttl p - 1\<rparr>))"
  proof (cases "held_at m j i")
    case None
    with h q have "map_option (\<lambda>(p, k). p\<lparr>ttl := ttl p - 1\<rparr>) ?find = Some q" by simp
    then obtain p k where "?find = Some (p, k)" "q = p\<lparr>ttl := ttl p - 1\<rparr>"
      by (cases ?find) auto
    moreover from this(1) have "(p, j) \<in> set (deliveries iter m)" "packetId p = i"
      by (auto dest!: find_Some_in)
    ultimately show ?thesis using deliveries_in [OF assms(1,2)] None by auto
  next
    case (Some q')
    with h q show ?thesis by simp
  qed
qed

section \<open>Properties\<close>

text \<open>C17. Who holds what after a gossip round, in whatever order the hash maps are walked: a device
  holds a packet id if and only if it held it before, or some other device held it with hops
  left.\<close>

theorem gossip_spreads_exactly:
  assumes "mesh_ok m" "iter_ok iter" "gossipOnce iter m = ((n, counts), m')"
    and "map_of m j = Some d" "map_of m' j = Some d'"
  shows "holds d' i \<longleftrightarrow> holds d i \<or>
    (\<exists>src ds p. src \<noteq> j \<and> map_of m src = Some ds \<and> map_of (heldPackets ds) i = Some p \<and> 0 < ttl p)"
proof -
  have "j \<in> fst ` set m" using assms(4) by (metis map_of_eq_None_iff option.distinct(1))
  with gossip_facts(7) [OF assms(1-3), of j i] assms(4,5) show ?thesis
    by (fastforce simp: held_at_def holds_def split: option.splits)
qed

definition demo_packet :: mesh_packet where
  "demo_packet = \<lparr>packetId = ''p'', ttl = 5, createdAt = 1, ciphertext = ''c''\<rparr>"

definition demo_mesh :: mesh where
  "demo_mesh = at_device ''phone-alice'' (hold demo_packet) default_devices"

lemma demo_mesh_ok [simp]: "mesh_ok demo_mesh"
  unfolding demo_mesh_def by (rule mesh_ok_at_device) (simp_all add: device_ok_hold)

lemma iter_ok_id [simp]: "iter_ok (\<lambda>xs. xs)" and iter_ok_rev [simp]: "iter_ok rev"
  by (simp_all add: iter_ok_def)

theorem gossip_spreads_exactly_witness:
  "\<exists>n counts m' d'. gossipOnce rev demo_mesh = ((n, counts), m') \<and>
     map_of m' ''phone-bridge'' = Some d' \<and> holds d' ''p''"
proof -
  obtain n counts m' where g: "gossipOnce rev demo_mesh = ((n, counts), m')" by (metis prod.exhaust)
  have keys: "fst ` set m' = fst ` set demo_mesh"
    using gossip_facts(2) [OF demo_mesh_ok iter_ok_rev g] by (metis list.set_map)
  have "''phone-bridge'' \<in> fst ` set demo_mesh"
    by (simp add: demo_mesh_def at_device_def default_devices_def)
  then obtain d' where d': "map_of m' ''phone-bridge'' = Some d'"
    using keys by (metis map_of_eq_None_iff not_None_eq)
  have bridge: "map_of demo_mesh ''phone-bridge'' = Some (new_device ''phone-bridge'' True)"
    and alice: "map_of demo_mesh ''phone-alice'' = Some (hold demo_packet (new_device ''phone-alice'' False))"
    by (simp_all add: demo_mesh_def map_of_at_device default_devices_def)
  have "map_of (heldPackets (hold demo_packet (new_device ''phone-alice'' False))) ''p'' = Some demo_packet"
    "0 < ttl demo_packet" "''phone-alice'' \<noteq> ''phone-bridge''" by (simp_all add: demo_packet_def)
  with alice have "\<exists>src ds p. src \<noteq> ''phone-bridge'' \<and> map_of demo_mesh src = Some ds \<and>
      map_of (heldPackets ds) ''p'' = Some p \<and> 0 < ttl p" by (intro exI conjI)
  then have "holds d' ''p''"
    unfolding gossip_spreads_exactly [OF demo_mesh_ok iter_ok_rev g bridge d'] by (rule disjI2)
  with g d' show ?thesis by blast
qed

text \<open>C18. Packets are passed on unaltered, one hop poorer: whatever a device holds after a round it
  held before, or it is a copy of a packet another device held with hops left, equal to it but
  for a ttl smaller by one; and what a device held it still holds.\<close>

theorem gossip_copies_faithfully:
  assumes "mesh_ok m" "iter_ok iter" "gossipOnce iter m = ((n, counts), m')"
  shows "(\<forall>j i q. held_at m' j i = Some q \<longrightarrow> held_at m j i = Some q \<or>
      (held_at m j i = None \<and> (\<exists>src p. src \<noteq> j \<and> held_at m src i = Some p \<and> 0 < ttl p \<and>
         q = p\<lparr>ttl := ttl p - 1\<rparr>))) \<and>
    (\<forall>j i q. held_at m j i = Some q \<longrightarrow> held_at m' j i = Some q)"
  using gossip_facts(6,8) [OF assms] by blast

theorem gossip_copies_faithfully_witness:
  "\<exists>n counts m'. gossipOnce rev demo_mesh = ((n, counts), m') \<and>
     held_at m' ''phone-alice'' ''p'' = Some demo_packet"
proof -
  obtain n counts m' where g: "gossipOnce rev demo_mesh = ((n, counts), m')" by (metis prod.exhaust)
  have "held_at demo_mesh ''phone-alice'' ''p'' = Some demo_packet"
    by (simp add: held_at_def demo_mesh_def map_of_at_device default_devices_def demo_packet_def)
  with gossip_copies_faithfully [OF demo_mesh_ok iter_ok_rev g] g show ?thesis by blast
qed

text \<open>The transfer count is the number of packets the devices gained, never negative, and the
  reported device counts are the packet counts after the round.\<close>

theorem gossip_counts_transfers:
  assumes "mesh_ok m" "iter_ok iter" "gossipOnce iter m = ((n, counts), m')"
  shows "n = total_held m' - total_held m \<and> 0 \<le> n \<and>
    (\<forall>j. counts j = map_option packetCount (map_of m' j)) \<and> map fst m' = map fst m"
  using gossip_facts(2,4,5) [OF assms] gossipOnce_deliveries(2) [OF assms(1,3)]
  by (simp add: snapshotMap_def)

theorem gossip_counts_transfers_witness:
  "\<exists>n counts m'. gossipOnce rev demo_mesh = ((n, counts), m') \<and> n = total_held m' - 1"
proof -
  obtain n counts m' where g: "gossipOnce rev demo_mesh = ((n, counts), m')" by (metis prod.exhaust)
  have "total_held demo_mesh = 1"
    by (simp add: total_held_def demo_mesh_def at_device_def default_devices_def packetCount_def
        hold_def new_device_def)
  with gossip_counts_transfers [OF demo_mesh_ok iter_ok_rev g] g show ?thesis by auto
qed

text \<open>One round saturates the mesh: every pair of phones is in range, so a second round, walked in
  whatever other order, transfers nothing and changes nothing.\<close>

theorem gossip_saturates:
  assumes "mesh_ok m" "iter_ok iter" "iter_ok iter'"
    and "gossipOnce iter m = ((n, counts), m1)" "gossipOnce iter' m1 = ((n', counts'), m2)"
  shows "n' = 0 \<and> m2 = m1"
proof -
  note g1 = gossip_facts [OF assms(1,2,4)]
  have keys: "fst ` set m1 = fst ` set m" using g1(2) by (metis list.set_map)
  have "held_at m1 j (packetId p) \<noteq> None" if d: "(p, j) \<in> set (deliveries iter' m1)" for p j
  proof -
    obtain src where j: "j \<in> fst ` set m" and src: "src \<noteq> j"
        "held_at m1 src (packetId p) = Some p" "0 < ttl p"
      using d [unfolded deliveries_in [OF g1(1) assms(3)]] keys by blast
    consider "held_at m src (packetId p) = Some p"
      | s q where "s \<noteq> src" "held_at m s (packetId p) = Some q" "0 < ttl q"
      using g1(8) [OF src(2)] by blast
    then show ?thesis
    proof cases
      case 1
      with g1(7) [of j "packetId p"] j src show ?thesis by blast
    next
      case (2 s q)
      then show ?thesis
        using g1(6) [of j "packetId p" q] g1(7) [of j "packetId p"] j by (cases "s = j") auto
    qed
  qed
  then have "deliver_all (deliveries iter' m1) (0, m1) = (0, m1)"
    by (intro deliver_all_idle) auto
  with gossipOnce_deliveries(1) [OF g1(1) assms(5)] show ?thesis by simp
qed

theorem gossip_saturates_witness:
  "\<exists>n counts m1 n' counts' m2. gossipOnce rev demo_mesh = ((n, counts), m1) \<and>
     gossipOnce (\<lambda>xs. xs) m1 = ((n', counts'), m2) \<and> n' = 0"
proof -
  obtain n counts m1 where g: "gossipOnce rev demo_mesh = ((n, counts), m1)" by (metis prod.exhaust)
  obtain n' counts' m2 where g': "gossipOnce (\<lambda>xs. xs) m1 = ((n', counts'), m2)" by (metis prod.exhaust)
  from gossip_saturates [OF demo_mesh_ok iter_ok_rev iter_ok_id g g'] g g' show ?thesis by blast
qed

end
