(* ===== verification/Api.thy ===== *)
theory Api
  imports Ingestion Mesh
begin

text \<open>
  \<open>src/cpp/controller/ApiController.{h,cpp}\<close>, \<open>AppContext.h\<close> and the wiring of \<open>main.cpp\<close>: the nine
  request handlers as functions from the state of the server to a response and a new state.

  The web framework is not part of the repository. A request is what the handlers ask of it:
  the JSON body, if it parsed, with the library's membership test and conversions as functions
  that may throw, and the headers. A response is its status code and its body; \<open>Inl\<close> is an
  exception that leaves the handler. Each handler runs on its own here.
\<close>

section \<open>Requests, responses, environment\<close>

record json_value =
  jv_isMember :: "string \<Rightarrow> bool res"
  jv_asString :: "string \<Rightarrow> string res"
  jv_asDouble :: "string \<Rightarrow> double res"
  jv_asInt :: "string \<Rightarrow> int res"
  jv_asInt64 :: "string \<Rightarrow> int res"

record request =
  getJsonObject :: "json_value option"
  getHeader :: "string \<Rightarrow> string"

datatype reply =
    Reply_null
  | Reply_bool bool
  | Reply_int int
  | Reply_text string
  | Reply_list "reply list"
  | Reply_object "string \<Rightarrow> reply option"

datatype body = Json_body reply | Text_body string

record response =
  statusCode :: nat
  resp_body :: body

text \<open>
  What a handler draws from outside: the libraries, the clock, the random bytes and the
  identifiers, each a function of the number of the reading, and the order in which the
  held packets of a phone are walked.
\<close>

record env =
  env_ssl :: openssl
  env_engine :: engine
  env_clock :: "nat \<Rightarrow> int"
  env_uuid :: "nat \<Rightarrow> string"
  env_sha256 :: "string \<Rightarrow> string"
  env_random :: "nat \<Rightarrow> string option"
  env_seed :: nat
  env_iter :: iter_order

record app =
  app_mesh :: mesh
  app_services :: services
  app_key :: string

type_synonym handler = "env \<Rightarrow> request \<Rightarrow> app \<Rightarrow> response res \<times> app"

definition ok_json :: "(string \<Rightarrow> reply option) \<Rightarrow> response" where
  "ok_json members = \<lparr>statusCode = 200, resp_body = Json_body (Reply_object members)\<rparr>"

definition error_json :: "nat \<Rightarrow> string \<Rightarrow> string \<Rightarrow> response" where
  "error_json code err msg = \<lparr>statusCode = code, resp_body = Json_body (Reply_object
     [''error'' \<mapsto> Reply_text err, ''message'' \<mapsto> Reply_text msg])\<rparr>"

section \<open>Helpers\<close>

definition sha256Hex :: "env \<Rightarrow> string \<Rightarrow> string" where
  "sha256Hex V input = concat (map hex_byte (take 32 (env_sha256 V input)))"

text \<open>\<open>!isMember(a) || !isMember(b) || ...\<close>, left to right.\<close>

fun missing :: "json_value \<Rightarrow> string list \<Rightarrow> bool res" where
  "missing j [] = Inr False"
| "missing j (k # ks) = res_bind (jv_isMember j k) (\<lambda>b. if b then missing j ks else Inr True)"

text \<open>
  \<open>std::stoi\<close>: leading white space and one sign are skipped, digits are read as far as they go;
  no digit and a value outside \<open>int\<close> are exceptions.
\<close>

definition is_space :: "char \<Rightarrow> bool" where
  "is_space c \<longleftrightarrow> c \<in> {CHR '' '', CHR 0x09, CHR 0x0A, CHR 0x0B, CHR 0x0C, CHR 0x0D}"

definition is_dec :: "char \<Rightarrow> bool" where
  "is_dec c \<longleftrightarrow> (48 :: nat) \<le> of_char c \<and> (of_char c :: nat) \<le> 57"

definition dec_val :: "string \<Rightarrow> int" where
  "dec_val ds = foldl (\<lambda>v c. 10 * v + (of_char c - 48)) 0 ds"

definition stoi :: "string \<Rightarrow> int res" where
  "stoi str =
     (let s = dropWhile is_space (c_str str);
          neg = (s \<noteq> [] \<and> hd s = CHR ''-'');
          ds = takeWhile is_dec (if s \<noteq> [] \<and> (hd s = CHR ''-'' \<or> hd s = CHR ''+'') then tl s else s);
          v = (if neg then - dec_val ds else dec_val ds)
      in if ds = [] then Inl (Invalid_argument ''stoi'')
         else if in_i32 v then Inr v else Inl (Out_of_range ''stoi''))"

section \<open>The handlers\<close>

definition api_getServerKey :: handler where
  "api_getServerKey V req A =
     (res_bind (getPublicKeyBase64 (env_ssl V) (Some (app_key A))) (\<lambda>key.
        Inr (ok_json [''publicKey'' \<mapsto> Reply_text key,
          ''algorithm'' \<mapsto> Reply_text ''RSA-2048 / OAEP-SHA256'',
          ''hybridScheme'' \<mapsto> Reply_text ''RSA-OAEP encrypts an AES-256-GCM session key''])), A)"

text \<open>The \<open>try\<close> block of \<open>demoSend\<close>: the packet it builds and the phone to hand it to.\<close>

definition demo_instruction :: "env \<Rightarrow> json_value \<Rightarrow> payment res" where
  "demo_instruction V j =
     res_bind (jv_asString j ''senderVpa'') (\<lambda>sender.
     res_bind (jv_asString j ''receiverVpa'') (\<lambda>receiver.
     res_bind (jv_asDouble j ''amount'') (\<lambda>amountDecimal.
     res_bind (paise_of_rupees amountDecimal) (\<lambda>amount.
     res_bind (jv_asString j ''pin'') (\<lambda>pin.
       Inr \<lparr>pi_senderVpa = sender, pi_receiverVpa = receiver, pi_amount = amount,
            pi_pinHash = sha256Hex V pin, pi_nonce = env_uuid V 0,
            pi_signedAt = env_clock V 0\<rparr>)))))"

definition demo_packet_for :: "env \<Rightarrow> json_value \<Rightarrow> string \<Rightarrow> (mesh_packet \<times> string) res" where
  "demo_packet_for V j key =
     res_bind (demo_instruction V j) (\<lambda>p.
     res_bind (encrypt (env_ssl V) key (env_random V) (env_seed V) (payment_to_json p)) (\<lambda>cipher.
     res_bind (jv_isMember j ''ttl'') (\<lambda>has_ttl.
     res_bind (if has_ttl then jv_asInt j ''ttl'' else Inr 5) (\<lambda>t.
     res_bind (jv_isMember j ''startDevice'') (\<lambda>has_start.
     res_bind (if has_start then jv_asString j ''startDevice'' else Inr ''phone-alice'') (\<lambda>start.
       Inr (\<lparr>packetId = env_uuid V 1, ttl = t, createdAt = pi_signedAt p, ciphertext = cipher\<rparr>, start)))))))"

definition api_demoSend :: handler where
  "api_demoSend V req A =
     (case getJsonObject req of
        None \<Rightarrow> (Inr (error_json 400 ''bad_request'' ''Invalid JSON''), A)
      | Some j \<Rightarrow>
          (case missing j [''senderVpa'', ''receiverVpa'', ''amount'', ''pin''] of
             Inl e \<Rightarrow> (Inl e, A)
           | Inr True \<Rightarrow> (Inr (error_json 400 ''bad_request'' ''Missing required fields''), A)
           | Inr False \<Rightarrow>
               (case res_bind (demo_packet_for V j (app_key A)) (\<lambda>(pkt, start).
                       res_bind (inject start pkt (app_mesh A)) (\<lambda>m. Inr (pkt, start, m))) of
                  Inl e \<Rightarrow>
                    (if is_undefined e then Inl e
                     else Inr (error_json 500 ''internal_error'' (c_str (what e))), A)
                | Inr (pkt, start, m) \<Rightarrow>
                    (Inr (ok_json [''packetId'' \<mapsto> Reply_text (packetId pkt),
                       ''ciphertextPreview'' \<mapsto> Reply_text (take 64 (ciphertext pkt) @ ''...''),
                       ''fullCiphertext'' \<mapsto> Reply_text (ciphertext pkt),
                       ''ttl'' \<mapsto> Reply_int (ttl pkt),
                       ''injectedAt'' \<mapsto> Reply_text start]),
                     A\<lparr>app_mesh := m\<rparr>))))"

definition device_reply :: "env \<Rightarrow> device \<Rightarrow> reply" where
  "device_reply V d = Reply_object
     [''deviceId'' \<mapsto> Reply_text (deviceId d), ''hasInternet'' \<mapsto> Reply_bool (hasInternet d),
      ''packetCount'' \<mapsto> Reply_int (packetCount d),
      ''packetIds'' \<mapsto> Reply_list
         (map (\<lambda>p. Reply_text (take 8 (packetId p))) (getHeldPackets (env_iter V) d))]"

definition api_meshState :: handler where
  "api_meshState V req A =
     (Inr (ok_json [''devices'' \<mapsto> Reply_list (map (device_reply V) (getDevices (app_mesh A))),
        ''idempotencyCacheSize'' \<mapsto> Reply_int (int (seen_size (svc_seen (app_services A))))]), A)"

definition api_meshGossip :: handler where
  "api_meshGossip V req A =
     (case gossipOnce (env_iter V) (app_mesh A) of
        ((transfers, counts), m) \<Rightarrow>
          (Inr (ok_json [''transfers'' \<mapsto> Reply_int transfers,
             ''deviceCounts'' \<mapsto> Reply_object (map_option Reply_int \<circ> counts)]),
           A\<lparr>app_mesh := m\<rparr>))"

text \<open>One upload of \<open>meshFlush\<close>; the \<open>k\<close>-th one reads the clock from reading \<open>8 * k\<close> on.\<close>

definition int_sub :: "int \<Rightarrow> int \<Rightarrow> int res" where
  "int_sub a b = (if in_i32 (a - b) then Inr (a - b) else Inl (Undefined ''signed integer overflow''))"

definition upload_reply :: "string \<times> mesh_packet \<Rightarrow> ingest_result \<Rightarrow> reply" where
  "upload_reply up r = Reply_object
     [''bridgeNode'' \<mapsto> Reply_text (fst up), ''packetId'' \<mapsto> Reply_text (take 8 (packetId (snd up))),
      ''outcome'' \<mapsto> Reply_text (ir_outcome r), ''reason'' \<mapsto> Reply_text (ir_reason r),
      ''transactionId'' \<mapsto> Reply_int (case ir_transactionId r of Some n \<Rightarrow> n | None \<Rightarrow> - 1)]"

fun flush_uploads ::
    "env \<Rightarrow> string \<Rightarrow> nat \<Rightarrow> (string \<times> mesh_packet) list \<Rightarrow> services \<Rightarrow> reply list res \<times> services" where
  "flush_uploads V key k [] sv = (Inr [], sv)"
| "flush_uploads V key k (up # ups) sv =
     (case int_sub 5 (ttl (snd up)) of
        Inl e \<Rightarrow> (Inl e, sv)
      | Inr hopCount \<Rightarrow>
          (case ingest (env_ssl V) key (env_engine V) (\<lambda>i. env_clock V (8 * k + i)) (snd up) (fst up)
                  hopCount sv of
             (Inl e, sv1) \<Rightarrow> (Inl e, sv1)
           | (Inr r, sv1) \<Rightarrow>
               (case flush_uploads V key (Suc k) ups sv1 of
                  (Inl e, sv2) \<Rightarrow> (Inl e, sv2)
                | (Inr rs, sv2) \<Rightarrow> (Inr (upload_reply up r # rs), sv2))))"

definition api_meshFlush :: handler where
  "api_meshFlush V req A =
     (let uploads = collectBridgeUploads (env_iter V) (app_mesh A) in
      case flush_uploads V (app_key A) 0 uploads (app_services A) of
        (Inl e, sv) \<Rightarrow> (Inl e, A\<lparr>app_services := sv\<rparr>)
      | (Inr results, sv) \<Rightarrow>
          (Inr (ok_json [''uploadsAttempted'' \<mapsto> Reply_int (wrap 32 (int (length uploads))),
             ''results'' \<mapsto> Reply_list results]),
           A\<lparr>app_services := sv\<rparr>))"

definition api_meshReset :: handler where
  "api_meshReset V req A =
     (case Database_reset (env_engine V) (svc_db (app_services A)) of
        (e, db) \<Rightarrow>
          ((case e of Some x \<Rightarrow> Inl x
            | None \<Rightarrow> Inr (ok_json [''status'' \<mapsto> Reply_text ''mesh and idempotency cache cleared''])),
           A\<lparr>app_mesh := resetMesh (app_mesh A),
             app_services := \<lparr>svc_seen = seen_clear (svc_seen (app_services A)), svc_db = db\<rparr>\<rparr>))"

text \<open>The upload a bridge sends: node, hop count and packet out of headers and body.\<close>

definition bridge_upload :: "request \<Rightarrow> json_value \<Rightarrow> (string \<times> int \<times> mesh_packet) res" where
  "bridge_upload req j =
     (let node = getHeader req ''X-Bridge-Node-Id'';
          hops = getHeader req ''X-Hop-Count''
      in res_bind (if hops = [] then Inr 0 else stoi hops) (\<lambda>hopCount.
         res_bind (jv_asString j ''packetId'') (\<lambda>i.
         res_bind (jv_asInt j ''ttl'') (\<lambda>t.
         res_bind (jv_asInt64 j ''createdAt'') (\<lambda>created.
         res_bind (jv_asString j ''ciphertext'') (\<lambda>cipher.
           Inr (if node = [] then ''unknown'' else node, hopCount,
             \<lparr>packetId = i, ttl = t, createdAt = created, ciphertext = cipher\<rparr>)))))))"

definition api_bridgeIngest :: handler where
  "api_bridgeIngest V req A =
     (case getJsonObject req of
        None \<Rightarrow> (Inr (error_json 400 ''bad_request'' ''Invalid JSON''), A)
      | Some j \<Rightarrow>
          (case missing j [''packetId'', ''ttl'', ''createdAt'', ''ciphertext''] of
             Inl e \<Rightarrow> (Inl e, A)
           | Inr True \<Rightarrow> (Inr (error_json 400 ''bad_request'' ''Missing required fields''), A)
           | Inr False \<Rightarrow>
               (case bridge_upload req j of
                  Inl e \<Rightarrow> (Inl e, A)
                | Inr (node, hopCount, pkt) \<Rightarrow>
                    (case ingest (env_ssl V) (app_key A) (env_engine V) (env_clock V) pkt node hopCount
                            (app_services A) of
                       (Inl e, sv) \<Rightarrow> (Inl e, A\<lparr>app_services := sv\<rparr>)
                     | (Inr r, sv) \<Rightarrow>
                         (Inr (ok_json [''outcome'' \<mapsto> Reply_text (ir_outcome r),
                            ''packetHash'' \<mapsto> Reply_text (ir_packetHash r),
                            ''reason'' \<mapsto> Reply_text (ir_reason r),
                            ''transactionId'' \<mapsto> (case ir_transactionId r of
                               Some n \<Rightarrow> Reply_int n | None \<Rightarrow> Reply_null)]),
                          A\<lparr>app_services := sv\<rparr>)))))"

definition with_db :: "database \<Rightarrow> app \<Rightarrow> app" where
  "with_db db A = A\<lparr>app_services := (app_services A)\<lparr>svc_db := db\<rparr>\<rparr>"

definition text_response :: "string \<Rightarrow> response" where
  "text_response s = \<lparr>statusCode = 200, resp_body = Text_body s\<rparr>"

definition api_listAccounts :: handler where
  "api_listAccounts V req A =
     (case findAll (env_engine V) (svc_db (app_services A)) of
        (rows, db) \<Rightarrow>
          (res_bind (json_dump (JArray (map account_to_json rows))) (\<lambda>s. Inr (text_response s)),
           with_db db A))"

definition api_listTransactions :: handler where
  "api_listTransactions V req A =
     (case findTop20 (env_engine V) (svc_db (app_services A)) of
        (Inl e, db) \<Rightarrow> (Inl e, with_db db A)
      | (Inr txs, db) \<Rightarrow>
          (res_bind (json_dump (JArray (map transaction_to_json txs))) (\<lambda>s. Inr (text_response s)),
           with_db db A))"

text \<open>The routes, and the server \<open>main\<close> starts.\<close>

datatype route =
    Server_key | Demo_send | Mesh_state | Mesh_gossip | Mesh_flush | Mesh_reset
  | Bridge_ingest | List_accounts | List_transactions

fun handle :: "route \<Rightarrow> handler" where
  "handle Server_key = api_getServerKey"
| "handle Demo_send = api_demoSend"
| "handle Mesh_state = api_meshState"
| "handle Mesh_gossip = api_meshGossip"
| "handle Mesh_flush = api_meshFlush"
| "handle Mesh_reset = api_meshReset"
| "handle Bridge_ingest = api_bridgeIngest"
| "handle List_accounts = api_listAccounts"
| "handle List_transactions = api_listTransactions"

definition start :: "openssl \<Rightarrow> engine \<Rightarrow> app res" where
  "start ssl E =
     res_bind (Database_ctor E) (\<lambda>db.
     res_bind (ServerKeyHolder ssl) (\<lambda>key.
       Inr \<lparr>app_mesh = default_devices, app_services = \<lparr>svc_seen = [], svc_db = db\<rparr>, app_key = key\<rparr>))"

section \<open>The books\<close>

text \<open>
  What a ledger row does to the account \<open>v\<close>, and what it means that the accounts are the seed
  accounts with every settled row applied. A settled payment from an account to itself counts
  as a receipt only: that is what the code does.
\<close>

definition ledger_entry :: "string \<Rightarrow> tx_row \<Rightarrow> int" where
  "ledger_entry v r =
     (if row_status r \<noteq> ''SETTLED'' then 0
      else if row_receiverVpa r = v then row_amount r
      else if row_senderVpa r = v then - row_amount r else 0)"

definition net_entries :: "string \<Rightarrow> tables \<Rightarrow> int" where
  "net_entries v t = sum_list (map (ledger_entry v) (transactions t))"

definition books_ok :: "tables \<Rightarrow> bool" where
  "books_ok t \<longleftrightarrow>
     list_all2 (\<lambda>a s. vpa a = vpa s \<and> balance a = balance s + net_entries (vpa s) t) (accounts t) seed_rows"

lemma net_entries_append:
  "transactions t' = transactions t @ [r] \<Longrightarrow> net_entries v t' = net_entries v t + ledger_entry v r"
  by (simp add: net_entries_def)

lemma books_ok_step:
  assumes "books_ok t" "transactions t' = transactions t @ [r]"
    and "list_all2 (\<lambda>a' a. vpa a' = vpa a \<and> balance a' = balance a + ledger_entry (vpa a) r)
      (accounts t') (accounts t)"
  shows "books_ok t'"
  unfolding books_ok_def
  by (rule list_all2_trans [OF _ assms(3) assms(1) [unfolded books_ok_def]])
    (simp add: net_entries_append [OF assms(2)])

lemma upsert_present:
  "vpa a \<in> vpa ` set (accounts t) \<Longrightarrow> accounts (sql_upsert_account a t) = upd_by vpa a (accounts t)"
  by (simp add: sql_upsert_account_def)

lemma selected_unique:
  assumes "accounts_ok t" "sql_select_account v t = Some s" "a \<in> set (accounts t)" "vpa a = v"
  shows "a = s"
proof -
  have "s \<in> set (accounts t)" "vpa s = v"
    using sql_select_in [OF assms(2)] sql_select_key [OF assms(2)] by auto
  with assms show ?thesis
    by (auto simp: accounts_ok_def distinct_map dest: inj_onD)
qed

lemma settled_accounts:
  assumes "accounts_ok t" "sql_select_account (c_str (pi_senderVpa p)) t = Some s"
    and "sql_select_account (c_str (pi_receiverVpa p)) t = Some c"
  shows "accounts (sql_upsert_account (credit p c) (sql_upsert_account (debit p s) t)) =
    map (\<lambda>a. if vpa a = c_str (pi_receiverVpa p) then credit p a
             else if vpa a = c_str (pi_senderVpa p) then debit p a else a) (accounts t)"
proof -
  have vs: "vpa (debit p s) = c_str (pi_senderVpa p)" "vpa (credit p c) = c_str (pi_receiverVpa p)"
    using selected_vpa [OF assms(1,2)] selected_vpa [OF assms(1,3)] by simp_all
  have in1: "vpa (debit p s) \<in> vpa ` set (accounts t)" "vpa (credit p c) \<in> vpa ` set (accounts t)"
    using imageI [OF sql_select_in [OF assms(2)], of vpa] imageI [OF sql_select_in [OF assms(3)], of vpa]
    by (simp_all only: vs sql_select_key [OF assms(2)] sql_select_key [OF assms(3)])
  have keys: "vpa ` set (upd_by vpa x xs) = vpa ` set xs" for x xs
    by (metis list.set_map map_key_upd_by)
  have "accounts (sql_upsert_account (credit p c) (sql_upsert_account (debit p s) t)) =
      upd_by vpa (credit p c) (upd_by vpa (debit p s) (accounts t))"
    using in1 by (simp add: upsert_present keys)
  also have "\<dots> = map (\<lambda>a. if vpa a = c_str (pi_receiverVpa p) then credit p c
             else if vpa a = c_str (pi_senderVpa p) then debit p s else a) (accounts t)"
    using vs by (auto simp: upd_by_def)
  also have "\<dots> = map (\<lambda>a. if vpa a = c_str (pi_receiverVpa p) then credit p a
             else if vpa a = c_str (pi_senderVpa p) then debit p a else a) (accounts t)"
    using selected_unique [OF assms(1,2)] selected_unique [OF assms(1,3)] by (intro map_cong) auto
  finally show ?thesis .
qed

lemma books_ok_settle:
  assumes "accounts_ok t" "books_ok t" "settle_spec p h b n now t = (r, t')"
  shows "books_ok t'"
proof (cases r)
  case (Inl e)
  with assms show ?thesis by (auto dest: settle_spec_Inl)
next
  case (Inr tx)
  with assms(3) have run: "settle_spec p h b n now t = (Inr tx, t')" by simp
  note l = settle_spec_ledger [OF run]
  let ?r = "bind_transaction tx"
  have same: "list_all2 (\<lambda>a' a. vpa a' = vpa a \<and> balance a' = balance a) xs xs" for xs
    by (rule list_all2_refl) simp
  show ?thesis
    using run
  proof (cases rule: settle_spec_cases)
    case (rejected s)
    note k = spec_record_ledger [OF rejected(4)]
    have "ledger_entry v ?r = 0" for v
      using k(4) by (simp add: ledger_entry_def bind_transaction_def c_str_def)
    with same show ?thesis
      by (intro books_ok_step [OF assms(2) l(1)]) (simp add: k(2))
  next
    case (settled s c)
    note k = spec_record_ledger [OF settled(6)]
    have e: "ledger_entry v ?r = (if c_str (pi_receiverVpa p) = v then pi_amount p
        else if c_str (pi_senderVpa p) = v then - pi_amount p else 0)" for v
      using k(4) l(4-6) by (simp add: ledger_entry_def bind_transaction_def c_str_def)
    have nn: "no_nul (vpa a)" if "a \<in> set (accounts t)" for a
      using assms(1) that by (auto simp: accounts_ok_def account_ok_def list_all_iff)
    show ?thesis
      by (rule books_ok_step [OF assms(2) l(1)])
        (use nn in \<open>auto simp: k(2) settled_accounts [OF assms(1) settled(1,2)] e list_all2_conv_all_nth\<close>)
  qed
qed

section \<open>Reachable states\<close>

text \<open>
  The server from its start on, while no SQLite call fails and the requests are handled one at a
  time: any request to any route, with any body, clock, random draws, identifiers and iteration
  order, and passes of the evictor thread in between. A request that leaves the language ends
  the run. With a failing call or two requests at once the books can go wrong: \<open>Settlement\<close> and
  \<open>Concurrency\<close> have such runs.
\<close>

definition defined_res :: "'a res \<Rightarrow> bool" where
  "defined_res r = (case r of Inl e \<Rightarrow> \<not> is_undefined e | Inr x \<Rightarrow> True)"

definition good_env :: "env \<Rightarrow> bool" where
  "good_env V \<longleftrightarrow> healthy (env_engine V) \<and> iter_ok (env_iter V)"

inductive reachable_healthy :: "app \<Rightarrow> bool" where
  started: "healthy E \<Longrightarrow> start ssl E = Inr A \<Longrightarrow> reachable_healthy A"
| request: "reachable_healthy A \<Longrightarrow> good_env V \<Longrightarrow> handle route V req A = (r, A') \<Longrightarrow> defined_res r \<Longrightarrow> reachable_healthy A'"
| evicted: "reachable_healthy A \<Longrightarrow>
    reachable_healthy (A\<lparr>app_services := (app_services A)\<lparr>svc_seen := evictExpired ws (svc_seen (app_services A))\<rparr>\<rparr>)"

abbreviation db_of :: "app \<Rightarrow> tables" where
  "db_of A \<equiv> cur (svc_db (app_services A))"

definition shape :: "mesh \<Rightarrow> (string \<times> bool) list" where
  "shape m = map (\<lambda>(k, d). (k, hasInternet d)) m"

definition app_ok :: "app \<Rightarrow> bool" where
  "app_ok A \<longleftrightarrow> services_ok (app_services A) \<and> seen_ok (svc_seen (app_services A)) \<and>
     books_ok (db_of A) \<and> mesh_ok (app_mesh A) \<and> shape (app_mesh A) = shape default_devices"

lemma ingest_books:
  assumes "healthy E" "services_ok sv" "seen_ok (svc_seen sv)" "books_ok (cur (svc_db sv))"
    and "ingest ssl key E clk packet bridge hops sv = (r, sv')"
  shows "services_ok sv' \<and> seen_ok (svc_seen sv') \<and> books_ok (cur (svc_db sv'))"
proof -
  have "books_ok (cur (svc_db sv'))"
    using assms(1,2,5)
  proof (cases rule: ingest_cases)
    case kept
    with assms(4) show ?thesis by simp
  next
    case (recorded h p tx)
    then show ?thesis
      using books_ok_settle [OF _ assms(4)] assms(2) by (auto simp: services_ok_def tables_ok_def)
  qed
  moreover have "seen_ok (svc_seen sv')"
    using assms(3,5) seen_ok_claim [OF assms(3), of "clk 0"]
    by (auto simp: ingest_def split: sum.splits prod.splits bool.splits) (metis snd_conv)+
  ultimately show ?thesis using ingest_step(1) [OF assms(1,2,5)] by simp
qed

lemma flush_books:
  assumes "healthy (env_engine V)" "services_ok sv" "seen_ok (svc_seen sv)" "books_ok (cur (svc_db sv))"
    and "flush_uploads V key k ups sv = (r, sv')"
  shows "services_ok sv' \<and> seen_ok (svc_seen sv') \<and> books_ok (cur (svc_db sv'))"
  using assms
proof (induction V key k ups sv arbitrary: r rule: flush_uploads.induct)
  case (2 V key k up ups sv)
  show ?case
  proof (cases "int_sub 5 (ttl (snd up))")
    case (Inl e)
    with 2 show ?thesis by simp
  next
    case (Inr hc)
    obtain q sv1 where i: "ingest (env_ssl V) key (env_engine V) (\<lambda>i. env_clock V (8 * k + i)) (snd up)
        (fst up) hc sv = (q, sv1)" by fastforce
    note ok = ingest_books [OF "2.prems"(1-4) i]
    show ?thesis
    proof (cases q)
      case (Inl e)
      with "2.prems"(5) i Inr ok show ?thesis by simp
    next
      case q: (Inr x)
      obtain r2 where "flush_uploads V key (Suc k) ups sv1 = (r2, sv')"
        using "2.prems"(5) i Inr q by (auto split: prod.splits sum.splits)
      from "2.IH" [OF Inr i [symmetric] q "2.prems"(1) _ _ _ this] ok show ?thesis by blast
    qed
  qed
qed simp

lemma Database_reset_ok:
  assumes "healthy E" "saved db = None" "tables_ok (cur db)"
  shows "fst (Database_reset E db) = None" "saved (snd (Database_reset E db)) = None"
    "cur (snd (Database_reset E db)) = seeded_tables\<lparr>seq := seq (cur db)\<rparr>"
  using assms
  by (simp_all add: Database_reset_def execute_def seedAccounts_def sql_seed_def seeded_tables_def list_ex_iff)

lemma shape_at_device: "(\<And>d. hasInternet (f d) = hasInternet d) \<Longrightarrow> shape (at_device k f m) = shape m"
  by (induction m) (auto simp: shape_def at_device_def split: if_splits)

lemma shape_eqI:
  "map fst m' = map fst m \<Longrightarrow> map (hasInternet \<circ> snd) m' = map (hasInternet \<circ> snd) m \<Longrightarrow> shape m' = shape m"
proof -
  have "shape m = zip (map fst m) (map (hasInternet \<circ> snd) m)" for m :: mesh
    by (induction m) (auto simp: shape_def)
  then show "map fst m' = map fst m \<Longrightarrow> map (hasInternet \<circ> snd) m' = map (hasInternet \<circ> snd) m \<Longrightarrow> shape m' = shape m"
    by simp
qed

lemma inject_ok:
  assumes "inject k p m = Inr m'" "mesh_ok m"
  shows "mesh_ok m' \<and> shape m' = shape m"
  using assms
  by (auto simp: inject_def intro: mesh_ok_at_device device_ok_hold shape_at_device split: option.splits)

lemma resetMesh_ok: "mesh_ok m \<Longrightarrow> mesh_ok (resetMesh m) \<and> shape (resetMesh m) = shape m"
  by (auto simp: mesh_ok_def resetMesh_def shape_def clear_device_def device_ok_def list_all_iff
      case_prod_unfold o_def)

lemma findAll_frame:
  assumes "healthy E" "findAll E db = (rows, db')"
  shows "cur db' = cur db \<and> saved db' = saved db"
proof -
  obtain n where "fetch_rows E (accounts (cur db)) (db\<lparr>calls := Suc (calls db)\<rparr>) =
      (accounts (cur db), db\<lparr>calls := Suc (calls db), calls := n\<rparr>)"
    using fetch_rows_healthy [OF assms(1)] by blast
  with assms show ?thesis by (auto simp: findAll_def)
qed

lemma findTop20_frame:
  assumes "healthy E" "findTop20 E db = (r, db')"
  shows "cur db' = cur db \<and> saved db' = saved db"
proof -
  obtain n where "fetch_rows E (sql_top20 (cur db)) (db\<lparr>calls := Suc (calls db)\<rparr>) =
      (sql_top20 (cur db), db\<lparr>calls := Suc (calls db), calls := n\<rparr>)"
    using fetch_rows_healthy [OF assms(1)] by blast
  with assms show ?thesis by (auto simp: findTop20_def)
qed

lemma books_ok_cong: "accounts t = accounts t' \<Longrightarrow> transactions t = transactions t' \<Longrightarrow> books_ok t = books_ok t'"
  by (simp add: books_ok_def net_entries_def)

lemma books_ok_seeded: "books_ok seeded_tables"
  by (simp add: books_ok_def seeded_tables_def net_entries_def list_all2_refl)

lemma app_ok_with_db:
  "app_ok A \<Longrightarrow> cur db = db_of A \<Longrightarrow> saved db = saved (svc_db (app_services A)) \<Longrightarrow> app_ok (with_db db A)"
  by (simp add: app_ok_def with_db_def services_ok_def)

lemma app_ok_services:
  "app_ok A \<Longrightarrow> services_ok sv \<and> seen_ok (svc_seen sv) \<and> books_ok (cur (svc_db sv)) \<Longrightarrow>
     app_ok (A\<lparr>app_services := sv\<rparr>)"
  by (simp add: app_ok_def)

lemma app_ok_mesh: "app_ok A \<Longrightarrow> mesh_ok m \<and> shape m = shape (app_mesh A) \<Longrightarrow> app_ok (A\<lparr>app_mesh := m\<rparr>)"
  by (simp add: app_ok_def)

lemma app_okD:
  assumes "app_ok A"
  shows "services_ok (app_services A)" "seen_ok (svc_seen (app_services A))" "books_ok (db_of A)"
    "mesh_ok (app_mesh A)" "saved (svc_db (app_services A)) = None" "tables_ok (db_of A)"
  using assms by (simp_all add: app_ok_def services_ok_def)

lemma handle_ok:
  assumes "app_ok A" "good_env V" "handle route V req A = (r, A')"
  shows "app_ok A'"
proof -
  have E: "healthy (env_engine V)" and I: "iter_ok (env_iter V)" using assms(2) by (simp_all add: good_env_def)
  note ok = app_okD [OF assms(1)]
  show ?thesis
  proof (cases route)
    case Server_key
    with assms show ?thesis by (simp add: api_getServerKey_def)
  next
    case Demo_send
    with assms(1,3) show ?thesis
      by (auto simp: api_demoSend_def res_bind_Inr dest!: inject_ok [OF _ ok(4)] intro!: app_ok_mesh
          split: option.splits sum.splits bool.splits prod.splits)
  next
    case Mesh_state
    with assms show ?thesis by (simp add: api_meshState_def)
  next
    case Mesh_gossip
    obtain n counts m where g: "gossipOnce (env_iter V) (app_mesh A) = ((n, counts), m)" by (metis prod.exhaust)
    note f = gossip_facts(1-3) [OF ok(4) I g]
    from Mesh_gossip g assms(3) have "A' = A\<lparr>app_mesh := m\<rparr>" by (simp add: api_meshGossip_def)
    with app_ok_mesh [OF assms(1)] f(1) shape_eqI [OF f(2,3)] show ?thesis by simp
  next
    case Mesh_flush
    obtain q sv where f: "flush_uploads V (app_key A) 0 (collectBridgeUploads (env_iter V) (app_mesh A))
        (app_services A) = (q, sv)" by fastforce
    with Mesh_flush assms(3) have "A' = A\<lparr>app_services := sv\<rparr>"
      by (auto simp: api_meshFlush_def Let_def split: sum.splits)
    with app_ok_services [OF assms(1) flush_books [OF E ok(1-3) f]] show ?thesis by simp
  next
    case Mesh_reset
    note d = Database_reset_ok [OF E ok(5,6)]
    have "tables_ok (seeded_tables\<lparr>seq := seq (db_of A)\<rparr>)"
      using seeded_ok ok(6) by (simp add: tables_ok_def accounts_ok_def ledger_ok_def seeded_tables_def)
    moreover have "books_ok (seeded_tables\<lparr>seq := seq (db_of A)\<rparr>)"
      using books_ok_seeded books_ok_cong [of "seeded_tables\<lparr>seq := seq (db_of A)\<rparr>" seeded_tables] by simp
    moreover have "A' = A\<lparr>app_mesh := resetMesh (app_mesh A), app_services :=
        \<lparr>svc_seen = [], svc_db = snd (Database_reset (env_engine V) (svc_db (app_services A)))\<rparr>\<rparr>"
      using Mesh_reset assms(3) by (auto simp: api_meshReset_def seen_clear_def split: prod.splits)
    ultimately show ?thesis
      using d resetMesh_ok [OF ok(4)] assms(1) by (simp add: app_ok_def services_ok_def seen_ok_def)
  next
    case Bridge_ingest
    with assms(1,3) show ?thesis
      by (auto simp: api_bridgeIngest_def dest!: ingest_books [OF E ok(1-3)] intro!: app_ok_services
          split: option.splits sum.splits bool.splits prod.splits)
  next
    case List_accounts
    with assms(1,3) show ?thesis
      by (auto simp: api_listAccounts_def dest!: findAll_frame [OF E] intro!: app_ok_with_db split: prod.splits)
  next
    case List_transactions
    with assms(1,3) show ?thesis
      by (auto simp: api_listTransactions_def dest!: findTop20_frame [OF E] intro!: app_ok_with_db
          split: prod.splits sum.splits)
  qed
qed

lemma start_ok:
  assumes "healthy E" "start ssl E = Inr A"
  shows "app_ok A"
  using assms(2)
  by (auto simp: start_def Database_ctor_healthy [OF assms(1)] res_bind_Inr app_ok_def services_ok_def
      seen_ok_def books_ok_seeded)

lemma reachable_ok: "reachable_healthy A \<Longrightarrow> app_ok A"
proof (induction rule: reachable_healthy.induct)
  case (started E ssl A)
  then show ?case by (rule start_ok)
next
  case (request A V route req r A')
  then show ?case using handle_ok by blast
next
  case (evicted A ws)
  then show ?case by (simp add: app_ok_def services_ok_def seen_ok_evictExpired)
qed
section \<open>A server for the witnesses\<close>

definition demo_env :: env where
  "demo_env = \<lparr>env_ssl = demo_ssl, env_engine = (\<lambda>n. None), env_clock = (\<lambda>n. 5000),
     env_uuid = (\<lambda>n. if n = 0 then ''n-1'' else ''p-1''), env_sha256 = (\<lambda>s. replicate 32 (CHR 0x00)),
     env_random = demo_draw, env_seed = 0, env_iter = rev\<rparr>"

lemma demo_env_good [simp]: "good_env demo_env"
  by (simp add: good_env_def demo_env_def)

definition demo_app :: app where
  "demo_app = \<lparr>app_mesh = default_devices, app_services = demo_services, app_key = ''key''\<rparr>"

lemma demo_simps [simp]: "env_ssl demo_env = demo_ssl" "env_engine demo_env = (\<lambda>n. None)"
  "env_clock demo_env = (\<lambda>n. 5000)" "env_iter demo_env = rev" "app_mesh demo_app = default_devices"
  "app_services demo_app = demo_services" "app_key demo_app = ''key''"
  by (simp_all add: demo_env_def demo_app_def)

lemma demo_app_start: "start demo_ssl (\<lambda>n. None) = Inr demo_app"
  using Database_ctor_healthy [of "\<lambda>n. None"]
  by (simp add: start_def ServerKeyHolder_def demo_ssl_def demo_app_def demo_services_def demo_db_def)

lemma demo_app_reachable: "reachable_healthy demo_app"
  by (rule reachable_healthy.started [OF _ demo_app_start]) simp

text \<open>The upload of a packet over HTTP.\<close>

definition packet_request :: "mesh_packet \<Rightarrow> request" where
  "packet_request p = \<lparr>getJsonObject = Some \<lparr>jv_isMember = (\<lambda>k. Inr True),
      jv_asString = (\<lambda>k. Inr (if k = ''packetId'' then packetId p else ciphertext p)),
      jv_asDouble = (\<lambda>k. Inl (Logic_error ''Value is not convertible to double.'')),
      jv_asInt = (\<lambda>k. Inr (ttl p)), jv_asInt64 = (\<lambda>k. Inr (createdAt p))\<rparr>,
    getHeader = (\<lambda>h. if h = ''X-Hop-Count'' then '' 1'' else ''phone-bridge'')\<rparr>"

lemma stoi_1: "stoi '' 1'' = Inr 1"
  by (simp add: stoi_def c_str_def is_space_def is_dec_def dec_val_def in_i32_def)

lemma packet_request_handled:
  assumes "ingest demo_ssl ''key'' (\<lambda>n. None) (\<lambda>k. 5000) (demo_packet_of s) ''phone-bridge'' 1 demo_services
    = (Inr x, sv')"
  obtains resp where
    "handle Bridge_ingest demo_env (packet_request (demo_packet_of s)) demo_app =
      (Inr resp, demo_app\<lparr>app_services := sv'\<rparr>)"
proof -
  let ?req = "packet_request (demo_packet_of s)"
  define j where "j = the (getJsonObject ?req)"
  have j: "getJsonObject ?req = Some j" by (simp add: j_def packet_request_def)
  have "jv_isMember j = (\<lambda>k. Inr True)" by (simp add: j_def packet_request_def)
  then have m: "missing j [''packetId'', ''ttl'', ''createdAt'', ''ciphertext''] = Inr False" by simp
  have "bridge_upload ?req j = Inr (''phone-bridge'', 1, demo_packet_of s)"
    by (simp add: bridge_upload_def j_def packet_request_def stoi_1 demo_packet_of_def)
  then have "\<exists>resp. handle Bridge_ingest demo_env ?req demo_app = (Inr resp, demo_app\<lparr>app_services := sv'\<rparr>)"
    using assms m by (simp add: api_bridgeIngest_def j del: missing.simps)
  with that show thesis by blast
qed

section \<open>Properties\<close>

text \<open>C1. As long as no SQLite call fails and requests are handled one at a time, the books balance. In
  every state the server can then reach, through any requests in any order with any bodies, every
  account holds its seed balance plus what settled ledger rows brought it minus what they took
  (a payment to oneself brings and does not take), no balance is negative or beyond 64 bits, the ledger holds no hash twice
  and its ids increase, no transaction is open, and the phones are the five of the start.\<close>

theorem server_books_balance:
  assumes "reachable_healthy A"
  shows "books_ok (db_of A) \<and> tables_ok (db_of A) \<and> saved (svc_db (app_services A)) = None \<and>
    mesh_ok (app_mesh A) \<and> shape (app_mesh A) = shape default_devices"
  using reachable_ok [OF assms] by (auto simp: app_ok_def services_ok_def)

theorem server_books_balance_witness:
  "\<exists>s r A. handle Bridge_ingest demo_env (packet_request (demo_packet_of s)) demo_app = (Inr r, A) \<and>
     transactions (db_of A) \<noteq> [] \<and> books_ok (db_of A)"
proof -
  obtain s h where sh: "res_bind (decrypt demo_ssl ''key'' s) payment_from_json =
      Inr (demo_payment\<lparr>pi_signedAt := 1000\<rparr>)" "hashCiphertext demo_ssl s = Inr h"
    by (rule demo_sealed_payment [of 1000]) (simp add: in_i64_def i64_min_def i64_max_def)
  obtain q sv' where i: "ingest demo_ssl ''key'' (\<lambda>n. None) (\<lambda>k. 5000) (demo_packet_of s) ''phone-bridge'' 1
      demo_services = (q, sv')" by fastforce
  with demo_ingest [OF sh] obtain x where x: "q = Inr x" "recorded_for h q"
    by (auto simp: recorded_for_def)
  from i x(1) have "ingest demo_ssl ''key'' (\<lambda>n. None) (\<lambda>k. 5000) (demo_packet_of s) ''phone-bridge'' 1
      demo_services = (Inr x, sv')" by simp
  then obtain resp where req: "handle Bridge_ingest demo_env (packet_request (demo_packet_of s)) demo_app =
      (Inr resp, demo_app\<lparr>app_services := sv'\<rparr>)" by (rule packet_request_handled)
  have "reachable_healthy (demo_app\<lparr>app_services := sv'\<rparr>)"
    by (rule reachable_healthy.request [OF demo_app_reachable demo_env_good req]) (simp add: defined_res_def)
  from server_books_balance [OF this] have "books_ok (cur (svc_db sv'))" by simp
  moreover have "h \<in> ledger_of sv'"
    using ingest_step(2) [OF _ _ i, of h] x(2) by (simp add: of_bool_def split: if_splits)
  then have "transactions (cur (svc_db sv')) \<noteq> []" by (auto simp: ledger_of_def ledger_hashes_def)
  ultimately show ?thesis using req
    by (intro exI [of _ s] exI [of _ resp] exI [of _ "demo_app\<lparr>app_services := sv'\<rparr>"]) simp
qed

text \<open>The time to live in a send request is any \<open>int\<close>, and a flush computes the hop count from it
  without looking: one packet with a time to live below \<open>-2147483642\<close> on a bridge phone makes
  every later flush undefined behaviour as soon as the packet is reached.\<close>

theorem flush_ttl_undefined:
  assumes "collectBridgeUploads (env_iter V) (app_mesh A) = up # ups" "ttl (snd up) < - 2147483642"
  shows "fst (api_meshFlush V req A) = Inl (Undefined ''signed integer overflow'')"
  using assms by (simp add: api_meshFlush_def int_sub_def in_i32_def)

theorem flush_ttl_undefined_witness:
  "\<exists>m. inject ''phone-bridge'' ((demo_packet_of ''c'')\<lparr>ttl := - 2147483648\<rparr>) default_devices = Inr m \<and>
     (\<forall>req. fst (api_meshFlush demo_env req (demo_app\<lparr>app_mesh := m\<rparr>)) =
       Inl (Undefined ''signed integer overflow''))"
proof -
  let ?p = "(demo_packet_of ''c'')\<lparr>ttl := - 2147483648\<rparr>"
  obtain m where m: "inject ''phone-bridge'' ?p default_devices = Inr m"
    by (auto simp: inject_def getDevice_def default_devices_def)
  then have "collectBridgeUploads rev m = [(''phone-bridge'', ?p)]"
    by (auto simp: inject_def getDevice_def default_devices_def at_device_def collectBridgeUploads_def
        new_device_def hold_def getHeldPackets_def)
  then have "fst (api_meshFlush demo_env req (demo_app\<lparr>app_mesh := m\<rparr>)) =
       Inl (Undefined ''signed integer overflow'')" for req
    by (intro flush_ttl_undefined [of _ _ "(''phone-bridge'', ?p)" "[]"]) (simp_all add: demo_packet_of_def)
  with m show ?thesis by blast
qed

end
