(* ===== verification/Journey.thy ===== *)
theory Journey
  imports Api
begin

text \<open>
  The demo of the README from end to end, through the handlers of \<open>ApiController\<close> only: a send request,
  a gossip round, a flush, and the flush repeated.
\<close>

section \<open>The steps\<close>

text \<open>The JSON body of a send request with its four required members and no others.\<close>

definition send_request :: "string \<Rightarrow> string \<Rightarrow> double \<Rightarrow> string \<Rightarrow> request" where
  "send_request s r x pin = \<lparr>getJsonObject = Some \<lparr>
      jv_isMember = (\<lambda>k. Inr (k \<in> {''senderVpa'', ''receiverVpa'', ''amount'', ''pin''})),
      jv_asString = (\<lambda>k. Inr (if k = ''senderVpa'' then s else if k = ''receiverVpa'' then r
         else if k = ''pin'' then pin else [])),
      jv_asDouble = (\<lambda>k. Inr (if k = ''amount'' then x else 0)),
      jv_asInt = (\<lambda>k. Inr 0), jv_asInt64 = (\<lambda>k. Inr 0)\<rparr>,
    getHeader = (\<lambda>h. [])\<rparr>"

definition instruction :: "env \<Rightarrow> string \<Rightarrow> string \<Rightarrow> int \<Rightarrow> string \<Rightarrow> payment" where
  "instruction V s r a pin = \<lparr>pi_senderVpa = s, pi_receiverVpa = r, pi_amount = a,
     pi_pinHash = sha256Hex V pin, pi_nonce = env_uuid V 0, pi_signedAt = env_clock V 0\<rparr>"

text \<open>What an accepted send request leaves behind.\<close>

lemma send_course:
  assumes "api_demoSend V (send_request s r x pin) A = (Inr resp, A')" "statusCode resp = 200"
    and "paise_of_rupees x = Inr a" "app_mesh A = default_devices"
  obtains c where
    "encrypt (env_ssl V) (app_key A) (env_random V) (env_seed V) (payment_to_json (instruction V s r a pin)) = Inr c"
    "A' = A\<lparr>app_mesh := at_device ''phone-alice'' (hold \<lparr>packetId = env_uuid V 1, ttl = 5,
       createdAt = env_clock V 0, ciphertext = c\<rparr>) default_devices\<rparr>"
proof -
  define j where "j = the (getJsonObject (send_request s r x pin))"
  have j: "getJsonObject (send_request s r x pin) = Some j" by (simp add: j_def send_request_def)
  have m: "missing j [''senderVpa'', ''receiverVpa'', ''amount'', ''pin''] = Inr False"
    by (simp add: j_def send_request_def)
  have d: "demo_packet_for V j (app_key A) =
      res_bind (encrypt (env_ssl V) (app_key A) (env_random V) (env_seed V)
          (payment_to_json (instruction V s r a pin))) (\<lambda>c.
        Inr (\<lparr>packetId = env_uuid V 1, ttl = 5, createdAt = env_clock V 0, ciphertext = c\<rparr>, ''phone-alice''))"
    by (simp add: demo_packet_for_def demo_instruction_def instruction_def j_def send_request_def assms(3))
  have "getDevice default_devices ''phone-alice'' \<noteq> None" by (simp add: getDevice_def default_devices_def)
  then obtain dev where dev: "getDevice default_devices ''phone-alice'' = Some dev" by blast
  show thesis
  proof (cases "encrypt (env_ssl V) (app_key A) (env_random V) (env_seed V)
      (payment_to_json (instruction V s r a pin))")
    case (Inl e)
    with assms j m d show thesis
      by (auto simp: api_demoSend_def error_json_def simp del: missing.simps split: if_splits)
  next
    case (Inr c)
    with assms j m d dev show thesis
      by (intro that [of c]) (simp_all add: api_demoSend_def inject_def del: missing.simps)
  qed
qed

lemma iter_single: "iter_ok iter \<Longrightarrow> iter [x] = [x]" "iter_ok iter \<Longrightarrow> iter [] = []"
proof -
  assume "iter_ok iter"
  then have "mset (iter [x]) = {#x#}" "mset (iter []) = {#}" by (simp_all add: iter_ok_def)
  then show "iter [x] = [x]" "iter [] = []" by (simp_all add: mset_single_iff)
qed

text \<open>Every phone holds the packet, all but the sender's with one hop less.\<close>

definition spread :: "mesh_packet \<Rightarrow> mesh" where
  "spread p = map (\<lambda>(k, d). (k, d\<lparr>heldPackets :=
     [(packetId p, if k = ''phone-alice'' then p else p\<lparr>ttl := ttl p - 1\<rparr>)]\<rparr>)) default_devices"

lemma gossip_spreads_one:
  assumes "iter_ok iter" "0 < ttl p"
  shows "snd (gossipOnce iter (at_device ''phone-alice'' (hold p) default_devices)) = spread p"
  using assms
  by (simp add: gossipOnce_def default_devices_def at_device_def hold_def new_device_def getHeldPackets_def
      iter_single gossip_packet_def deliver_def holds_def spread_def Let_def)

lemma spread_uploads:
  assumes "iter_ok iter"
  shows "collectBridgeUploads iter (spread p) = [(''phone-bridge'', p\<lparr>ttl := ttl p - 1\<rparr>)]"
  using assms
  by (simp add: collectBridgeUploads_def spread_def default_devices_def new_device_def getHeldPackets_def iter_single)

text \<open>The flush of one packet that opens to a payment the sender can cover.\<close>

lemma flush_one:
  assumes "healthy (env_engine V)" "iter_ok (env_iter V)" "app_mesh A = spread p" "ttl p = 5"
    and "hashCiphertext (env_ssl V) (ciphertext p) = Inr h" "map_of (svc_seen (app_services A)) h = None"
    and "res_bind (decrypt (env_ssl V) (app_key A) (ciphertext p)) payment_from_json = Inr q"
    and "in_i64 (env_clock V 1 - pi_signedAt q)" "fresh (env_clock V 1) (pi_signedAt q)"
    and "saved (svc_db (app_services A)) = None" "accounts_ok (db_of A)"
    and "settle_spec q h ''phone-bridge'' 1 (env_clock V 2) (db_of A) = (Inr tx, t)"
  shows "\<exists>resp A'. api_meshFlush V req A = (Inr resp, A') \<and> app_mesh A' = spread p \<and>
    db_of A' = t \<and> svc_seen (app_services A') = (h, env_clock V 0) # svc_seen (app_services A)"
proof -
  define clk where "clk = (\<lambda>i. env_clock V (8 * 0 + i))"
  have clk: "clk i = env_clock V i" for i by (simp add: clk_def)
  note s = healthy_settle [OF assms(1,10,11), of "\<lambda>k. clk (Suc k)" q h "''phone-bridge''" 1]
  obtain db where db: "settle (env_engine V) (\<lambda>k. clk (Suc k)) q h ''phone-bridge'' 1 (svc_db (app_services A)) = (Inr tx, db)"
    "cur db = t" using s assms(12) by (simp add: clk prod_eq_iff numeral_2_eq_2)
  have "ingest (env_ssl V) (app_key A) (env_engine V) clk (p\<lparr>ttl := 4\<rparr>) ''phone-bridge'' 1 (app_services A) =
      (Inr \<lparr>ir_outcome = statusToString (tx_status tx), ir_packetHash = h, ir_reason = [],
                   ir_transactionId = Some (tx_id tx)\<rparr>,
       \<lparr>svc_seen = (h, env_clock V 0) # svc_seen (app_services A), svc_db = db\<rparr>)"
    using ingest_opened(4) [of "env_ssl V" "p\<lparr>ttl := 4\<rparr>" h "app_services A" "app_key A" q clk] assms(5-9) db(1)
    by (simp add: clk)
  then show ?thesis
    using spread_uploads [OF assms(2), of p] assms(3,4) db(2)
    by (simp add: api_meshFlush_def int_sub_def in_i32_def clk_def)
qed

lemma flush_again:
  assumes "iter_ok (env_iter V)" "app_mesh A = spread p" "ttl p = 5"
    and "hashCiphertext (env_ssl V) (ciphertext p) = Inr h" "map_of (svc_seen (app_services A)) h = Some k"
  shows "snd (api_meshFlush V req A) = A"
  using spread_uploads [OF assms(1), of p] assms(2-5)
  by (simp add: api_meshFlush_def int_sub_def in_i32_def ingest_def claim_def)

lemma started:
  assumes "healthy E" "start ssl E = Inr A"
  shows "app_mesh A = default_devices" "svc_seen (app_services A) = []" "db_of A = seeded_tables"
    "saved (svc_db (app_services A)) = None"
  using assms by (auto simp: start_def Database_ctor_healthy res_bind_Inr)

text \<open>From the send request to the end of the gossip round.\<close>

lemma carried:
  assumes "handle Demo_send V1 (send_request s r x pin) A = (Inr resp, A1)" "statusCode resp = 200"
    and "handle Mesh_gossip V2 req2 A1 = (resp2, A2)" "iter_ok (env_iter V2)"
    and "paise_of_rupees x = Inr a" "app_mesh A = default_devices"
  obtains p where "A2 = A\<lparr>app_mesh := spread p\<rparr>" "ttl p = 5"
    "encrypt (env_ssl V1) (app_key A) (env_random V1) (env_seed V1)
       (payment_to_json (instruction V1 s r a pin)) = Inr (ciphertext p)"
proof -
  obtain c where c: "encrypt (env_ssl V1) (app_key A) (env_random V1) (env_seed V1)
       (payment_to_json (instruction V1 s r a pin)) = Inr c"
    "A1 = A\<lparr>app_mesh := at_device ''phone-alice'' (hold \<lparr>packetId = env_uuid V1 1, ttl = 5,
       createdAt = env_clock V1 0, ciphertext = c\<rparr>) default_devices\<rparr>"
    using send_course [OF assms(1) [unfolded handle.simps] assms(2,5,6)] by metis
  define p where "p = \<lparr>packetId = env_uuid V1 1, ttl = 5, createdAt = env_clock V1 0, ciphertext = c\<rparr>"
  have p: "ttl p = 5" "ciphertext p = c" by (simp_all add: p_def)
  have "A2 = A\<lparr>app_mesh := spread p\<rparr>"
    using assms(3) c(2) [folded p_def] gossip_spreads_one [OF assms(4), of p] p(1)
    by (auto simp: api_meshGossip_def split: prod.splits)
  with p c(1) that show thesis by simp
qed

section \<open>The first payment of a new server\<close>

definition balance_of :: "string \<Rightarrow> app \<Rightarrow> int option" where
  "balance_of v A = map_option balance (sql_select_account v (db_of A))"

lemma seeded_balance:
  assumes "sql_select_account v seeded_tables = Some a"
  shows "0 \<le> balance a \<and> balance a \<le> 500000"
proof -
  have "a \<in> set (accounts seeded_tables)"
    using assms by (auto simp: sql_select_account_def find_Some_iff)
  moreover have "\<forall>a \<in> set (accounts seeded_tables). 0 \<le> balance a \<and> balance a \<le> 500000"
    by (simp add: seeded_tables_def seed_rows_def)
  ultimately show ?thesis by blast
qed

lemma first_payment:
  assumes "sql_select_account (c_str (pi_senderVpa q)) seeded_tables = Some s"
    and "sql_select_account (c_str (pi_receiverVpa q)) seeded_tables = Some c"
    and "0 < pi_amount q" "pi_amount q \<le> balance s" "c_str (pi_senderVpa q) \<noteq> c_str (pi_receiverVpa q)"
  obtains tx t where "settle_spec q h bridge hops now seeded_tables = (Inr tx, t)"
    "map_option balance (sql_select_account (c_str (pi_senderVpa q)) t) = Some (balance s - pi_amount q)"
    "map_option balance (sql_select_account (c_str (pi_receiverVpa q)) t) = Some (balance c + pi_amount q)"
    "\<exists>row. transactions t = [row] \<and> row_status row = ''SETTLED'' \<and> row_amount row = pi_amount q"
proof -
  define t where "t = sql_upsert_account (credit q c) (sql_upsert_account (debit q s) seeded_tables)"
  have "in_i64 (balance c + pi_amount q)"
    using seeded_balance [OF assms(1)] seeded_balance [OF assms(2)] assms(3,4)
    by (simp add: in_i64_def i64_min_def i64_max_def)
  moreover have "transactions t = []" "seq t = 0" by (simp_all add: t_def)
  ultimately have run: "settle_spec q h bridge hops now seeded_tables =
      (Inr ((settlement_tx q h bridge hops now SETTLED)\<lparr>tx_id := 1\<rparr>),
       t\<lparr>transactions := [(bind_transaction (settlement_tx q h bridge hops now SETTLED))\<lparr>row_id := 1\<rparr>], seq := 1\<rparr>)"
    using assms by (simp add: settle_spec_def spec_record_def sql_insert_transaction_def i64_max_def flip: t_def)
  have sel: "sql_select_account v (t0\<lparr>transactions := rows, seq := n\<rparr>) = sql_select_account v t0" for v rows n t0
    by (simp add: sql_select_account_def)
  have vpas: "vpa s = c_str (pi_senderVpa q)" "vpa c = c_str (pi_receiverVpa q)"
    using acc.select_key assms(1,2) by blast+
  show thesis
    by (rule that [OF run])
      (use assms(5) vpas in \<open>simp_all add: sel t_def acc.select_upsert debit_def credit_def
        bind_transaction_def settlement_tx_def c_str_def\<close>)
qed

section \<open>Property\<close>

text \<open>C2. A payment made without a network arrives. In a freshly started server whose database does not
  fail and whose OpenSSL behaves as documented, a phone seals a payment of any positive amount the
  sender can cover to any other account; one gossip round and one flush later, within the age
  window, the sender has lost exactly the amount, the receiver has gained it, the ledger holds the
  one settled row, and flushing again changes nothing at all.\<close>

theorem payment_travels:
  assumes server: "healthy E" "start ssl E = Inr A"
    and library: "openssl_ok ssl (app_key A)" "\<forall>c. \<exists>h. hashCiphertext ssl c = Inr h"
      "\<forall>k. env_random V1 0 = Some k \<longrightarrow> length k = AES_KEY_BYTES"
      "\<forall>iv. env_random V1 1 = Some iv \<longrightarrow> length iv = GCM_IV_BYTES"
    and envs: "\<forall>V \<in> {V1, V2, V3, V4}. good_env V \<and> env_ssl V = ssl"
    and payment: "paise_of_rupees x = Inr a" "0 < a" "a \<le> balance f" "c_str s \<noteq> c_str r"
      "sql_select_account (c_str s) (db_of A) = Some f" "sql_select_account (c_str r) (db_of A) = Some g"
    and clock: "in_i64 (env_clock V1 0)" "in_i64 (env_clock V3 1 - env_clock V1 0)"
      "fresh (env_clock V3 1) (env_clock V1 0)"
    and run: "handle Demo_send V1 (send_request s r x pin) A = (Inr resp, A1)" "statusCode resp = 200"
      "handle Mesh_gossip V2 req2 A1 = (resp2, A2)" "handle Mesh_flush V3 req3 A2 = (resp3, A3)"
      "handle Mesh_flush V4 req4 A3 = (resp4, A4)"
  shows "balance_of (c_str s) A3 = Some (balance f - a) \<and> balance_of (c_str r) A3 = Some (balance g + a) \<and>
    (\<exists>row. transactions (db_of A3) = [row] \<and> row_status row = ''SETTLED'' \<and> row_amount row = a) \<and> A4 = A3"
proof -
  note A = started [OF server]
  let ?q = "instruction V1 s r a pin"
  have q: "pi_senderVpa ?q = s" "pi_receiverVpa ?q = r" "pi_amount ?q = a" "pi_signedAt ?q = env_clock V1 0"
    by (simp_all add: instruction_def)
  have ssl: "env_ssl V1 = ssl" "env_ssl V3 = ssl" "env_ssl V4 = ssl"
    and ok: "iter_ok (env_iter V2)" "iter_ok (env_iter V3)" "iter_ok (env_iter V4)" "healthy (env_engine V3)"
    using envs by (simp_all add: good_env_def)
  obtain p where A2: "A2 = A\<lparr>app_mesh := spread p\<rparr>" and p: "ttl p = 5"
    and c: "encrypt ssl (app_key A) (env_random V1) (env_seed V1) (payment_to_json ?q) = Inr (ciphertext p)"
    using carried [OF run(1-3) ok(1) payment(1) A(1)] ssl(1) by metis
  have small: "\<bar>pi_amount ?q\<bar> < 2 ^ 51"
    using payment(2,3,5) seeded_balance [of "c_str s" f] A(3) by (simp add: q)
  have opened: "res_bind (decrypt ssl (app_key A) (ciphertext p)) payment_from_json = Inr ?q"
    by (rule sealed_opens [OF library(1,3,4) small _ c]) (use clock(1) q in simp)
  obtain h where h: "hashCiphertext ssl (ciphertext p) = Inr h" using library(2) by blast
  obtain tx t where t: "settle_spec ?q h ''phone-bridge'' 1 (env_clock V3 2) seeded_tables = (Inr tx, t)"
    "map_option balance (sql_select_account (c_str s) t) = Some (balance f - a)"
    "map_option balance (sql_select_account (c_str r) t) = Some (balance g + a)"
    "\<exists>row. transactions t = [row] \<and> row_status row = ''SETTLED'' \<and> row_amount row = a"
    using first_payment [of ?q f g h "''phone-bridge''" 1 "env_clock V3 2"] payment(2-6) A(3) by (auto simp: q)
  obtain resp3' A3' where f: "api_meshFlush V3 req3 A2 = (Inr resp3', A3')" "app_mesh A3' = spread p"
    "db_of A3' = t" "svc_seen (app_services A3') = (h, env_clock V3 0) # svc_seen (app_services A2)"
  proof -
    have "\<exists>resp A'. api_meshFlush V3 req3 A2 = (Inr resp, A') \<and> app_mesh A' = spread p \<and>
      db_of A' = t \<and> svc_seen (app_services A') = (h, env_clock V3 0) # svc_seen (app_services A2)"
      by (rule flush_one [where q = ?q and tx = tx])
        (use ok(2,4) p h opened clock(2,3) t(1) A ssl(2) in \<open>simp_all add: A2 q\<close>)
    with that show thesis by blast
  qed
  then have A3: "A3 = A3'" using run(4) by simp
  have "A4 = A3"
    using run(5) flush_again [of V4 A3 p h "env_clock V3 0" req4] ok(3) f(2,4) p h ssl(3) by (simp add: A3)
  with t(2-4) f(3) show ?thesis by (simp add: balance_of_def A3)
qed

text \<open>123 rupees and 45 paise from Alice to Bob.\<close>

definition demo_send :: request where
  "demo_send = send_request ''alice@demo'' ''bob@demo'' (rupees_of_paise 12345) ''1234''"

lemma demo_paise: "paise_of_rupees (rupees_of_paise 12345) = Inr 12345"
  by (rule paise_rupees_roundtrip') simp

lemma demo_send_accepted:
  obtains resp A1 where "handle Demo_send demo_env demo_send demo_app = (Inr resp, A1)" "statusCode resp = 200"
proof -
  let ?p = "instruction demo_env ''alice@demo'' ''bob@demo'' 12345 ''1234''"
  define j where "j = the (getJsonObject demo_send)"
  have j: "getJsonObject demo_send = Some j" by (simp add: j_def demo_send_def send_request_def)
  have m: "missing j [''senderVpa'', ''receiverVpa'', ''amount'', ''pin''] = Inr False"
    by (simp add: j_def demo_send_def send_request_def)
  have hex: "hex_lower 0 = CHR ''0''" by (simp add: hex_lower_def)
  have zeros: "utf8_ok (concat (replicate n ''00''))" for n by (induction n) simp_all
  then have "utf8_ok (pi_senderVpa ?p) \<and> utf8_ok (pi_receiverVpa ?p) \<and> utf8_ok (pi_pinHash ?p) \<and> utf8_ok (pi_nonce ?p)"
    by (simp add: instruction_def sha256Hex_def demo_env_def hex_byte_def hex)
  moreover have "\<bar>pi_amount ?p\<bar> < 2 ^ 51" "in_i64 (pi_signedAt ?p)"
    by (simp_all add: instruction_def in_i64_def i64_min_def i64_max_def)
  ultimately obtain plain where "json_dump (payment_to_json ?p) = Inr plain" using payment_prints by blast
  then have "\<exists>c. encrypt demo_ssl ''key'' demo_draw 0 (payment_to_json ?p) = Inr c"
    by (simp add: encrypt_def aes_seal_def rsa_seal_def demo_ssl_def demo_draw_def)
  then obtain c where c: "encrypt demo_ssl ''key'' demo_draw 0 (payment_to_json ?p) = Inr c" ..
  have "\<exists>pkt. demo_packet_for demo_env j ''key'' = Inr (pkt, ''phone-alice'')"
    using c by (simp add: demo_packet_for_def demo_instruction_def instruction_def j_def demo_send_def
        send_request_def demo_paise) (simp add: demo_env_def)
  then obtain pkt where pkt: "demo_packet_for demo_env j ''key'' = Inr (pkt, ''phone-alice'')" ..
  have "\<exists>dev. getDevice default_devices ''phone-alice'' = Some dev" by (simp add: getDevice_def default_devices_def)
  then obtain dev where "getDevice default_devices ''phone-alice'' = Some dev" ..
  then have "\<exists>resp A1. handle Demo_send demo_env demo_send demo_app = (Inr resp, A1) \<and> statusCode resp = 200"
    using j m pkt by (simp add: api_demoSend_def inject_def ok_json_def del: missing.simps)
  with that show thesis by blast
qed

theorem payment_travels_witness:
  "\<exists>resp A1 resp2 A2 resp3 A3. handle Demo_send demo_env demo_send demo_app = (Inr resp, A1) \<and>
     handle Mesh_gossip demo_env demo_send A1 = (resp2, A2) \<and>
     handle Mesh_flush demo_env demo_send A2 = (resp3, A3) \<and>
     balance_of ''alice@demo'' A3 = Some 487655 \<and> balance_of ''bob@demo'' A3 = Some 112345"
proof -
  obtain resp A1 where s: "handle Demo_send demo_env demo_send demo_app = (Inr resp, A1)" "statusCode resp = 200"
    by (rule demo_send_accepted)
  obtain resp2 A2 where g: "handle Mesh_gossip demo_env demo_send A1 = (resp2, A2)" by fastforce
  obtain resp3 A3 where f: "handle Mesh_flush demo_env demo_send A2 = (resp3, A3)" by fastforce
  obtain resp4 A4 where r: "handle Mesh_flush demo_env demo_send A3 = (resp4, A4)" by fastforce
  have h: "\<forall>c. \<exists>h. hashCiphertext demo_ssl c = Inr h"
    by (simp add: hashCiphertext_def demo_ssl_def)
  have sel: "\<exists>F. sql_select_account (c_str ''alice@demo'') (db_of demo_app) = Some F \<and> balance F = 500000"
    "\<exists>G. sql_select_account (c_str ''bob@demo'') (db_of demo_app) = Some G \<and> balance G = 100000"
    by (simp_all add: sql_select_account_def seeded_tables_def seed_rows_def c_str_def)
  then obtain F G where F: "sql_select_account (c_str ''alice@demo'') (db_of demo_app) = Some F" "balance F = 500000"
    and G: "sql_select_account (c_str ''bob@demo'') (db_of demo_app) = Some G" "balance G = 100000" by blast
  have "balance_of (c_str ''alice@demo'') A3 = Some (balance F - 12345) \<and>
      balance_of (c_str ''bob@demo'') A3 = Some (balance G + 12345) \<and>
      (\<exists>row. transactions (db_of A3) = [row] \<and> row_status row = ''SETTLED'' \<and> row_amount row = 12345) \<and> A4 = A3"
    by (rule payment_travels [OF _ demo_app_start _ h _ _ _ demo_paise _ _ _ F(1) G(1) _ _ _
        s(1) [unfolded demo_send_def] s(2) g f r])
      (simp_all add: demo_ssl_ok demo_draw_def AES_KEY_BYTES_def GCM_IV_BYTES_def F(2) c_str_def in_i64_def
        i64_min_def i64_max_def fresh_def, simp_all add: demo_env_def demo_draw_def)
  with s g f F(2) G(2) show ?thesis by (auto simp: c_str_def)
qed

end
