(* ===== verification/JsonTyping.thy ===== *)
theory JsonTyping
  imports JsonRoundTrip
begin

text \<open>What \<open>json::parse\<close> can return. The scanner only adds complete UTF-8 sequences to its token buffer, so
  string tokens are well-formed, and number tokens carry a value of their kind; the parser puts
  nothing else into the value it builds. A type invariant of the lexer and of the parser's open
  containers, kept by every step, gives that every parsed value is \<^const>\<open>readable\<close>.\<close>

unbundle bit_operations_syntax

section \<open>Code points and their bytes\<close>

lemma utf8_append: "utf8_ok s \<Longrightarrow> utf8_ok t \<Longrightarrow> utf8_ok (s @ t)"
proof (induction s rule: utf8_ok.induct)
  case (2 c cs)
  show ?case
  proof (cases "of_char c \<le> (0x7F :: nat)")
    case True
    with 2 show ?thesis by simp
  next
    case False
    with 2(3) obtain rs where rs: "utf8_ranges (of_char c) = Some rs" "length rs \<le> length cs"
      "list_all2 in_range rs (take (length rs) cs)" "utf8_ok (drop (length rs) cs)"
      by (auto split: option.splits)
    with "2.IH"(2) [OF False rs(1)] 2(4) False show ?thesis by simp
  qed
qed simp

lemma or_high:
  fixes a x :: nat
  assumes "x < 2 ^ k"
  shows "(a * 2 ^ k) OR x = a * 2 ^ k + x"
proof -
  have "(a * 2 ^ k) AND x = 0"
  proof (rule bit_eqI)
    fix n
    have "\<not> bit x n" if "k \<le> n"
    proof -
      have "x < 2 ^ n" by (rule less_le_trans [OF assms power_increasing [OF that]]) simp
      then show ?thesis by (simp add: bit_iff_odd)
    qed
    then show "bit ((a * 2 ^ k) AND x) n \<longleftrightarrow> bit (0 :: nat) n"
      by (auto simp: bit_and_iff bit_push_bit_iff simp flip: push_bit_eq_mult)
  qed
  then show ?thesis by (rule disjunctive_add_eq_or [symmetric])
qed

lemma six_bits: "(x AND 0x3F) = x mod 64" for x :: nat
proof -
  have m: "(0x3F :: nat) = mask 6" by (simp add: mask_eq_exp_minus_1)
  show ?thesis unfolding m by (simp flip: take_bit_eq_mask add: take_bit_eq_mod)
qed

lemma cont_byte: "0x80 OR (x AND 0x3F) = 0x80 + x mod 64" "(0x80 + x mod 64) mod 256 = 0x80 + x mod 64" for x :: nat
proof -
  have x: "x mod 64 < 64" by simp
  then show "0x80 OR (x AND 0x3F) = 0x80 + x mod 64" using or_high [of "x mod 64" 6 2] by (simp add: six_bits)
  from x have "0x80 + x mod 64 < 256" by linarith
  then show "(0x80 + x mod 64) mod 256 = 0x80 + x mod 64" by (rule mod_less)
qed

lemma cont_range: "in_range (0x80, 0xBF) (char_of (0x80 + x mod 64 :: nat))"
proof -
  have "x mod 64 < 64" by simp
  then show ?thesis by (simp add: in_range_def cont_byte)
qed

lemma utf8_lead:
  assumes "utf8_ranges b = Some rs" "b < 256" "0x80 \<le> b" "list_all2 in_range rs cs"
  shows "utf8_ok (char_of b # cs)"
  using assms list_all2_lengthD [OF assms(4)] by simp

lemma utf8_codepoint:
  assumes "cp < 0xD800 \<or> 0xDFFF < cp \<and> cp \<le> 0x10FFFF"
  shows "utf8_ok (utf8_bytes cp)"
proof -
  consider "cp < 0x80" | "0x80 \<le> cp" "cp \<le> 0x7FF" | "0x800 \<le> cp" "cp \<le> 0xFFFF" | "0x10000 \<le> cp" "cp \<le> 0x10FFFF"
    using assms by linarith
  then show ?thesis
  proof cases
    case 1
    then show ?thesis by (simp add: utf8_bytes_def)
  next
    case 2
    have h: "2 \<le> cp div 64" "cp div 64 < 32"
      using 2 by (simp_all add: less_mult_imp_div_less less_eq_div_iff_mult_less_eq)
    have b: "0xC0 OR drop_bit 6 cp = 0xC0 + cp div 64"
      using or_high [of "cp div 64" 6 3] h by (simp add: drop_bit_eq_div)
    show ?thesis
      using 2 h utf8_lead [of "0xC0 + cp div 64" "[(0x80, 0xBF)]"] cont_range
      by (simp add: utf8_bytes_def b cont_byte(1) ranges_by_interval)
  next
    case 3
    define h m where "h = cp div 4096" and "m = cp div 64 mod 64"
    have hm: "cp div 64 = h * 64 + m" "m < 64" "h < 16"
      using 3 by (simp_all add: h_def m_def less_mult_imp_div_less div_mult2_eq [of cp 64 64, simplified])
    have low: "32 \<le> cp div 64" using 3 by (simp add: less_eq_div_iff_mult_less_eq)
    have b: "0xE0 OR (cp div 4096) = 0xE0 + h"
      using or_high [of h 5 7] hm(3) by (simp add: h_def)
    have t: "utf8_bytes cp = [char_of (0xE0 + h), char_of (0x80 + m), char_of (0x80 + cp mod 64)]"
      using 3 by (simp add: utf8_bytes_def b cont_byte(1) drop_bit_eq_div m_def)
    have m: "(0x80 + m) mod 256 = 0x80 + m" using hm(2) by simp
    have sur: "h = 13 \<Longrightarrow> m < 32" using assms 3 hm by (cases "cp < 0xD800") (auto simp: h_def)
    consider "h = 0" | "1 \<le> h" "h \<le> 12" | "h = 13" | "h = 14" | "h = 15" using hm(3) by linarith
    then show ?thesis
    proof cases
      case 1
      then show ?thesis unfolding t using low hm m cont_range
        by (intro utf8_lead [where rs = "[(0xA0, 0xBF), (0x80, 0xBF)]"]) (simp_all add: ranges_by_interval in_range_def)
    next
      case 2
      then show ?thesis unfolding t using hm m cont_range
        by (intro utf8_lead [where rs = "[(0x80, 0xBF), (0x80, 0xBF)]"]) (simp_all add: ranges_by_interval in_range_def)
    next
      case 3
      then show ?thesis unfolding t using sur m cont_range
        by (intro utf8_lead [where rs = "[(0x80, 0x9F), (0x80, 0xBF)]"]) (simp_all add: ranges_by_interval in_range_def)
    next
      case 4
      then show ?thesis unfolding t using hm m cont_range
        by (intro utf8_lead [where rs = "[(0x80, 0xBF), (0x80, 0xBF)]"]) (simp_all add: ranges_by_interval in_range_def)
    next
      case 5
      then show ?thesis unfolding t using hm m cont_range
        by (intro utf8_lead [where rs = "[(0x80, 0xBF), (0x80, 0xBF)]"]) (simp_all add: ranges_by_interval in_range_def)
    qed
  next
    case 4
    define h m where "h = cp div 262144" and "m = cp div 4096 mod 64"
    have hm: "cp div 4096 = h * 64 + m" "m < 64" "h < 5"
      using 4 by (simp_all add: h_def m_def less_mult_imp_div_less div_mult2_eq [of cp 4096 64, simplified])
    have low: "16 \<le> cp div 4096" "cp div 4096 < 272"
      using 4 by (simp_all add: less_eq_div_iff_mult_less_eq less_mult_imp_div_less)
    have b: "0xF0 OR (cp div 262144) = 0xF0 + h"
      using or_high [of h 4 15] hm(3) by (simp add: h_def)
    have t: "utf8_bytes cp = [char_of (0xF0 + h), char_of (0x80 + m), char_of (0x80 + cp div 64 mod 64), char_of (0x80 + cp mod 64)]"
      using 4 by (simp add: utf8_bytes_def b cont_byte(1) drop_bit_eq_div m_def)
    have m: "(0x80 + m) mod 256 = 0x80 + m" using hm(2) by simp
    consider "h = 0" | "1 \<le> h" "h \<le> 3" | "h = 4" using hm(3) by linarith
    then show ?thesis
    proof cases
      case 1
      then show ?thesis unfolding t using low hm m cont_range
        by (intro utf8_lead [where rs = "[(0x90, 0xBF), (0x80, 0xBF), (0x80, 0xBF)]"]) (simp_all add: ranges_by_interval in_range_def)
    next
      case 2
      then show ?thesis unfolding t using hm m cont_range
        by (intro utf8_lead [where rs = "[(0x80, 0xBF), (0x80, 0xBF), (0x80, 0xBF)]"]) (simp_all add: ranges_by_interval in_range_def)
    next
      case 3
      then show ?thesis unfolding t using low hm m cont_range
        by (intro utf8_lead [where rs = "[(0x80, 0x8F), (0x80, 0xBF), (0x80, 0xBF)]"]) (simp_all add: ranges_by_interval in_range_def)
    qed
  qed
qed

section \<open>What the scanner accepts\<close>

text \<open>Bytes added to the token buffer, well-formed if all went well.\<close>

definition grows :: "lexer \<Rightarrow> lexer \<Rightarrow> bool" where
  "grows l l' \<longleftrightarrow> (\<exists>bs. token_buffer l' = token_buffer l @ bs \<and> utf8_ok bs)"

lemma grows_utf8: "grows l l' \<Longrightarrow> utf8_ok (token_buffer l) \<Longrightarrow> utf8_ok (token_buffer l')"
  by (auto simp: grows_def utf8_append)

lemma grows_adds: "utf8_ok bs \<Longrightarrow> grows l (fold add bs l)" "utf8_ok [c] \<Longrightarrow> grows l (add c l)"
  by (auto simp: grows_def)

lemma get_hex_buffer: "get_hex fs cp l = (r, l') \<Longrightarrow> token_buffer l' = token_buffer l"
  by (induction fs cp l rule: get_hex.induct) (auto simp: Let_def split: option.splits simp del: hex_value.simps)

lemma hex_value_less: "hex_value c = Some d \<Longrightarrow> d < 16"
  by (auto simp: Let_def split: if_splits)

lemma codepoint_less:
  assumes "get_codepoint l = (Some cp, l')"
  shows "cp < 65536"
proof -
  have step: "cp \<le> acc + sum_list (map (\<lambda>f. 15 * 2 ^ f) fs)" if "get_hex fs acc l = (Some cp, l')" for fs acc l
    using that
  proof (induction fs acc l rule: get_hex.induct)
    case (2 factor fs acc l)
    from "2.prems" obtain d where d: "(case current (get l) of None \<Rightarrow> None | Some c \<Rightarrow> hex_value c) = Some d"
      "get_hex fs (acc + push_bit factor d) (get l) = (Some cp, l')"
      by (auto simp: Let_def split: option.splits simp del: hex_value.simps)
    have "d \<le> 15" using d(1) hex_value_less by (fastforce split: option.splits simp del: hex_value.simps)
    then have "push_bit factor d \<le> 15 * 2 ^ factor" by (simp add: push_bit_eq_mult)
    with "2.IH" [OF refl d] show ?case by simp
  qed simp
  from step [OF assms [unfolded get_codepoint_def]] show ?thesis by simp
qed

lemma scan_unicode_grows:
  assumes "scan_unicode l = (True, l')"
  shows "grows l l'"
proof -
  obtain cp1 l1 where 1: "get_codepoint l = (Some cp1, l1)"
    using assms by (auto simp: scan_unicode_def split: option.splits prod.splits)
  have b1: "token_buffer l1 = token_buffer l"
    using 1 unfolding get_codepoint_def by (rule get_hex_buffer)
  show ?thesis
  proof (cases "0xD800 \<le> cp1 \<and> cp1 \<le> 0xDBFF")
    case False
    with assms 1 have "l' = fold add (utf8_bytes cp1) l1" "cp1 < 0xD800 \<or> 0xDFFF < cp1"
      by (auto simp: scan_unicode_def split: if_splits)
    with b1 codepoint_less [OF 1] utf8_codepoint [of cp1] show ?thesis by (auto simp: grows_def)
  next
    case True
    with assms 1 have c: "current (get l1) = Some (CHR 0x5C)" "current (get (get l1)) = Some (CHR ''u'')"
      by (auto simp: scan_unicode_def Let_def split: if_splits)
    obtain cp2 l4 where 2: "get_codepoint (get (get l1)) = (Some cp2, l4)" "0xDC00 \<le> cp2" "cp2 \<le> 0xDFFF"
      and l': "l' = fold add (utf8_bytes (push_bit 10 cp1 + cp2 - 0x35FDC00)) l4"
      using assms 1 True c by (auto simp: scan_unicode_def Let_def split: if_splits option.splits prod.splits)
    have "token_buffer l4 = token_buffer l1"
      using get_hex_buffer [OF 2(1) [unfolded get_codepoint_def]] by simp
    moreover have "0xDFFF < push_bit 10 cp1 + cp2 - 0x35FDC00 \<and> push_bit 10 cp1 + cp2 - 0x35FDC00 \<le> 0x10FFFF"
      using True 2(2,3) by (auto simp: push_bit_eq_mult)
    ultimately show ?thesis using b1 l' utf8_codepoint by (auto simp: grows_def)
  qed
qed

lemma scan_escape_grows:
  assumes "scan_escape l = (True, l')"
  shows "grows l l'"
proof -
  have "grows (get l) l'"
    using assms scan_unicode_grows [of "get l" l'] by (auto simp: scan_escape_def Let_def grows_adds split: if_splits)
  then show ?thesis by (simp add: grows_def)
qed

lemma bytes_in_ranges_grows:
  "bytes_in_ranges rs l = (True, l') \<Longrightarrow> \<exists>bs. token_buffer l' = token_buffer l @ bs \<and> list_all2 in_range rs bs"
proof (induction rs l rule: bytes_in_ranges.induct)
  case (2 lo hi rs l)
  from "2.prems" obtain c where c: "current (get l) = Some c" "lo \<le> of_char c \<and> of_char c \<le> hi"
    and "bytes_in_ranges rs (add c (get l)) = (True, l')"
    by (auto simp: Let_def split: option.splits if_splits)
  with "2.IH" [OF refl c] obtain bs where "token_buffer l' = (token_buffer l @ [c]) @ bs" "list_all2 in_range rs bs"
    by auto
  moreover have "in_range (lo, hi) c" using c(2) by (simp add: in_range_def)
  ultimately show ?case by (intro exI [of _ "c # bs"]) simp
qed simp

lemma next_byte_grows:
  assumes "next_byte_in_range rs l = (True, l')" "current l = Some c"
    and "utf8_ranges (of_char c) = Some rs" "\<not> of_char c \<le> (0x7F :: nat)"
  shows "grows l l'"
proof -
  obtain bs where "token_buffer l' = token_buffer (add_current l) @ bs" "list_all2 in_range rs bs"
    using bytes_in_ranges_grows [OF assms(1) [unfolded next_byte_in_range_def]] by blast
  moreover have "utf8_ok (c # bs)" if "list_all2 in_range rs bs" for bs
    using that assms(3,4) list_all2_lengthD [OF that] by simp
  ultimately show ?thesis using assms(2)
    by (intro grows_def [THEN iffD2] exI [of _ "c # bs"]) (simp add: add_current_def)
qed

lemma scan_string_grows:
  "scan_string_loop l = (Value_string, l') \<Longrightarrow> utf8_ok (token_buffer l) \<Longrightarrow> utf8_ok (token_buffer l')"
proof (induction l rule: scan_string_loop.induct)
  case (1 l0)
  note unf = scan_string_loop.simps [of l0]
  from "1.prems"(1) obtain c where c: "current (get l0) = Some c"
    by (auto simp: unf Let_def split: option.splits)
  consider "c = CHR 0x22" | l1 where "c = CHR 0x5C" "scan_escape (get l0) = (True, l1)"
      "scan_string_loop l1 = (Value_string, l')"
    | "c \<noteq> CHR 0x22" "c \<noteq> CHR 0x5C" "\<not> of_char c \<le> (0x1F :: nat)" "of_char c \<le> (0x7F :: nat)"
      "scan_string_loop (add_current (get l0)) = (Value_string, l')"
    | rs l1 where "c \<noteq> CHR 0x22" "c \<noteq> CHR 0x5C" "\<not> of_char c \<le> (0x1F :: nat)" "\<not> of_char c \<le> (0x7F :: nat)"
      "utf8_ranges (of_char c) = Some rs" "next_byte_in_range rs (get l0) = (True, l1)"
      "scan_string_loop l1 = (Value_string, l')"
    using "1.prems"(1) c
    by (auto simp: unf Let_def split: if_splits option.splits prod.splits bool.splits)
  then show ?case
  proof cases
    case 1
    with "1.prems" c have "l' = get l0" by (simp add: unf Let_def)
    with "1.prems"(2) show ?thesis by simp
  next
    case 2
    from "1.IH"(1) [OF refl c refl _ 2(1) 2(2) [symmetric] refl 2(3)] 2(1)
      grows_utf8 [OF scan_escape_grows [OF 2(2)]] "1.prems"(2) show ?thesis by simp
  next
    case 3
    from "1.IH"(2) [OF refl c refl 3(1-4) 3(5)] 3(4) "1.prems"(2) c show ?thesis
      by (simp add: add_current_def utf8_append)
  next
    case 4
    from "1.IH"(3) [OF refl c refl 4(1-5) 4(6) [symmetric] refl 4(7)]
      grows_utf8 [OF next_byte_grows [OF 4(6) c 4(5,4)]] "1.prems"(2) show ?thesis by simp
  qed
qed

text \<open>The value a token stands for is of its kind.\<close>

definition token_ok :: "token_type \<times> lexer \<Rightarrow> bool" where
  "token_ok r \<longleftrightarrow> (case r of (t, l) \<Rightarrow>
     (t = Value_string \<longrightarrow> utf8_ok (token_buffer l)) \<and>
     (t = Value_integer \<longrightarrow> in_i64 (value_integer l)) \<and>
     (t = Value_unsigned \<longrightarrow> 0 \<le> value_unsigned l \<and> value_unsigned l \<le> u64_max))"

lemma token_ok_other [simp]: "t \<notin> {Value_string, Value_integer, Value_unsigned} \<Longrightarrow> token_ok (t, l)"
  by (auto simp: token_ok_def)

lemma number_done_ok: "token_ok (scan_number_done ty l)"
  by (auto simp: scan_number_done_def token_ok_def Let_def in_i64_def i64_max_def)

lemma number_ok: "token_ok (scan_number_from st ty l)"
proof (induction st ty l rule: scan_number_from.induct)
  case (1 st ty l)
  note unf = scan_number_from.simps [of st ty l]
  show ?case
  proof (cases "num_next st (current (get l))")
    case (Goto st')
    with "1.IH" [OF refl refl Goto] show ?thesis by (simp add: unf Let_def)
  qed (simp_all add: unf Let_def number_done_ok)
qed

lemma string_ok: "token_ok (scan_string l)"
proof -
  obtain t l' where r: "scan_string_loop (reset l) = (t, l')" by fastforce
  then show ?thesis
    using scan_string_error [OF r] scan_string_grows [of "reset l" l'] by (auto simp: scan_string_def token_ok_def)
qed

lemma literal_ok: "ty \<in> {Literal_true, Literal_false, Literal_null} \<Longrightarrow> token_ok (scan_literal cs ty l)"
  by (induction cs ty l rule: scan_literal.induct) (auto simp: token_ok_def Let_def)

lemma scan_token_ok: "token_ok (scan_token l)"
proof (cases "current l")
  case None
  then show ?thesis by (simp add: scan_token_def token_ok_def)
next
  case (Some c)
  then show ?thesis
    by (simp add: scan_token_def literal_ok string_ok scan_number_def number_ok Let_def del: scan_literal.simps)
qed

lemma scan_skip_ok: "token_ok (scan_skip_comments l)"
proof (induction l rule: scan_skip_comments.induct)
  case (1 l)
  note unf = scan_skip_comments.simps [of l]
  show ?case
  proof (cases "ignore_comments l \<and> current l = Some (CHR ''/'')")
    case False
    then have "scan_skip_comments l = scan_token l" by (simp only: unf if_False)
    then show ?thesis by (simp add: scan_token_ok)
  next
    case True
    obtain b l1 where c: "scan_comment l = (b, l1)" by fastforce
    show ?thesis
    proof (cases b)
      case b: True
      with c have c1: "scan_comment l = (True, l1)" by simp
      with "1.IH" [OF True c1 [symmetric] refl] True show ?thesis by (simp add: unf)
    next
      case False
      with True c show ?thesis by (simp add: unf)
    qed
  qed
qed

lemma scan_ok: "token_ok (scan l)"
  by (auto simp: scan_def scan_skip_ok split: prod.splits bool.splits)

section \<open>What the parser builds\<close>

text \<open>Every value in the open containers is readable, every pending key is a string.\<close>

fun frame_ok :: "frame \<Rightarrow> bool" where
  "frame_ok (In_array vs) \<longleftrightarrow> readable_elements vs"
| "frame_ok (In_object ms k) \<longleftrightarrow> obj_ok ms \<and> readable_members ms \<and> utf8_ok k"

definition dom_ok :: "dom \<Rightarrow> bool" where
  "dom_ok d \<longleftrightarrow> readable (root d) \<and> list_all frame_ok (ref_stack d)"

definition parser_ok :: "parser \<Rightarrow> bool" where
  "parser_ok p \<longleftrightarrow> dom_ok (sax p) \<and> token_ok (last_token p, m_lexer p)"

lemma readable_elements_append [simp]:
  "readable_elements (vs @ ws) \<longleftrightarrow> readable_elements vs \<and> readable_elements ws"
  by (induction vs) auto

lemma readable_assign:
  "readable_members ms \<Longrightarrow> utf8_ok k \<Longrightarrow> readable v \<Longrightarrow> readable_members (obj_assign k v ms)"
  by (induction k v ms rule: obj_assign.induct) auto

lemma readable_emplace:
  "readable_members ms \<Longrightarrow> utf8_ok k \<Longrightarrow> readable v \<Longrightarrow> readable_members (obj_emplace k v ms)"
  by (induction k v ms rule: obj_emplace.induct) auto

lemma handle_value_ok: "dom_ok d \<Longrightarrow> readable v \<Longrightarrow> dom_ok (handle_value v d)"
  by (auto simp: dom_ok_def handle_value_def obj_ok_assign readable_assign split: list.splits frame.splits)

lemma start_container_ok: "dom_ok d \<Longrightarrow> dom_ok (start_object d)" "dom_ok d \<Longrightarrow> dom_ok (start_array d)"
  by (auto simp: dom_ok_def start_object_def start_array_def)

lemma dom_key_ok: "dom_ok d \<Longrightarrow> utf8_ok k \<Longrightarrow> dom_ok (dom_key k d)"
  by (auto simp: dom_ok_def dom_key_def obj_ok_emplace readable_emplace split: list.splits frame.splits)

lemma frame_value_ok: "frame_ok f \<Longrightarrow> readable (frame_value f)"
  by (cases f) auto

lemma end_container_ok: "dom_ok d \<Longrightarrow> dom_ok (end_container d)"
  by (cases "ref_stack d") (auto simp: end_container_def dom_ok_def intro!: handle_value_ok [unfolded dom_ok_def] frame_value_ok)

lemma get_token_ok: "dom_ok (sax p) \<Longrightarrow> parser_ok (get_token p)"
  using scan_ok [of "m_lexer p"]
  by (cases "scan (m_lexer p)") (simp add: parser_ok_def get_token_def)

lemma on_sax_ok: "parser_ok p \<Longrightarrow> dom_ok (f (sax p)) \<Longrightarrow> parser_ok (on_sax f p)"
  by (simp add: parser_ok_def)

definition step_ok :: "step \<Rightarrow> bool" where
  "step_ok st \<longleftrightarrow> (case st of Raise e \<Rightarrow> True | Finished p \<Rightarrow> dom_ok (sax p) | Continue b p \<Rightarrow> parser_ok p)"

lemma step_ok_simps [simp]:
  "step_ok (Raise e)" "step_ok (Finished p) \<longleftrightarrow> dom_ok (sax p)" "step_ok (Continue b p) \<longleftrightarrow> parser_ok p"
  by (simp_all add: step_ok_def)

lemma parse_key_ok:
  assumes "parser_ok p" "\<And>q. sax (enter q) = sax q"
  shows "step_ok (parse_key enter p)"
proof (cases "last_token p = Value_string")
  case True
  have "dom_ok (dom_key (token_buffer (m_lexer p)) (sax p))"
    using assms(1) True by (intro dom_key_ok) (simp_all add: parser_ok_def token_ok_def)
  then show ?thesis using True assms(2) by (simp add: parse_key_def Let_def get_token_ok)
qed (simp add: parse_key_def)

lemma value_switch_ok:
  assumes "parser_ok p"
  shows "step_ok (value_switch p)"
proof -
  have leaf: "step_ok (Continue True (on_sax (handle_value v) p))" if "readable v" for v
    using assms that by (simp add: on_sax_ok handle_value_ok parser_ok_def)
  have enter: "parser_ok (get_token (on_sax start_object p))" "parser_ok (get_token (on_sax start_array p))"
  proof -
    have "dom_ok (sax p)" using assms by (simp add: parser_ok_def)
    then show "parser_ok (get_token (on_sax start_object p))" "parser_ok (get_token (on_sax start_array p))"
      by (simp_all add: get_token_ok start_container_ok)
  qed
  have closed: "parser_ok (on_sax end_container q)" if "parser_ok q" for q
    using that by (intro on_sax_ok) (simp_all add: end_container_ok parser_ok_def)
  have t: "token_ok (last_token p, m_lexer p)" using assms by (simp add: parser_ok_def)
  show ?thesis
  proof (cases "last_token p")
    case Begin_object
    then show ?thesis using enter(1) closed
      by (auto simp: value_switch_def Let_def intro: parse_key_ok)
  next
    case Begin_array
    then show ?thesis using enter(2) closed
      by (auto simp: value_switch_def Let_def) (simp add: parser_ok_def)
  qed (use t leaf in \<open>auto simp: value_switch_def Let_def token_ok_def\<close>)
qed

lemma state_eval_ok:
  assumes "dom_ok (sax p)"
  shows "step_ok (state_eval p)"
proof -
  have 1: "parser_ok (get_token p)" "parser_ok (get_token (get_token p))"
    using assms by (simp_all add: get_token_ok)
  have 2: "parser_ok ((on_sax end_container (get_token p))\<lparr>states := ss\<rparr>)" for ss
    using 1(1) end_container_ok [OF assms] by (simp add: parser_ok_def)
  show ?thesis
    using 1 2 assms by (auto simp: state_eval_def Let_def intro: parse_key_ok split: list.splits bool.splits)
qed

lemma loop_ok:
  "parser_ok p \<Longrightarrow> sax_parse_loop skip p = Inr p' \<Longrightarrow> dom_ok (sax p')"
proof (induction skip p rule: sax_parse_loop.induct)
  case (1 skip p)
  note unf = sax_parse_loop.simps [of skip p]
  define st where "st = (if skip then Continue True p else value_switch p)"
  have ok: "step_ok st" using value_switch_ok [OF "1.prems"(1)] "1.prems"(1) by (simp add: st_def)
  show ?case
  proof (cases st)
    case (Raise e)
    with "1.prems"(2) show ?thesis by (simp add: unf st_def)
  next
    case (Finished q)
    with "1.prems"(2) ok show ?thesis by (simp add: unf st_def)
  next
    case (Continue b q)
    note q = this
    have okq: "parser_ok q" using ok q by simp
    show ?thesis
    proof (cases b)
      case False
      with q have qF: "st = Continue False q" by simp
      with "1.prems"(2) have "sax_parse_loop False q = Inr p'" by (simp add: unf st_def)
      with "1.IH"(2) [OF qF [unfolded st_def] refl okq] show ?thesis by simp
    next
      case True
      with q have qT: "st = Continue True q" by simp
      have oks: "step_ok (state_eval q)" using okq by (intro state_eval_ok) (simp add: parser_ok_def)
      show ?thesis
      proof (cases "state_eval q")
        case (Raise e)
        with qT "1.prems"(2) show ?thesis by (simp add: unf st_def)
      next
        case (Finished r)
        with qT "1.prems"(2) oks show ?thesis by (simp add: unf st_def)
      next
        case (Continue c r)
        with qT "1.prems"(2) have "sax_parse_loop c r = Inr p'" by (simp add: unf st_def)
        with "1.IH"(1) [OF qT [unfolded st_def] refl Continue] oks Continue show ?thesis by simp
      qed
    qed
  qed
qed

lemma parsed_readable:
  assumes "json_parse s = Inr v"
  shows "readable v"
proof -
  define p where "p = new_parser s False"
  have "parser_ok p" by (simp add: p_def new_parser_def get_token_ok dom_ok_def)
  moreover obtain p1 where "sax_parse_loop False p = Inr p1" "v = root (sax p1)"
    using assms
    by (auto simp: json_parse_def json_parse_with_def parser_parse_def p_def [symmetric] res_bind_Inr Let_def
        split: sum.splits if_splits)
  ultimately show ?thesis using loop_ok by (auto simp: dom_ok_def)
qed

section \<open>Property\<close>

text \<open>C28. What \<open>parse\<close> returns is well-typed, whatever text it is given: strings and keys are UTF-8, the keys of
  an object are distinct and in order, integers lie in the range of the type that holds them,
  doubles are finite, and nothing is binary or discarded. So any parsed value can be printed,
  and the print parses to the same value again, up to the sign a zero was written with.\<close>

theorem json_parse_typed:
  assumes "json_parse s = Inr v"
  shows "readable v \<and> (\<exists>t. json_dump v = Inr t \<and> json_parse t = Inr (canon v))"
  using parsed_readable [OF assms] dump_readable(1) json_parse_dump by (fastforce simp: json_dump_def)

theorem json_parse_typed_witness:
  "json_parse ''[-0,true]'' = Inr (JArray [JInt 0, JBool True]) \<and>
   (\<exists>t. json_dump (JArray [JInt 0, JBool True]) = Inr t \<and>
      json_parse t = Inr (JArray [JUnsigned 0, JBool True]))"
proof -
  have p: "json_parse ''[-0,true]'' = Inr (JArray [JInt 0, JBool True])"
    by (simp add: run_parser start_array_def end_container_def scan_number_def scan_number_from.simps
        num_next_def is_digit_def is_exp_def scan_number_done_def add_current_def add_def digits_val_def
        u64_max_def i64_min_def Let_def)
  from json_parse_typed [OF p] p show ?thesis by simp
qed

end
