(* ===== verification/JsonAccess.thy ===== *)
theory JsonAccess
  imports JsonParser
begin

text \<open>
  The element access, lookup, capacity and modifier functions of \<open>basic_json\<close>
  (\<open>src/cpp/include/nlohmann/json.hpp\<close>), beside the few of \<open>JsonValue\<close>. A function that returns a
  mutable reference takes the action on the referenced element as an argument: \<open>index_key k f j\<close>
  is \<open>j\<close> after \<open>f\<close> was applied to the element \<open>j[k]\<close>, so an assignment \<open>j[k] = v\<close> is
  \<open>index_key k (put v) j\<close>. A modifier that throws leaves the exception only.
\<close>

section \<open>Type inspection\<close>

datatype value_t =
    Null_type | Object_type | Array_type | String_type | Boolean_type | Number_integer_type
  | Number_unsigned_type | Number_float_type | Binary_type | Discarded_type

fun json_type :: "json \<Rightarrow> value_t" where
  "json_type JNull = Null_type"
| "json_type (JObject ms) = Object_type"
| "json_type (JArray vs) = Array_type"
| "json_type (JString s) = String_type"
| "json_type (JBool b) = Boolean_type"
| "json_type (JInt n) = Number_integer_type"
| "json_type (JUnsigned n) = Number_unsigned_type"
| "json_type (JFloat x) = Number_float_type"
| "json_type (JBinary bs t) = Binary_type"
| "json_type JDiscarded = Discarded_type"

definition is_null :: "json \<Rightarrow> bool" where "is_null j \<longleftrightarrow> json_type j = Null_type"
definition is_boolean :: "json \<Rightarrow> bool" where "is_boolean j \<longleftrightarrow> json_type j = Boolean_type"
definition is_number_integer :: "json \<Rightarrow> bool" where
  "is_number_integer j \<longleftrightarrow> json_type j = Number_integer_type \<or> json_type j = Number_unsigned_type"
definition is_number_unsigned :: "json \<Rightarrow> bool" where
  "is_number_unsigned j \<longleftrightarrow> json_type j = Number_unsigned_type"
definition is_number_float :: "json \<Rightarrow> bool" where "is_number_float j \<longleftrightarrow> json_type j = Number_float_type"
definition is_number :: "json \<Rightarrow> bool" where "is_number j \<longleftrightarrow> is_number_integer j \<or> is_number_float j"
definition is_object :: "json \<Rightarrow> bool" where "is_object j \<longleftrightarrow> json_type j = Object_type"
definition is_array :: "json \<Rightarrow> bool" where "is_array j \<longleftrightarrow> json_type j = Array_type"
definition is_string :: "json \<Rightarrow> bool" where "is_string j \<longleftrightarrow> json_type j = String_type"
definition is_binary :: "json \<Rightarrow> bool" where "is_binary j \<longleftrightarrow> json_type j = Binary_type"
definition is_discarded :: "json \<Rightarrow> bool" where "is_discarded j \<longleftrightarrow> json_type j = Discarded_type"
definition is_primitive :: "json \<Rightarrow> bool" where
  "is_primitive j \<longleftrightarrow> is_null j \<or> is_string j \<or> is_boolean j \<or> is_number j \<or> is_binary j"
definition is_structured :: "json \<Rightarrow> bool" where "is_structured j \<longleftrightarrow> is_array j \<or> is_object j"

lemmas type_defs = is_null_def is_boolean_def is_number_integer_def is_number_unsigned_def
  is_number_float_def is_number_def is_object_def is_array_def is_string_def is_binary_def
  is_discarded_def is_primitive_def is_structured_def

text \<open>Induction that leaves the values without elements to one case.\<close>

lemma json_induct [case_names object array other]:
  assumes "\<And>ms. (\<And>k v. (k, v) \<in> set ms \<Longrightarrow> P v) \<Longrightarrow> P (JObject ms)"
    and "\<And>vs. (\<And>v. v \<in> set vs \<Longrightarrow> P v) \<Longrightarrow> P (JArray vs)"
    and "\<And>j. \<not> is_structured j \<Longrightarrow> P j"
  shows "P j"
proof (induction j)
  case (JObject ms)
  show ?case by (rule assms(1)) (use JObject in fastforce)
next
  case (JArray vs)
  then show ?case by (rule assms(2))
qed (simp_all add: assms(3) type_defs)

section \<open>Element access\<close>

text \<open>Error values of the array accesses.\<close>

definition bad_index :: "nat \<Rightarrow> exn" where
  "bad_index i = out_of_range 401 ''401'' (''array index '' @ dec i @ '' is out of range'')"

definition no_key :: "string \<Rightarrow> exn" where
  "no_key key = out_of_range 403 ''403'' (''key '' @ [CHR 0x27] @ key @ [CHR 0x27] @ '' not found'')"

text \<open>The exceptions of class \<open>out_of_range\<close>.\<close>

fun is_out_of_range :: "exn \<Rightarrow> bool" where
  "is_out_of_range (Json_exception n m) = (400 < n \<and> n < 500)"
| "is_out_of_range e = False"

definition cannot_use :: "nat \<Rightarrow> string \<Rightarrow> string \<Rightarrow> json \<Rightarrow> exn" where
  "cannot_use n num f j = type_error n num (''cannot use '' @ f @ '' with '' @ type_name j)"

fun json_at_index :: "json \<Rightarrow> nat \<Rightarrow> json res" where
  "json_at_index (JArray vs) i = (if i < length vs then Inr (vs ! i) else Inl (bad_index i))"
| "json_at_index j i = Inl (cannot_use 304 ''304'' ''at()'' j)"

text \<open>Assignment through a reference.\<close>

definition put :: "json \<Rightarrow> json \<Rightarrow> json res" where
  "put v old = Inr v"

text \<open>The overloads of \<open>at\<close> that return a mutable reference.\<close>

fun at_key :: "string \<Rightarrow> (json \<Rightarrow> json res) \<Rightarrow> json \<Rightarrow> json res" where
  "at_key k f (JObject ms) =
     (case map_of ms k of
        None \<Rightarrow> Inl (no_key k)
      | Some v \<Rightarrow> res_bind (f v) (\<lambda>w. Inr (JObject (obj_assign k w ms))))"
| "at_key k f j = Inl (cannot_use 304 ''304'' ''at()'' j)"

fun at_index :: "nat \<Rightarrow> (json \<Rightarrow> json res) \<Rightarrow> json \<Rightarrow> json res" where
  "at_index i f (JArray vs) =
     (if i < length vs then res_bind (f (vs ! i)) (\<lambda>w. Inr (JArray (vs[i := w])))
      else Inl (bad_index i))"
| "at_index i f j = Inl (cannot_use 304 ''304'' ''at()'' j)"

text \<open>
  The overloads of \<open>operator[]\<close> that return a mutable reference: null becomes a container, a
  missing key or index is filled with nulls.
\<close>

fun index_key :: "string \<Rightarrow> (json \<Rightarrow> json res) \<Rightarrow> json \<Rightarrow> json res" where
  "index_key k f JNull = res_bind (f JNull) (\<lambda>w. Inr (JObject [(k, w)]))"
| "index_key k f (JObject ms) =
     (let ms' = obj_emplace k JNull ms
      in res_bind (f (the (map_of ms' k))) (\<lambda>w. Inr (JObject (obj_assign k w ms'))))"
| "index_key k f j = Inl (cannot_use 305 ''305'' ''operator[] with a string argument'' j)"

definition resize :: "nat \<Rightarrow> json list \<Rightarrow> json list" where
  "resize n vs = vs @ replicate (n - length vs) JNull"

fun index_array :: "nat \<Rightarrow> (json \<Rightarrow> json res) \<Rightarrow> json list \<Rightarrow> json res" where
  "index_array i f vs =
     (let vs' = (if length vs \<le> i then resize (i + 1) vs else vs)
      in res_bind (f (vs' ! i)) (\<lambda>w. Inr (JArray (vs'[i := w]))))"

fun index_index :: "nat \<Rightarrow> (json \<Rightarrow> json res) \<Rightarrow> json \<Rightarrow> json res" where
  "index_index i f JNull = index_array i f []"
| "index_index i f (JArray vs) = index_array i f vs"
| "index_index i f j = Inl (cannot_use 305 ''305'' ''operator[] with a numeric argument'' j)"

text \<open>
  The overloads on a \<open>const\<close> value do no range check: outside the container there is no
  meaning (a failed assertion for a key, a read past the end for an index).
\<close>

fun const_key :: "json \<Rightarrow> string \<Rightarrow> json res" where
  "const_key (JObject ms) k =
     (case map_of ms k of Some v \<Rightarrow> Inr v | None \<Rightarrow> Inl (Undefined ''operator[] with an absent key''))"
| "const_key j k = Inl (cannot_use 305 ''305'' ''operator[] with a string argument'' j)"

fun const_index :: "json \<Rightarrow> nat \<Rightarrow> json res" where
  "const_index (JArray vs) i =
     (if i < length vs then Inr (vs ! i) else Inl (Undefined ''operator[] past the end''))"
| "const_index j i = Inl (cannot_use 305 ''305'' ''operator[] with a numeric argument'' j)"

text \<open>\<open>value\<close>: the element of a key converted, or a default.\<close>

fun value_or :: "(json \<Rightarrow> 'a res) \<Rightarrow> json \<Rightarrow> string \<Rightarrow> 'a \<Rightarrow> 'a res" where
  "value_or conv (JObject ms) k dflt =
     (case map_of ms k of Some v \<Rightarrow> conv v | None \<Rightarrow> Inr dflt)"
| "value_or conv j k dflt = Inl (cannot_use 306 ''306'' ''value()'' j)"

section \<open>Lookup and capacity\<close>

fun json_find :: "json \<Rightarrow> string \<Rightarrow> json option" where
  "json_find (JObject ms) k = map_of ms k"
| "json_find j k = None"

fun json_count :: "json \<Rightarrow> string \<Rightarrow> nat" where
  "json_count (JObject ms) k = length (filter (\<lambda>m. fst m = k) ms)"
| "json_count j k = 0"

fun json_contains :: "json \<Rightarrow> string \<Rightarrow> bool" where
  "json_contains (JObject ms) k \<longleftrightarrow> map_of ms k \<noteq> None"
| "json_contains j k \<longleftrightarrow> False"

fun json_empty :: "json \<Rightarrow> bool" where
  "json_empty JNull = True"
| "json_empty (JArray vs) = (vs = [])"
| "json_empty (JObject ms) = (ms = [])"
| "json_empty j = False"

fun json_size :: "json \<Rightarrow> nat" where
  "json_size JNull = 0"
| "json_size (JArray vs) = length vs"
| "json_size (JObject ms) = length ms"
| "json_size j = 1"

section \<open>Modifiers\<close>

fun json_clear :: "json \<Rightarrow> json" where
  "json_clear (JInt n) = JInt 0"
| "json_clear (JUnsigned n) = JUnsigned 0"
| "json_clear (JFloat x) = JFloat 0"
| "json_clear (JBool b) = JBool False"
| "json_clear (JString s) = JString []"
| "json_clear (JBinary bs t) = JBinary [] t"
| "json_clear (JArray vs) = JArray []"
| "json_clear (JObject ms) = JObject []"
| "json_clear JNull = JNull"
| "json_clear JDiscarded = JDiscarded"

fun push_back :: "json \<Rightarrow> json \<Rightarrow> json res" where
  "push_back v JNull = Inr (JArray [v])"
| "push_back v (JArray vs) = Inr (JArray (vs @ [v]))"
| "push_back v j = Inl (cannot_use 308 ''308'' ''push_back()'' j)"

fun push_back_member :: "string \<times> json \<Rightarrow> json \<Rightarrow> json res" where
  "push_back_member (k, v) JNull = Inr (JObject [(k, v)])"
| "push_back_member (k, v) (JObject ms) = Inr (JObject (obj_emplace k v ms))"
| "push_back_member (k, v) j = Inl (cannot_use 308 ''308'' ''push_back()'' j)"

fun push_back_init :: "json list \<Rightarrow> json \<Rightarrow> json res" where
  "push_back_init [JString k, v] (JObject ms) = push_back_member (k, v) (JObject ms)"
| "push_back_init vs j = push_back (json_init vs) j"

fun emplace_back :: "json \<Rightarrow> json \<Rightarrow> json res" where
  "emplace_back v JNull = Inr (JArray [v])"
| "emplace_back v (JArray vs) = Inr (JArray (vs @ [v]))"
| "emplace_back v j = Inl (cannot_use 311 ''311'' ''emplace_back()'' j)"

fun emplace :: "string \<Rightarrow> json \<Rightarrow> json \<Rightarrow> (json \<times> bool) res" where
  "emplace k v JNull = Inr (JObject [(k, v)], True)"
| "emplace k v (JObject ms) = Inr (JObject (obj_emplace k v ms), map_of ms k = None)"
| "emplace k v j = Inl (cannot_use 311 ''311'' ''emplace()'' j)"

text \<open>\<open>insert(pos, val)\<close>, the position an iterator into this value's own array.\<close>

fun insert_at :: "nat \<Rightarrow> json \<Rightarrow> json \<Rightarrow> json res" where
  "insert_at i v (JArray vs) =
     (if i \<le> length vs then Inr (JArray (take i vs @ v # drop i vs))
      else Inl (Undefined ''iterator past the end''))"
| "insert_at i v j = Inl (cannot_use 309 ''309'' ''insert()'' j)"

definition obj_erase :: "string \<Rightarrow> (string \<times> json) list \<Rightarrow> (string \<times> json) list" where
  "obj_erase k ms = filter (\<lambda>m. fst m \<noteq> k) ms"

fun erase_key :: "string \<Rightarrow> json \<Rightarrow> (json \<times> nat) res" where
  "erase_key k (JObject ms) =
     (case map_of ms k of
        Some v \<Rightarrow> Inr (JObject (obj_erase k ms), 1)
      | None \<Rightarrow> Inr (JObject ms, 0))"
| "erase_key k j = Inl (cannot_use 307 ''307'' ''erase()'' j)"

fun erase_index :: "nat \<Rightarrow> json \<Rightarrow> json res" where
  "erase_index i (JArray vs) =
     (if length vs \<le> i then Inl (bad_index i) else Inr (JArray (take i vs @ drop (i + 1) vs)))"
| "erase_index i j = Inl (cannot_use 307 ''307'' ''erase()'' j)"

text \<open>
  \<open>update\<close>: the members of one object assigned to another; when objects are merged, a member
  that is an object updates the member of the same key.
\<close>

fun json_update :: "bool \<Rightarrow> json \<Rightarrow> json \<Rightarrow> json res"
and update_members :: "bool \<Rightarrow> (string \<times> json) list \<Rightarrow> (string \<times> json) list \<Rightarrow> (string \<times> json) list res" where
  "json_update merge (JObject ups) JNull =
     res_bind (update_members merge ups []) (\<lambda>ms. Inr (JObject ms))"
| "json_update merge (JObject ups) (JObject ms) =
     res_bind (update_members merge ups ms) (\<lambda>ms. Inr (JObject ms))"
| "json_update merge u j =
     (if is_null j \<or> is_object j then Inl (cannot_use 312 ''312'' ''update()'' u)
      else Inl (cannot_use 312 ''312'' ''update()'' j))"
| "update_members merge [] ms = Inr ms"
| "update_members merge ((k, v) # ups) ms =
     (case (if merge \<and> is_object v then map_of ms k else None) of
        Some old \<Rightarrow> res_bind (json_update True v old) (\<lambda>w. update_members merge ups (obj_assign k w ms))
      | None \<Rightarrow> update_members merge ups (obj_assign k v ms))"

text \<open>The overloads of \<open>swap\<close>: both values after the exchange.\<close>

definition json_swap :: "json \<Rightarrow> json \<Rightarrow> json \<times> json" where
  "json_swap a b = (b, a)"

fun swap_array :: "json list \<Rightarrow> json \<Rightarrow> (json \<times> json list) res" where
  "swap_array vs (JArray ws) = Inr (JArray vs, ws)"
| "swap_array vs j = Inl (cannot_use 310 ''310'' ''swap(array_t&)'' j)"

fun swap_object :: "(string \<times> json) list \<Rightarrow> json \<Rightarrow> (json \<times> (string \<times> json) list) res" where
  "swap_object ms (JObject ns) = Inr (JObject ms, ns)"
| "swap_object ms j = Inl (cannot_use 310 ''310'' ''swap(object_t&)'' j)"

fun swap_string :: "string \<Rightarrow> json \<Rightarrow> (json \<times> string) res" where
  "swap_string s (JString t) = Inr (JString s, t)"
| "swap_string s j = Inl (cannot_use 310 ''310'' ''swap(string_t&)'' j)"

section \<open>Well-formed values\<close>

text \<open>In every object the keys are distinct and in order.\<close>

fun json_ok :: "json \<Rightarrow> bool" where
  "json_ok (JObject ms) \<longleftrightarrow> obj_ok ms \<and> list_all (\<lambda>m. json_ok (snd m)) ms"
| "json_ok (JArray vs) \<longleftrightarrow> list_all json_ok vs"
| "json_ok j \<longleftrightarrow> True"

abbreviation members_ok :: "(string \<times> json) list \<Rightarrow> bool" where
  "members_ok ms \<equiv> list_all (\<lambda>m. json_ok (snd m)) ms"

lemma obj_ok_distinct: "obj_ok ms \<Longrightarrow> distinct (map fst ms)"
  by (induction ms) (auto simp: obj_ok_def)

lemma obj_ok_erase: "obj_ok ms \<Longrightarrow> obj_ok (obj_erase k ms)"
  by (simp add: obj_ok_def obj_erase_def sorted_wrt_map sorted_wrt_filter)

lemma map_of_erase: "map_of (obj_erase k ms) = (map_of ms)(k := None)"
  by (induction ms) (auto simp: obj_erase_def)

lemma members_ok_assign: "members_ok ms \<Longrightarrow> json_ok v \<Longrightarrow> members_ok (obj_assign k v ms)"
  by (induction k v ms rule: obj_assign.induct) auto

lemma members_ok_emplace: "members_ok ms \<Longrightarrow> json_ok v \<Longrightarrow> members_ok (obj_emplace k v ms)"
  by (induction k v ms rule: obj_emplace.induct) auto

lemma members_ok_erase: "members_ok ms \<Longrightarrow> members_ok (obj_erase k ms)"
  by (auto simp: obj_erase_def list_all_iff)

lemma members_ok_lookup: "members_ok ms \<Longrightarrow> map_of ms k = Some v \<Longrightarrow> json_ok v"
  by (auto simp: list_all_iff dest!: map_of_SomeD)

lemma obj_ok_unique:
  assumes "obj_ok ms" "obj_ok ns" "map_of ms = map_of ns"
  shows "ms = ns"
  using assms
proof (induction ms arbitrary: ns)
  case Nil
  then show ?case by (cases ns) (auto simp: fun_eq_iff split: if_splits)
next
  case (Cons m ms)
  obtain k v where m: "m = (k, v)" by (cases m)
  then have "map_of ns k = Some v" using Cons.prems(3) by (auto simp: fun_eq_iff split: if_splits)
  then obtain l w ns' where n: "ns = (l, w) # ns'" by (cases ns) auto
  have least: "\<forall>x \<in> fst ` set ms. str_less k x" "\<forall>x \<in> fst ` set ns'. str_less l x"
    using Cons.prems(1,2) m n by (auto simp: obj_ok_Cons)
  have "k = l"
  proof (rule ccontr)
    assume "k \<noteq> l"
    moreover from Cons.prems(3) m n have "map_of ((k, v) # ms) l = Some w" "map_of ((l, w) # ns') k = Some v"
      by (metis map_of_Cons_code(2) m)+
    ultimately have "map_of ms l \<noteq> None" "map_of ns' k \<noteq> None" by (auto split: if_splits)
    with least str_less_trans [of k l k] show False by (auto simp: map_of_eq_None_iff)
  qed
  have "map_of ms x = map_of ns' x" for x
  proof (cases "x = k")
    case True
    with least \<open>k = l\<close> have "map_of ms x = None" "map_of ns' x = None" by (auto simp: map_of_eq_None_iff)
    then show ?thesis by simp
  next
    case False
    with fun_cong [OF Cons.prems(3), of x] m n \<open>k = l\<close> show ?thesis by simp
  qed
  then have "ms = ns'" using Cons.IH [of ns'] Cons.prems m n by (auto simp: obj_ok_Cons)
  with \<open>map_of ns k = Some v\<close> m n \<open>k = l\<close> show ?case by simp
qed

lemma map_of_emplaced:
  assumes "obj_ok ms"
  shows "map_of (obj_emplace k v ms) k = Some (case map_of ms k of None \<Rightarrow> v | Some w \<Rightarrow> w)"
  using map_of_emplace [OF assms, of k v] by (simp split: option.splits)

lemmas access_ok = obj_ok_assign obj_ok_emplace obj_ok_erase members_ok_assign members_ok_emplace
  members_ok_erase members_ok_lookup

text \<open>An operation keeps values well-formed if what is done through the reference does.\<close>

definition keeps_ok :: "(json \<Rightarrow> json res) \<Rightarrow> bool" where
  "keeps_ok f \<longleftrightarrow> (\<forall>j w. json_ok j \<longrightarrow> f j = Inr w \<longrightarrow> json_ok w)"

lemma keeps_okD: "keeps_ok f \<Longrightarrow> json_ok j \<Longrightarrow> f j = Inr w \<Longrightarrow> json_ok w"
  by (auto simp: keeps_ok_def)

lemma keeps_okI: "(\<And>j w. json_ok j \<Longrightarrow> f j = Inr w \<Longrightarrow> json_ok w) \<Longrightarrow> keeps_ok f"
  by (auto simp: keeps_ok_def)

lemma put_ok: "json_ok v \<Longrightarrow> keeps_ok (put v)"
  by (auto simp: keeps_ok_def put_def)

lemma list_all_update: "list_all P xs \<Longrightarrow> P x \<Longrightarrow> list_all P (xs[i := x])"
  by (auto simp: list_all_iff dest: set_update_subset_insert [THEN subsetD])

lemma at_key_ok:
  assumes "keeps_ok f"
  shows "keeps_ok (at_key k f)"
proof (rule keeps_okI)
  fix j w assume j: "json_ok j" "at_key k f j = Inr w"
  then obtain ms v u where "j = JObject ms" "map_of ms k = Some v" "f v = Inr u" "w = JObject (obj_assign k u ms)"
    by (cases j) (auto simp: res_bind_Inr split: option.splits)
  with j keeps_okD [OF assms, of v u] members_ok_lookup [of ms k v] show "json_ok w"
    by (simp add: obj_ok_assign members_ok_assign)
qed

lemma at_index_ok:
  assumes "keeps_ok f"
  shows "keeps_ok (at_index i f)"
proof (rule keeps_okI)
  fix j w assume j: "json_ok j" "at_index i f j = Inr w"
  then obtain vs u where "j = JArray vs" "i < length vs" "f (vs ! i) = Inr u" "w = JArray (vs[i := u])"
    by (cases j) (auto simp: res_bind_Inr split: if_splits)
  moreover from this j keeps_okD [OF assms, of "vs ! i" u] have "json_ok u" by (simp add: list_all_length)
  ultimately show "json_ok w" using j by (simp add: list_all_update)
qed

lemma index_key_ok:
  assumes "keeps_ok f"
  shows "keeps_ok (index_key k f)"
proof (rule keeps_okI)
  fix j w assume j: "json_ok j" "index_key k f j = Inr w"
  show "json_ok w"
  proof (cases "j = JNull")
    case True
    with j keeps_okD [OF assms, of JNull] show ?thesis by (auto simp: res_bind_Inr obj_ok_Cons)
  next
    case False
    with j obtain ms u where m: "j = JObject ms" "f (the (map_of (obj_emplace k JNull ms) k)) = Inr u"
        "w = JObject (obj_assign k u (obj_emplace k JNull ms))"
      by (cases j) (auto simp: res_bind_Inr Let_def)
    with j have ok: "obj_ok (obj_emplace k JNull ms)" "members_ok (obj_emplace k JNull ms)"
      by (simp_all add: obj_ok_emplace members_ok_emplace)
    with m j map_of_emplaced [of ms k JNull] keeps_okD [OF assms _ m(2)]
      members_ok_lookup [OF ok(2), of k] show ?thesis
      by (auto intro!: obj_ok_assign members_ok_assign)
  qed
qed

lemma index_array_ok:
  assumes "keeps_ok f" "list_all json_ok vs" "index_array i f vs = Inr w"
  shows "json_ok w"
proof -
  define us where "us = (if length vs \<le> i then resize (i + 1) vs else vs)"
  have us: "list_all json_ok us" "i < length us"
    using assms(2) by (auto simp: us_def resize_def list_all_iff)
  from assms(3) obtain u where u: "f (us ! i) = Inr u" "w = JArray (us[i := u])"
    by (auto simp: us_def Let_def res_bind_Inr)
  moreover from this us keeps_okD [OF assms(1), of "us ! i" u] have "json_ok u" by (simp add: list_all_length)
  ultimately show ?thesis using us by (simp add: list_all_update)
qed

lemma index_index_ok: "keeps_ok f \<Longrightarrow> keeps_ok (index_index i f)"
proof (rule keeps_okI)
  fix j w assume "keeps_ok f" "json_ok j" "index_index i f j = Inr w"
  then show "json_ok w" by (cases j) (auto simp del: index_array.simps elim!: index_array_ok)
qed

lemma insert_at_ok: "json_ok v \<Longrightarrow> keeps_ok (insert_at i v)"
proof (rule keeps_okI)
  fix j w assume "json_ok v" "json_ok j" "insert_at i v j = Inr w"
  then show "json_ok w"
    by (cases j) (auto simp: list_all_iff split: if_splits dest!: in_set_takeD in_set_dropD)
qed

lemma push_back_ok: "json_ok v \<Longrightarrow> keeps_ok (push_back v)"
proof (rule keeps_okI)
  fix j w assume "json_ok v" "json_ok j" "push_back v j = Inr w"
  then show "json_ok w" by (cases j) auto
qed

lemma erase_key_ok: "json_ok j \<Longrightarrow> erase_key k j = Inr (w, n) \<Longrightarrow> json_ok w"
  by (cases j) (auto simp: obj_ok_erase members_ok_erase split: option.splits)

lemma erase_index_ok: "keeps_ok (erase_index i)"
proof (rule keeps_okI)
  fix j w assume "json_ok j" "erase_index i j = Inr w"
  then show "json_ok w"
    by (cases j) (auto simp: list_all_iff split: if_splits dest!: in_set_takeD in_set_dropD)
qed

lemma update_ok:
  "json_update merge u j = Inr w \<Longrightarrow> json_ok u \<Longrightarrow> json_ok j \<Longrightarrow> json_ok w"
  "update_members merge ups ms = Inr ns \<Longrightarrow> members_ok ups \<Longrightarrow> obj_ok ms \<and> members_ok ms \<Longrightarrow>
     obj_ok ns \<and> members_ok ns"
proof (induction merge u j and merge ups ms arbitrary: w and ns rule: json_update_update_members.induct)
  case (1 merge ups)
  then show ?case by (auto simp: res_bind_Inr)
next
  case (2 merge ups ms)
  then show ?case by (auto simp: res_bind_Inr)
next
  case (5 merge k v ups ms)
  show ?case
  proof (cases "if merge \<and> is_object v then map_of ms k else None")
    case None
    with 5 show ?thesis by (simp add: obj_ok_assign members_ok_assign)
  next
    case (Some old)
    then have "map_of ms k = Some old" by (simp split: if_splits)
    with 5 have "json_ok old" using members_ok_lookup by blast
    with 5 Some show ?thesis by (auto simp: res_bind_Inr obj_ok_assign members_ok_assign)
  qed
qed (simp_all split: if_splits)

lemma json_init_ok:
  assumes "list_all json_ok vs"
  shows "json_ok (json_init vs)"
proof -
  have emplaced: "json_ok v \<Longrightarrow> is_pair v \<Longrightarrow> obj_ok ms \<and> members_ok ms \<Longrightarrow>
      obj_ok (emplace_pair v ms) \<and> members_ok (emplace_pair v ms)" for v ms
    by (induction v rule: is_pair.induct) (simp_all add: obj_ok_emplace members_ok_emplace)
  have "list_all json_ok vs \<Longrightarrow> list_all is_pair vs \<Longrightarrow> obj_ok ms \<and> members_ok ms \<Longrightarrow>
      obj_ok (fold emplace_pair vs ms) \<and> members_ok (fold emplace_pair vs ms)" for ms
    by (induction vs arbitrary: ms) (simp_all add: emplaced)
  from this [of "[]"] assms show ?thesis by (simp add: json_init_def)
qed

lemmas modifiers_ok = at_key_ok at_index_ok index_key_ok index_index_ok insert_at_ok push_back_ok
  erase_index_ok erase_key_ok update_ok json_init_ok

end
