(* ===== verification/JsonOrder.thy ===== *)
theory JsonOrder
  imports JsonAccess
begin

text \<open>
  Comparison of values: \<open>operator==\<close>, \<open>operator!=\<close> and \<open>operator<=>\<close> of \<open>basic_json\<close>
  (\<open>src/cpp/include/nlohmann/json.hpp\<close>), as compiled for C++20, with the order on the types.
  The comparison of two doubles is the one of IEEE 754, on the bit patterns; containers compare
  element by element, as the standard containers do.
\<close>

section \<open>Orderings\<close>

text \<open>\<open>std::partial_ordering\<close>.\<close>

datatype ordering = Less | Equivalent | Greater | Unordered

fun reverse_ordering :: "ordering \<Rightarrow> ordering" where
  "reverse_ordering Less = Greater"
| "reverse_ordering Greater = Less"
| "reverse_ordering Equivalent = Equivalent"
| "reverse_ordering Unordered = Unordered"

definition compare_int :: "int \<Rightarrow> int \<Rightarrow> ordering" where
  "compare_int a b = (if a < b then Less else if a = b then Equivalent else Greater)"

definition compare_string :: "string \<Rightarrow> string \<Rightarrow> ordering" where
  "compare_string s t = (if str_less s t then Less else if s = t then Equivalent else Greater)"

text \<open>Position of a double that is not a NaN on the number line; both zeros are one position.\<close>

definition double_rank :: "double \<Rightarrow> int" where
  "double_rank x = (if sign_of x then - int (mag_of x) else int (mag_of x))"

definition double_eq :: "double \<Rightarrow> double \<Rightarrow> bool" where
  "double_eq x y \<longleftrightarrow> \<not> is_nan x \<and> \<not> is_nan y \<and> double_rank x = double_rank y"

definition double_compare :: "double \<Rightarrow> double \<Rightarrow> ordering" where
  "double_compare x y =
     (if is_nan x \<or> is_nan y then Unordered else compare_int (double_rank x) (double_rank y))"

section \<open>The order on types\<close>

fun type_rank :: "value_t \<Rightarrow> nat option" where
  "type_rank Null_type = Some 0"
| "type_rank Object_type = Some 3"
| "type_rank Array_type = Some 4"
| "type_rank String_type = Some 5"
| "type_rank Boolean_type = Some 1"
| "type_rank Number_integer_type = Some 2"
| "type_rank Number_unsigned_type = Some 2"
| "type_rank Number_float_type = Some 2"
| "type_rank Binary_type = Some 6"
| "type_rank Discarded_type = None"

definition compare_types :: "value_t \<Rightarrow> value_t \<Rightarrow> ordering" where
  "compare_types a b =
     (case (type_rank a, type_rank b) of
        (Some m, Some n) \<Rightarrow> compare_int (int m) (int n)
      | _ \<Rightarrow> Unordered)"

section \<open>Values\<close>

definition is_nan_value :: "json \<Rightarrow> bool" where
  "is_nan_value j = (case j of JFloat x \<Rightarrow> is_nan x | _ \<Rightarrow> False)"

definition compares_unordered :: "json \<Rightarrow> json \<Rightarrow> bool" where
  "compares_unordered a b \<longleftrightarrow>
     is_nan_value a \<and> is_number b \<or> is_nan_value b \<and> is_number a \<or> is_discarded a \<or> is_discarded b"

fun json_eq :: "json \<Rightarrow> json \<Rightarrow> bool"
and members_eq :: "(string \<times> json) list \<Rightarrow> (string \<times> json) list \<Rightarrow> bool"
and elements_eq :: "json list \<Rightarrow> json list \<Rightarrow> bool" where
  "json_eq (JArray vs) b = (case b of JArray ws \<Rightarrow> elements_eq vs ws | _ \<Rightarrow> False)"
| "json_eq (JObject ms) b = (case b of JObject ns \<Rightarrow> members_eq ms ns | _ \<Rightarrow> False)"
| "json_eq JNull b = (case b of JNull \<Rightarrow> True | _ \<Rightarrow> False)"
| "json_eq (JString s) b = (case b of JString t \<Rightarrow> s = t | _ \<Rightarrow> False)"
| "json_eq (JBool c) b = (case b of JBool d \<Rightarrow> c = d | _ \<Rightarrow> False)"
| "json_eq (JInt m) b =
     (case b of
        JInt n \<Rightarrow> m = n
      | JFloat y \<Rightarrow> double_eq (double_of_int m) y
      | JUnsigned n \<Rightarrow> m = wrap 64 n
      | _ \<Rightarrow> False)"
| "json_eq (JUnsigned m) b =
     (case b of
        JUnsigned n \<Rightarrow> m = n
      | JFloat y \<Rightarrow> double_eq (double_of_int m) y
      | JInt n \<Rightarrow> wrap 64 m = n
      | _ \<Rightarrow> False)"
| "json_eq (JFloat x) b =
     (case b of
        JFloat y \<Rightarrow> double_eq x y
      | JInt n \<Rightarrow> double_eq x (double_of_int n)
      | JUnsigned n \<Rightarrow> double_eq x (double_of_int n)
      | _ \<Rightarrow> False)"
| "json_eq (JBinary bs t) b = (case b of JBinary cs u \<Rightarrow> bs = cs \<and> t = u | _ \<Rightarrow> False)"
| "json_eq JDiscarded b = False"
| "members_eq [] ns = (ns = [])"
| "members_eq ((k, v) # ms) ns =
     (case ns of [] \<Rightarrow> False | (l, w) # ns' \<Rightarrow> k = l \<and> json_eq v w \<and> members_eq ms ns')"
| "elements_eq [] ws = (ws = [])"
| "elements_eq (v # vs) ws = (case ws of [] \<Rightarrow> False | w # ws' \<Rightarrow> json_eq v w \<and> elements_eq vs ws')"

definition json_neq :: "json \<Rightarrow> json \<Rightarrow> bool" where
  "json_neq a b \<longleftrightarrow> (if compares_unordered a b then False else \<not> json_eq a b)"

text \<open>The first component that is not equivalent decides.\<close>

definition and_then :: "ordering \<Rightarrow> ordering \<Rightarrow> ordering" where
  "and_then c d = (if c = Equivalent then d else c)"

fun compare_bytes :: "nat list \<Rightarrow> nat list \<Rightarrow> ordering" where
  "compare_bytes [] [] = Equivalent"
| "compare_bytes [] (c # cs) = Less"
| "compare_bytes (b # bs) [] = Greater"
| "compare_bytes (b # bs) (c # cs) = and_then (compare_int (int b) (int c)) (compare_bytes bs cs)"

text \<open>Values of different types, numbers apart, compare as their types do.\<close>

definition by_type :: "json \<Rightarrow> json \<Rightarrow> ordering" where
  "by_type a b = (if compares_unordered a b then Unordered else compare_types (json_type a) (json_type b))"

fun json_compare :: "json \<Rightarrow> json \<Rightarrow> ordering"
and members_compare :: "(string \<times> json) list \<Rightarrow> (string \<times> json) list \<Rightarrow> ordering"
and elements_compare :: "json list \<Rightarrow> json list \<Rightarrow> ordering" where
  "json_compare (JArray vs) b = (case b of JArray ws \<Rightarrow> elements_compare vs ws | _ \<Rightarrow> by_type (JArray vs) b)"
| "json_compare (JObject ms) b = (case b of JObject ns \<Rightarrow> members_compare ms ns | _ \<Rightarrow> by_type (JObject ms) b)"
| "json_compare JNull b = (case b of JNull \<Rightarrow> Equivalent | _ \<Rightarrow> by_type JNull b)"
| "json_compare (JString s) b = (case b of JString t \<Rightarrow> compare_string s t | _ \<Rightarrow> by_type (JString s) b)"
| "json_compare (JBool c) b =
     (case b of
        JBool d \<Rightarrow> compare_int (if c then 1 else 0) (if d then 1 else 0)
      | _ \<Rightarrow> by_type (JBool c) b)"
| "json_compare (JInt m) b =
     (case b of
        JInt n \<Rightarrow> compare_int m n
      | JFloat y \<Rightarrow> double_compare (double_of_int m) y
      | JUnsigned n \<Rightarrow> compare_int m (wrap 64 n)
      | _ \<Rightarrow> by_type (JInt m) b)"
| "json_compare (JUnsigned m) b =
     (case b of
        JUnsigned n \<Rightarrow> compare_int m n
      | JFloat y \<Rightarrow> double_compare (double_of_int m) y
      | JInt n \<Rightarrow> compare_int (wrap 64 m) n
      | _ \<Rightarrow> by_type (JUnsigned m) b)"
| "json_compare (JFloat x) b =
     (case b of
        JFloat y \<Rightarrow> double_compare x y
      | JInt n \<Rightarrow> double_compare x (double_of_int n)
      | JUnsigned n \<Rightarrow> double_compare x (double_of_int n)
      | _ \<Rightarrow> by_type (JFloat x) b)"
| "json_compare (JBinary bs t) b =
     (case b of JBinary cs u \<Rightarrow> compare_bytes bs cs | _ \<Rightarrow> by_type (JBinary bs t) b)"
| "json_compare JDiscarded b = (case b of JDiscarded \<Rightarrow> Unordered | _ \<Rightarrow> by_type JDiscarded b)"
| "members_compare [] ns = (if ns = [] then Equivalent else Less)"
| "members_compare ((k, v) # ms) ns =
     (case ns of
        [] \<Rightarrow> Greater
      | (l, w) # ns' \<Rightarrow> and_then (compare_string k l) (and_then (json_compare v w) (members_compare ms ns')))"
| "elements_compare [] ws = (if ws = [] then Equivalent else Less)"
| "elements_compare (v # vs) ws =
     (case ws of [] \<Rightarrow> Greater | w # ws' \<Rightarrow> and_then (json_compare v w) (elements_compare vs ws'))"

section \<open>Equality\<close>

lemma double_eq_refl: "double_eq x x \<longleftrightarrow> \<not> is_nan x"
  by (simp add: double_eq_def)

text \<open>Values equal to themselves: no NaN and nothing discarded in them.\<close>

fun ordered :: "json \<Rightarrow> bool" where
  "ordered (JFloat x) \<longleftrightarrow> \<not> is_nan x"
| "ordered JDiscarded \<longleftrightarrow> False"
| "ordered (JArray vs) \<longleftrightarrow> list_all ordered vs"
| "ordered (JObject ms) \<longleftrightarrow> list_all (\<lambda>m. ordered (snd m)) ms"
| "ordered j \<longleftrightarrow> True"

lemma elements_eq_iff: "elements_eq vs ws \<longleftrightarrow> list_all2 json_eq vs ws"
  by (induction vs arbitrary: ws) (auto split: list.splits)

lemma members_eq_iff: "members_eq ms ns \<longleftrightarrow> list_all2 (\<lambda>m n. fst m = fst n \<and> json_eq (snd m) (snd n)) ms ns"
proof (induction ms arbitrary: ns)
  case Nil
  then show ?case by auto
next
  case (Cons m ms)
  then show ?case by (cases m; cases ns) auto
qed

lemma json_eq_refl_iff: "json_eq j j \<longleftrightarrow> ordered j"
proof (induction j rule: json_induct)
  case (object ms)
  then show ?case by (fastforce simp: members_eq_iff list_all2_same list_all_iff)
next
  case (array vs)
  then show ?case by (simp add: elements_eq_iff list_all2_same list_all_iff)
next
  case (other j)
  then show ?case by (cases j) (simp_all add: double_eq_refl type_defs)
qed

section \<open>Ordering\<close>

lemma compare_int_Equivalent [simp]: "compare_int a b = Equivalent \<longleftrightarrow> a = b"
  by (simp add: compare_int_def)

lemma compare_int_reverse: "compare_int b a = reverse_ordering (compare_int a b)"
  by (simp add: compare_int_def)

lemma reverse_and_then: "reverse_ordering (and_then c d) = and_then (reverse_ordering c) (reverse_ordering d)"
  by (cases c) (auto simp: and_then_def)

lemma compare_string_Equivalent [simp]: "compare_string s t = Equivalent \<longleftrightarrow> s = t"
  by (simp add: compare_string_def)

lemma compare_string_reverse: "compare_string t s = reverse_ordering (compare_string s t)"
  using str_less_linear [of s t] str_less_trans [of s t s] by (auto simp: compare_string_def)

lemma compare_bytes_Equivalent [simp]: "compare_bytes bs cs = Equivalent \<longleftrightarrow> bs = cs"
  by (induction bs cs rule: compare_bytes.induct) (auto simp: and_then_def)

lemma compare_bytes_reverse: "compare_bytes cs bs = reverse_ordering (compare_bytes bs cs)"
proof (induction bs cs rule: compare_bytes.induct)
  case (4 b bs c cs)
  then show ?case using compare_int_reverse [of "int c" "int b"] by (simp add: reverse_and_then)
qed simp_all

lemma double_compare_Equivalent [simp]: "double_compare x y = Equivalent \<longleftrightarrow> double_eq x y"
  by (simp add: double_compare_def double_eq_def)

lemma double_compare_reverse: "double_compare y x = reverse_ordering (double_compare x y)"
  using compare_int_reverse [of "double_rank y" "double_rank x"] by (simp add: double_compare_def)

lemma by_type_reverse: "by_type b a = reverse_ordering (by_type a b)"
  by (auto simp: by_type_def compares_unordered_def compare_types_def compare_int_def split: option.splits)

text \<open>Two values of one kind, or two numbers: the comparisons that look at the values.\<close>

definition same_kind :: "json \<Rightarrow> json \<Rightarrow> bool" where
  "same_kind a b \<longleftrightarrow> json_type a = json_type b \<or> is_number a \<and> is_number b"

lemma json_compare_other_kind: "\<not> same_kind a b \<Longrightarrow> json_compare a b = by_type a b"
  by (cases a; cases b) (simp_all add: same_kind_def type_defs)

lemma json_eq_other_kind: "\<not> same_kind a b \<Longrightarrow> \<not> json_eq a b"
  by (cases a; cases b) (simp_all add: same_kind_def type_defs)

lemma by_type_Equivalent: "by_type a b = Equivalent \<Longrightarrow> same_kind a b"
  by (cases a; cases b) (simp_all add: by_type_def compare_types_def same_kind_def type_defs split: if_splits)

text \<open>Only the subtype of a binary value is seen by one comparison and not by the other.\<close>

fun forget_subtypes :: "json \<Rightarrow> json" where
  "forget_subtypes (JBinary bs t) = JBinary bs None"
| "forget_subtypes (JArray vs) = JArray (map forget_subtypes vs)"
| "forget_subtypes (JObject ms) = JObject (map (map_prod id forget_subtypes) ms)"
| "forget_subtypes j = j"

fun binary_free :: "json \<Rightarrow> bool" where
  "binary_free (JBinary bs t) \<longleftrightarrow> False"
| "binary_free (JArray vs) \<longleftrightarrow> list_all binary_free vs"
| "binary_free (JObject ms) \<longleftrightarrow> list_all (\<lambda>m. binary_free (snd m)) ms"
| "binary_free j \<longleftrightarrow> True"

lemma forget_kind [simp]: "json_type (forget_subtypes j) = json_type j" "is_number (forget_subtypes j) = is_number j"
  by (cases j; simp add: type_defs)+

lemma elements_compare_Equivalent:
  "(\<And>v w. v \<in> set vs \<Longrightarrow> json_compare v w = Equivalent \<longleftrightarrow> json_eq (forget_subtypes v) (forget_subtypes w)) \<Longrightarrow>
     elements_compare vs ws = Equivalent \<longleftrightarrow> elements_eq (map forget_subtypes vs) (map forget_subtypes ws)"
  by (induction vs arbitrary: ws) (auto simp: and_then_def split: list.splits)

lemma members_compare_Equivalent:
  "(\<And>k v w. (k, v) \<in> set ms \<Longrightarrow> json_compare v w = Equivalent \<longleftrightarrow> json_eq (forget_subtypes v) (forget_subtypes w)) \<Longrightarrow>
     members_compare ms ns = Equivalent \<longleftrightarrow>
       members_eq (map (map_prod id forget_subtypes) ms) (map (map_prod id forget_subtypes) ns)"
proof (induction ms arbitrary: ns)
  case (Cons m ms)
  show ?case
  proof (cases ns)
    case (Cons n ns')
    obtain k v l w where "m = (k, v)" "n = (l, w)" by (meson surj_pair)
    with Cons Cons.IH [of ns'] Cons.prems show ?thesis by (auto simp: and_then_def)
  qed (cases m; simp)
qed simp

lemma compare_Equivalent_iff:
  "json_compare a b = Equivalent \<longleftrightarrow> json_eq (forget_subtypes a) (forget_subtypes b)"
proof (induction a arbitrary: b rule: json_induct)
  case (object ms)
  note m = members_compare_Equivalent [OF object]
  from m by_type_Equivalent [of "JObject ms" b] show ?case by (cases b) (auto simp: same_kind_def type_defs)
next
  case (array vs)
  note e = elements_compare_Equivalent [OF array]
  from e by_type_Equivalent [of "JArray vs" b] show ?case by (cases b) (auto simp: same_kind_def type_defs)
next
  case (other a)
  show ?case
  proof (cases "same_kind a b")
    case False
    then have "\<not> same_kind (forget_subtypes a) (forget_subtypes b)" by (simp add: same_kind_def)
    with False by_type_Equivalent [of a b] show ?thesis by (auto simp: json_compare_other_kind json_eq_other_kind)
  next
    case True
    with other show ?thesis
      by (cases a; cases b) (auto simp: same_kind_def type_defs compare_int_def)
  qed
qed

lemma forget_binary_free: "binary_free j \<Longrightarrow> forget_subtypes j = j"
proof (induction j rule: json_induct)
  case (object ms)
  then have "map_prod id forget_subtypes m = m" if "m \<in> set ms" for m
    using that by (cases m) (auto simp: list_all_iff)
  then have "map (map_prod id forget_subtypes) ms = ms" by (intro map_idI)
  then show ?case by simp
next
  case (array vs)
  then have "map forget_subtypes vs = vs" by (intro map_idI) (simp add: list_all_iff)
  then show ?case by simp
next
  case (other j)
  then show ?case by (cases j) (simp_all add: type_defs)
qed

lemma elements_compare_reverse:
  "(\<And>v w. v \<in> set vs \<Longrightarrow> json_compare w v = reverse_ordering (json_compare v w)) \<Longrightarrow>
     elements_compare ws vs = reverse_ordering (elements_compare vs ws)"
proof (induction vs arbitrary: ws)
  case Nil
  then show ?case by (cases ws) auto
next
  case (Cons v vs)
  then show ?case by (cases ws) (auto simp: reverse_and_then)
qed

lemma members_compare_reverse:
  "(\<And>k v w. (k, v) \<in> set ms \<Longrightarrow> json_compare w v = reverse_ordering (json_compare v w)) \<Longrightarrow>
     members_compare ns ms = reverse_ordering (members_compare ms ns)"
proof (induction ms arbitrary: ns)
  case Nil
  then show ?case by (cases ns) auto
next
  case (Cons m ms)
  show ?case
  proof (cases ns)
    case (Cons n ns')
    obtain k v l w where mn: "m = (k, v)" "n = (l, w)" by (meson surj_pair)
    with Cons.prems have "json_compare w v = reverse_ordering (json_compare v w)" by auto
    moreover have "members_compare ns' ms = reverse_ordering (members_compare ms ns')"
      by (rule Cons.IH) (use Cons.prems in auto)
    ultimately show ?thesis using Cons mn compare_string_reverse [of l k] by (simp add: reverse_and_then)
  qed (cases m; simp)
qed

lemma compare_reverse: "json_compare b a = reverse_ordering (json_compare a b)"
proof (induction a arbitrary: b rule: json_induct)
  case (object ms)
  have "members_compare ns ms = reverse_ordering (members_compare ms ns)" for ns
    by (rule members_compare_reverse) (rule object)
  with by_type_reverse [of b "JObject ms"] show ?case by (cases b) simp_all
next
  case (array vs)
  have "elements_compare ws vs = reverse_ordering (elements_compare vs ws)" for ws
    by (rule elements_compare_reverse) (rule array)
  with by_type_reverse [of b "JArray vs"] show ?case by (cases b) simp_all
next
  case (other a)
  show ?case
  proof (cases "same_kind a b")
    case False
    then have "\<not> same_kind b a" by (auto simp: same_kind_def)
    with False by_type_reverse [of b a] show ?thesis by (simp add: json_compare_other_kind)
  next
    case True
    note rev = compare_int_reverse double_compare_reverse compare_string_reverse compare_bytes_reverse
    from True other show ?thesis
      by (cases a; cases b) (simp_all add: same_kind_def type_defs split del: if_split, (rule rev)+)
  qed
qed

section \<open>Property\<close>

text \<open>C34. The three-way comparison says equivalent exactly where the two values are equal once the
  subtypes of their byte strings are forgotten, which the equality looks at and the ordering
  does not; for values without byte strings that is plain equality. Turning the operands round
  turns the result round.\<close>

theorem comparison_consistent:
  "(json_compare a b = Equivalent \<longleftrightarrow> json_eq (forget_subtypes a) (forget_subtypes b)) \<and>
   (binary_free a \<and> binary_free b \<longrightarrow> (json_compare a b = Equivalent \<longleftrightarrow> json_eq a b)) \<and>
   json_compare b a = reverse_ordering (json_compare a b)"
  by (intro conjI compare_Equivalent_iff compare_reverse) (simp add: compare_Equivalent_iff forget_binary_free)

theorem comparison_consistent_witness:
  "binary_free (JArray [JInt 1, JNull]) \<and>
   json_compare (JArray [JUnsigned 1, JNull]) (JArray [JInt 1, JNull]) = Equivalent"
proof -
  have "binary_free (JArray [JInt 1, JNull])" "binary_free (JArray [JUnsigned 1, JNull])" by simp_all
  moreover have "json_eq (JArray [JUnsigned 1, JNull]) (JArray [JInt 1, JNull])" by (simp add: wrap_def)
  ultimately show ?thesis
    using comparison_consistent [of "JArray [JUnsigned 1, JNull]" "JArray [JInt 1, JNull]"] by blast
qed

text \<open>So two byte strings that differ in their subtype are unequal and equivalent at once.\<close>

lemma unequal_equivalent_bytes:
  "json_compare (JBinary [1] (Some 1)) (JBinary [1] (Some 2)) = Equivalent"
  "\<not> json_eq (JBinary [1] (Some 1)) (JBinary [1] (Some 2))"
  by (simp_all add: and_then_def)

text \<open>An unsigned number is cast to a signed one before it is compared with one: different numbers
  compare as equal.\<close>

lemma equal_unequal_numbers: "json_eq (JUnsigned (2 ^ 64 - 1)) (JInt (-1))"
  by (simp add: wrap_def)

end
