(* ===== verification/JsonPointer.thy ===== *)
theory JsonPointer
  imports JsonAccess JsonNumbers
begin

text \<open>
  The class \<open>json_pointer\<close> of \<open>src/cpp/include/nlohmann/json.hpp\<close> (RFC 6901): text form and
  reference tokens, the four ways to follow a pointer into a value, \<open>flatten\<close> and
  \<open>unflatten\<close>. A pointer is its list of reference tokens. As in \<open>JsonAccess\<close>, following a pointer
  to a mutable reference takes the action on the element found.
\<close>

section \<open>Escaping\<close>

function replace_substring :: "string \<Rightarrow> string \<Rightarrow> string \<Rightarrow> string" where
  "replace_substring f t [] = []"
| "replace_substring f t (c # cs) =
     (if f \<noteq> [] \<and> take (length f) (c # cs) = f
      then t @ replace_substring f t (drop (length f) (c # cs))
      else c # replace_substring f t cs)"
  by pat_completeness auto

termination
  by (relation "measure (\<lambda>(f, t, s). length s)") auto

definition escape :: "string \<Rightarrow> string" where
  "escape s = replace_substring ''/'' ''~1'' (replace_substring ''~'' ''~0'' s)"

definition unescape :: "string \<Rightarrow> string" where
  "unescape s = replace_substring ''~0'' ''~'' (replace_substring ''~1'' ''/'' s)"

section \<open>Text form\<close>

type_synonym json_pointer = "string list"

definition pointer_error :: "nat \<Rightarrow> string \<Rightarrow> string \<Rightarrow> string \<Rightarrow> exn" where
  "pointer_error n num byte msg =
     Json_exception n (c_str (''[json.exception.parse_error.'' @ num @ ''] parse error'' @ byte @ '': '' @ msg))"

definition in_ticks :: "string \<Rightarrow> string" where
  "in_ticks s = [CHR 0x27] @ s @ [CHR 0x27]"

text \<open>The parts between slashes.\<close>

fun cut_slashes :: "string \<Rightarrow> string \<Rightarrow> string list" where
  "cut_slashes part [] = [part]"
| "cut_slashes part (c # cs) =
     (if c = CHR ''/'' then part # cut_slashes [] cs else cut_slashes (part @ [c]) cs)"

text \<open>Every tilde is followed by 0 or 1.\<close>

fun tildes_ok :: "string \<Rightarrow> bool" where
  "tildes_ok [] = True"
| "tildes_ok (c # cs) =
     ((c = CHR ''~'' \<longrightarrow> (case cs of [] \<Rightarrow> False | d # ds \<Rightarrow> d = CHR ''0'' \<or> d = CHR ''1'')) \<and> tildes_ok cs)"

fun read_tokens :: "string list \<Rightarrow> json_pointer res" where
  "read_tokens [] = Inr []"
| "read_tokens (t # ts) =
     (if \<not> tildes_ok t
      then Inl (pointer_error 108 ''108'' '''' (''escape character '' @ in_ticks ''~'' @ '' must be followed with '' @
             in_ticks ''0'' @ '' or '' @ in_ticks ''1''))
      else res_bind (read_tokens ts) (\<lambda>us. Inr (unescape t # us)))"

fun split :: "string \<Rightarrow> json_pointer res" where
  "split [] = Inr []"
| "split (c # cs) =
     (if c \<noteq> CHR ''/''
      then Inl (pointer_error 107 ''107'' '' at byte 1''
             (''JSON pointer must be empty or begin with '' @ in_ticks ''/'' @ '' - was: '' @ in_ticks (c # cs)))
      else read_tokens (cut_slashes [] cs))"

definition pointer_to_string :: "json_pointer \<Rightarrow> string" where
  "pointer_to_string p = foldl (\<lambda>a b. a @ ''/'' @ escape b) [] p"

section \<open>Tokens\<close>

definition no_parent :: exn where
  "no_parent = out_of_range 405 ''405'' ''JSON pointer has no parent''"

definition pointer_pop_back :: "json_pointer \<Rightarrow> json_pointer res" where
  "pointer_pop_back p = (if p = [] then Inl no_parent else Inr (butlast p))"

definition pointer_back :: "json_pointer \<Rightarrow> string res" where
  "pointer_back p = (if p = [] then Inl no_parent else Inr (last p))"

definition pointer_push_back :: "json_pointer \<Rightarrow> string \<Rightarrow> json_pointer" where
  "pointer_push_back p t = p @ [t]"

definition pointer_append :: "json_pointer \<Rightarrow> json_pointer \<Rightarrow> json_pointer" where
  "pointer_append p q = p @ q"

definition pointer_append_index :: "json_pointer \<Rightarrow> nat \<Rightarrow> json_pointer" where
  "pointer_append_index p i = pointer_push_back p (dec i)"

definition parent_pointer :: "json_pointer \<Rightarrow> json_pointer" where
  "parent_pointer p = (if p = [] then p else butlast p)"

definition pointer_top :: "json_pointer \<Rightarrow> json_pointer res" where
  "pointer_top p = (if p = [] then Inl no_parent else Inr [hd p])"

definition unresolved :: "string \<Rightarrow> exn" where
  "unresolved t = out_of_range 404 ''404'' (''unresolved reference token '' @ in_ticks t)"

definition dash_index :: "nat \<Rightarrow> exn" where
  "dash_index n = out_of_range 402 ''402'' (''array index '' @ in_ticks ''-'' @ '' ('' @ dec n @ '') is out of range'')"

text \<open>
  A token as an array index. The checks before \<open>strtoull\<close> leave no leading blanks or signs
  before digits, so it reads the digits in front, up to \<open>2 ^ 64 - 1\<close>.
\<close>

definition array_index :: "string \<Rightarrow> nat res" where
  "array_index s =
     (if 1 < length s \<and> s ! 0 = CHR ''0''
      then Inl (pointer_error 106 ''106'' '''' (''array index '' @ in_ticks s @ '' must not begin with '' @ in_ticks ''0''))
      else if 1 < length s \<and> \<not> is_digit (s ! 0)
      then Inl (pointer_error 109 ''109'' '''' (''array index '' @ in_ticks s @ '' is not a number''))
      else let ds = takeWhile is_digit s; r = digits_val ds
           in if ds = [] \<or> 2 ^ 64 \<le> r \<or> length ds \<noteq> length s then Inl (unresolved s)
              else if 2 ^ 64 - 1 \<le> r
              then Inl (out_of_range 410 ''410'' (''array index '' @ s @ '' exceeds size_type''))
              else Inr r)"

section \<open>Following a pointer\<close>

text \<open>\<open>get_checked\<close> on a \<open>const\<close> value and to a mutable reference.\<close>

fun get_checked :: "json_pointer \<Rightarrow> json \<Rightarrow> json res" where
  "get_checked [] j = Inr j"
| "get_checked (t # ts) j =
     (case j of
        JObject ms \<Rightarrow> res_bind (json_at j t) (get_checked ts)
      | JArray vs \<Rightarrow>
          (if t = ''-'' then Inl (dash_index (length vs))
           else res_bind (array_index t) (\<lambda>i. res_bind (json_at_index j i) (get_checked ts)))
      | _ \<Rightarrow> Inl (unresolved t))"

fun at_pointer :: "json_pointer \<Rightarrow> (json \<Rightarrow> json res) \<Rightarrow> json \<Rightarrow> json res" where
  "at_pointer [] f j = f j"
| "at_pointer (t # ts) f j =
     (case j of
        JObject ms \<Rightarrow> at_key t (at_pointer ts f) j
      | JArray vs \<Rightarrow>
          (if t = ''-'' then Inl (dash_index (length vs))
           else res_bind (array_index t) (\<lambda>i. at_index i (at_pointer ts f) j))
      | _ \<Rightarrow> Inl (unresolved t))"

text \<open>\<open>get_unchecked\<close>, likewise.\<close>

fun const_pointer :: "json_pointer \<Rightarrow> json \<Rightarrow> json res" where
  "const_pointer [] j = Inr j"
| "const_pointer (t # ts) j =
     (case j of
        JObject ms \<Rightarrow> res_bind (const_key j t) (const_pointer ts)
      | JArray vs \<Rightarrow>
          (if t = ''-'' then Inl (dash_index (length vs))
           else res_bind (array_index t) (\<lambda>i. res_bind (const_index j i) (const_pointer ts)))
      | _ \<Rightarrow> Inl (unresolved t))"

fun index_pointer :: "json_pointer \<Rightarrow> (json \<Rightarrow> json res) \<Rightarrow> json \<Rightarrow> json res" where
  "index_pointer [] f j = f j"
| "index_pointer (t # ts) f j =
     (let j' = (if is_null j then (if list_all is_digit t \<or> t = ''-'' then JArray [] else JObject []) else j)
      in case j' of
           JObject ms \<Rightarrow> index_key t (index_pointer ts f) j'
         | JArray vs \<Rightarrow>
             (if t = ''-'' then index_index (length vs) (index_pointer ts f) j'
              else res_bind (array_index t) (\<lambda>i. index_index i (index_pointer ts f) j'))
         | _ \<Rightarrow> Inl (unresolved t))"

text \<open>\<open>get_and_create\<close>: missing containers are made on the way.\<close>

definition cannot_unflatten :: exn where
  "cannot_unflatten = type_error 313 ''313'' ''invalid value to unflatten''"

fun get_and_create :: "json_pointer \<Rightarrow> (json \<Rightarrow> json res) \<Rightarrow> json \<Rightarrow> json res" where
  "get_and_create [] f j = f j"
| "get_and_create (t # ts) f j =
     (case j of
        JNull \<Rightarrow>
          (if t = ''0'' then index_index 0 (get_and_create ts f) j else index_key t (get_and_create ts f) j)
      | JObject ms \<Rightarrow> index_key t (get_and_create ts f) j
      | JArray vs \<Rightarrow> res_bind (array_index t) (\<lambda>i. index_index i (get_and_create ts f) j)
      | _ \<Rightarrow> Inl cannot_unflatten)"

fun pointer_contains :: "json_pointer \<Rightarrow> json \<Rightarrow> bool res" where
  "pointer_contains [] j = Inr True"
| "pointer_contains (t # ts) j =
     (case j of
        JObject ms \<Rightarrow>
          (if \<not> json_contains j t then Inr False else res_bind (const_key j t) (pointer_contains ts))
      | JArray vs \<Rightarrow>
          (if t = ''-'' then Inr False
           else if length t = 1 \<and> \<not> is_digit (t ! 0) then Inr False
           else if 1 < length t \<and> (t ! 0 = CHR ''0'' \<or> \<not> list_all is_digit t) then Inr False
           else res_bind (array_index t) (\<lambda>i.
             if length vs \<le> i then Inr False
             else res_bind (const_index j i) (pointer_contains ts)))
      | _ \<Rightarrow> Inr False)"

section \<open>Flattening\<close>

text \<open>Every assignment \<open>result[path] = value\<close> goes to one object, given by its members.\<close>

fun flatten_into :: "string \<Rightarrow> json \<Rightarrow> (string \<times> json) list \<Rightarrow> (string \<times> json) list"
and flatten_elements :: "string \<Rightarrow> nat \<Rightarrow> json list \<Rightarrow> (string \<times> json) list \<Rightarrow> (string \<times> json) list"
and flatten_members :: "string \<Rightarrow> (string \<times> json) list \<Rightarrow> (string \<times> json) list \<Rightarrow> (string \<times> json) list" where
  "flatten_into path (JArray vs) r =
     (if vs = [] then obj_assign path JNull r else flatten_elements path 0 vs r)"
| "flatten_into path (JObject ms) r =
     (if ms = [] then obj_assign path JNull r else flatten_members path ms r)"
| "flatten_into path v r = obj_assign path v r"
| "flatten_elements path i [] r = r"
| "flatten_elements path i (v # vs) r =
     flatten_elements path (i + 1) vs (flatten_into (path @ ''/'' @ dec i) v r)"
| "flatten_members path [] r = r"
| "flatten_members path ((k, v) # ms) r =
     flatten_members path ms (flatten_into (path @ ''/'' @ escape k) v r)"

definition json_flatten :: "json \<Rightarrow> json" where
  "json_flatten j = JObject (flatten_into [] j [])"

fun unflatten_members :: "(string \<times> json) list \<Rightarrow> json \<Rightarrow> json res" where
  "unflatten_members [] r = Inr r"
| "unflatten_members ((path, v) # ms) r =
     (if \<not> is_primitive v then Inl (type_error 315 ''315'' ''values in object must be primitive'')
      else res_bind (split path) (\<lambda>p.
           res_bind (get_and_create p (put v) r) (unflatten_members ms)))"

fun json_unflatten :: "json \<Rightarrow> json res" where
  "json_unflatten (JObject ms) = unflatten_members ms JNull"
| "json_unflatten j = Inl (type_error 314 ''314'' ''only objects can be unflattened'')"

section \<open>Text and tokens\<close>

definition esc :: "char \<Rightarrow> string" where
  "esc c = (if c = CHR ''~'' then ''~0'' else if c = CHR ''/'' then ''~1'' else [c])"

lemma replace_char: "replace_substring [c] t s = concat (map (\<lambda>x. if x = c then t else [x]) s)"
  by (induction s) auto

lemma escape_concat: "escape s = concat (map esc s)"
  by (induction s) (auto simp: escape_def replace_char esc_def)

lemma escape_simps [simp]: "escape [] = []" "escape (c # cs) = esc c @ escape cs"
  by (simp_all add: escape_concat)

lemma unescape_slashes: "replace_substring ''~1'' ''/'' (escape s) = concat (map (\<lambda>x. if x = CHR ''~'' then ''~0'' else [x]) s)"
  by (induction s) (auto simp: esc_def)

lemma unescape_tildes: "replace_substring ''~0'' ''~'' (concat (map (\<lambda>x. if x = CHR ''~'' then ''~0'' else [x]) s)) = s"
  by (induction s) auto

lemma unescape_escape [simp]: "unescape (escape s) = s"
  by (simp add: unescape_def unescape_slashes unescape_tildes)

text \<open>On well-escaped text the two replacements decode one escape after the other.\<close>

fun decoded :: "string \<Rightarrow> string" where
  "decoded [] = []"
| "decoded [c] = [c]"
| "decoded (c # d # cs) =
     (if c = CHR ''~'' then (if d = CHR ''1'' then CHR ''/'' else CHR ''~'') # decoded cs
      else c # decoded (d # cs))"

lemma unescape_decoded: "tildes_ok s \<Longrightarrow> unescape s = decoded s"
  by (induction s rule: decoded.induct) (auto simp: unescape_def split: if_splits)

lemma escape_decoded: "tildes_ok s \<Longrightarrow> CHR ''/'' \<notin> set s \<Longrightarrow> escape (decoded s) = s"
  by (induction s rule: decoded.induct) (auto simp: esc_def)

lemma tildes_ok_escape [simp]: "tildes_ok (escape s)"
  by (induction s) (auto simp: esc_def)

lemma no_slash_escape [simp]: "CHR ''/'' \<notin> set (escape s)"
  by (induction s) (auto simp: esc_def)

lemma pointer_to_string_concat: "pointer_to_string p = concat (map (\<lambda>t. ''/'' @ escape t) p)"
proof -
  have "foldl (\<lambda>a b. a @ ''/'' @ escape b) s p = s @ concat (map (\<lambda>t. ''/'' @ escape t) p)" for s
    by (induction p arbitrary: s) auto
  then show ?thesis by (simp add: pointer_to_string_def)
qed

lemma pointer_to_string_simps [simp]:
  "pointer_to_string [] = []"
  "pointer_to_string (t # ts) = ''/'' @ escape t @ pointer_to_string ts"
  by (simp_all add: pointer_to_string_concat)

lemma pointer_to_string_snoc: "pointer_to_string (p @ [t]) = pointer_to_string p @ ''/'' @ escape t"
  by (simp add: pointer_to_string_concat)

lemma cut_part: "CHR ''/'' \<notin> set t \<Longrightarrow> cut_slashes part (t @ s) = cut_slashes (part @ t) s"
  by (induction t arbitrary: part) auto

lemma cut_pointer: "cut_slashes part (pointer_to_string p) = part # map escape p"
  by (induction p arbitrary: part) (auto simp: cut_part)

lemma read_tokens_escape: "read_tokens (map escape p) = Inr p"
  by (induction p) auto

lemma split_pointer [simp]: "split (pointer_to_string p) = Inr p"
proof (cases p)
  case (Cons t ts)
  then show ?thesis
    using cut_pointer [of "escape t" ts] read_tokens_escape [of p] by (simp add: cut_part)
qed simp

lemma cut_slashes_nonempty [simp]: "cut_slashes part s \<noteq> []"
  by (induction part s rule: cut_slashes.induct) auto

lemma cut_slashes_join:
  "cut_slashes part s = t # ts \<Longrightarrow> part @ s = t @ concat (map (\<lambda>u. ''/'' @ u) ts)"
proof (induction part s arbitrary: t ts rule: cut_slashes.induct)
  case (2 part c cs)
  show ?case
  proof (cases "c = CHR ''/''")
    case True
    with 2 show ?thesis by (cases "cut_slashes [] cs") auto
  next
    case False
    with 2 show ?thesis by simp
  qed
qed auto

lemma cut_slashes_no_slash: "CHR ''/'' \<notin> set part \<Longrightarrow> t \<in> set (cut_slashes part s) \<Longrightarrow> CHR ''/'' \<notin> set t"
  by (induction part s rule: cut_slashes.induct) (auto split: if_splits)

lemma read_tokens_text:
  "read_tokens ts = Inr p \<Longrightarrow> (\<forall>t \<in> set ts. CHR ''/'' \<notin> set t) \<Longrightarrow>
     pointer_to_string p = concat (map (\<lambda>u. ''/'' @ u) ts)"
  by (induction ts arbitrary: p) (auto simp: res_bind_Inr unescape_decoded escape_decoded split: if_splits)

lemma split_text: "split s = Inr p \<Longrightarrow> pointer_to_string p = s"
proof (cases s)
  case (Cons c cs)
  assume s: "split s = Inr p"
  obtain t ts where cut: "cut_slashes [] cs = t # ts"
    by (cases "cut_slashes [] cs") auto
  have "pointer_to_string p = concat (map (\<lambda>u. ''/'' @ u) (t # ts))"
    using s Cons cut cut_slashes_no_slash [of "[]" _ cs] by (intro read_tokens_text) (auto split: if_splits)
  with s Cons cut_slashes_join [OF cut] show ?thesis by (simp split: if_splits)
qed simp

section \<open>Array indices and pointers\<close>

lemma dec_zero: "dec 0 = ''0''"
  by (simp add: dec.simps char_of_def bit_0)

lemma is_digit_char: "d < 10 \<Longrightarrow> is_digit (digit_char d)"
  using dec_digits [of d] by (simp add: dec_digit)

lemma takeWhile_dec: "takeWhile is_digit (dec n) = dec n"
  using dec_digits [of n] by (simp add: list_all_iff)

lemma digit_char_zero: "0 < d \<Longrightarrow> d < 10 \<Longrightarrow> digit_char d \<noteq> CHR ''0''"
  using dec_digits digits_val_dec [of d] dec_digit [of d] dec_digit [of 0] digits_val_dec [of 0]
  by (metis dec_zero not_gr_zero)

lemma array_index_dec:
  assumes "n < 2 ^ 64 - 1"
  shows "array_index (dec n) = Inr n"
proof (cases "n = 0")
  case True
  then show ?thesis
    using takeWhile_dec [of 0] digits_val_dec [of 0] by (simp add: array_index_def dec_zero Let_def)
next
  case False
  then obtain d ds where d: "dec n = digit_char d # ds" "0 < d" "d < 10" using dec_first [of n] by auto
  then have "dec n ! 0 \<noteq> CHR ''0''" "is_digit (dec n ! 0)" "dec n \<noteq> []"
    using digit_char_zero is_digit_char by auto
  with assms show ?thesis
    by (simp add: array_index_def Let_def takeWhile_dec digits_val_dec)
qed

lemma dec_not_dash: "dec n \<noteq> ''-''"
  using dec_digits [of n] by (auto simp: is_digit_def)

lemma escape_dec: "escape (dec n) = dec n"
proof -
  have "list_all is_digit s \<Longrightarrow> escape s = s" for s
    by (induction s) (auto simp: esc_def is_digit_def)
  then show ?thesis by (simp add: dec_digits)
qed

lemma get_append: "get_checked (p @ q) j = res_bind (get_checked p j) (get_checked q)"
proof (induction p arbitrary: j)
  case (Cons t p)
  then show ?case by (cases j) (simp_all add: res_bind_assoc cong: res_bind_cong)
qed simp

lemma at_append: "at_pointer (p @ q) f j = at_pointer p (at_pointer q f) j"
proof (induction p arbitrary: j)
  case (Cons t p)
  then have "at_pointer (p @ q) f = at_pointer p (at_pointer q f)" by auto
  then show ?case by (cases j) simp_all
qed simp

section \<open>Looking and storingthrough a pointer\<close>

text \<open>
  What a location in a document promises: storing what is there changes nothing, what was
  stored is found, a second store hides the first. A location stays a location while other
  values are stored in it.
\<close>

locale location =
  fixes look :: "'s \<Rightarrow> 'v res" and store :: "'v \<Rightarrow> 's \<Rightarrow> 's res"
    and ok :: "'s \<Rightarrow> bool" and value_ok :: "'v \<Rightarrow> bool"
  assumes store_look: "ok s \<Longrightarrow> look s = Inr v \<Longrightarrow> store v s = Inr s"
    and look_store: "look s = Inr v \<Longrightarrow> \<exists>s'. store w s = Inr s' \<and> look s' = Inr w"
    and store_store: "store w s = Inr s' \<Longrightarrow> store u s' = store u s"
    and store_ok: "ok s \<Longrightarrow> value_ok w \<Longrightarrow> store w s = Inr s' \<Longrightarrow> ok s'"
begin

lemma stored: "look s = Inr v \<Longrightarrow> store w s = Inr s' \<Longrightarrow> look s' = Inr w"
  using look_store [of s v w] by auto

lemma store_again: "store w s = Inr s' \<Longrightarrow> store u s' = Inr s'' \<Longrightarrow> store u s = Inr s''"
  using store_store by metis

lemma unchanged: "ok s \<Longrightarrow> look s = Inr v \<Longrightarrow> \<exists>s'. store v s = Inr s' \<and> s' = s"
  using store_look by blast

end

lemma assign_same: "obj_ok ms \<Longrightarrow> map_of ms k = Some v \<Longrightarrow> obj_assign k v ms = ms"
proof (induction k v ms rule: obj_assign.induct)
  case (2 k v k' v' ms)
  then show ?case using obj_ok_absent [of k' v' ms k] by (auto simp: obj_ok_Cons split: if_splits)
qed simp

lemma assign_assign: "obj_assign k v (obj_assign k w ms) = obj_assign k v ms"
  by (induction k w ms rule: obj_assign.induct) auto

lemma at_as_put:
  "at_pointer p f j = res_bind (get_checked p j) (\<lambda>v. res_bind (f v) (\<lambda>w. at_pointer p (put w) j))"
proof (induction p arbitrary: f j)
  case Nil
  then show ?case by (simp add: put_def cong: res_bind_cong) (cases "f j"; simp)
next
  case (Cons t p)
  note IH = Cons.IH [of f]
  show ?case
  proof (cases j)
    case (JObject ms)
    show ?thesis
    proof (cases "map_of ms t")
      case (Some v)
      with JObject IH [of v] show ?thesis by (cases "get_checked p v") (auto simp: res_bind_assoc cong: res_bind_cong)
    qed (simp add: JObject no_key_def)
  next
    case (JArray vs)
    show ?thesis
    proof (cases "array_index t")
      case (Inr i)
      with JArray IH [of "vs ! i"] show ?thesis
        by (cases "get_checked p (vs ! i)") (auto simp: res_bind_assoc cong: res_bind_cong)
    qed (simp add: JArray)
  qed simp_all
qed

lemma at_pointer_ok: "keeps_ok f \<Longrightarrow> keeps_ok (at_pointer p f)"
proof (induction p)
  case Nil
  then show ?case by (simp add: keeps_ok_def)
next
  case (Cons t p)
  then have ok: "keeps_ok (at_key t (at_pointer p f))" "keeps_ok (at_index i (at_pointer p f))" for i
    by (simp_all add: at_key_ok at_index_ok)
  show ?case
  proof (rule keeps_okI)
    fix j w assume j: "json_ok j" "at_pointer (t # p) f j = Inr w"
    show "json_ok w"
    proof (cases j)
      case (JObject ms)
      with j show ?thesis using keeps_okD [OF ok(1), of j w] by simp
    next
      case (JArray vs)
      with j obtain i where "at_index i (at_pointer p f) j = Inr w" by (auto simp: res_bind_Inr simp del: at_index.simps split: if_splits)
      with j show ?thesis using keeps_okD [OF ok(2)] by blast
    qed (use j in simp_all)
  qed
qed

lemma pointer_store_look: "json_ok j \<Longrightarrow> get_checked p j = Inr v \<Longrightarrow> at_pointer p (put v) j = Inr j"
proof (induction p arbitrary: j)
  case (Cons t p)
  show ?case
  proof (cases j)
    case (JObject ms)
    with Cons.prems obtain w where "map_of ms t = Some w" "get_checked p w = Inr v" by (auto split: option.splits)
    with JObject Cons.prems(1) Cons.IH [of w] members_ok_lookup [of ms t w] assign_same show ?thesis by simp
  next
    case (JArray vs)
    with Cons.prems obtain i where "t \<noteq> ''-''" "array_index t = Inr i" "i < length vs" "get_checked p (vs ! i) = Inr v"
      by (auto simp: res_bind_Inr split: if_splits)
    with JArray Cons.prems(1) Cons.IH [of "vs ! i"] show ?thesis by (simp add: list_all_length)
  qed (use Cons.prems in simp_all)
qed (simp add: put_def)

lemma pointer_look_store:
  "get_checked p j = Inr v \<Longrightarrow> \<exists>j'. at_pointer p (put w) j = Inr j' \<and> get_checked p j' = Inr w"
proof (induction p arbitrary: j)
  case (Cons t p)
  show ?case
  proof (cases j)
    case (JObject ms)
    with Cons.prems obtain u where "map_of ms t = Some u" "get_checked p u = Inr v" by (auto split: option.splits)
    with JObject Cons.IH [of u] show ?thesis by (auto simp: map_of_assign)
  next
    case (JArray vs)
    with Cons.prems obtain i where "t \<noteq> ''-''" "array_index t = Inr i" "i < length vs" "get_checked p (vs ! i) = Inr v"
      by (auto simp: res_bind_Inr split: if_splits)
    with JArray Cons.IH [of "vs ! i"] show ?thesis by auto
  qed (use Cons.prems in simp_all)
qed (simp add: put_def)

lemma pointer_store_store: "at_pointer p (put w) j = Inr j' \<Longrightarrow> at_pointer p (put u) j' = at_pointer p (put u) j"
proof (induction p arbitrary: j j')
  case (Cons t p)
  show ?case
  proof (cases j)
    case (JObject ms)
    with Cons.prems obtain v v' where "map_of ms t = Some v" "at_pointer p (put w) v = Inr v'"
        "j' = JObject (obj_assign t v' ms)" by (auto simp: res_bind_Inr split: option.splits)
    with JObject Cons.IH [of v v'] show ?thesis by (simp add: map_of_assign assign_assign)
  next
    case (JArray vs)
    with Cons.prems obtain i v' where "t \<noteq> ''-''" "array_index t = Inr i" "i < length vs"
        "at_pointer p (put w) (vs ! i) = Inr v'" "j' = JArray (vs[i := v'])"
      by (auto simp: res_bind_Inr split: if_splits)
    with JArray Cons.IH [of "vs ! i" v'] show ?thesis by simp
  qed (use Cons.prems in simp_all)
qed (simp add: put_def)

interpretation loc: location "get_checked p" "\<lambda>w. at_pointer p (put w)" json_ok json_ok for p
  by unfold_locales
    (auto intro: pointer_store_look pointer_look_store pointer_store_store keeps_okD [OF at_pointer_ok [OF put_ok]])

section \<open>Property\<close>

text \<open>C33. A pointer and its text determine each other: every list of tokens is read back from its text,
  and every text that is accepted is the text of the tokens it gives.\<close>

theorem pointer_text_roundtrip:
  "split (pointer_to_string p) = Inr p \<and> (split s = Inr q \<longrightarrow> pointer_to_string q = s)"
  using split_text by simp

theorem pointer_text_roundtrip_witness:
  "split ''/a~1b/0/m~0n'' = Inr [''a/b'', ''0'', ''m~n''] \<and>
   pointer_to_string [''a/b'', ''0'', ''m~n''] = ''/a~1b/0/m~0n''"
proof -
  have s: "split ''/a~1b/0/m~0n'' = Inr [''a/b'', ''0'', ''m~n'']" by (simp add: unescape_def)
  with pointer_text_roundtrip [of "[]" "''/a~1b/0/m~0n''" "[''a/b'', ''0'', ''m~n'']"] show ?thesis by blast
qed

end
