(* ===== verification/JsonPatch.thy ===== *)
theory JsonPatch
  imports JsonOrder JsonPointer JsonSerializer
begin

text \<open>
  JSON Patch (RFC 6902) and JSON Merge Patch (RFC 7396) in
  \<open>src/cpp/include/nlohmann/json.hpp\<close>: \<open>patch_inplace\<close>, \<open>patch\<close>, \<open>diff\<close>, \<open>merge_patch\<close>; what they
  promise each other: the patch \<open>diff\<close> computes turns its source into its target.
\<close>

section \<open>Operations of a patch\<close>

text \<open>
  The operations throw before they change anything, so an exception leaves the document as it
  was; \<open>move\<close> alone is two operations, and the second may throw after the first was done.
\<close>

fun add_to :: "string \<Rightarrow> json \<Rightarrow> json \<Rightarrow> json res" where
  "add_to last_path val parent =
     (case parent of
        JNull \<Rightarrow> index_key last_path (put val) parent
      | JObject ms \<Rightarrow> index_key last_path (put val) parent
      | JArray vs \<Rightarrow>
          (if last_path = ''-'' then push_back val parent
           else res_bind (array_index last_path) (\<lambda>idx.
             if length vs < idx then Inl (bad_index idx) else insert_at idx val parent))
      | _ \<Rightarrow> Inl (Undefined ''assertion''))"

definition operation_add :: "json_pointer \<Rightarrow> json \<Rightarrow> json \<Rightarrow> json res" where
  "operation_add ptr val result =
     (if ptr = [] then Inr val
      else res_bind (pointer_top ptr) (\<lambda>top_pointer.
           res_bind (if top_pointer \<noteq> ptr then get_checked top_pointer result else Inr JNull) (\<lambda>_.
           res_bind (pointer_back ptr) (\<lambda>last_path.
           res_bind (pointer_pop_back ptr) (\<lambda>parent.
             at_pointer parent (add_to last_path val) result)))))"

fun remove_from :: "string \<Rightarrow> json \<Rightarrow> json res" where
  "remove_from last_path parent =
     (case parent of
        JObject ms \<Rightarrow>
          (case map_of ms last_path of
             Some v \<Rightarrow> Inr (JObject (obj_erase last_path ms))
           | None \<Rightarrow> Inl (no_key last_path))
      | JArray vs \<Rightarrow> res_bind (array_index last_path) (\<lambda>i. erase_index i parent)
      | _ \<Rightarrow> Inr parent)"

definition operation_remove :: "json_pointer \<Rightarrow> json \<Rightarrow> json res" where
  "operation_remove ptr result =
     res_bind (pointer_back ptr) (\<lambda>last_path.
     res_bind (pointer_pop_back ptr) (\<lambda>parent.
       at_pointer parent (remove_from last_path) result))"

definition get_value :: "(string \<times> json) list \<Rightarrow> string \<Rightarrow> string \<Rightarrow> bool \<Rightarrow> json res" where
  "get_value val op member_name string_type =
     (let error_msg = (if op = ''op'' then ''operation'' else ''operation '' @ in_ticks op)
      in case map_of val member_name of
           None \<Rightarrow> Inl (pointer_error 105 ''105'' '''' (error_msg @ '' must have member '' @ in_ticks member_name))
         | Some v \<Rightarrow>
             if string_type \<and> \<not> is_string v
             then Inl (pointer_error 105 ''105'' '''' (error_msg @ '' must have string member '' @ in_ticks member_name))
             else Inr v)"

definition get_text :: "(string \<times> json) list \<Rightarrow> string \<Rightarrow> string \<Rightarrow> string res" where
  "get_text val op member_name = res_bind (get_value val op member_name True) get_string"

definition not_objects :: exn where
  "not_objects = pointer_error 104 ''104'' '''' ''JSON patch must be an array of objects''"

definition operation_test :: "json_pointer \<Rightarrow> (string \<times> json) list \<Rightarrow> json \<Rightarrow> json res" where
  "operation_test ptr val result =
     (let success = res_bind (get_checked ptr result) (\<lambda>found.
                    res_bind (get_value val ''test'' ''value'' False) (\<lambda>expected. Inr (json_eq found expected)));
          failed = res_bind (json_dump (JObject val)) (\<lambda>t.
             Inl (Json_exception 501 (c_str (''[json.exception.other_error.501] unsuccessful: '' @ t))))
      in case success of
           Inr b \<Rightarrow> if b then Inr result else failed
         | Inl e \<Rightarrow> if is_out_of_range e then failed else Inl e)"

text \<open>What a statement leaves: an exception or none, and the document.\<close>

definition settle_on :: "json \<Rightarrow> json res \<Rightarrow> exn option \<times> json" where
  "settle_on result r = (case r of Inl e \<Rightarrow> (Some e, result) | Inr j \<Rightarrow> (None, j))"

definition patch_switch :: "string \<Rightarrow> json_pointer \<Rightarrow> (string \<times> json) list \<Rightarrow> json \<Rightarrow> exn option \<times> json" where
  "patch_switch op ptr val result =
     (if op = ''add'' then
        settle_on result (res_bind (get_value val ''add'' ''value'' False) (\<lambda>v. operation_add ptr v result))
      else if op = ''remove'' then settle_on result (operation_remove ptr result)
      else if op = ''replace'' then
        settle_on result (res_bind (get_value val ''replace'' ''value'' False) (\<lambda>v. at_pointer ptr (put v) result))
      else if op = ''move'' then
        (case res_bind (get_text val ''move'' ''from'') (\<lambda>from_path.
              res_bind (split from_path) (\<lambda>from_ptr.
              res_bind (get_checked from_ptr result) (\<lambda>v.
              res_bind (operation_remove from_ptr result) (\<lambda>result'. Inr (v, result'))))) of
           Inl e \<Rightarrow> (Some e, result)
         | Inr (v, result') \<Rightarrow> settle_on result' (operation_add ptr v result'))
      else if op = ''copy'' then
        settle_on result
          (res_bind (get_text val ''copy'' ''from'') (\<lambda>from_path.
           res_bind (split from_path) (\<lambda>from_ptr.
           res_bind (get_checked from_ptr result) (\<lambda>v. operation_add ptr v result))))
      else if op = ''test'' then settle_on result (operation_test ptr val result)
      else (Some (pointer_error 105 ''105'' '''' (''operation value '' @ in_ticks op @ '' is invalid'')), result))"

fun patch_step :: "json \<Rightarrow> json \<Rightarrow> exn option \<times> json" where
  "patch_step (JObject val) result =
     (case res_bind (get_text val ''op'' ''op'') (\<lambda>op.
           res_bind (get_text val op ''path'') (\<lambda>path.
           res_bind (split path) (\<lambda>ptr. Inr (op, ptr)))) of
        Inl e \<Rightarrow> (Some e, result)
      | Inr (op, ptr) \<Rightarrow> patch_switch op ptr val result)"
| "patch_step val result = (Some not_objects, result)"

fun patch_steps :: "json list \<Rightarrow> json \<Rightarrow> exn option \<times> json" where
  "patch_steps [] result = (None, result)"
| "patch_steps (val # vals) result =
     (case patch_step val result of
        (Some e, result') \<Rightarrow> (Some e, result')
      | (None, result') \<Rightarrow> patch_steps vals result')"

fun patch_inplace :: "json \<Rightarrow> json \<Rightarrow> exn option \<times> json" where
  "patch_inplace (JArray vals) result = patch_steps vals result"
| "patch_inplace p result = (Some not_objects, result)"

definition json_patch :: "json \<Rightarrow> json \<Rightarrow> json res" where
  "json_patch j p = (case patch_inplace p j of (Some e, r) \<Rightarrow> Inl e | (None, r) \<Rightarrow> Inr r)"

section \<open>Computing a patch\<close>

definition op_replace :: "string \<Rightarrow> json \<Rightarrow> json" where
  "op_replace path v =
     json_init [member ''op'' (JString ''replace''), member ''path'' (JString path), member ''value'' v]"

definition op_remove :: "string \<Rightarrow> json" where
  "op_remove path = json_init [member ''op'' (JString ''remove''), member ''path'' (JString path)]"

definition op_add :: "string \<Rightarrow> json \<Rightarrow> json" where
  "op_add path v =
     json_init [member ''op'' (JString ''add''), member ''path'' (JString path), member ''value'' v]"

text \<open>
  The operations \<open>diff\<close> puts into its array. Removals are inserted in front of those made before,
  so that the last element is removed first.
\<close>

fun diff_ops :: "json \<Rightarrow> json \<Rightarrow> string \<Rightarrow> json list"
and diff_elements :: "json list \<Rightarrow> json list \<Rightarrow> string \<Rightarrow> nat \<Rightarrow> json list"
and diff_members :: "(string \<times> json) list \<Rightarrow> (string \<times> json) list \<Rightarrow> string \<Rightarrow> json list" where
  "diff_ops (JArray vs) target path =
     (if json_eq (JArray vs) target then []
      else case target of
             JArray ws \<Rightarrow> diff_elements vs ws path 0
           | _ \<Rightarrow> [op_replace path target])"
| "diff_ops (JObject ms) target path =
     (if json_eq (JObject ms) target then []
      else case target of
             JObject ns \<Rightarrow>
               diff_members ms ns path @
               map (\<lambda>(k, w). op_add (path @ ''/'' @ escape k) w) (filter (\<lambda>(k, w). map_of ms k = None) ns)
           | _ \<Rightarrow> [op_replace path target])"
| "diff_ops source target path = (if json_eq source target then [] else [op_replace path target])"
| "diff_elements [] ws path i = map (op_add (path @ ''/-'')) ws"
| "diff_elements (v # vs) ws path i =
     (case ws of
        w # ws' \<Rightarrow> diff_ops v w (path @ ''/'' @ dec i) @ diff_elements vs ws' path (i + 1)
      | [] \<Rightarrow> fold (\<lambda>i ops. op_remove (path @ ''/'' @ dec i) # ops) [i..<i + length (v # vs)] [])"
| "diff_members [] ns path = []"
| "diff_members ((k, v) # ms) ns path =
     (case map_of ns k of
        Some w \<Rightarrow> diff_ops v w (path @ ''/'' @ escape k)
      | None \<Rightarrow> [op_remove (path @ ''/'' @ escape k)]) @ diff_members ms ns path"

definition json_diff :: "json \<Rightarrow> json \<Rightarrow> string \<Rightarrow> json" where
  "json_diff source target path = JArray (diff_ops source target path)"

section \<open>Merge patch\<close>

fun merge_patch :: "json \<Rightarrow> json \<Rightarrow> json"
and merge_members :: "(string \<times> json) list \<Rightarrow> (string \<times> json) list \<Rightarrow> (string \<times> json) list" where
  "merge_patch (JObject ps) j = JObject (merge_members ps (case j of JObject ms \<Rightarrow> ms | _ \<Rightarrow> []))"
| "merge_patch p j = p"
| "merge_members [] ms = ms"
| "merge_members ((k, v) # ps) ms =
     (if is_null v then merge_members ps (obj_erase k ms)
      else let ms' = obj_emplace k JNull ms
           in merge_members ps (obj_assign k (merge_patch v (the (map_of ms' k))) ms'))"

section \<open>Effect of one operation\<close>

lemma op_values:
  "op_replace path v = JObject [(''op'', JString ''replace''), (''path'', JString path), (''value'', v)]"
  "op_add path v = JObject [(''op'', JString ''add''), (''path'', JString path), (''value'', v)]"
  "op_remove path = JObject [(''op'', JString ''remove''), (''path'', JString path)]"
  by (simp_all add: op_replace_def op_add_def op_remove_def json_init_def member_def)

lemma step_replace:
  "patch_step (op_replace (pointer_to_string p) v) result = settle_on result (at_pointer p (put v) result)"
  by (simp add: op_values get_text_def get_value_def is_string_def patch_switch_def)

lemma step_remove:
  "patch_step (op_remove (pointer_to_string (p @ [k]))) result = settle_on result (at_pointer p (remove_from k) result)"
  by (simp add: op_values get_text_def get_value_def is_string_def patch_switch_def operation_remove_def
      pointer_back_def pointer_pop_back_def del: remove_from.simps)

lemma step_add:
  assumes "get_checked p result = Inr x"
  shows "patch_step (op_add (pointer_to_string (p @ [k])) v) result = settle_on result (at_pointer p (add_to k v) result)"
proof -
  have "\<exists>y. (if [hd (p @ [k])] \<noteq> p @ [k] then get_checked [hd (p @ [k])] result else Inr JNull) = Inr y"
  proof (cases p)
    case (Cons t ts)
    with assms get_append [of "[t]" ts result] show ?thesis by (cases "get_checked [t] result") auto
  qed simp
  then show ?thesis
    by (auto simp: op_values get_text_def get_value_def is_string_def patch_switch_def operation_add_def
        pointer_top_def pointer_back_def pointer_pop_back_def simp del: add_to.simps get_checked.simps)
qed

lemma steps_append:
  "patch_steps (a @ b) r = (case patch_steps a r of (Some e, r') \<Rightarrow> (Some e, r') | (None, r') \<Rightarrow> patch_steps b r')"
  by (induction a arbitrary: r) (auto split: prod.splits option.splits)

lemma pointer_path:
  "pointer_to_string p @ ''/'' @ escape k = pointer_to_string (p @ [k])"
  "pointer_to_string p @ CHR ''/'' # escape k = pointer_to_string (p @ [k])"
  by (simp_all add: pointer_to_string_snoc)

lemma pointer_index_path:
  "pointer_to_string p @ ''/'' @ dec i = pointer_to_string (p @ [dec i])"
  "pointer_to_string p @ CHR ''/'' # dec i = pointer_to_string (p @ [dec i])"
  by (simp_all add: pointer_to_string_snoc escape_dec)

lemma pointer_dash_path: "pointer_to_string p @ ''/-'' = pointer_to_string (p @ [''-''])"
  by (simp add: pointer_to_string_snoc esc_def)

section \<open>Sequences of operations at one place\<close>

text \<open>Operations that take the value at a pointer from \<open>s\<close> to one with the property \<open>Q\<close>, and change nothing else.\<close>

definition brings :: "json_pointer \<Rightarrow> json \<Rightarrow> (json \<Rightarrow> bool) \<Rightarrow> json list \<Rightarrow> bool" where
  "brings p s Q ops \<longleftrightarrow> (\<forall>r. json_ok r \<longrightarrow> get_checked p r = Inr s \<longrightarrow>
     (\<exists>s' r'. patch_steps ops r = (None, r') \<and> at_pointer p (put s') r = Inr r' \<and> json_ok s' \<and> Q s'))"

lemma bringsI:
  assumes "\<And>r. json_ok r \<Longrightarrow> get_checked p r = Inr s \<Longrightarrow>
    \<exists>s' r'. patch_steps ops r = (None, r') \<and> at_pointer p (put s') r = Inr r' \<and> json_ok s' \<and> Q s'"
  shows "brings p s Q ops"
  using assms by (simp add: brings_def)

lemma bringsD:
  assumes "brings p s Q ops" "json_ok r" "get_checked p r = Inr s"
  obtains s' r' where "patch_steps ops r = (None, r')" "at_pointer p (put s') r = Inr r'" "json_ok s'" "Q s'"
  using assms unfolding brings_def by blast

lemma brings_nothing: "json_ok s \<Longrightarrow> Q s \<Longrightarrow> brings p s Q []"
  using loc.store_look by (intro bringsI) auto

lemma brings_weaken: "brings p s Q ops \<Longrightarrow> (\<And>s'. json_ok s' \<Longrightarrow> Q s' \<Longrightarrow> Q' s') \<Longrightarrow> brings p s Q' ops"
  unfolding brings_def by meson

lemma brings_append:
  assumes "brings p s Q a" "\<And>s'. json_ok s' \<Longrightarrow> Q s' \<Longrightarrow> brings p s' Q' b"
  shows "brings p s Q' (a @ b)"
proof (rule bringsI)
  fix r assume r: "json_ok r" "get_checked p r = Inr s"
  from assms(1) r obtain s1 r1 where 1: "patch_steps a r = (None, r1)" "at_pointer p (put s1) r = Inr r1" "json_ok s1" "Q s1"
    by (rule bringsD)
  from assms(2) [OF 1(3,4)] loc.store_ok [OF r(1) 1(3,2)] loc.stored [OF r(2) 1(2)]
  obtain s2 r2 where 2: "patch_steps b r1 = (None, r2)" "at_pointer p (put s2) r1 = Inr r2" "json_ok s2" "Q' s2"
    by (rule bringsD)
  from 1(1) 2(1,3,4) loc.store_again [OF 1(2) 2(2)]
  show "\<exists>s' r'. patch_steps (a @ b) r = (None, r') \<and> at_pointer p (put s') r = Inr r' \<and> json_ok s' \<and> Q' s'"
    by (auto simp: steps_append)
qed

lemma brings_one:
  assumes "\<And>r. get_checked p r = Inr s \<Longrightarrow> patch_step op r = settle_on r (at_pointer p f r)"
    and "f s = Inr s'" "json_ok s'" "Q s'"
  shows "brings p s Q [op]"
proof (rule bringsI)
  fix r assume r: "json_ok r" "get_checked p r = Inr s"
  from loc.look_store [OF r(2)] obtain r' where r': "at_pointer p (put s') r = Inr r'" by blast
  with assms(1) [OF r(2)] assms(2) at_as_put [of p f r] r(2) have "patch_step op r = (None, r')"
    by (simp add: settle_on_def)
  with r' assms(3,4)
  show "\<exists>s' r'. patch_steps [op] r = (None, r') \<and> at_pointer p (put s') r = Inr r' \<and> json_ok s' \<and> Q s'" by auto
qed

text \<open>From an element to the container that holds it.\<close>

lemma brings_inside:
  assumes "brings (p @ [t]) v Q ops"
    and "get_checked [t] c = Inr v" "\<And>v'. at_pointer [t] (put v') c = Inr (g v')"
    and "json_ok c" "\<And>v'. json_ok v' \<Longrightarrow> Q v' \<Longrightarrow> Q' (g v')"
  shows "brings p c Q' ops"
proof (rule bringsI)
  fix r assume r: "json_ok r" "get_checked p r = Inr c"
  have "get_checked (p @ [t]) r = Inr v" using r(2) assms(2) by (simp add: get_append del: get_checked.simps)
  with assms(1) r(1) obtain v' r' where 1: "patch_steps ops r = (None, r')" "at_pointer (p @ [t]) (put v') r = Inr r'"
      "json_ok v'" "Q v'" by (rule bringsD)
  have "at_pointer p (put (g v')) r = Inr r'"
    using 1(2) at_as_put [of p "at_pointer [t] (put v')" r] r(2) assms(3) by (simp add: at_append del: at_pointer.simps)
  moreover have "json_ok (g v')"
    using keeps_okD [OF at_pointer_ok [OF put_ok [OF 1(3)]] assms(4,3)] .
  ultimately show "\<exists>s' r'. patch_steps ops r = (None, r') \<and> at_pointer p (put s') r = Inr r' \<and> json_ok s' \<and> Q' s'"
    using 1 assms(5) by blast
qed

lemma brings_member:
  assumes "brings (p @ [k]) v Q ops" "map_of ms k = Some v" "json_ok (JObject ms)"
    and "\<And>v'. json_ok v' \<Longrightarrow> Q v' \<Longrightarrow> Q' (JObject (obj_assign k v' ms))"
  shows "brings p (JObject ms) Q' ops"
  by (rule brings_inside [OF assms(1), where g = "\<lambda>v'. JObject (obj_assign k v' ms)"])
    (use assms in \<open>simp_all add: put_def\<close>)

lemma brings_element:
  assumes "brings (p @ [dec i]) v Q ops" "i < length vs" "vs ! i = v" "json_ok (JArray vs)" "length vs < 2 ^ 64"
    and "\<And>v'. json_ok v' \<Longrightarrow> Q v' \<Longrightarrow> Q' (JArray (vs[i := v']))"
  shows "brings p (JArray vs) Q' ops"
  by (rule brings_inside [OF assms(1), where g = "\<lambda>v'. JArray (vs[i := v'])"])
    (use assms in \<open>simp_all add: put_def array_index_dec dec_not_dash\<close>)

section \<open>A diff brings its source to its target\<close>

text \<open>Every array is shorter than the largest index a token can name.\<close>

fun indexable :: "json \<Rightarrow> bool" where
  "indexable (JArray vs) \<longleftrightarrow> length vs < 2 ^ 64 \<and> list_all indexable vs"
| "indexable (JObject ms) \<longleftrightarrow> list_all (\<lambda>m. indexable (snd m)) ms"
| "indexable j \<longleftrightarrow> True"

lemma brings_replace: "json_ok t \<Longrightarrow> ordered t \<Longrightarrow> brings p s (\<lambda>s'. json_eq s' t) [op_replace (pointer_to_string p) t]"
  by (rule brings_one [where f = "put t"]) (use json_eq_refl_iff [of t] in \<open>simp_all add: step_replace put_def\<close>)

lemma brings_removals:
  assumes "json_ok (JArray vs)" "i \<le> length vs" "length vs < 2 ^ 64"
  shows "brings p (JArray vs) (\<lambda>s'. s' = JArray (take i vs))
    (fold (\<lambda>i ops. op_remove (pointer_to_string p @ ''/'' @ dec i) # ops) [i..<length vs] [])"
proof -
  have take_ok: "json_ok (JArray (take n vs))" for n
    using assms(1) by (auto simp: list_all_iff dest: in_set_takeD)
  have removal: "brings p (JArray (take (Suc n) vs)) (\<lambda>s'. s' = JArray (take n vs)) [op_remove (pointer_to_string p @ ''/'' @ dec n)]"
    if "n < length vs" for n
  proof (rule brings_one)
    show "remove_from (dec n) (JArray (take (Suc n) vs)) = Inr (JArray (take n vs))"
      using that assms(3) by (simp add: array_index_dec min_def)
    show "json_ok (JArray (take n vs))" by (rule take_ok)
  qed (simp_all add: pointer_index_path step_remove del: remove_from.simps)
  have "brings p (JArray (take n vs)) (\<lambda>s'. s' = JArray (take i vs))
      (fold (\<lambda>i ops. op_remove (pointer_to_string p @ ''/'' @ dec i) # ops) [i..<n] [])"
    if "i \<le> n" "n \<le> length vs" for n
    using that
  proof (induction n rule: dec_induct)
    case base
    show ?case using brings_nothing [OF take_ok [of i]] by simp
  next
    case (step m)
    then have m: "m < length vs" by simp
    have "brings p (JArray (take (Suc m) vs)) (\<lambda>s'. s' = JArray (take i vs))
        ([op_remove (pointer_to_string p @ ''/'' @ dec m)] @
         fold (\<lambda>i ops. op_remove (pointer_to_string p @ ''/'' @ dec i) # ops) [i..<m] [])"
      by (rule brings_append [OF removal [OF m]]) (use step m in simp)
    with step.hyps show ?case by simp
  qed
  from this [of "length vs"] assms(2) show ?thesis by simp
qed

lemma brings_appended:
  assumes "json_ok (JArray vs)" "list_all json_ok ws"
  shows "brings p (JArray vs) (\<lambda>s'. s' = JArray (vs @ ws)) (map (op_add (pointer_to_string p @ ''/-'')) ws)"
  using assms
proof (induction ws arbitrary: vs)
  case Nil
  then show ?case by (simp add: brings_nothing)
next
  case (Cons w ws)
  have "brings p (JArray vs) (\<lambda>s'. s' = JArray (vs @ [w])) [op_add (pointer_to_string p @ ''/-'') w]"
    by (rule brings_one [where f = "add_to ''-'' w"])
      (use Cons.prems in \<open>simp_all add: pointer_dash_path step_add del: add_to.simps\<close>, simp)
  then have "brings p (JArray vs) (\<lambda>s'. s' = JArray (vs @ w # ws))
      ([op_add (pointer_to_string p @ ''/-'') w] @ map (op_add (pointer_to_string p @ ''/-'')) ws)"
    by (rule brings_append) (use Cons.IH [of "vs @ [w]"] Cons.prems in simp)
  then show ?case by simp
qed

lemma index_key_new:
  "map_of ms k = None \<Longrightarrow> index_key k (put v) (JObject ms) = Inr (JObject (obj_assign k v (obj_emplace k JNull ms)))"
  by (simp add: put_def Let_def)

lemma brings_added:
  assumes "json_ok (JObject ms)" "list_all (\<lambda>m. json_ok (snd m)) ns" "distinct (map fst ns)"
    and "\<forall>k \<in> fst ` set ns. map_of ms k = None"
  shows "brings p (JObject ms) (\<lambda>s'. \<exists>ms'. s' = JObject ms' \<and> map_of ms' = map_of ms ++ map_of ns)
    (map (\<lambda>(k, w). op_add (pointer_to_string p @ ''/'' @ escape k) w) ns)"
  using assms
proof (induction ns arbitrary: ms)
  case Nil
  then show ?case by (simp add: brings_nothing)
next
  case (Cons n ns)
  obtain k w where n: "n = (k, w)" by (cases n)
  have absent: "map_of ns k = None" using Cons.prems(3) n by (simp add: map_of_eq_None_iff)
  define ms1 where "ms1 = obj_assign k w (obj_emplace k JNull ms)"
  have ok1: "json_ok (JObject ms1)"
    using Cons.prems n by (simp add: ms1_def obj_ok_assign obj_ok_emplace members_ok_assign members_ok_emplace)
  have lookup: "map_of ms1 = (map_of ms)(k \<mapsto> w)"
    using Cons.prems n map_of_emplace [of ms k JNull] by (simp add: ms1_def map_of_assign)
  have "brings p (JObject ms) (\<lambda>s'. s' = JObject ms1) [op_add (pointer_to_string p @ ''/'' @ escape k) w]"
    by (rule brings_one [where f = "add_to k w" and s' = "JObject ms1"])
      (use Cons.prems n ok1 in \<open>simp_all add: pointer_path step_add index_key_new ms1_def [symmetric]
         del: index_key.simps cong: json.case_cong\<close>)
  then have "brings p (JObject ms) (\<lambda>s'. \<exists>ms'. s' = JObject ms' \<and> map_of ms' = map_of ms ++ map_of (n # ns))
      ([op_add (pointer_to_string p @ ''/'' @ escape k) w] @ map (\<lambda>(k, w). op_add (pointer_to_string p @ ''/'' @ escape k) w) ns)"
  proof (rule brings_append)
    fix s' assume s': "s' = JObject ms1"
    have "brings p (JObject ms1) (\<lambda>s'. \<exists>ms'. s' = JObject ms' \<and> map_of ms' = map_of ms1 ++ map_of ns)
        (map (\<lambda>(k, w). op_add (pointer_to_string p @ ''/'' @ escape k) w) ns)"
      by (rule Cons.IH) (use Cons.prems n ok1 lookup in \<open>auto simp: image_iff\<close>)
    moreover have "map_of ms1 ++ map_of ns = map_of ms ++ map_of (n # ns)"
      using absent n by (auto simp: lookup map_add_def fun_eq_iff split: option.splits)
    ultimately show "brings p s' (\<lambda>s'. \<exists>ms'. s' = JObject ms' \<and> map_of ms' = map_of ms ++ map_of (n # ns))
        (map (\<lambda>(k, w). op_add (pointer_to_string p @ ''/'' @ escape k) w) ns)"
      using s' by simp
  qed
  then show ?case by (simp only: n list.map prod.case append_Cons append_Nil)
qed

lemma map_of_filter: "map_of (filter (\<lambda>(k, w). P k) ns) k = (if P k then map_of ns k else None)"
  by (induction ns) auto

lemma members_eq_lookup:
  assumes "obj_ok ms" "obj_ok ns" "\<And>k. rel_option json_eq (map_of ms k) (map_of ns k)"
  shows "members_eq ms ns"
  using assms
proof (induction ms arbitrary: ns)
  case Nil
  show ?case
  proof (cases ns)
    case (Cons n ns')
    with Nil(3) [of "fst n"] show ?thesis by (cases n) simp
  qed simp
next
  case (Cons m ms)
  obtain k v where m: "m = (k, v)" by (cases m)
  show ?case
  proof (cases ns)
    case Nil
    with Cons.prems(3) [of k] m show ?thesis by simp
  next
    case (Cons n ns')
    obtain l w where n: "n = (l, w)" by (cases n)
    have least: "\<forall>x \<in> fst ` set ms. str_less k x" "\<forall>x \<in> fst ` set ns'. str_less l x"
      using Cons.prems(1,2) Cons m n by (auto simp: obj_ok_Cons)
    have "k = l"
    proof (rule ccontr)
      assume "k \<noteq> l"
      moreover have "map_of ms l \<noteq> None" "map_of ns' k \<noteq> None" if "k \<noteq> l"
        using Cons.prems(3) [of l] Cons.prems(3) [of k] Cons m n that
        by (auto simp: option_rel_Some2 option_rel_Some1)
      ultimately show False using least str_less_trans [of k l k] by (auto simp: map_of_eq_None_iff)
    qed
    have "rel_option json_eq (map_of ms x) (map_of ns' x)" for x
    proof (cases "x = k")
      case True
      with least \<open>k = l\<close> have "map_of ms x = None" "map_of ns' x = None" by (auto simp: map_of_eq_None_iff)
      then show ?thesis by simp
    next
      case False
      with Cons.prems(3) [of x] Cons m n \<open>k = l\<close> show ?thesis by simp
    qed
    with Cons.IH [of ns'] Cons.prems Cons m n have "members_eq ms ns'" by (auto simp: obj_ok_Cons)
    with Cons.prems(3) [of k] Cons m n \<open>k = l\<close> show ?thesis by simp
  qed
qed

text \<open>What is left of the members of an object once the first pass has gone over them.\<close>

definition passed :: "(string \<times> json) list \<Rightarrow> (string \<times> json) list \<Rightarrow> (string \<times> json) list \<Rightarrow> (string \<times> json) list \<Rightarrow> bool" where
  "passed ms ns cur cur' \<longleftrightarrow> (\<forall>k. if k \<in> fst ` set ms then rel_option json_eq (map_of cur' k) (map_of ns k)
     else map_of cur' k = map_of cur k)"

lemma brings_erase:
  assumes "json_ok (JObject ms)" "map_of ms k = Some v"
  shows "brings p (JObject ms) (\<lambda>s'. s' = JObject (obj_erase k ms)) [op_remove (pointer_to_string p @ ''/'' @ escape k)]"
  by (rule brings_one [where f = "remove_from k"])
    (use assms in \<open>simp_all add: pointer_path step_remove obj_ok_erase members_ok_erase\<close>)

lemma passed_step:
  assumes "passed ms ns cur1 cur'" "k \<notin> fst ` set ms" "rel_option json_eq (map_of cur1 k) (map_of ns k)"
    and "\<And>l. l \<noteq> k \<Longrightarrow> map_of cur1 l = map_of cur l"
  shows "passed ((k, v) # ms) ns cur cur'"
  using assms unfolding passed_def by (metis fst_conv image_insert insert_iff list.simps(15))

lemma diff_brings:
  "path = pointer_to_string p \<Longrightarrow> json_ok s \<Longrightarrow> json_ok t \<Longrightarrow> ordered t \<Longrightarrow> indexable s \<Longrightarrow>
     brings p s (\<lambda>s'. json_eq s' t) (diff_ops s t path)"
  "path = pointer_to_string p \<Longrightarrow> json_ok (JArray (us @ vs)) \<Longrightarrow> list_all json_ok ws \<Longrightarrow> list_all ordered ws \<Longrightarrow>
     list_all indexable vs \<Longrightarrow> length (us @ vs) < 2 ^ 64 \<Longrightarrow> i = length us \<Longrightarrow>
     brings p (JArray (us @ vs)) (\<lambda>s'. \<exists>vs'. s' = JArray (us @ vs') \<and> elements_eq vs' ws) (diff_elements vs ws path i)"
  "path = pointer_to_string p \<Longrightarrow> json_ok (JObject cur) \<Longrightarrow> list_all (\<lambda>m. json_ok (snd m)) ns \<Longrightarrow>
     list_all (\<lambda>m. ordered (snd m)) ns \<Longrightarrow> list_all (\<lambda>m. indexable (snd m)) ms \<Longrightarrow> distinct (map fst ms) \<Longrightarrow>
     (\<forall>(k, v) \<in> set ms. map_of cur k = Some v) \<Longrightarrow>
     brings p (JObject cur) (\<lambda>s'. \<exists>cur'. s' = JObject cur' \<and> passed ms ns cur cur') (diff_members ms ns path)"
proof (induction s t path and vs ws path i and ms ns path arbitrary: p and p us and p cur
    rule: diff_ops_diff_elements_diff_members.induct)
  case (1 vs target path)
  show ?case
  proof (cases "json_eq (JArray vs) target")
    case True
    with 1 show ?thesis by (simp add: brings_nothing)
  next
    case False
    show ?thesis
    proof (cases "\<exists>ws. target = JArray ws")
      case True
      then obtain ws where t: "target = JArray ws" by blast
      have "brings p (JArray ([] @ vs)) (\<lambda>s'. \<exists>vs'. s' = JArray ([] @ vs') \<and> elements_eq vs' ws) (diff_elements vs ws path 0)"
        by (rule "1.IH" [OF False t]) (use "1.prems" t in auto)
      with False t show ?thesis by (auto elim!: brings_weaken)
    next
      case False
      then have "diff_ops (JArray vs) target path = [op_replace path target]" by (cases target) auto
      with 1 show ?thesis by (simp add: brings_replace)
    qed
  qed
next
  case (4 ws path i)
  have "brings p (JArray us) (\<lambda>s'. s' = JArray (us @ ws)) (map (op_add (path @ ''/-'')) ws)"
    using brings_appended [of us ws p] 4 by simp
  moreover have "elements_eq ws ws" using 4 by (simp add: elements_eq_iff list_all2_same json_eq_refl_iff list_all_iff)
  ultimately show ?case by (auto elim!: brings_weaken)
next
  case (2 ms target path)
  show ?case
  proof (cases "json_eq (JObject ms) target")
    case True
    with 2 show ?thesis by (simp add: brings_nothing)
  next
    case False
    show ?thesis
    proof (cases "\<exists>ns. target = JObject ns")
      case True
      then obtain ns where t: "target = JObject ns" by blast
      define new where "new = filter (\<lambda>(k, w). map_of ms k = None) ns"
      have ok: "obj_ok ns" "obj_ok ms" "members_ok ns" "list_all (\<lambda>m. ordered (snd m)) ns" using "2.prems" t by auto
      then have dist: "distinct (map fst ns)" "distinct (map fst ms)" by (simp_all add: obj_ok_distinct)
      have new: "map_of new k = (if map_of ms k = None then map_of ns k else None)" for k
        unfolding new_def by (rule map_of_filter)
      have "brings p (JObject ms) (\<lambda>s'. \<exists>cur'. s' = JObject cur' \<and> passed ms ns ms cur') (diff_members ms ns path)"
        by (rule "2.IH" [OF False t]) (use "2.prems" t ok dist in auto)
      then have "brings p (JObject ms) (\<lambda>s'. json_eq s' target)
          (diff_members ms ns path @ map (\<lambda>(k, w). op_add (path @ ''/'' @ escape k) w) new)"
      proof (rule brings_append)
        fix s' assume s': "json_ok s'" "\<exists>cur'. s' = JObject cur' \<and> passed ms ns ms cur'"
        then obtain cur where cur: "s' = JObject cur" "passed ms ns ms cur" by blast
        have "brings p (JObject cur) (\<lambda>s'. \<exists>ms'. s' = JObject ms' \<and> map_of ms' = map_of cur ++ map_of new)
            (map (\<lambda>(k, w). op_add (pointer_to_string p @ ''/'' @ escape k) w) new)"
        proof (rule brings_added)
          show "distinct (map fst new)" using dist(1) by (simp add: new_def distinct_map_filter)
          show "members_ok new" using ok(3) by (auto simp: new_def list_all_iff)
          have "map_of cur k = None" if "map_of ms k = None" for k
            using cur(2) that by (auto simp: passed_def map_of_eq_None_iff)
          then show "\<forall>k \<in> fst ` set new. map_of cur k = None" by (auto simp: new_def)
        qed (use s' cur in simp)
        moreover have "json_eq (JObject ms') target" if "json_ok (JObject ms')" "map_of ms' = map_of cur ++ map_of new" for ms'
        proof -
          have "rel_option json_eq (map_of ms' k) (map_of ns k)" for k
          proof (cases "k \<in> fst ` set ms")
            case True
            then have "map_of new k = None" by (simp add: new map_of_eq_None_iff)
            with True cur(2) that(2) show ?thesis by (simp add: passed_def map_add_def)
          next
            case False
            then have "map_of cur k = None" "map_of new k = map_of ns k"
              using cur(2) by (simp_all add: new map_of_eq_None_iff passed_def)
            moreover have "json_eq w w" if "map_of ns k = Some w" for w
              using that ok(4) by (auto simp: json_eq_refl_iff list_all_iff dest!: map_of_SomeD)
            ultimately show ?thesis using that(2) by (cases "map_of ns k") (auto simp: map_add_def)
          qed
          with members_eq_lookup [of ms' ns] that(1) ok(1) t show ?thesis by simp
        qed
        ultimately show "brings p s' (\<lambda>s'. json_eq s' target) (map (\<lambda>(k, w). op_add (path @ ''/'' @ escape k) w) new)"
          using cur(1) "2.prems"(1) by (auto elim!: brings_weaken)
      qed
      with False t show ?thesis by (simp add: new_def)
    next
      case False
      then have "diff_ops (JObject ms) target path = [op_replace path target]" by (cases target) auto
      with 2 show ?thesis by (simp add: brings_replace)
    qed
  qed
next
  case (5 v vs ws path i)
  show ?case
  proof (cases ws)
    case Nil
    have "brings p (JArray (us @ v # vs)) (\<lambda>s'. s' = JArray us) (diff_elements (v # vs) ws path i)"
      using brings_removals [of "us @ v # vs" i p] 5 Nil by (simp del: upt_Suc)
    with Nil show ?thesis by (auto elim!: brings_weaken)
  next
    case (Cons w ws')
    have "brings (p @ [dec i]) v (\<lambda>v'. json_eq v' w) (diff_ops v w (path @ ''/'' @ dec i))"
      by (rule "5.IH"(1) [OF Cons]) (use 5 Cons in \<open>auto simp: pointer_index_path\<close>)
    then have "brings p (JArray (us @ v # vs)) (\<lambda>s'. \<exists>v'. s' = JArray ((us @ [v']) @ vs) \<and> json_eq v' w)
        (diff_ops v w (path @ ''/'' @ dec i))"
      by (rule brings_element) (use 5 Cons in auto)
    then have "brings p (JArray (us @ v # vs)) (\<lambda>s'. \<exists>vs'. s' = JArray (us @ vs') \<and> elements_eq vs' ws)
        (diff_ops v w (path @ ''/'' @ dec i) @ diff_elements vs ws' path (i + 1))"
    proof (rule brings_append)
      fix s' assume s': "json_ok s'" "\<exists>v'. s' = JArray ((us @ [v']) @ vs) \<and> json_eq v' w"
      then obtain v' where v': "s' = JArray ((us @ [v']) @ vs)" "json_eq v' w" by blast
      have "brings p (JArray ((us @ [v']) @ vs)) (\<lambda>s'. \<exists>vs'. s' = JArray ((us @ [v']) @ vs') \<and> elements_eq vs' ws')
          (diff_elements vs ws' path (i + 1))"
        by (rule "5.IH"(2) [OF Cons]) (use 5 Cons s' v' in auto)
      with v' Cons show "brings p s' (\<lambda>s'. \<exists>vs'. s' = JArray (us @ vs') \<and> elements_eq vs' ws) (diff_elements vs ws' path (i + 1))"
        by (auto elim!: brings_weaken)
    qed
    with Cons show ?thesis by simp
  qed
next
  case (6 ns path)
  then show ?case by (auto simp: passed_def intro: brings_nothing)
next
  case (7 k v ms ns path)
  have k: "map_of cur k = Some v" "k \<notin> fst ` set ms" using "7.prems" by auto
  define first where "first = (case map_of ns k of Some w \<Rightarrow> diff_ops v w (path @ ''/'' @ escape k)
      | None \<Rightarrow> [op_remove (path @ ''/'' @ escape k)])"
  have "brings p (JObject cur) (\<lambda>s'. \<exists>cur1. s' = JObject cur1 \<and> rel_option json_eq (map_of cur1 k) (map_of ns k) \<and>
      (\<forall>l. l \<noteq> k \<longrightarrow> map_of cur1 l = map_of cur l)) first"
  proof (cases "map_of ns k")
    case None
    with brings_erase [OF "7.prems"(2) k(1), of p] "7.prems"(1) show ?thesis
      by (auto simp: first_def map_of_erase elim!: brings_weaken)
  next
    case (Some w)
    then have w: "json_ok w" "ordered w" using "7.prems"(3,4) by (auto simp: list_all_iff dest!: map_of_SomeD)
    have "brings (p @ [k]) v (\<lambda>v'. json_eq v' w) (diff_ops v w (path @ ''/'' @ escape k))"
      by (rule "7.IH"(1) [OF Some]) (use "7.prems" k w members_ok_lookup [of cur k v] in \<open>auto simp: pointer_path\<close>)
    then show ?thesis
      by (simp add: first_def Some) (rule brings_member [OF _ k(1)], use "7.prems" in \<open>auto simp: map_of_assign\<close>)
  qed
  then have "brings p (JObject cur) (\<lambda>s'. \<exists>cur'. s' = JObject cur' \<and> passed ((k, v) # ms) ns cur cur')
      (first @ diff_members ms ns path)"
  proof (rule brings_append)
    fix s' assume s': "json_ok s'" "\<exists>cur1. s' = JObject cur1 \<and> rel_option json_eq (map_of cur1 k) (map_of ns k) \<and>
      (\<forall>l. l \<noteq> k \<longrightarrow> map_of cur1 l = map_of cur l)"
    then obtain cur1 where c: "s' = JObject cur1" "rel_option json_eq (map_of cur1 k) (map_of ns k)"
        "\<And>l. l \<noteq> k \<Longrightarrow> map_of cur1 l = map_of cur l" by blast
    have "brings p (JObject cur1) (\<lambda>s'. \<exists>cur'. s' = JObject cur' \<and> passed ms ns cur1 cur') (diff_members ms ns path)"
    proof (rule "7.IH"(2))
      show "\<forall>(l, u) \<in> set ms. map_of cur1 l = Some u"
      proof clarify
        fix l u assume lu: "(l, u) \<in> set ms"
        with k(2) have "l \<noteq> k" by force
        with lu c(3) "7.prems"(7) show "map_of cur1 l = Some u" by auto
      qed
    qed (use "7.prems" s' c in auto)
    with c k(2) show "brings p s' (\<lambda>s'. \<exists>cur'. s' = JObject cur' \<and> passed ((k, v) # ms) ns cur cur') (diff_members ms ns path)"
      by (auto elim!: brings_weaken intro: passed_step)
  qed
  then show ?case by (simp add: first_def)
qed (simp_all add: brings_nothing brings_replace)

section \<open>Merging\<close>

lemma merge_members_ok:
  "json_ok p \<Longrightarrow> json_ok j \<Longrightarrow> json_ok (merge_patch p j)"
  "members_ok ps \<Longrightarrow> obj_ok ms \<and> members_ok ms \<Longrightarrow> obj_ok (merge_members ps ms) \<and> members_ok (merge_members ps ms)"
proof (induction p j and ps ms rule: merge_patch_merge_members.induct)
  case (1 ps j)
  then show ?case by (cases j) simp_all
next
  case (4 k v ps ms)
  show ?case
  proof (cases "is_null v")
    case True
    with 4 show ?thesis by (simp add: obj_ok_erase members_ok_erase)
  next
    case False
    define ms' where "ms' = obj_emplace k JNull ms"
    have ms': "obj_ok ms'" "members_ok ms'" using 4 by (simp_all add: ms'_def obj_ok_emplace members_ok_emplace)
    obtain u where "map_of ms' k = Some u" using map_of_emplaced [of ms k JNull] 4 by (simp add: ms'_def)
    with members_ok_lookup [OF ms'(2)] have "json_ok (the (map_of ms' k))" by auto
    with 4 False ms' show ?thesis by (simp add: ms'_def Let_def obj_ok_assign members_ok_assign)
  qed
qed simp_all

text \<open>What RFC 7396 prescribes for one member.\<close>

definition merged :: "json option \<Rightarrow> json option \<Rightarrow> json option" where
  "merged patch old = (case patch of
     None \<Rightarrow> old
   | Some v \<Rightarrow> if is_null v then None else Some (merge_patch v (case old of None \<Rightarrow> JNull | Some w \<Rightarrow> w)))"

lemma merge_members_lookup:
  assumes "obj_ok ps" "members_ok ps" "obj_ok ms" "members_ok ms"
  shows "map_of (merge_members ps ms) k = merged (map_of ps k) (map_of ms k)"
  using assms
proof (induction ps arbitrary: ms)
  case Nil
  then show ?case by (simp add: merged_def)
next
  case (Cons m ps)
  obtain l v where m: "m = (l, v)" by (cases m)
  define ms1 where "ms1 = (if is_null v then obj_erase l ms
      else obj_assign l (merge_patch v (the (map_of (obj_emplace l JNull ms) l))) (obj_emplace l JNull ms))"
  have one: "merge_members [m] ms = ms1" by (simp add: m ms1_def Let_def)
  have ok: "obj_ok ms1" "members_ok ms1"
    using merge_members_ok(2) [of "[m]" ms] Cons.prems one by simp_all
  have absent: "map_of ps l = None" using Cons.prems(1) m by (auto simp: obj_ok_Cons map_of_eq_None_iff)
  have lookup: "map_of ms1 x = (if x = l then merged (Some v) (map_of ms l) else map_of ms x)" for x
    using Cons.prems map_of_emplaced [of ms l JNull] map_of_emplace [of ms l JNull]
    by (auto simp: ms1_def map_of_erase map_of_assign merged_def split: option.splits)
  have "merge_members (m # ps) ms = merge_members ps ms1" by (simp add: m ms1_def Let_def)
  with Cons.IH [of ms1] Cons.prems ok lookup absent m show ?case
    by (auto simp: obj_ok_Cons merged_def)
qed

lemma merge_twice: "json_ok p \<Longrightarrow> json_ok j \<Longrightarrow> merge_patch p (merge_patch p j) = merge_patch p j"
proof (induction p arbitrary: j rule: json_induct)
  case (object ps)
  define ms where "ms = (case j of JObject ms \<Rightarrow> ms | _ \<Rightarrow> [])"
  have ms: "obj_ok ms" "members_ok ms" using object.prems by (cases j; simp add: ms_def)+
  have ps: "obj_ok ps" "members_ok ps" using object.prems by simp_all
  note once = merge_members_ok(2) [of ps ms, OF ps(2)]
  have "merge_members ps (merge_members ps ms) = merge_members ps ms"
  proof (rule obj_ok_unique)
    show "map_of (merge_members ps (merge_members ps ms)) = map_of (merge_members ps ms)"
    proof
      fix k
      have "merged (map_of ps k) (merged (map_of ps k) (map_of ms k)) = merged (map_of ps k) (map_of ms k)"
      proof (cases "map_of ps k")
        case (Some v)
        then have "(k, v) \<in> set ps" "json_ok v" using ps(2) by (auto simp: members_ok_lookup dest: map_of_SomeD)
        moreover have "json_ok (case map_of ms k of None \<Rightarrow> JNull | Some w \<Rightarrow> w)"
          using ms(2) by (auto simp: members_ok_lookup split: option.splits)
        ultimately show ?thesis using object.IH [of k v] Some by (simp add: merged_def)
      qed (simp add: merged_def)
      then show "map_of (merge_members ps (merge_members ps ms)) k = map_of (merge_members ps ms) k"
        using ms ps once by (simp add: merge_members_lookup)
    qed
  qed (use ms ps merge_members_ok(2) in \<open>simp_all add: merge_members_ok(2)\<close>)
  then show ?case by (simp add: ms_def)
next
  case (array vs)
  then show ?case by simp
next
  case (other p)
  then show ?case by (cases p) (simp_all add: type_defs)
qed

section \<open>Properties\<close>

text \<open>C30. Applying the patch that \<open>diff\<close> computes from a source and a target to the source succeeds and
  gives the target, up to the equality \<open>diff\<close> itself compares with. Source and target are any
  values with ordered keys, the target without NaNs, the arrays of the source short enough to
  be indexed.\<close>

theorem diff_patch_reaches_target:
  assumes "json_ok s" "json_ok t" "ordered t" "indexable s"
  shows "\<exists>r. json_patch s (json_diff s t []) = Inr r \<and> json_ok r \<and> json_eq r t"
proof -
  have "brings [] s (\<lambda>s'. json_eq s' t) (diff_ops s t [])" by (rule diff_brings(1)) (use assms in simp_all)
  from this assms(1) obtain s' r' where "patch_steps (diff_ops s t []) s = (None, r')"
      "at_pointer [] (put s') s = Inr r'" "json_ok s'" "json_eq s' t"
    by (rule bringsD) simp
  then show ?thesis by (simp add: json_patch_def json_diff_def put_def)
qed

theorem diff_patch_reaches_target_witness:
  "\<exists>r. json_patch (JObject [(''a'', JInt 1), (''b'', JArray [JNull, JBool True])])
        (json_diff (JObject [(''a'', JInt 1), (''b'', JArray [JNull, JBool True])])
           (JObject [(''b'', JArray [JString ''x'']), (''c'', JNull)]) []) = Inr r \<and> json_ok r \<and>
     json_eq r (JObject [(''b'', JArray [JString ''x'']), (''c'', JNull)])"
  by (rule diff_patch_reaches_target) (simp_all add: obj_ok_def)

text \<open>C32. Merging does what RFC 7396 says member by member: null removes the key, a value that is no
  object replaces what was there, an object is merged into it; a patch that is no object
  replaces the whole document. Merging the same patch again changes nothing.\<close>

theorem merge_patch_follows_rfc:
  assumes "json_ok p" "json_ok j"
  shows "(case p of
      JObject ps \<Rightarrow> \<exists>rs. merge_patch p j = JObject rs \<and> obj_ok rs \<and>
        (\<forall>k. map_of rs k = merged (map_of ps k) (json_find j k))
    | _ \<Rightarrow> merge_patch p j = p) \<and> merge_patch p (merge_patch p j) = merge_patch p j"
proof (intro conjI)
  show "merge_patch p (merge_patch p j) = merge_patch p j" using assms by (rule merge_twice)
  show "case p of
      JObject ps \<Rightarrow> \<exists>rs. merge_patch p j = JObject rs \<and> obj_ok rs \<and>
        (\<forall>k. map_of rs k = merged (map_of ps k) (json_find j k))
    | _ \<Rightarrow> merge_patch p j = p"
  proof (cases "\<exists>ps. p = JObject ps")
    case True
    then obtain ps where p: "p = JObject ps" by blast
    define ms where "ms = (case j of JObject ms \<Rightarrow> ms | _ \<Rightarrow> [])"
    have ms: "obj_ok ms" "members_ok ms" "json_find j k = map_of ms k" for k
      using assms(2) by (cases j; simp add: ms_def)+
    have "merge_patch p j = JObject (merge_members ps ms)" by (simp add: p ms_def)
    with ms assms(1) p merge_members_lookup merge_members_ok(2) show ?thesis by simp
  next
    case False
    then show ?thesis by (cases p) simp_all
  qed
qed

theorem merge_patch_follows_rfc_witness:
  "merge_patch (JObject [(''a'', JNull), (''b'', JObject [(''c'', JInt 2)])])
     (JObject [(''a'', JInt 1), (''b'', JString ''x'')]) = JObject [(''b'', JObject [(''c'', JInt 2)])] \<and>
   merge_patch (JObject [(''a'', JNull), (''b'', JObject [(''c'', JInt 2)])]) (JObject [(''b'', JObject [(''c'', JInt 2)])]) =
     JObject [(''b'', JObject [(''c'', JInt 2)])]"
proof -
  define p where "p = JObject [(''a'', JNull), (''b'', JObject [(''c'', JInt 2)])]"
  define j where "j = JObject [(''a'', JInt 1), (''b'', JString ''x'')]"
  have merge: "merge_patch p j = JObject [(''b'', JObject [(''c'', JInt 2)])]"
    by (simp add: p_def j_def type_defs obj_erase_def Let_def)
  have "merge_patch p (merge_patch p j) = merge_patch p j"
    using merge_patch_follows_rfc [of p j] by (simp add: p_def j_def obj_ok_def)
  with merge show ?thesis by (simp add: p_def j_def)
qed

text \<open>A removal below a value that is neither object nor array is accepted and does nothing, where
  RFC 6902 asks for an error.\<close>

lemma remove_below_primitive_ignored:
  assumes "json_ok j" "get_checked p j = Inr v" "\<not> is_structured v"
  shows "json_patch j (JArray [op_remove (pointer_to_string (p @ [k]))]) = Inr j"
proof -
  have "remove_from k v = Inr v" using assms(3) by (cases v) (simp_all add: type_defs)
  then have "at_pointer p (remove_from k) j = Inr j"
    using at_as_put [of p "remove_from k" j] assms(1,2) loc.store_look by simp
  then show ?thesis by (simp add: json_patch_def step_remove settle_on_def del: remove_from.simps)
qed

end
