(* ===== verification/JsonFlatten.thy ===== *)
theory JsonFlatten
  imports JsonPatch
begin

text \<open>
  No new code: \<open>unflatten\<close> undoes \<open>flatten\<close>. \<open>leaf_at\<close> says which primitive value a pointer leads
  to; a flattened value is the sorted table of its leaves. Putting leaves back one after the
  other builds partial copies of the value (\<open>partial\<close>), whatever order the table has, as long
  as an array is begun with its first element.
\<close>

section \<open>Leaves\<close>

fun leaf_at :: "json \<Rightarrow> json_pointer \<Rightarrow> json option" where
  "leaf_at j [] = (if is_structured j then None else Some j)"
| "leaf_at j (t # p) =
     (case j of
        JObject ms \<Rightarrow> (case map_of ms t of Some v \<Rightarrow> leaf_at v p | None \<Rightarrow> None)
      | JArray vs \<Rightarrow>
          (case array_index t of
             Inr i \<Rightarrow> if i < length vs \<and> dec i = t then leaf_at (vs ! i) p else None
           | Inl e \<Rightarrow> None)
      | _ \<Rightarrow> None)"

text \<open>
  The values that survive: no empty containers (flattened to null), nothing discarded, no key
  \<open>"0"\<close> (which would be read back as an index).
\<close>

fun flattenable :: "json \<Rightarrow> bool" where
  "flattenable (JArray vs) \<longleftrightarrow> vs \<noteq> [] \<and> length vs < 2 ^ 64 \<and> list_all flattenable vs"
| "flattenable (JObject ms) \<longleftrightarrow>
     ms \<noteq> [] \<and> obj_ok ms \<and> ''0'' \<notin> fst ` set ms \<and> list_all (\<lambda>m. flattenable (snd m)) ms"
| "flattenable JDiscarded \<longleftrightarrow> False"
| "flattenable j \<longleftrightarrow> True"

lemma leaf_element: "length vs < 2 ^ 64 \<Longrightarrow> leaf_at (JArray vs) (dec i # p) = (if i < length vs then leaf_at (vs ! i) p else None)"
proof (cases "i < 2 ^ 64 - 1")
  case False
  assume "length vs < 2 ^ 64"
  with False have "\<not> i < length vs" by simp
  moreover have "array_index (dec i) = Inr k \<Longrightarrow> k < length vs \<and> dec k = dec i \<Longrightarrow> False" for k
    using calculation by (simp add: dec_inj)
  ultimately show ?thesis by (auto split: sum.splits)
qed (simp add: array_index_dec)

lemma leaf_element_token:
  assumes "leaf_at (JArray vs) (t # p) = Some v"
  obtains i where "t = dec i" "array_index t = Inr i" "i < length vs" "leaf_at (vs ! i) p = Some v"
  using assms by (auto split: sum.splits if_splits)

lemma some_leaf: "flattenable j \<Longrightarrow> \<exists>p v. leaf_at j p = Some v"
proof (induction j rule: json_induct)
  case (object ms)
  then obtain k w ms' where ms: "ms = (k, w) # ms'" by (cases ms) auto
  with object.IH [of k w] object.prems obtain p v where "leaf_at w p = Some v" by auto
  then have "leaf_at (JObject ms) (k # p) = Some v" by (simp add: ms)
  then show ?case by blast
next
  case (array vs)
  then obtain w vs' where vs: "vs = w # vs'" by (cases vs) auto
  with array.IH [of w] array.prems obtain p v where "leaf_at w p = Some v" by auto
  with array.prems have "leaf_at (JArray vs) (dec 0 # p) = Some v" using leaf_element [of vs 0 p] by (simp add: vs)
  then show ?case by blast
next
  case (other j)
  then have "leaf_at j [] = Some j" by simp
  then show ?case by blast
qed

section \<open>The flattened table\<close>

definition entries :: "string \<Rightarrow> json \<Rightarrow> (string \<times> json) set" where
  "entries path j = {(path @ pointer_to_string p, v) |p v. leaf_at j p = Some v}"

text \<open>New entries in a table hide old ones.\<close>

definition adds :: "(string \<times> json) list \<Rightarrow> (string \<times> json) list \<Rightarrow> (string \<times> json) set \<Rightarrow> bool" where
  "adds r r' new \<longleftrightarrow>
     (\<forall>x v. map_of r' x = Some v \<longleftrightarrow> (x, v) \<in> new \<or> (x \<notin> Domain new \<and> map_of r x = Some v))"

lemma adds_none: "adds r r {}"
  by (simp add: adds_def)

lemma adds_one: "adds r (obj_assign x v r) {(x, v)}"
  by (auto simp: adds_def map_of_assign)

lemma adds_both:
  assumes "adds r r1 a" "adds r1 r2 b" "Domain a \<inter> Domain b = {}"
  shows "adds r r2 (a \<union> b)"
  unfolding adds_def
proof (intro allI)
  fix x v
  have "map_of r2 x = Some v \<longleftrightarrow> (x, v) \<in> b \<or> (x \<notin> Domain b \<and> map_of r1 x = Some v)"
    using assms(2) by (simp add: adds_def)
  also have "map_of r1 x = Some v \<longleftrightarrow> (x, v) \<in> a \<or> (x \<notin> Domain a \<and> map_of r x = Some v)"
    using assms(1) by (simp add: adds_def)
  finally show "map_of r2 x = Some v \<longleftrightarrow> (x, v) \<in> a \<union> b \<or> (x \<notin> Domain (a \<union> b) \<and> map_of r x = Some v)"
    using assms(3) by blast
qed

lemma pointer_inj: "pointer_to_string p = pointer_to_string q \<longleftrightarrow> p = q"
proof
  assume "pointer_to_string p = pointer_to_string q"
  then have "split (pointer_to_string p) = split (pointer_to_string q)" by (rule arg_cong)
  then show "p = q" by simp
qed simp

lemma entries_step: "entries (path @ ''/'' @ escape t) j = {(path @ pointer_to_string (t # p), v) |p v. leaf_at j p = Some v}"
  by (simp add: entries_def)

lemma in_entries: "(x, v) \<in> entries path j \<longleftrightarrow> (\<exists>p. x = path @ pointer_to_string p \<and> leaf_at j p = Some v)"
  by (auto simp: entries_def)

lemma entries_disjoint:
  assumes "s \<noteq> t"
  shows "Domain (entries (path @ ''/'' @ escape s) v) \<inter> Domain (entries (path @ ''/'' @ escape t) w) = {}"
proof (rule equals0I)
  fix x assume "x \<in> Domain (entries (path @ ''/'' @ escape s) v) \<inter> Domain (entries (path @ ''/'' @ escape t) w)"
  then obtain p q where "x = path @ pointer_to_string (s # p)" "x = path @ pointer_to_string (t # q)"
    unfolding entries_step by blast
  then have "s # p = t # q" by (simp only: same_append_eq pointer_inj)
  with assms show False by simp
qed

lemma entries_array:
  assumes "length vs < 2 ^ 64"
  shows "entries path (JArray vs) = (\<Union>n < length vs. entries (path @ ''/'' @ escape (dec n)) (vs ! n))"
proof -
  have "(\<exists>p. x = path @ pointer_to_string p \<and> leaf_at (JArray vs) p = Some v) \<longleftrightarrow>
      (\<exists>n < length vs. \<exists>p. x = path @ pointer_to_string (dec n # p) \<and> leaf_at (vs ! n) p = Some v)" for x v
  proof
    assume "\<exists>p. x = path @ pointer_to_string p \<and> leaf_at (JArray vs) p = Some v"
    then obtain p where p: "x = path @ pointer_to_string p" "leaf_at (JArray vs) p = Some v" by blast
    show "\<exists>n < length vs. \<exists>p. x = path @ pointer_to_string (dec n # p) \<and> leaf_at (vs ! n) p = Some v"
    proof (cases p)
      case Nil
      with p show ?thesis by (simp add: type_defs)
    next
      case (Cons t q)
      then obtain i where "t = dec i" "i < length vs" "leaf_at (vs ! i) q = Some v"
        using leaf_element_token p(2) by blast
      with p(1) Cons show ?thesis by blast
    qed
  next
    assume "\<exists>n < length vs. \<exists>p. x = path @ pointer_to_string (dec n # p) \<and> leaf_at (vs ! n) p = Some v"
    then obtain n p where "n < length vs" "x = path @ pointer_to_string (dec n # p)" "leaf_at (vs ! n) p = Some v" by blast
    with leaf_element [OF assms, of n p] show "\<exists>p. x = path @ pointer_to_string p \<and> leaf_at (JArray vs) p = Some v"
      by metis
  qed
  then show ?thesis
    by (simp only: set_eq_iff split_paired_All UN_iff split_def in_entries Bex_def lessThan_iff) simp
qed

lemma entries_object:
  assumes "distinct (map fst ms)"
  shows "entries path (JObject ms) = (\<Union>(k, w) \<in> set ms. entries (path @ ''/'' @ escape k) w)"
proof -
  have "(\<exists>p. x = path @ pointer_to_string p \<and> leaf_at (JObject ms) p = Some v) \<longleftrightarrow>
      (\<exists>(k, w) \<in> set ms. \<exists>p. x = path @ pointer_to_string (k # p) \<and> leaf_at w p = Some v)" for x v
  proof
    assume "\<exists>p. x = path @ pointer_to_string p \<and> leaf_at (JObject ms) p = Some v"
    then obtain p where p: "x = path @ pointer_to_string p" "leaf_at (JObject ms) p = Some v" by blast
    then show "\<exists>(k, w) \<in> set ms. \<exists>p. x = path @ pointer_to_string (k # p) \<and> leaf_at w p = Some v"
      by (cases p) (auto simp: type_defs split: option.splits dest!: map_of_SomeD)
  next
    assume "\<exists>(k, w) \<in> set ms. \<exists>p. x = path @ pointer_to_string (k # p) \<and> leaf_at w p = Some v"
    then obtain k w p where "(k, w) \<in> set ms" "x = path @ pointer_to_string (k # p)" "leaf_at w p = Some v" by blast
    with assms have "leaf_at (JObject ms) (k # p) = Some v" by simp
    with \<open>x = path @ pointer_to_string (k # p)\<close>
    show "\<exists>p. x = path @ pointer_to_string p \<and> leaf_at (JObject ms) p = Some v" by blast
  qed
  then show ?thesis
    by (simp only: set_eq_iff split_paired_All UN_iff split_def in_entries Bex_def lessThan_iff) simp
qed

lemma entries_leaf: "\<not> is_structured j \<Longrightarrow> entries path j = {(path, j)}"
proof -
  assume j: "\<not> is_structured j"
  have "leaf_at j p = Some v \<longleftrightarrow> p = [] \<and> v = j" for p v
    using j by (cases p; cases j) (auto simp: type_defs)
  then show ?thesis by (auto simp: entries_def)
qed

lemma flatten_adds:
  "flattenable j \<Longrightarrow> adds r (flatten_into path j r) (entries path j)"
  "list_all flattenable vs \<Longrightarrow>
     adds r (flatten_elements path i vs r) (\<Union>n < length vs. entries (path @ ''/'' @ escape (dec (i + n))) (vs ! n))"
  "list_all (\<lambda>m. flattenable (snd m)) ms \<Longrightarrow> distinct (map fst ms) \<Longrightarrow>
     adds r (flatten_members path ms r) (\<Union>(k, w) \<in> set ms. entries (path @ ''/'' @ escape k) w)"
proof (induction path j r and path i vs r and path ms r rule: flatten_into_flatten_elements_flatten_members.induct)
  case (1 path vs r)
  then show ?case by (simp add: entries_array del: pointer_to_string_simps)
next
  case (2 path ms r)
  then show ?case by (simp add: entries_object obj_ok_distinct)
next
  case (5 path i v vs r)
  let ?r1 = "flatten_into (path @ ''/'' @ dec i) v r"
  have "adds r ?r1 (entries (path @ ''/'' @ escape (dec i)) v)" using 5 by (simp add: escape_dec)
  moreover have "adds ?r1 (flatten_elements path (i + 1) vs ?r1)
      (\<Union>n < length vs. entries (path @ ''/'' @ escape (dec (i + 1 + n))) (vs ! n))" using 5 by simp
  moreover have "Domain (entries (path @ ''/'' @ escape (dec i)) v) \<inter>
      Domain (\<Union>n < length vs. entries (path @ ''/'' @ escape (dec (i + 1 + n))) (vs ! n)) = {}"
    using entries_disjoint [of "dec i" "dec (i + 1 + n)" path v "vs ! n" for n]
    by (simp only: Domain_Union UN_simps dec_inj Int_UN_distrib image_image) simp
  ultimately have "adds r (flatten_elements path (i + 1) vs ?r1)
      (entries (path @ ''/'' @ escape (dec i)) v \<union> (\<Union>n < length vs. entries (path @ ''/'' @ escape (dec (i + 1 + n))) (vs ! n)))"
    by (rule adds_both)
  moreover have "entries (path @ ''/'' @ escape (dec i)) v \<union> (\<Union>n < length vs. entries (path @ ''/'' @ escape (dec (i + 1 + n))) (vs ! n)) =
      (\<Union>n < length (v # vs). entries (path @ ''/'' @ escape (dec (i + n))) ((v # vs) ! n))"
    by (auto simp: less_Suc_eq_0_disj)
  ultimately show ?case by simp
next
  case (7 path k v ms r)
  let ?r1 = "flatten_into (path @ ''/'' @ escape k) v r"
  have "adds r ?r1 (entries (path @ ''/'' @ escape k) v)" using 7 by simp
  moreover have "adds ?r1 (flatten_members path ms ?r1) (\<Union>(k, w) \<in> set ms. entries (path @ ''/'' @ escape k) w)" using 7 by simp
  moreover have "Domain (entries (path @ ''/'' @ escape k) v) \<inter> Domain (\<Union>(k, w) \<in> set ms. entries (path @ ''/'' @ escape k) w) = {}"
  proof -
    have "Domain (entries (path @ ''/'' @ escape k) v) \<inter> Domain (entries (path @ ''/'' @ escape l) w) = {}"
      if "(l, w) \<in> set ms" for l w
      by (rule entries_disjoint) (use 7(4) that in force)
    then show ?thesis by (simp only: Domain_Union image_image Int_UN_distrib) fastforce
  qed
  ultimately have "adds r (flatten_members path ms ?r1)
      (entries (path @ ''/'' @ escape k) v \<union> (\<Union>(k, w) \<in> set ms. entries (path @ ''/'' @ escape k) w))" by (rule adds_both)
  then show ?case by simp
qed (simp_all add: adds_none adds_one entries_leaf type_defs)

lemma flatten_sorted:
  "obj_ok r \<Longrightarrow> obj_ok (flatten_into path j r)"
  "obj_ok r \<Longrightarrow> obj_ok (flatten_elements path i vs r)"
  "obj_ok r \<Longrightarrow> obj_ok (flatten_members path ms r)"
  by (induction path j r and path i vs r and path ms r rule: flatten_into_flatten_elements_flatten_members.induct)
    (auto simp: obj_ok_assign)

lemma flatten_set:
  assumes "flattenable j"
  shows "set (flatten_into [] j []) = entries [] j"
proof -
  have "map_of (flatten_into [] j []) x = Some v \<longleftrightarrow> (x, v) \<in> entries [] j" for x v
    using flatten_adds(1) [OF assms, of "[]" "[]"] by (simp add: adds_def)
  moreover have "distinct (map fst (flatten_into [] j []))" using flatten_sorted(1) [of "[]"] by (simp add: obj_ok_distinct)
  ultimately show ?thesis by (simp add: set_eq_iff)
qed

lemma entries_keys: "pointer_to_string p \<in> fst ` entries [] j \<longleftrightarrow> (\<exists>v. leaf_at j p = Some v)"
proof
  assume "pointer_to_string p \<in> fst ` entries [] j"
  then obtain q v where "pointer_to_string p = pointer_to_string q" "leaf_at j q = Some v" by (auto simp: entries_def)
  then show "\<exists>v. leaf_at j p = Some v" by (auto simp: pointer_inj)
next
  assume "\<exists>v. leaf_at j p = Some v"
  then show "pointer_to_string p \<in> fst ` entries [] j" by (force simp: entries_def)
qed

section \<open>Partial copies\<close>

definition after :: "string \<Rightarrow> json_pointer set \<Rightarrow> json_pointer set" where
  "after t S = {p. t # p \<in> S}"

lemma after_simps [simp]:
  "after t {} = {}" "after t (insert (t # p) S) = insert p (after t S)"
  "t \<noteq> u \<Longrightarrow> after t (insert (u # p) S) = after t S"
  by (auto simp: after_def)

text \<open>\<open>partial S j r\<close>: the leaves of \<open>j\<close> at the pointers of \<open>S\<close> are in \<open>r\<close>, and nothing else but nulls.\<close>

inductive partial :: "json_pointer set \<Rightarrow> json \<Rightarrow> json \<Rightarrow> bool" where
  partial_empty: "partial {} j JNull"
| partial_leaf: "\<not> is_structured j \<Longrightarrow> partial {[]} j j"
| partial_object: "S \<noteq> {} \<Longrightarrow> obj_ok rs \<Longrightarrow>
    (\<forall>k. map_of rs k = None \<longrightarrow> after k S = {}) \<Longrightarrow>
    (\<forall>k r. map_of rs k = Some r \<longrightarrow> after k S \<noteq> {} \<and> (\<exists>v. map_of ms k = Some v \<and> partial (after k S) v r)) \<Longrightarrow>
    partial S (JObject ms) (JObject rs)"
| partial_array: "S \<noteq> {} \<Longrightarrow> length rs \<le> length vs \<Longrightarrow>
    (\<forall>i < length rs. partial (after (dec i) S) (vs ! i) (rs ! i)) \<Longrightarrow>
    (\<forall>i \<ge> length rs. after (dec i) S = {}) \<Longrightarrow>
    partial S (JArray vs) (JArray rs)"

inductive_cases partial_objectE [consumes 1, case_names empty leaf copy]: "partial S (JObject ms) r"
inductive_cases partial_arrayE [consumes 1, case_names empty leaf copy]: "partial S (JArray vs) r"

text \<open>Arrays are begun with their first element.\<close>

definition zero_first :: "json_pointer set \<Rightarrow> json \<Rightarrow> json_pointer \<Rightarrow> bool" where
  "zero_first S j p \<longleftrightarrow> (\<forall>q t u vs. p = q @ t # u \<longrightarrow> get_checked q j = Inr (JArray vs) \<longrightarrow>
     t \<noteq> ''0'' \<longrightarrow> (\<exists>w. q @ ''0'' # w \<in> S))"

lemma zero_first_step:
  assumes "zero_first S j (t # p)" "get_checked [t] j = Inr w"
  shows "zero_first (after t S) w p"
  unfolding zero_first_def
proof (intro allI impI)
  fix q s u vs assume p: "p = q @ s # u" "get_checked q w = Inr (JArray vs)" "s \<noteq> ''0''"
  have "get_checked (t # q) j = Inr (JArray vs)" using get_append [of "[t]" q j] assms(2) p(2) by simp
  moreover have "t # p = (t # q) @ s # u" using p(1) by simp
  ultimately obtain x where "(t # q) @ ''0'' # x \<in> S" using assms(1) p(3) unfolding zero_first_def by blast
  then show "\<exists>x. q @ ''0'' # x \<in> after t S" by (auto simp: after_def)
qed

lemma partial_put_object:
  assumes "partial S (JObject ms) r" "map_of ms k = Some w" "k \<noteq> ''0''"
    and "\<And>x. partial (after k S) w x \<Longrightarrow> \<exists>y. get_and_create p f x = Inr y \<and> partial (insert p (after k S)) w y"
  shows "\<exists>r'. get_and_create (k # p) f r = Inr r' \<and> partial (insert (k # p) S) (JObject ms) r'"
  using assms(1)
proof (cases rule: partial_objectE)
  case empty
  then obtain y where y: "get_and_create p f JNull = Inr y" "partial {p} w y"
    using assms(4) [of JNull] partial_empty [of w] by auto
  have "partial {k # p} (JObject ms) (JObject [(k, y)])"
    by (rule partial_object) (use y assms(2) in \<open>auto simp: obj_ok_Cons after_def\<close>)
  with empty y assms(3) show ?thesis by simp
next
  case leaf
  then show ?thesis by (simp add: type_defs)
next
  case (copy rs)
  define rs1 where "rs1 = obj_emplace k JNull rs"
  define x where "x = (case map_of rs k of None \<Rightarrow> JNull | Some r \<Rightarrow> r)"
  have x: "map_of rs1 k = Some x" using map_of_emplaced [OF copy(3)] by (simp add: rs1_def x_def)
  have "partial (after k S) w x"
  proof (cases "map_of rs k")
    case None
    with copy(4) partial_empty [of w] show ?thesis by (simp add: x_def)
  next
    case (Some y)
    with copy(5) assms(2) have "partial (after k S) w y" by fastforce
    with Some show ?thesis by (simp add: x_def)
  qed
  from assms(4) [OF this] obtain y where y: "get_and_create p f x = Inr y" "partial (insert p (after k S)) w y" by blast
  have lookup: "map_of (obj_assign k y rs1) l = (if l = k then Some y else map_of rs l)" for l
    using map_of_emplace [OF copy(3), of k JNull] by (auto simp: map_of_assign rs1_def split: option.splits)
  have "partial (insert (k # p) S) (JObject ms) (JObject (obj_assign k y rs1))"
  proof (rule partial_object)
    show "obj_ok (obj_assign k y rs1)" using copy(3) by (simp add: rs1_def obj_ok_assign obj_ok_emplace)
    show "\<forall>l. map_of (obj_assign k y rs1) l = None \<longrightarrow> after l (insert (k # p) S) = {}"
      using copy(4) by (auto simp: lookup)
    show "\<forall>l r. map_of (obj_assign k y rs1) l = Some r \<longrightarrow> after l (insert (k # p) S) \<noteq> {} \<and>
        (\<exists>v. map_of ms l = Some v \<and> partial (after l (insert (k # p) S)) v r)"
    proof (intro allI impI)
      fix l r assume l: "map_of (obj_assign k y rs1) l = Some r"
      show "after l (insert (k # p) S) \<noteq> {} \<and> (\<exists>v. map_of ms l = Some v \<and> partial (after l (insert (k # p) S)) v r)"
        using l copy(5) y(2) assms(2) by (cases "l = k") (auto simp: lookup)
    qed
  qed simp
  moreover have "get_and_create (k # p) f r = Inr (JObject (obj_assign k y rs1))"
    using copy(1) x y(1) by (simp add: rs1_def Let_def)
  ultimately show ?thesis by blast
qed

lemma partial_put_array:
  assumes "partial S (JArray vs) r" "i < length vs" "array_index (dec i) = Inr i" "S = {} \<longrightarrow> i = 0"
    and "\<And>x. partial (after (dec i) S) (vs ! i) x \<Longrightarrow>
      \<exists>y. get_and_create p f x = Inr y \<and> partial (insert p (after (dec i) S)) (vs ! i) y"
  shows "\<exists>r'. get_and_create (dec i # p) f r = Inr r' \<and> partial (insert (dec i # p) S) (JArray vs) r'"
proof -
  have whole: "\<exists>r'. index_array i (get_and_create p f) rs = Inr r' \<and> partial (insert (dec i # p) S) (JArray vs) r'"
    if rs: "length rs \<le> length vs" "\<forall>l < length rs. partial (after (dec l) S) (vs ! l) (rs ! l)"
      "\<forall>l \<ge> length rs. after (dec l) S = {}" for rs
  proof -
    define us where "us = (if length rs \<le> i then resize (i + 1) rs else rs)"
    have us: "i < length us" "length us \<le> length vs" "\<forall>l \<ge> length us. after (dec l) S = {}"
      using rs(1,3) assms(2) by (auto simp: us_def resize_def)
    have part: "partial (after (dec l) S) (vs ! l) (us ! l)" if "l < length us" for l
    proof (cases "l < length rs")
      case True
      with rs(2) show ?thesis by (auto simp: us_def resize_def nth_append)
    next
      case False
      with that have "us ! l = JNull" by (auto simp: us_def resize_def nth_append split: if_splits)
      with False rs(3) partial_empty [of "vs ! l"] show ?thesis by simp
    qed
    from assms(5) [OF part [OF us(1)]] obtain y
      where y: "get_and_create p f (us ! i) = Inr y" "partial (insert p (after (dec i) S)) (vs ! i) y" by blast
    have "partial (insert (dec i # p) S) (JArray vs) (JArray (us[i := y]))"
    proof (rule partial_array)
      show "\<forall>l < length (us[i := y]). partial (after (dec l) (insert (dec i # p) S)) (vs ! l) (us[i := y] ! l)"
      proof (intro allI impI)
        fix l assume "l < length (us[i := y])"
        with part [of l] y(2) show "partial (after (dec l) (insert (dec i # p) S)) (vs ! l) (us[i := y] ! l)"
          by (cases "l = i") (simp_all add: dec_inj)
      qed
      show "\<forall>l \<ge> length (us[i := y]). after (dec l) (insert (dec i # p) S) = {}"
        using us(1,3) by (auto simp: dec_inj)
    qed (use us in simp_all)
    moreover have "index_array i (get_and_create p f) rs = Inr (JArray (us[i := y]))"
      using y(1) by (simp add: us_def Let_def)
    ultimately show ?thesis by blast
  qed
  show ?thesis
    using assms(1)
  proof (cases rule: partial_arrayE)
    case empty
    with assms(4) whole [of "[]"] show ?thesis by (simp add: dec_zero del: index_array.simps)
  next
    case leaf
    then show ?thesis by (simp add: type_defs)
  next
    case (copy rs)
    with whole [of rs] assms(3) show ?thesis by (simp del: index_array.simps)
  qed
qed

lemma partial_put:
  assumes "flattenable j" "partial S j r" "leaf_at j p = Some v" "p \<notin> S" "zero_first S j p"
  shows "\<exists>r'. get_and_create p (put v) r = Inr r' \<and> partial (insert p S) j r'"
  using assms
proof (induction p arbitrary: S j r)
  case Nil
  then have "\<not> is_structured j" "v = j" by (auto split: if_splits)
  with Nil.prems(2,4) have "S = {}" by (cases rule: partial.cases) (auto simp: type_defs)
  with \<open>\<not> is_structured j\<close> \<open>v = j\<close> partial_leaf show ?case by (simp add: put_def)
next
  case (Cons t p)
  show ?case
  proof (cases j)
    case (JObject ms)
    with Cons.prems(3) obtain w where w: "map_of ms t = Some w" "leaf_at w p = Some v" by (auto split: option.splits)
    then have "(t, w) \<in> set ms" by (simp add: map_of_SomeD)
    with Cons.prems(1) JObject have w2: "flattenable w" "t \<noteq> ''0''" by (auto simp: list_all_iff image_iff)
    have "zero_first (after t S) w p" by (rule zero_first_step [OF Cons.prems(5)]) (simp add: JObject w(1))
    moreover have "p \<notin> after t S" using Cons.prems(4) by (simp add: after_def)
    ultimately show ?thesis
      using partial_put_object [OF _ w(1) w2(2)] Cons.IH [OF w2(1) _ w(2)] Cons.prems(2) JObject by blast
  next
    case (JArray vs)
    with Cons.prems(3) obtain i where i: "t = dec i" "array_index t = Inr i" "i < length vs" "leaf_at (vs ! i) p = Some v"
      using leaf_element_token by blast
    with Cons.prems(1) JArray have w: "flattenable (vs ! i)" by (simp add: list_all_length)
    have "zero_first (after t S) (vs ! i) p"
      by (rule zero_first_step [OF Cons.prems(5)]) (use JArray i dec_not_dash in simp)
    moreover have "p \<notin> after t S" using Cons.prems(4) by (simp add: after_def)
    moreover have "S = {} \<longrightarrow> i = 0"
    proof
      assume "S = {}"
      with Cons.prems(5) JArray have "t = ''0''" unfolding zero_first_def by force
      with i(1) show "i = 0" using dec_inj [of i 0] by (simp add: dec_zero)
    qed
    ultimately show ?thesis
      using partial_put_array [of S vs r i p "put v"] Cons.IH [OF w _ i(4)] Cons.prems(2) JArray i by auto
  qed (use Cons.prems(3) in simp_all)
qed

text \<open>Once all leaves are there the copy is complete.\<close>

lemma partial_complete:
  "flattenable j \<Longrightarrow> partial S j r \<Longrightarrow> (\<And>p. p \<in> S \<longleftrightarrow> leaf_at j p \<noteq> None) \<Longrightarrow> r = j"
proof (induction j arbitrary: S r rule: json_induct)
  case (object ms)
  have some: "after k S \<noteq> {}" if "map_of ms k = Some w" for k w
  proof -
    from that object.prems(1) have "flattenable w" by (auto simp: list_all_iff dest!: map_of_SomeD)
    then obtain p v where "leaf_at w p = Some v" using some_leaf by blast
    with that object.prems(3) have "k # p \<in> S" by simp
    then show ?thesis by (auto simp: after_def)
  qed
  from object.prems(2) show ?case
  proof (cases rule: partial_objectE)
    case empty
    with some_leaf [OF object.prems(1)] object.prems(3) show ?thesis by auto
  next
    case leaf
    then show ?thesis by simp
  next
    case (copy rs)
    have "map_of rs k = map_of ms k" for k
    proof (cases "map_of rs k")
      case None
      with copy(4) some [of k] show ?thesis by (metis not_None_eq)
    next
      case (Some x)
      with copy(5) obtain w where w: "map_of ms k = Some w" "partial (after k S) w x" by blast
      have "x = w"
      proof (rule object.IH [OF map_of_SomeD [OF w(1)] _ w(2)])
        show "flattenable w" using object.prems(1) w(1) by (auto simp: list_all_iff dest!: map_of_SomeD)
        show "p \<in> after k S \<longleftrightarrow> leaf_at w p \<noteq> None" for p using object.prems(3) [of "k # p"] w(1) by (simp add: after_def)
      qed
      with w Some show ?thesis by simp
    qed
    then show ?thesis using copy(1,3) object.prems(1) obj_ok_unique [of rs ms] by auto
  qed
next
  case (array vs)
  have len: "length vs < 2 ^ 64" using array.prems(1) by simp
  have some: "after (dec i) S \<noteq> {}" if "i < length vs" for i
  proof -
    from that array.prems(1) have "flattenable (vs ! i)" by (simp add: list_all_length)
    then obtain p v where "leaf_at (vs ! i) p = Some v" using some_leaf by blast
    with leaf_element [OF len, of i p] that array.prems(3) have "dec i # p \<in> S" by simp
    then show ?thesis by (auto simp: after_def)
  qed
  from array.prems(2) show ?case
  proof (cases rule: partial_arrayE)
    case empty
    with some_leaf [OF array.prems(1)] array.prems(3) show ?thesis by auto
  next
    case leaf
    then show ?thesis by simp
  next
    case (copy rs)
    have "length rs = length vs" using copy(3,5) some [of "length rs"] by fastforce
    moreover have "rs ! i = vs ! i" if "i < length vs" for i
    proof (rule array.IH [of "vs ! i" "after (dec i) S"])
      show "partial (after (dec i) S) (vs ! i) (rs ! i)" using copy(4) that calculation by simp
      show "flattenable (vs ! i)" using that array.prems(1) by (simp add: list_all_length)
      show "p \<in> after (dec i) S \<longleftrightarrow> leaf_at (vs ! i) p \<noteq> None" for p
        using array.prems(3) [of "dec i # p"] leaf_element [OF len, of i p] that by (simp add: after_def)
    qed (use that in simp)
    ultimately show ?thesis using copy(1) by (simp add: list_eq_iff_nth_eq)
  qed
next
  case (other j)
  from other.prems(2) other.hyps show ?case
  proof cases
    case partial_empty
    with other.prems(3) [of "[]"] other.hyps show ?thesis by simp
  qed (auto simp: type_defs)
qed

section \<open>Unflattening\<close>

text \<open>The table is sorted, and a digit 0 sorts before all others: an array's first element comes first.\<close>

lemma str_less_append: "str_less (a @ s) (a @ t) \<longleftrightarrow> str_less s t"
  by (induction a) auto

lemma leaf_prefix:
  "leaf_at j (q @ p) = Some v \<Longrightarrow> \<exists>w. get_checked q j = Inr w \<and> (\<forall>u. leaf_at j (q @ u) = leaf_at w u)"
proof (induction q arbitrary: j)
  case (Cons t q)
  show ?case
  proof (cases j)
    case (JObject ms)
    with Cons.prems obtain x where "map_of ms t = Some x" "leaf_at x (q @ p) = Some v" by (auto split: option.splits)
    with Cons.IH [of x] JObject show ?thesis by simp
  next
    case (JArray vs)
    with Cons.prems obtain i where i: "t = dec i" "array_index t = Inr i" "i < length vs" "leaf_at (vs ! i) (q @ p) = Some v"
      using leaf_element_token by (metis append_Cons)
    with Cons.IH [of "vs ! i"] JArray dec_not_dash show ?thesis by auto
  qed (use Cons.prems in simp_all)
qed simp

lemma str_less_zero:
  assumes "i \<noteq> 0"
  shows "str_less (pointer_to_string (q @ ''0'' # w)) (pointer_to_string (q @ dec i # u))"
proof -
  obtain d ds where d: "dec i = digit_char d # ds" "0 < d" "d < 10" using dec_first [of i] assms by auto
  with escape_dec [of i] digit_char_of [of d] show ?thesis
    by (simp add: pointer_to_string_concat str_less_append esc_def)
qed

lemma leaf_primitive: "flattenable j \<Longrightarrow> leaf_at j p = Some v \<Longrightarrow> is_primitive v"
proof (induction p arbitrary: j)
  case Nil
  then show ?case by (cases j) (auto simp: type_defs)
next
  case (Cons t p)
  show ?case
  proof (cases j)
    case (JObject ms)
    with Cons.prems obtain w where "map_of ms t = Some w" "leaf_at w p = Some v" by (auto split: option.splits)
    with Cons.IH [of w] Cons.prems(1) JObject show ?thesis by (auto simp: list_all_iff dest!: map_of_SomeD)
  next
    case (JArray vs)
    with Cons.prems obtain i where "i < length vs" "leaf_at (vs ! i) p = Some v" using leaf_element_token by blast
    with Cons.IH [of "vs ! i"] Cons.prems(1) JArray show ?thesis by (simp add: list_all_length)
  qed (use Cons.prems in simp_all)
qed

lemma reached_flattenable: "flattenable j \<Longrightarrow> get_checked q j = Inr w \<Longrightarrow> flattenable w"
proof (induction q arbitrary: j)
  case (Cons t q)
  show ?case
  proof (cases j)
    case (JObject ms)
    with Cons.prems obtain x where "map_of ms t = Some x" "get_checked q x = Inr w" by (auto split: option.splits)
    with Cons.IH [of x] Cons.prems(1) JObject show ?thesis by (auto simp: list_all_iff dest!: map_of_SomeD)
  next
    case (JArray vs)
    with Cons.prems obtain i where "i < length vs" "get_checked q (vs ! i) = Inr w"
      by (auto simp: res_bind_Inr split: if_splits)
    with Cons.IH [of "vs ! i"] Cons.prems(1) JArray show ?thesis by (simp add: list_all_length)
  qed (use Cons.prems in simp_all)
qed simp

lemma first_element_leaf:
  assumes "flattenable j" "get_checked q j = Inr (JArray vs)" "\<And>x. leaf_at j (q @ x) = leaf_at (JArray vs) x"
  shows "\<exists>x y. leaf_at j (q @ ''0'' # x) = Some y"
proof -
  have vs: "flattenable (JArray vs)" using reached_flattenable assms(1,2) by blast
  then obtain x y where "leaf_at (vs ! 0) x = Some y" using some_leaf [of "vs ! 0"] by (auto simp: list_all_length)
  then have "leaf_at (JArray vs) (dec 0 # x) = Some y" using vs leaf_element [of vs 0 x] by simp
  then show ?thesis using assms(3) by (metis dec_zero)
qed

text \<open>In a table in the order of its keys, the entries before one with a greater key are in the part
  before it.\<close>

lemma earlier_entry:
  assumes "obj_ok (xs @ m # ys)" "(k, v) \<in> set (xs @ m # ys)" "str_less k (fst m)"
  shows "(k, v) \<in> set xs"
proof -
  have "(k, v) \<noteq> m" using assms(3) str_less_asym by auto
  moreover have "(k, v) \<notin> set ys"
  proof
    assume "(k, v) \<in> set ys"
    with assms(1) have "str_less (fst m) k" by (auto simp: obj_ok_def sorted_wrt_append)
    with assms(3) show False using str_less_asym by blast
  qed
  ultimately show ?thesis using assms(2) by auto
qed

lemma unflatten_table:
  assumes j: "flattenable j" and table: "flatten_into [] j [] = done_part @ todo"
    and "partial {p. pointer_to_string p \<in> fst ` set done_part} j r"
  shows "\<exists>r'. unflatten_members todo r = Inr r' \<and> partial {p. leaf_at j p \<noteq> None} j r'"
  using assms(2,3)
proof (induction todo arbitrary: done_part r)
  case Nil
  have "{p. pointer_to_string p \<in> fst ` set done_part} = {p. leaf_at j p \<noteq> None}"
    using flatten_set [OF j] Nil.prems(1) entries_keys [of _ j] by simp
  with Nil show ?case by simp
next
  case (Cons m todo)
  define S where "S = {p. pointer_to_string p \<in> fst ` set done_part}"
  have all: "set (done_part @ m # todo) = entries [] j" using flatten_set [OF j] Cons.prems(1) by simp
  then have "m \<in> entries [] j" by auto
  then obtain p v where m: "m = (pointer_to_string p, v)" "leaf_at j p = Some v" by (auto simp: entries_def)
  have sorted: "obj_ok (done_part @ m # todo)" using flatten_sorted(1) [of "[]" "[]" j] Cons.prems(1) by simp
  then have "p \<notin> S" using m by (auto simp: S_def obj_ok_def sorted_wrt_append image_iff)
  moreover have "zero_first S j p"
    unfolding zero_first_def
  proof (intro allI impI)
    fix q t u vs assume p: "p = q @ t # u" and q: "get_checked q j = Inr (JArray vs)" and t: "t \<noteq> ''0''"
    obtain w where w: "get_checked q j = Inr w" "\<And>x. leaf_at j (q @ x) = leaf_at w x"
      using leaf_prefix m(2) p by blast
    with q have leaf: "leaf_at j (q @ x) = leaf_at (JArray vs) x" for x by simp
    with m(2) p obtain i where i: "t = dec i" "i < length vs" using leaf_element_token by metis
    with t have "i \<noteq> 0" by (cases "i = 0") (simp_all add: dec_zero)
    obtain x y where x: "leaf_at j (q @ ''0'' # x) = Some y"
      using first_element_leaf [OF j q leaf] by blast
    then have "(pointer_to_string (q @ ''0'' # x), y) \<in> set (done_part @ m # todo)" unfolding all in_entries by auto
    moreover have "str_less (pointer_to_string (q @ ''0'' # x)) (fst m)"
      using str_less_zero [OF \<open>i \<noteq> 0\<close>] m(1) p i(1) by simp
    ultimately have "(pointer_to_string (q @ ''0'' # x), y) \<in> set done_part"
      by (rule earlier_entry [OF sorted])
    then show "\<exists>x. q @ ''0'' # x \<in> S" by (force simp: S_def)
  qed
  ultimately obtain r1 where r1: "get_and_create p (put v) r = Inr r1" "partial (insert p S) j r1"
    using partial_put [OF j _ m(2)] Cons.prems(2) S_def by blast
  have "insert p S = {p. pointer_to_string p \<in> fst ` set (done_part @ [m])}"
    using m(1) by (auto simp: S_def pointer_inj)
  with Cons.IH [of "done_part @ [m]" r1] Cons.prems(1) r1 obtain r'
    where r': "unflatten_members todo r1 = Inr r'" "partial {p. leaf_at j p \<noteq> None} j r'" by auto
  moreover have "is_primitive v" using leaf_primitive [OF j m(2)] .
  ultimately show ?case using m(1) r1(1) by simp
qed

section \<open>Property\<close>

text \<open>C31. \<open>unflatten\<close> gives back the value that was flattened, for values without empty containers,
  discarded values and the key \<open>"0"\<close>.\<close>

theorem unflatten_flatten:
  assumes "flattenable j"
  shows "json_unflatten (json_flatten j) = Inr j"
proof -
  have "partial {p. pointer_to_string p \<in> fst ` set ([] :: (string \<times> json) list)} j JNull"
    using partial_empty by simp
  from unflatten_table [OF assms _ this] obtain r where
    r: "unflatten_members (flatten_into [] j []) JNull = Inr r" "partial {p. leaf_at j p \<noteq> None} j r" by auto
  with partial_complete [OF assms r(2)] show ?thesis by (simp add: json_flatten_def)
qed

theorem unflatten_flatten_witness:
  "json_unflatten (json_flatten (JObject [(''a/b'', JArray [JInt 1, JObject [(''~'', JNull)]]), (''c'', JString ''x'')])) =
     Inr (JObject [(''a/b'', JArray [JInt 1, JObject [(''~'', JNull)]]), (''c'', JString ''x'')])"
  by (rule unflatten_flatten) (simp add: obj_ok_def)

end
