(* ===== verification/Concurrency.thy ===== *)
theory Concurrency
  imports Ingestion
begin

text \<open>
  The server answers requests on 16 threads, and \<open>settle\<close> takes the database mutex anew for each
  of its accesses. Here calls to \<open>settle\<close> run side by side: a call is a state machine whose steps
  are the stretches it holds the mutex for, and a run is any interleaving of the steps of any
  number of calls. The block from \<open>BEGIN\<close> to \<open>COMMIT\<close> or \<open>ROLLBACK\<close> is one step, because the whole
  of it runs under one lock; the two lookups before it are steps of their own.
\<close>

section \<open>A call as a thread\<close>

text \<open>
  Between two points where \<open>settle\<close> takes the lock, a thread only computes on copies. A state is
  the lock it waits for: for the sender's row, for the receiver's row with the sender's copy in
  hand, for the row of a rejected payment, or for the block from \<open>BEGIN\<close> to \<open>COMMIT\<close> with the two
  new rows in hand. The number is the round of the retry loop.
\<close>

record job =
  job_payment :: payment
  job_hash :: string
  job_bridge :: string
  job_hops :: int
  job_clock :: "nat \<Rightarrow> int"

datatype thread =
    Find_sender nat
  | Find_receiver nat account
  | Record_rejected nat
  | Commit_both nat account account
  | Finished "transaction res"

text \<open>The checks a thread makes on its copies once it has both.\<close>

definition checked :: "payment \<Rightarrow> nat \<Rightarrow> account \<Rightarrow> account \<Rightarrow> thread" where
  "checked p k sender receiver =
     (if pi_amount p \<le> 0 then Finished (Inl (Invalid_argument ''Amount must be positive''))
      else if balance sender < pi_amount p then Record_rejected k
      else case sub_i64 (balance sender) (pi_amount p) of
        Inl e \<Rightarrow> Finished (Inl e)
      | Inr sb \<Rightarrow>
          (case add_i64 (balance receiver) (pi_amount p) of
             Inl e \<Rightarrow> Finished (Inl e)
           | Inr rb \<Rightarrow> Commit_both k (sender\<lparr>balance := sb\<rparr>) (receiver\<lparr>balance := rb\<rparr>)))"

fun advance :: "engine \<Rightarrow> job \<Rightarrow> thread \<times> database \<Rightarrow> thread \<times> database" where
  "advance E j (Find_sender k, db) =
     (case findById E (pi_senderVpa (job_payment j)) db of
        (None, db1) \<Rightarrow>
          (Finished (Inl (Invalid_argument (''Unknown sender VPA: '' @ pi_senderVpa (job_payment j)))), db1)
      | (Some sender, db1) \<Rightarrow> (Find_receiver k sender, db1))"
| "advance E j (Find_receiver k sender, db) =
     (case findById E (pi_receiverVpa (job_payment j)) db of
        (None, db1) \<Rightarrow>
          (Finished (Inl (Invalid_argument (''Unknown receiver VPA: '' @ pi_receiverVpa (job_payment j)))), db1)
      | (Some receiver, db1) \<Rightarrow> (checked (job_payment j) k sender receiver, db1))"
| "advance E j (Record_rejected k, db) =
     (case recordRejected E (job_clock j k) (job_payment j) (job_hash j) (job_bridge j) (job_hops j) db of
        (r, db1) \<Rightarrow> (Finished r, db1))"
| "advance E j (Commit_both k sender receiver, db) =
     (case settle_locked E (job_clock j k) (job_payment j) (job_hash j) (job_bridge j) (job_hops j)
              sender receiver db of
        (Return r, db1) \<Rightarrow> (Finished r, db1)
      | (Retry e, db1) \<Rightarrow>
          (if k = maxAttempts then Finished (Inl e) else Find_sender (Suc k), db1))"
| "advance E j (Finished r, db) = (Finished r, db)"

text \<open>Any number of calls share one database; a step lets one of them take the lock once.\<close>

type_synonym calls_state = "(job \<times> thread) list \<times> database"

inductive interleave :: "engine \<Rightarrow> calls_state \<Rightarrow> calls_state \<Rightarrow> bool" for E where
  stay: "interleave E c c"
| turn: "interleave E c (ts, db) \<Longrightarrow> i < length ts \<Longrightarrow> ts ! i = (j, th) \<Longrightarrow> advance E j (th, db) = (th', db') \<Longrightarrow>
    interleave E c (ts[i := (j, th')], db')"

definition started_calls :: "job list \<Rightarrow> (job \<times> thread) list" where
  "started_calls js = map (\<lambda>j. (j, Find_sender 1)) js"

text \<open>A thread left alone computes \<open>settle\<close>.\<close>

lemma advance_attempt:
  assumes "settle_attempt E (job_clock j k) (job_payment j) (job_hash j) (job_bridge j) (job_hops j) db = (a, db')"
  shows "\<exists>n. (advance E j ^^ n) (Find_sender k, db) =
    (case a of Return r \<Rightarrow> Finished r
     | Retry e \<Rightarrow> if k = maxAttempts then Finished (Inl e) else Find_sender (Suc k), db')"
proof -
  let ?p = "job_payment j"
  obtain so d1 where so: "findById E (pi_senderVpa ?p) db = (so, d1)" by fastforce
  show ?thesis
  proof (cases so)
    case None
    with so assms show ?thesis
      by (intro exI [of _ 1]) (auto simp: settle_attempt_def)
  next
    case (Some sender)
    obtain ro d2 where ro: "findById E (pi_receiverVpa ?p) d1 = (ro, d2)" by fastforce
    show ?thesis
    proof (cases ro)
      case None
      with so ro Some assms show ?thesis
        by (intro exI [of _ 2]) (auto simp: settle_attempt_def numeral_2_eq_2)
    next
      case r: (Some receiver)
      have two: "(advance E j ^^ 2) (Find_sender k, db) = (checked ?p k sender receiver, d2)"
        using so ro Some r by (simp add: numeral_2_eq_2)
      have three: "(advance E j ^^ 3) (Find_sender k, db) = advance E j (checked ?p k sender receiver, d2)"
        using two by (simp add: numeral_3_eq_3 numeral_2_eq_2)
      show ?thesis
        by (intro exI [of _ 3], unfold three)
          (use so ro Some r assms in \<open>auto simp: settle_attempt_def checked_def split: prod.splits sum.splits attempt.splits if_splits\<close>)
    qed
  qed
qed

lemma advance_settle_from:
  assumes "k \<le> maxAttempts"
  shows "\<exists>n. (advance E j ^^ n) (Find_sender k, db) =
    (case settle_from E (job_clock j) (job_payment j) (job_hash j) (job_bridge j) (job_hops j) k db of
       (r, db') \<Rightarrow> (Finished r, db'))"
  using assms
proof (induction "maxAttempts - k" arbitrary: k db rule: less_induct)
  case less
  obtain a d1 where a: "settle_attempt E (job_clock j k) (job_payment j) (job_hash j) (job_bridge j)
      (job_hops j) db = (a, d1)" by fastforce
  note unf = settle_from.simps [of E "job_clock j" "job_payment j" "job_hash j" "job_bridge j" "job_hops j" k db]
  from advance_attempt [OF a] obtain n where n: "(advance E j ^^ n) (Find_sender k, db) =
    (case a of Return r \<Rightarrow> Finished r
     | Retry e \<Rightarrow> if k = maxAttempts then Finished (Inl e) else Find_sender (Suc k), d1)" by blast
  show ?case
  proof (cases "(\<exists>r. a = Return r) \<or> k = maxAttempts")
    case True
    with n a less.prems unf show ?thesis by (intro exI [of _ n]) (auto split: attempt.splits)
  next
    case False
    then obtain e where e: "a = Retry e" "k < maxAttempts" using less.prems by (cases a) auto
    then have "maxAttempts - Suc k < maxAttempts - k" "Suc k \<le> maxAttempts" by linarith+
    from less.hyps [OF this] obtain m where "(advance E j ^^ m) (Find_sender (Suc k), d1) =
      (case settle_from E (job_clock j) (job_payment j) (job_hash j) (job_bridge j) (job_hops j) (Suc k) d1 of
       (r, db') \<Rightarrow> (Finished r, db'))" by blast
    with n e a unf have "(advance E j ^^ (m + n)) (Find_sender k, db) =
      (case settle_from E (job_clock j) (job_payment j) (job_hash j) (job_bridge j) (job_hops j) k db of
       (r, db') \<Rightarrow> (Finished r, db'))" by (simp add: funpow_add)
    then show ?thesis by blast
  qed
qed

lemma advance_alone:
  "\<exists>n. (advance E j ^^ n) (Find_sender 1, db) =
     (case settle E (job_clock j) (job_payment j) (job_hash j) (job_bridge j) (job_hops j) db of
        (r, db') \<Rightarrow> (Finished r, db'))"
  using advance_settle_from [of 1 E j db] by (simp add: settle_def maxAttempts_def)

section \<open>Schedules\<close>

text \<open>
  An interleaving as the list of the calls that take their turn. A turn of a call that is
  finished, or of none, changes nothing.
\<close>

fun take_turn :: "engine \<Rightarrow> nat \<Rightarrow> calls_state \<Rightarrow> calls_state" where
  "take_turn E i (ts, db) =
     (if i < length ts
      then (case advance E (fst (ts ! i)) (snd (ts ! i), db) of
              (th', db') \<Rightarrow> (ts[i := (fst (ts ! i), th')], db'))
      else (ts, db))"

fun run_turns :: "engine \<Rightarrow> nat list \<Rightarrow> calls_state \<Rightarrow> calls_state" where
  "run_turns E [] c = c"
| "run_turns E (i # turns) c = run_turns E turns (take_turn E i c)"

lemma run_turns_append: "run_turns E (is @ js) c = run_turns E js (run_turns E is c)"
  by (induction "is" arbitrary: c) simp_all

lemma interleave_turn:
  assumes "interleave E c c1"
  shows "interleave E c (take_turn E i c1)"
proof -
  obtain ts db where c1: "c1 = (ts, db)" by fastforce
  obtain th' db' where "advance E (fst (ts ! i)) (snd (ts ! i), db) = (th', db')" by fastforce
  with assms c1 show ?thesis
    using interleave.turn [of E c ts db i "fst (ts ! i)" "snd (ts ! i)" th' db'] by auto
qed

lemma interleave_turns: "interleave E c c1 \<Longrightarrow> interleave E c (run_turns E turns c1)"
  by (induction turns arbitrary: c1) (simp_all del: take_turn.simps add: interleave_turn)

text \<open>Every interleaving is a schedule.\<close>

lemma interleave_schedule: "interleave E c c' \<Longrightarrow> \<exists>turns. c' = run_turns E turns c"
proof (induction rule: interleave.induct)
  case (stay c)
  have "c = run_turns E [] c" by simp
  then show ?case by blast
next
  case (turn c ts db i j th th' db')
  then obtain turns where c: "run_turns E turns c = (ts, db)" by metis
  have "run_turns E (turns @ [i]) c = take_turn E i (run_turns E turns c)" by (simp only: run_turns_append run_turns.simps)
  also have "\<dots> = (ts[i := (j, th')], db')" unfolding c using turn.hyps by simp
  finally show ?case by metis
qed

lemma run_turns_jobs: "run_turns E turns (started_calls js, db) = (ts, db') \<Longrightarrow> map fst ts = js"
proof -
  have "map fst (fst (take_turn E i c)) = map fst (fst c)" for i c
    by (cases c) (auto simp: map_update intro: list_update_same_conv [THEN iffD2] split: prod.split)
  then have "map fst (fst (run_turns E turns c)) = map fst (fst c)" for c
    by (induction turns arbitrary: c) simp_all
  from this [of "(started_calls js, db)"] show "run_turns E turns (started_calls js, db) = (ts, db') \<Longrightarrow> map fst ts = js"
    by (simp add: started_calls_def o_def)
qed

text \<open>How many turns a call has before it at most, and that it is in one of the rounds.\<close>

fun turns_left :: "thread \<Rightarrow> nat" where
  "turns_left (Find_sender k) = 3 * (Suc maxAttempts - k)"
| "turns_left (Find_receiver k s) = 3 * (Suc maxAttempts - k) - 1"
| "turns_left (Record_rejected k) = 3 * (Suc maxAttempts - k) - 2"
| "turns_left (Commit_both k s c) = 3 * (Suc maxAttempts - k) - 2"
| "turns_left (Finished r) = 0"

fun in_round :: "thread \<Rightarrow> bool" where
  "in_round (Find_sender k) \<longleftrightarrow> k \<le> maxAttempts"
| "in_round (Find_receiver k s) \<longleftrightarrow> k \<le> maxAttempts"
| "in_round (Record_rejected k) \<longleftrightarrow> k \<le> maxAttempts"
| "in_round (Commit_both k s c) \<longleftrightarrow> k \<le> maxAttempts"
| "in_round (Finished r) \<longleftrightarrow> True"

lemma checked_turns:
  "k \<le> maxAttempts \<Longrightarrow> in_round (checked p k s c) \<and> turns_left (checked p k s c) \<le> 3 * (Suc maxAttempts - k) - 2"
  by (auto simp: checked_def split: sum.split)

lemma advance_turns:
  assumes "in_round th" "advance E j (th, db) = (th', db')"
  shows "in_round th' \<and> turns_left th' \<le> turns_left th - 1"
proof (cases th)
  case (Find_receiver k s)
  with assms checked_turns [of k "job_payment j" s] show ?thesis
    by (auto simp: numeral_2_eq_2 split: option.splits prod.splits)
next
  case (Commit_both k s c)
  with assms show ?thesis by (auto split: attempt.splits prod.splits if_splits)
qed (use assms in \<open>auto split: option.splits prod.splits\<close>)

lemma no_turns_left: "in_round th \<Longrightarrow> turns_left th = 0 \<Longrightarrow> \<exists>r. th = Finished r"
  by (cases th) auto

lemma take_turn_left:
  assumes "list_all (in_round \<circ> snd) (fst c)" "i < length (fst c)"
  shows "length (fst (take_turn E k c)) = length (fst c)" "map fst (fst (take_turn E k c)) = map fst (fst c)"
    "list_all (in_round \<circ> snd) (fst (take_turn E k c))"
    "turns_left (snd (fst (take_turn E k c) ! i)) \<le> turns_left (snd (fst c ! i)) - of_bool (k = i)"
proof -
  obtain ts db where c: "c = (ts, db)" by fastforce
  obtain th' db' where a: "advance E (fst (ts ! k)) (snd (ts ! k), db) = (th', db')" by fastforce
  have "in_round th' \<and> turns_left th' \<le> turns_left (snd (ts ! k)) - 1" if "k < length ts"
    using advance_turns [OF _ a] assms(1) c that by (simp add: list_all_length)
  with assms c a show "length (fst (take_turn E k c)) = length (fst c)"
    "map fst (fst (take_turn E k c)) = map fst (fst c)"
    "list_all (in_round \<circ> snd) (fst (take_turn E k c))"
    "turns_left (snd (fst (take_turn E k c) ! i)) \<le> turns_left (snd (fst c ! i)) - of_bool (k = i)"
    by (auto simp: list_all_length nth_list_update map_update intro: list_update_same_conv [THEN iffD2])
qed

lemma run_turns_left:
  assumes "list_all (in_round \<circ> snd) (fst c)" "i < length (fst c)"
  shows "map fst (fst (run_turns E turns c)) = map fst (fst c) \<and>
    list_all (in_round \<circ> snd) (fst (run_turns E turns c)) \<and>
    turns_left (snd (fst (run_turns E turns c) ! i)) \<le> turns_left (snd (fst c ! i)) - count_list turns i"
  using assms
proof (induction turns arbitrary: c)
  case (Cons k turns)
  note t = take_turn_left [OF Cons.prems, of E k]
  from Cons.IH [OF t(3)] t(1,2,4) Cons.prems(2) show ?case by (auto split: if_splits)
qed simp

section \<open>What every interleaving keeps\<close>

lemma settle_locked_healthy:
  assumes "healthy E" "saved db = None"
    and "settle_locked E now p h bridge hops s c db = (a, db')"
  shows "saved db' = None \<and>
    (case sql_insert_transaction (bind_transaction (settlement_tx p h bridge hops now SETTLED))
        (sql_upsert_account (bind_account c) (sql_upsert_account (bind_account s) (cur db))) of
       Inl m \<Rightarrow> (\<exists>e. a = Retry e) \<and> cur db' = cur db
     | Inr (n, t) \<Rightarrow> a = Return (Inr ((settlement_tx p h bridge hops now SETTLED)\<lparr>tx_id := n\<rparr>)) \<and> cur db' = t)"
  using assms
  by (auto simp: settle_locked_def settle_try_def account_save_def execute_def transaction_save_def Let_def
      sql_insert_transaction_def split: if_splits)

lemma recordRejected_healthy:
  assumes "healthy E" "recordRejected E now p h bridge hops db = (r, db')"
  shows "saved db' = saved db \<and>
    (case sql_insert_transaction (bind_transaction (settlement_tx p h bridge hops now REJECTED)) (cur db) of
       Inl m \<Rightarrow> (\<exists>e. r = Inl e) \<and> cur db' = cur db
     | Inr (n, t) \<Rightarrow> r = Inr ((settlement_tx p h bridge hops now REJECTED)\<lparr>tx_id := n\<rparr>) \<and> cur db' = t)"
  using assms
  by (auto simp: recordRejected_def transaction_save_def sql_insert_transaction_def split: if_splits)

lemma findById_healthy:
  "healthy E \<Longrightarrow> findById E v db = (r, db') \<Longrightarrow>
     r = sql_select_account (c_str v) (cur db) \<and> cur db' = cur db \<and> saved db' = saved db"
  by (auto simp: findById_def)

text \<open>The copies a thread holds are rows that may be written.\<close>

fun thread_ok :: "thread \<Rightarrow> bool" where
  "thread_ok (Find_sender k) \<longleftrightarrow> True"
| "thread_ok (Find_receiver k s) \<longleftrightarrow> account_ok s"
| "thread_ok (Record_rejected k) \<longleftrightarrow> True"
| "thread_ok (Commit_both k s c) \<longleftrightarrow> account_ok s \<and> account_ok c"
| "thread_ok (Finished r) \<longleftrightarrow> True"

fun paid :: "thread \<Rightarrow> bool" where
  "paid (Finished (Inr tx)) = True"
| "paid (Finished (Inl e)) = False"
| "paid (Find_sender k) = False"
| "paid (Find_receiver k s) = False"
| "paid (Record_rejected k) = False"
| "paid (Commit_both k s c) = False"

lemma checked_ok:
  assumes "account_ok s" "account_ok c"
  shows "thread_ok (checked p k s c)"
  using assms
  by (auto simp: checked_def account_ok_def sub_i64_def add_i64_def chk_i64_def in_i64_def i64_min_def
      i64_max_def)

lemma checked_unpaid [simp]: "\<not> paid (checked p k s c)"
  by (auto simp: checked_def split: sum.splits)

lemma select_account_ok: "accounts_ok t \<Longrightarrow> sql_select_account v t = Some a \<Longrightarrow> account_ok a"
  using sql_select_in [of v t a] by (auto simp: accounts_ok_def list_all_iff)

lemma bind_account_ok: "account_ok a \<Longrightarrow> account_ok (bind_account a)"
  by (simp add: account_ok_def bind_account_def)

lemma insert_hashes:
  "sql_insert_transaction (bind_transaction tx) t = Inr (n, t') \<Longrightarrow>
     ledger_hashes t' = insert (c_str (tx_packetHash tx)) (ledger_hashes t) \<and>
     c_str (tx_packetHash tx) \<notin> ledger_hashes t"
  by (auto simp: sql_insert_Inr ledger_hashes_def bind_transaction_def)

lemma insert_keeps:
  assumes "accounts_ok t0" "ledger_ok t0" "ledger_hashes t0 = L"
    and "sql_insert_transaction (bind_transaction (settlement_tx p h b n now st)) t0 = Inr (i, t)"
  shows "tables_ok t" "ledger_hashes t = insert (c_str h) L" "c_str h \<notin> L"
  using insert_hashes [OF assms(4)] assms(3) ledger_ok_insert [OF assms(2,4)] accounts_ok_insert [OF assms(4)]
    assms(1)
  by (simp_all add: tables_ok_def settlement_tx_def)

lemma advance_keeps:
  assumes "healthy E" "saved db = None" "tables_ok (cur db)" "thread_ok th"
    and "advance E j (th, db) = (th', db')"
  shows "saved db' = None \<and> tables_ok (cur db') \<and> thread_ok th' \<and>
    (paid th \<longrightarrow> paid th') \<and>
    ledger_hashes (cur db') = ledger_hashes (cur db) \<union>
      (if paid th' \<and> \<not> paid th then {c_str (job_hash j)} else {}) \<and>
    (paid th' \<and> \<not> paid th \<longrightarrow> c_str (job_hash j) \<notin> ledger_hashes (cur db))"
proof -
  have ok: "accounts_ok (cur db)" "ledger_ok (cur db)" using assms(3) by (simp_all add: tables_ok_def)
  show ?thesis
  proof (cases th)
    case (Find_sender k)
    with assms ok show ?thesis
      by (auto dest!: findById_healthy [OF assms(1)] split: option.splits prod.splits intro: select_account_ok [OF _ sym])
  next
    case (Find_receiver k s)
    obtain ro d where f: "findById E (pi_receiverVpa (job_payment j)) db = (ro, d)" by fastforce
    note h = findById_healthy [OF assms(1) f]
    show ?thesis
    proof (cases ro)
      case None
      with f Find_receiver assms(2,3,5) h show ?thesis by auto
    next
      case (Some c)
      with h ok(1) have "account_ok c" using select_account_ok [OF ok(1) sym] by simp
      with f Find_receiver Some assms(2-5) h checked_ok [of s c] show ?thesis by auto
    qed
  next
    case (Record_rejected k)
    obtain r db1 where r: "recordRejected E (job_clock j k) (job_payment j) (job_hash j) (job_bridge j)
        (job_hops j) db = (r, db1)" by fastforce
    note h = recordRejected_healthy [OF assms(1) r]
    show ?thesis
    proof (cases "sql_insert_transaction (bind_transaction (settlement_tx (job_payment j) (job_hash j)
        (job_bridge j) (job_hops j) (job_clock j k) REJECTED)) (cur db)")
      case (Inl m)
      with h r Record_rejected assms(2,3,5) show ?thesis by auto
    next
      case (Inr q)
      obtain n t where q: "q = (n, t)" by fastforce
      note new = insert_keeps [OF ok refl Inr [unfolded q]]
      with h r q Inr Record_rejected assms(2,5) show ?thesis by auto
    qed
  next
    case (Commit_both k s c)
    let ?t = "sql_upsert_account (bind_account c) (sql_upsert_account (bind_account s) (cur db))"
    have t: "accounts_ok ?t" "ledger_ok ?t" "ledger_hashes ?t = ledger_hashes (cur db)"
      using Commit_both assms(4) ok
      by (auto intro!: accounts_ok_upsert bind_account_ok simp: ledger_hashes_def ledger_ok_def)
    obtain a db1 where a: "settle_locked E (job_clock j k) (job_payment j) (job_hash j) (job_bridge j)
        (job_hops j) s c db = (a, db1)" by fastforce
    note h = settle_locked_healthy [OF assms(1,2) a]
    show ?thesis
    proof (cases "sql_insert_transaction (bind_transaction (settlement_tx (job_payment j) (job_hash j)
        (job_bridge j) (job_hops j) (job_clock j k) SETTLED)) ?t")
      case (Inl m)
      with h a Commit_both assms(3,5) show ?thesis by (auto split: if_splits)
    next
      case (Inr q)
      obtain n t' where q: "q = (n, t')" by fastforce
      note new = insert_keeps [OF t Inr [unfolded q]]
      with h a q Inr Commit_both assms(5) show ?thesis by auto
    qed
  next
    case (Finished r)
    with assms show ?thesis by auto
  qed
qed

definition calls_ok :: "calls_state \<Rightarrow> bool" where
  "calls_ok c \<longleftrightarrow> saved (snd c) = None \<and> tables_ok (cur (snd c)) \<and>
     list_all (\<lambda>(j, th). thread_ok th) (fst c)"

text \<open>The calls that have put hash \<open>h\<close> on the books.\<close>

definition paid_for :: "string \<Rightarrow> (job \<times> thread) list \<Rightarrow> nat" where
  "paid_for h ts = length (filter (\<lambda>(j, th). c_str (job_hash j) = h \<and> paid th) ts)"

lemma paid_for_update:
  assumes "i < length ts" "ts ! i = (j, th)" "paid th \<longrightarrow> paid th'"
  shows "paid_for h (ts[i := (j, th')]) =
    paid_for h ts + of_bool (c_str (job_hash j) = h \<and> paid th' \<and> \<not> paid th)"
  using assms
proof (induction ts arbitrary: i)
  case Nil
  then show ?case by simp
next
  case (Cons x xs)
  then show ?case
    by (cases i) (auto simp: paid_for_def of_bool_def)
qed

lemma interleave_keeps:
  assumes "healthy E" "interleave E c c'" "calls_ok c"
  shows "calls_ok c' \<and> map fst (fst c') = map fst (fst c) \<and>
    paid_for h (fst c') + of_bool (h \<in> ledger_hashes (cur (snd c))) =
      paid_for h (fst c) + (of_bool (h \<in> ledger_hashes (cur (snd c'))) :: nat)"
  using assms(2,3)
proof (induction rule: interleave.induct)
  case (stay c)
  then show ?case by simp
next
  case (turn c ts db i j th th' db')
  then have IH: "calls_ok (ts, db)" "map fst ts = map fst (fst c)"
    "paid_for h ts + of_bool (h \<in> ledger_hashes (cur (snd c))) =
      paid_for h (fst c) + of_bool (h \<in> ledger_hashes (cur db))" by auto
  have th: "thread_ok th" using IH(1) turn.hyps(2,3) by (auto simp: calls_ok_def list_all_length)
  have ok: "saved db = None" "tables_ok (cur db)" using IH(1) by (simp_all add: calls_ok_def)
  from advance_keeps [OF assms(1) ok th turn.hyps(4)] have k: "saved db' = None" "tables_ok (cur db')"
    "thread_ok th'" "paid th \<longrightarrow> paid th'"
    "ledger_hashes (cur db') = ledger_hashes (cur db) \<union>
      (if paid th' \<and> \<not> paid th then {c_str (job_hash j)} else {})"
    "paid th' \<and> \<not> paid th \<longrightarrow> c_str (job_hash j) \<notin> ledger_hashes (cur db)" by auto
  have "calls_ok (ts[i := (j, th')], db')"
    using IH(1) k(1-3) turn.hyps(2) by (auto simp: calls_ok_def list_all_length nth_list_update)
  moreover have "map fst (ts[i := (j, th')]) = map fst ts"
    using turn.hyps(2,3) by (metis fst_conv list_update_id map_update)
  ultimately show ?case
    using paid_for_update [OF turn.hyps(2,3) k(4), of h] IH(2,3) k(5,6) by (auto simp: of_bool_def)
qed

lemma started_ok: "saved db = None \<Longrightarrow> tables_ok (cur db) \<Longrightarrow> calls_ok (started_calls js, db)"
  by (simp add: calls_ok_def started_calls_def list_all_length)

lemma paid_for_started: "paid_for h (started_calls js) = 0"
  by (auto simp: paid_for_def started_calls_def filter_empty_conv)

section \<open>Two calls that read before either writes\<close>

lemma turn_first:
  "interleave E c ([(j1, t1), (j2, t2)], db) \<Longrightarrow> advance E j1 (t1, db) = (t1', db') \<Longrightarrow>
     interleave E c ([(j1, t1'), (j2, t2)], db')"
  using interleave.turn [of E c "[(j1, t1), (j2, t2)]" db 0 j1 t1 t1' db'] by simp

lemma turn_second:
  "interleave E c ([(j1, t1), (j2, t2)], db) \<Longrightarrow> advance E j2 (t2, db) = (t2', db') \<Longrightarrow>
     interleave E c ([(j1, t1), (j2, t2')], db')"
  using interleave.turn [of E c "[(j1, t1), (j2, t2)]" db 1 j2 t2 t2' db'] by simp

lemma advance_find:
  assumes "healthy E" "sql_select_account (c_str (pi_senderVpa (job_payment j))) (cur db) = Some s"
  obtains db' where "advance E j (Find_sender k, db) = (Find_receiver k s, db')" "cur db' = cur db"
    "saved db' = saved db"
proof -
  obtain r db' where f: "findById E (pi_senderVpa (job_payment j)) db = (r, db')" by fastforce
  from findById_healthy [OF assms(1) f] assms(2) f that show thesis by simp
qed

lemma advance_check:
  assumes "healthy E" "sql_select_account (c_str (pi_receiverVpa (job_payment j))) (cur db) = Some c"
    and "0 < pi_amount (job_payment j)" "pi_amount (job_payment j) \<le> balance s"
    and "in_i64 (balance s)" "in_i64 (balance c + pi_amount (job_payment j))"
  obtains db' where "advance E j (Find_receiver k s, db) =
      (Commit_both k (s\<lparr>balance := balance s - pi_amount (job_payment j)\<rparr>)
         (c\<lparr>balance := balance c + pi_amount (job_payment j)\<rparr>), db')"
    "cur db' = cur db" "saved db' = saved db"
proof -
  obtain r db' where f: "findById E (pi_receiverVpa (job_payment j)) db = (r, db')" by fastforce
  have "in_i64 (balance s - pi_amount (job_payment j))"
    using assms(3-5) by (simp add: in_i64_def i64_min_def i64_max_def)
  with findById_healthy [OF assms(1) f] assms f that show thesis by (simp add: checked_def)
qed

lemma advance_commit:
  assumes "healthy E" "saved db = None" "c_str (job_hash j) \<notin> ledger_hashes (cur db)" "seq (cur db) < i64_max"
  obtains tx db' where "advance E j (Commit_both k s c, db) = (Finished (Inr tx), db')" "saved db' = None"
    "tx_status tx = SETTLED" "seq (cur db') = seq (cur db) + 1"
    "ledger_hashes (cur db') = insert (c_str (job_hash j)) (ledger_hashes (cur db))"
    "accounts (cur db') = accounts (sql_upsert_account (bind_account c) (sql_upsert_account (bind_account s) (cur db)))"
proof -
  obtain a db' where l: "settle_locked E (job_clock j k) (job_payment j) (job_hash j) (job_bridge j) (job_hops j)
      s c db = (a, db')" by fastforce
  note h = settle_locked_healthy [OF assms(1,2) l]
  let ?t = "sql_upsert_account (bind_account c) (sql_upsert_account (bind_account s) (cur db))"
  let ?r = "bind_transaction (settlement_tx (job_payment j) (job_hash j) (job_bridge j) (job_hops j)
      (job_clock j k) SETTLED)"
  have hash: "row_packetHash ?r = c_str (job_hash j)" by (simp add: bind_transaction_def settlement_tx_def)
  have "sql_insert_transaction ?r ?t = Inr (seq (cur db) + 1, ?t\<lparr>transactions := transactions ?t @
      [?r\<lparr>row_id := seq (cur db) + 1\<rparr>], seq := seq (cur db) + 1\<rparr>)"
    using assms(3,4) hash by (simp add: sql_insert_transaction_def ledger_hashes_def)
  with h l that hash show thesis by (simp add: ledger_hashes_def settlement_tx_def)
qed

text \<open>The schedule: both read the sender's row, both read their receiver's, then both commit.\<close>

lemma both_commit:
  assumes "healthy E" "saved db = None" "tables_ok (cur db)"
    and p: "p1 = job_payment j1" "p2 = job_payment j2" "pi_senderVpa p2 = pi_senderVpa p1"
    and sel: "sql_select_account (c_str (pi_senderVpa p1)) (cur db) = Some s"
      "sql_select_account (c_str (pi_receiverVpa p1)) (cur db) = Some c"
      "sql_select_account (c_str (pi_receiverVpa p2)) (cur db) = Some d"
    and amt: "0 < pi_amount p1" "pi_amount p1 \<le> balance s" "0 < pi_amount p2" "pi_amount p2 \<le> balance s"
      "in_i64 (balance c + pi_amount p1)" "in_i64 (balance d + pi_amount p2)"
    and new: "c_str (job_hash j1) \<notin> ledger_hashes (cur db)" "c_str (job_hash j2) \<notin> ledger_hashes (cur db)"
      "c_str (job_hash j1) \<noteq> c_str (job_hash j2)" "seq (cur db) + 1 < i64_max"
  obtains tx1 tx2 db' t1 where
    "interleave E (started_calls [j1, j2], db) ([(j1, Finished (Inr tx1)), (j2, Finished (Inr tx2))], db')"
    "tx_status tx1 = SETTLED" "tx_status tx2 = SETTLED"
    "accounts t1 = accounts (sql_upsert_account (credit p1 c) (sql_upsert_account (debit p1 s) (cur db)))"
    "accounts (cur db') = accounts (sql_upsert_account (credit p2 d) (sql_upsert_account (debit p2 s) t1))"
    "accounts_ok t1"
proof -
  have ok: "accounts_ok (cur db)" using assms(3) by (simp add: tables_ok_def)
  have s: "in_i64 (balance s)" using selected_vpa [OF ok sel(1)] by blast
  let ?c = "(started_calls [j1, j2], db)"
  have i0: "interleave E ?c ([(j1, Find_sender 1), (j2, Find_sender 1)], db)"
    using interleave.stay [of E ?c] by (simp add: started_calls_def)
  obtain db1 where 1: "advance E j1 (Find_sender 1, db) = (Find_receiver 1 s, db1)" "cur db1 = cur db"
    "saved db1 = saved db" using advance_find [OF assms(1), of j1 db s 1] sel(1) p by auto
  obtain db2 where 2: "advance E j2 (Find_sender 1, db1) = (Find_receiver 1 s, db2)" "cur db2 = cur db"
    "saved db2 = saved db" using advance_find [OF assms(1), of j2 db1 s 1] sel(1) p 1 by auto
  obtain db3 where 3: "advance E j1 (Find_receiver 1 s, db2) =
      (Commit_both 1 (s\<lparr>balance := balance s - pi_amount p1\<rparr>) (c\<lparr>balance := balance c + pi_amount p1\<rparr>), db3)"
    "cur db3 = cur db" "saved db3 = saved db"
    using advance_check [OF assms(1), of j1 db2 c s 1] sel(2) p 2 amt s by auto
  obtain db4 where 4: "advance E j2 (Find_receiver 1 s, db3) =
      (Commit_both 1 (s\<lparr>balance := balance s - pi_amount p2\<rparr>) (d\<lparr>balance := balance d + pi_amount p2\<rparr>), db4)"
    "cur db4 = cur db" "saved db4 = saved db"
    using advance_check [OF assms(1), of j2 db3 d s 1] sel(3) p 3 amt s by auto
  obtain tx1 db5 where 5: "advance E j1 (Commit_both 1 (s\<lparr>balance := balance s - pi_amount p1\<rparr>)
      (c\<lparr>balance := balance c + pi_amount p1\<rparr>), db4) = (Finished (Inr tx1), db5)" "saved db5 = None"
    "tx_status tx1 = SETTLED" "seq (cur db5) = seq (cur db) + 1"
    "ledger_hashes (cur db5) = insert (c_str (job_hash j1)) (ledger_hashes (cur db))"
    "accounts (cur db5) = accounts (sql_upsert_account (credit p1 c) (sql_upsert_account (debit p1 s) (cur db)))"
    using advance_commit [OF assms(1), of db4 j1 1 "s\<lparr>balance := balance s - pi_amount p1\<rparr>"
        "c\<lparr>balance := balance c + pi_amount p1\<rparr>"] 4 assms(2) new by (auto simp: debit_def credit_def simp del: advance.simps)
  obtain tx2 db6 where 6: "advance E j2 (Commit_both 1 (s\<lparr>balance := balance s - pi_amount p2\<rparr>)
      (d\<lparr>balance := balance d + pi_amount p2\<rparr>), db5) = (Finished (Inr tx2), db6)"
    "tx_status tx2 = SETTLED"
    "accounts (cur db6) = accounts (sql_upsert_account (credit p2 d) (sql_upsert_account (debit p2 s) (cur db5)))"
    using advance_commit [OF assms(1), of db5 j2 1 "s\<lparr>balance := balance s - pi_amount p2\<rparr>"
        "d\<lparr>balance := balance d + pi_amount p2\<rparr>"] 5 new by (simp add: debit_def credit_def del: advance.simps) metis
  have run: "interleave E ?c ([(j1, Finished (Inr tx1)), (j2, Finished (Inr tx2))], db6)"
    by (rule turn_second [OF turn_first [OF turn_second [OF turn_first [OF turn_second [OF turn_first
      [OF i0 1(1)] 2(1)] 3(1)] 4(1)] 5(1)] 6(1)])
  have "accounts_ok (sql_upsert_account (debit p1 s) (cur db))"
    using accounts_ok_debit [OF ok sel(1)] amt by simp
  then have "accounts_ok (sql_upsert_account (credit p1 c) (sql_upsert_account (debit p1 s) (cur db)))"
    using accounts_ok_credit [OF ok _ sel(2)] amt by simp
  then have "accounts_ok (cur db5)" using 5(6) by (simp add: accounts_ok_def)
  with that [OF run 5(3) 6(2) 5(6) 6(3)] show thesis by blast
qed

section \<open>Properties\<close>

text \<open>C8. No call waits or retries for ever: whatever the others do in between and whatever the engine
  does, a call has its result after it has had the lock nine times, three times in each of three
  rounds, and the schedule that was followed is one of the interleavings.\<close>

theorem concurrent_calls_finish:
  assumes "i < length js" "3 * maxAttempts \<le> count_list turns i"
  shows "\<exists>ts db' r. run_turns E turns (started_calls js, db) = (ts, db') \<and>
    interleave E (started_calls js, db) (ts, db') \<and> ts ! i = (js ! i, Finished r)"
proof -
  let ?c = "(started_calls js, db)"
  obtain ts db' where run: "run_turns E turns ?c = (ts, db')" by fastforce
  have start: "list_all (in_round \<circ> snd) (fst ?c)" "i < length (fst ?c)" "map fst (fst ?c) = js"
    "turns_left (snd (fst ?c ! i)) = 3 * maxAttempts"
    using assms(1) by (simp_all add: started_calls_def list_all_iff maxAttempts_def o_def)
  from run_turns_left [OF start(1,2), of E turns] run start(3,4) assms(2)
  have t: "map fst ts = js" "list_all (in_round \<circ> snd) ts" "turns_left (snd (ts ! i)) = 0" by simp_all
  then have i: "i < length ts" using assms(1) by (metis length_map)
  with t(2,3) obtain r where "snd (ts ! i) = Finished r" using no_turns_left by (auto simp: list_all_length)
  moreover have "fst (ts ! i) = js ! i" using t(1) i by (metis nth_map)
  moreover have "interleave E ?c (ts, db')" using interleave_turns [OF interleave.stay, of E ?c turns] run by simp
  ultimately show ?thesis using run by (metis prod.collapse)
qed

text \<open>C6. While no SQLite call fails, under any interleaving of any number of calls: the tables stay well formed, so no balance is
  negative and the ledger holds no hash twice, no transaction is left open, and the calls that
  returned a transaction for a hash account exactly for its appearance in the ledger. In
  particular two calls for one packet never both succeed.\<close>

theorem concurrent_exactly_once:
  assumes "healthy E" "saved db = None" "tables_ok (cur db)"
    and "interleave E (started_calls js, db) (ts, db')"
  shows "saved db' = None \<and> tables_ok (cur db') \<and> map fst ts = js \<and>
    paid_for h ts + of_bool (h \<in> ledger_hashes (cur db)) = of_bool (h \<in> ledger_hashes (cur db'))"
proof -
  have "map fst (started_calls js) = js" by (simp add: started_calls_def o_def)
  with interleave_keeps [OF assms(1,4) started_ok [OF assms(2,3)], of h] show ?thesis
    by (simp add: calls_ok_def paid_for_started)
qed

text \<open>Two demonstration calls: Alice, who has 5000 rupees, pays all of it to Bob and all of it to Carol.\<close>

definition demo_job :: "string \<Rightarrow> string \<Rightarrow> job" where
  "demo_job receiver h = \<lparr>job_payment = demo_payment\<lparr>pi_receiverVpa := receiver, pi_amount := 500000\<rparr>,
     job_hash = h, job_bridge = ''phone-bridge'', job_hops = 1, job_clock = (\<lambda>k. 7)\<rparr>"

lemma demo_selected:
  "sql_select_account (c_str (pi_senderVpa (job_payment (demo_job r h)))) (cur demo_db) =
      Some \<lparr>vpa = ''alice@demo'', holderName = ''Alice'', balance = 500000, version = 0\<rparr>"
  "sql_select_account (c_str (pi_receiverVpa (job_payment (demo_job ''bob@demo'' h)))) (cur demo_db) =
      Some \<lparr>vpa = ''bob@demo'', holderName = ''Bob'', balance = 100000, version = 0\<rparr>"
  "sql_select_account (c_str (pi_receiverVpa (job_payment (demo_job ''carol@demo'' h)))) (cur demo_db) =
      Some \<lparr>vpa = ''carol@demo'', holderName = ''Carol'', balance = 250000, version = 0\<rparr>"
  by (simp_all add: demo_job_def demo_payment_def c_str_def seeded_tables_def seed_rows_def
      sql_select_account_def)

lemma seeded_ledger [simp]: "ledger_hashes seeded_tables = {}" "seq seeded_tables = 0"
  by (simp_all add: ledger_hashes_def seeded_tables_def)

lemma demo_both_commit:
  obtains tx1 tx2 db' where
    "interleave (\<lambda>n. None) (started_calls [demo_job ''bob@demo'' ''h1'', demo_job ''carol@demo'' ''h2''], demo_db)
       ([(demo_job ''bob@demo'' ''h1'', Finished (Inr tx1)), (demo_job ''carol@demo'' ''h2'', Finished (Inr tx2))], db')"
  by (rule both_commit [of "\<lambda>n. None" demo_db _ "demo_job ''bob@demo'' ''h1''" _ "demo_job ''carol@demo'' ''h2''",
        OF _ _ _ refl refl _ demo_selected(1) demo_selected(2) demo_selected(3)])
    (simp_all add: demo_job_def demo_payment_def in_i64_def i64_min_def i64_max_def c_str_def)

theorem concurrent_calls_finish_witness:
  "\<exists>ts db' r. run_turns (\<lambda>n. None) (concat (replicate 9 [0, 1]))
      (started_calls [demo_job ''bob@demo'' ''h1'', demo_job ''carol@demo'' ''h2''], demo_db) = (ts, db') \<and>
     ts ! 1 = (demo_job ''carol@demo'' ''h2'', Finished r)"
  using concurrent_calls_finish [of 1 "[demo_job ''bob@demo'' ''h1'', demo_job ''carol@demo'' ''h2'']"
      "concat (replicate 9 [0, 1])" "\<lambda>n. None" demo_db]
  by (auto simp: maxAttempts_def numeral_eq_Suc)

theorem concurrent_exactly_once_witness:
  "\<exists>ts db'. interleave (\<lambda>n. None)
      (started_calls [demo_job ''bob@demo'' ''h1'', demo_job ''carol@demo'' ''h2''], demo_db) (ts, db') \<and>
     ''h1'' \<in> ledger_hashes (cur db') \<and> tables_ok (cur db')"
proof -
  obtain tx1 tx2 db' where run: "interleave (\<lambda>n. None)
      (started_calls [demo_job ''bob@demo'' ''h1'', demo_job ''carol@demo'' ''h2''], demo_db)
      ([(demo_job ''bob@demo'' ''h1'', Finished (Inr tx1)), (demo_job ''carol@demo'' ''h2'', Finished (Inr tx2))], db')"
    by (rule demo_both_commit)
  have "paid_for ''h1'' [(demo_job ''bob@demo'' ''h1'', Finished (Inr tx1)),
      (demo_job ''carol@demo'' ''h2'', Finished (Inr tx2))] = 1"
    by (simp add: paid_for_def demo_job_def c_str_def)
  moreover have "saved db' = None \<and> tables_ok (cur db') \<and>
      map fst [(demo_job ''bob@demo'' ''h1'', Finished (Inr tx1)), (demo_job ''carol@demo'' ''h2'', Finished (Inr tx2))] =
        [demo_job ''bob@demo'' ''h1'', demo_job ''carol@demo'' ''h2''] \<and>
      paid_for ''h1'' [(demo_job ''bob@demo'' ''h1'', Finished (Inr tx1)),
        (demo_job ''carol@demo'' ''h2'', Finished (Inr tx2))] + of_bool (''h1'' \<in> ledger_hashes (cur demo_db)) =
      of_bool (''h1'' \<in> ledger_hashes (cur db'))"
    by (rule concurrent_exactly_once [OF _ _ _ run]) simp_all
  ultimately have "''h1'' \<in> ledger_hashes (cur db')" "tables_ok (cur db')"
    by (simp_all add: of_bool_def split: if_splits)
  with run show ?thesis by blast
qed

text \<open>C7. What the lock does not give, no SQLite call failing, although the README says it does: the rows are read before the lock
  is taken, so two payments from one account can both pass the balance check and both settle.
  The second commit writes a stale sender row over the first: the account loses only the second
  amount, both receivers are paid, and the total of all balances grows by the first amount.\<close>

theorem concurrent_double_spend:
  assumes "healthy E" "saved db = None" "tables_ok (cur db)"
    and "p1 = job_payment j1" "p2 = job_payment j2" "pi_senderVpa p2 = pi_senderVpa p1"
    and "sql_select_account (c_str (pi_senderVpa p1)) (cur db) = Some s"
      "sql_select_account (c_str (pi_receiverVpa p1)) (cur db) = Some c"
      "sql_select_account (c_str (pi_receiverVpa p2)) (cur db) = Some d"
    and "distinct [c_str (pi_senderVpa p1), c_str (pi_receiverVpa p1), c_str (pi_receiverVpa p2)]"
    and "0 < pi_amount p1" "pi_amount p1 \<le> balance s" "0 < pi_amount p2" "pi_amount p2 \<le> balance s"
      "in_i64 (balance c + pi_amount p1)" "in_i64 (balance d + pi_amount p2)"
    and "c_str (job_hash j1) \<notin> ledger_hashes (cur db)" "c_str (job_hash j2) \<notin> ledger_hashes (cur db)"
      "c_str (job_hash j1) \<noteq> c_str (job_hash j2)" "seq (cur db) + 1 < i64_max"
  shows "\<exists>tx1 tx2 db'.
    interleave E (started_calls [j1, j2], db) ([(j1, Finished (Inr tx1)), (j2, Finished (Inr tx2))], db') \<and>
    tx_status tx1 = SETTLED \<and> tx_status tx2 = SETTLED \<and>
    map_option balance (sql_select_account (c_str (pi_senderVpa p1)) (cur db')) = Some (balance s - pi_amount p2) \<and>
    map_option balance (sql_select_account (c_str (pi_receiverVpa p1)) (cur db')) = Some (balance c + pi_amount p1) \<and>
    map_option balance (sql_select_account (c_str (pi_receiverVpa p2)) (cur db')) = Some (balance d + pi_amount p2) \<and>
    total_balance (cur db') = total_balance (cur db) + pi_amount p1"
proof -
  have ok: "accounts_ok (cur db)" using assms(3) by (simp add: tables_ok_def)
  obtain tx1 tx2 db' t1 where run: "interleave E (started_calls [j1, j2], db)
      ([(j1, Finished (Inr tx1)), (j2, Finished (Inr tx2))], db')" "tx_status tx1 = SETTLED" "tx_status tx2 = SETTLED"
    and t1: "accounts t1 = accounts (sql_upsert_account (credit p1 c) (sql_upsert_account (debit p1 s) (cur db)))"
    and t2: "accounts (cur db') = accounts (sql_upsert_account (credit p2 d) (sql_upsert_account (debit p2 s) t1))"
    and ok1: "accounts_ok t1"
    using assms(1-9,11-20) by (rule both_commit)
  have keys: "vpa (debit p1 s) = c_str (pi_senderVpa p1)" "vpa (debit p2 s) = c_str (pi_senderVpa p1)"
    "vpa (credit p1 c) = c_str (pi_receiverVpa p1)" "vpa (credit p2 d) = c_str (pi_receiverVpa p2)"
    using selected_vpa [OF ok assms(7)] selected_vpa [OF ok assms(8)] selected_vpa [OF ok assms(9)] by simp_all
  have sel1: "sql_select_account v t1 = sql_select_account v
      (sql_upsert_account (credit p1 c) (sql_upsert_account (debit p1 s) (cur db)))" for v
    by (rule select_same_accounts) (rule t1)
  have sel2: "sql_select_account v (cur db') = sql_select_account v
      (sql_upsert_account (credit p2 d) (sql_upsert_account (debit p2 s) t1))" for v
    by (rule select_same_accounts) (rule t2)
  have tot: "total_balance (cur db') = total_balance (cur db) + pi_amount p1"
  proof -
    have "total_balance t1 = total_balance (sql_upsert_account (credit p1 c) (sql_upsert_account (debit p1 s) (cur db)))"
      using t1 by (simp add: total_balance_def)
    also have "\<dots> = total_balance (cur db)"
      using assms(10) keys accounts_ok_debit [OF ok assms(7), of p1] assms(11,12)
      by (intro acc.move_total [OF ok assms(7,8), where x = "pi_amount p1"]) simp_all
    finally have one: "total_balance t1 = total_balance (cur db)" .
    have s1: "sql_select_account (vpa (debit p2 s)) t1 = Some (debit p1 s)"
      using assms(10) keys by (auto simp: sel1 acc.select_upsert)
    have d1: "sql_select_account (vpa (credit p2 d)) (sql_upsert_account (debit p2 s) t1) = Some d"
      using assms(9,10) keys by (auto simp: sel1 acc.select_upsert)
    have ok2: "accounts_ok (sql_upsert_account (debit p2 s) t1)"
      using selected_vpa [OF ok assms(7)] assms(13,14)
      by (intro acc.valid_upsert [OF ok1]) (auto simp: in_i64_def i64_min_def)
    have "total_balance (cur db') = total_balance (sql_upsert_account (credit p2 d) (sql_upsert_account (debit p2 s) t1))"
      using t2 by (simp add: total_balance_def)
    then show ?thesis
      using acc.total_upsert [OF ok2 d1] acc.total_upsert [OF ok1 s1] one by simp
  qed
  show ?thesis
    by (rule exI [of _ tx1], rule exI [of _ tx2], rule exI [of _ db'])
      (use run tot assms(10) keys in \<open>auto simp: sel2 sel1 acc.select_upsert\<close>)
qed

theorem concurrent_double_spend_witness:
  "\<exists>tx1 tx2 db'. interleave (\<lambda>n. None)
      (started_calls [demo_job ''bob@demo'' ''h1'', demo_job ''carol@demo'' ''h2''], demo_db)
      ([(demo_job ''bob@demo'' ''h1'', Finished (Inr tx1)), (demo_job ''carol@demo'' ''h2'', Finished (Inr tx2))], db') \<and>
     tx_status tx1 = SETTLED \<and> tx_status tx2 = SETTLED \<and> total_balance (cur db') = 1400000"
proof -
  let ?j1 = "demo_job ''bob@demo'' ''h1''" and ?j2 = "demo_job ''carol@demo'' ''h2''"
  have "\<exists>tx1 tx2 db'. interleave (\<lambda>n. None) (started_calls [?j1, ?j2], demo_db)
      ([(?j1, Finished (Inr tx1)), (?j2, Finished (Inr tx2))], db') \<and>
     tx_status tx1 = SETTLED \<and> tx_status tx2 = SETTLED \<and> total_balance (cur db') = total_balance seeded_tables + 500000"
    using concurrent_double_spend [of "\<lambda>n. None" demo_db _ ?j1 _ ?j2,
        OF _ _ _ refl refl _ demo_selected(1) demo_selected(2) demo_selected(3)]
    by (simp add: demo_job_def demo_payment_def in_i64_def i64_min_def i64_max_def c_str_def) blast
  then show ?thesis by (simp add: seeded_total)
qed

end
