(* ===== verification/Tools.thy ===== *)
theory Tools
  imports Api Concurrency Sealing JsonOrder
begin

text \<open>
  The command-line programs of the repository: \<open>craft_packet.cpp\<close> and the programs that check the
  three phases of the port, \<open>crypto/verify_phase1.cpp\<close>, \<open>model/verify_phase2.cpp\<close>,
  \<open>model/test_amounts.cpp\<close>, \<open>service/verify_phase3.cpp\<close>. A run is what is printed and how the process
  ends. Of the checking programs' output only the verdicts \<open>[PASS]\<close> and \<open>[FAIL]\<close> are kept.
  \<open>cross_lang_test.cpp\<close>, which talks to a server of another implementation, is left out.
\<close>

section \<open>Runs of a program\<close>

datatype verdict = Pass | Fail

definition verdict :: "bool \<Rightarrow> verdict" where
  "verdict b = (if b then Pass else Fail)"

text \<open>A process returns from \<open>main\<close>, or an exception leaves \<open>main\<close> and ends it.\<close>

datatype outcome = Exit nat | Terminated exn

type_synonym 'l run = "'l list \<times> outcome"

definition say :: "'l \<Rightarrow> 'l run \<Rightarrow> 'l run" where
  "say v r = (v # fst r, snd r)"

definition must :: "'a res \<Rightarrow> ('a \<Rightarrow> 'l run) \<Rightarrow> 'l run" where
  "must r k = (case r of Inl e \<Rightarrow> ([], Terminated e) | Inr x \<Rightarrow> k x)"

lemma must_simps [simp]: "must (Inr x) k = k x" "must (Inl e) k = ([], Terminated e)"
  by (simp_all add: must_def)

section \<open>\<open>verify_phase1\<close>\<close>

text \<open>
  Its own base64 decoder ignores that \<open>BIO_read\<close> can fail: the length of -1 it then gives
  \<open>resize\<close> makes the vector throw \<open>std::length_error\<close>.
\<close>

definition base64DecodeTest :: "openssl \<Rightarrow> string \<Rightarrow> string res" where
  "base64DecodeTest ssl b64 =
     (case b64_decode ssl b64 of
        None \<Rightarrow> Inl (Logic_error ''vector::_M_default_append'')
      | Some out \<Rightarrow> Inr out)"

definition toHex :: "string \<Rightarrow> string" where
  "toHex str = concat (map hex_byte str)"

text \<open>Its own hash function looks at no return value; without a digest it reads the buffer as it is.\<close>

definition phase1_hash :: "openssl \<Rightarrow> string \<Rightarrow> string res" where
  "phase1_hash ssl s =
     (case sha256 ssl s of
        None \<Rightarrow> Inl (Undefined ''read of an indeterminate digest'')
      | Some hash \<Rightarrow> Inr (toHex (take 32 hash)))"

definition phase1_instruction :: json where
  "phase1_instruction = json_init
     [member ''senderVpa'' (JString ''alice@upi''), member ''receiverVpa'' (JString ''bob@upi''),
      member ''amount'' (JInt 50000),
      member ''pinHash'' (JString ''abcdef123456''), member ''nonce'' (JString ''unique-nonce-123''),
      member ''signedAt'' (JInt 1690000000)]"

text \<open>\<open>tamperedRaw[270] ^= 0x01\<close>, with no check that the vector is that long.\<close>

definition flip_byte :: "nat \<Rightarrow> string \<Rightarrow> string res" where
  "flip_byte n bytes =
     (if n < length bytes
      then Inr (bytes[n := char_of (Bit_Operations.xor (of_char (bytes ! n)) (1 :: nat))])
      else Inl (Undefined ''write past the end of the vector''))"

text \<open>\<open>catch (const std::exception &)\<close> takes every exception, and no undefined behaviour.\<close>

definition tamper_check :: "openssl \<Rightarrow> string \<Rightarrow> string \<Rightarrow> verdict res" where
  "tamper_check ssl key tamperedB64 =
     (case decrypt ssl key tamperedB64 of
        Inr j \<Rightarrow> Inr Fail
      | Inl e \<Rightarrow> if is_undefined e then Inl e else Inr Pass)"

definition verify_phase1 :: "openssl \<Rightarrow> (nat \<Rightarrow> string option) \<Rightarrow> nat \<Rightarrow> verdict run" where
  "verify_phase1 ssl draw seed =
     must (ServerKeyHolder ssl) (\<lambda>key.
     must (getPublicKeyBase64 ssl (Some key)) (\<lambda>b64Key.
     must (base64DecodeTest ssl b64Key) (\<lambda>rawKey.
     say (verdict (rawKey \<noteq> [] \<and> hd rawKey = CHR 0x30)) (
     must (json_dump phase1_instruction) (\<lambda>plaintextStr.
     must (encrypt ssl key draw seed phase1_instruction) (\<lambda>ciphertextB64.
     must (base64DecodeTest ssl ciphertextB64) (\<lambda>rawCiphertext.
     say (verdict (length rawCiphertext = 256 + 12 + length plaintextStr + 16)) (
     say Pass (say Pass (say Pass (
     must (decrypt ssl key ciphertextB64) (\<lambda>decrypted.
     say (verdict (json_eq decrypted phase1_instruction)) (
     must (flip_byte 270 rawCiphertext) (\<lambda>tamperedRaw.
     must (tamper_check ssl key (b64_encode ssl tamperedRaw)) (\<lambda>v.
     say v (
     must (phase1_hash ssl ''HelloWorldBase64MockString'') (\<lambda>hexHash.
     say Pass ([], Exit 0))))))))))))))))))"

section \<open>\<open>verify_phase2\<close>\<close>

text \<open>
  The transaction of the third check. \<open>save\<close> fills in its id, which starts indeterminate and is
  not read before that.
\<close>

definition phase2_tx :: transaction where
  "phase2_tx = \<lparr>tx_id = 0, tx_packetHash = ''abcdef1234567890_mock_hash'', tx_senderVpa = ''alice@demo'',
     tx_receiverVpa = ''bob@demo'', tx_amount = 20000, tx_signedAt = 1690000000, tx_settledAt = 1690000005,
     tx_bridgeNodeId = ''bridge-node-1'', tx_hopCount = 3, tx_status = SETTLED\<rparr>"

text \<open>
  The second check: two copies of Bob's row are written one after the other, and the program
  expects \<open>ConcurrencyException\<close> from the second \<open>save\<close>. \<open>save\<close> has no path that throws, so the
  line after it always runs.
\<close>

definition stale_check :: "engine \<Rightarrow> account \<Rightarrow> database \<Rightarrow> verdict res \<times> database" where
  "stale_check E bob db =
     (case sub_i64 (balance bob) 20000 of
        Inl e \<Rightarrow> (Inl e, db)
      | Inr b1 \<Rightarrow>
          let db1 = account_save E (bob\<lparr>balance := b1\<rparr>) db
          in case sub_i64 (balance bob) 30000 of
               Inl e \<Rightarrow> (Inl e, db1)
             | Inr b2 \<Rightarrow> (Inr Fail, account_save E (bob\<lparr>balance := b2\<rparr>) db1))"

text \<open>The third check: \<open>save\<close> of a copy with another amount and the same hash.\<close>

definition unique_check :: "engine \<Rightarrow> transaction \<Rightarrow> database \<Rightarrow> verdict \<times> database" where
  "unique_check E tx1 db =
     (case transaction_save E (tx1\<lparr>tx_amount := 99999\<rparr>) db of
        (Inr tx, db1) \<Rightarrow> (Fail, db1)
      | (Inl e, db1) \<Rightarrow> (Pass, db1))"

definition verify_phase2 :: "engine \<Rightarrow> database \<Rightarrow> verdict run \<times> database" where
  "verify_phase2 E db =
     (case findById E ''alice@demo'' db of (alice, db1) \<Rightarrow>
      if map_option balance alice \<noteq> Some 500000 then (([Fail], Exit 1), db1)
      else
        case findById E ''bob@demo'' db1 of
          (None, db2) \<Rightarrow> (([Pass], Terminated (Logic_error ''bad optional access'')), db2)
        | (Some bob, db2) \<Rightarrow>
            (case stale_check E bob db2 of
               (Inl e, db3) \<Rightarrow> (([Pass], Terminated e), db3)
             | (Inr v2, db3) \<Rightarrow>
                 (case transaction_save E phase2_tx db3 of
                    (Inl e, db4) \<Rightarrow> (([Pass, v2], Terminated e), db4)
                  | (Inr tx1, db4) \<Rightarrow>
                      (case unique_check E tx1 db4 of (v3, db5) \<Rightarrow>
                       case existsByPacketHash E ''abcdef1234567890_mock_hash'' db5 of
                         (Inl e, db6) \<Rightarrow> (([Pass, v2, v3], Terminated e), db6)
                       | (Inr found, db6) \<Rightarrow> (([Pass, v2, v3, Pass], Exit 0), db6)))))"

section \<open>\<open>test_amounts\<close>\<close>

definition amount_payment :: "int \<Rightarrow> payment" where
  "amount_payment paise = \<lparr>pi_senderVpa = ''alice@demo'', pi_receiverVpa = ''bob@demo'', pi_amount = paise,
     pi_pinHash = ''abc'', pi_nonce = ''123'', pi_signedAt = 1000\<rparr>"

definition testAmount :: "int \<Rightarrow> string run \<Rightarrow> string run" where
  "testAmount paise rest = must (json_dump (payment_to_json (amount_payment paise))) (\<lambda>line. say line rest)"

definition test_amounts :: "string run" where
  "test_amounts = testAmount 500000 (testAmount 123456 (testAmount 50 (testAmount 999999999 ([], Exit 0))))"

section \<open>\<open>verify_phase3\<close>\<close>

text \<open>
  A hundred threads claim one hash; the mutex admits them in some order, at the given times.
\<close>

definition idempotency_race :: "int list \<Rightarrow> verdict" where
  "idempotency_race ts =
     (case claim_all claim (map (\<lambda>now. (now, ''hash_race_condition_test_123456'')) ts) [] of
        (answers, held) \<Rightarrow>
          verdict (length (filter (\<lambda>b. b) answers) = 1 \<and> length (filter Not answers) = 99))"

text \<open>Ten threads settle payments of one rupee from Alice to Bob. The members the program does not
  set are empty strings.\<close>

definition phase3_job :: "(nat \<Rightarrow> int) \<Rightarrow> nat \<Rightarrow> job" where
  "phase3_job clock i = \<lparr>job_payment = \<lparr>pi_senderVpa = ''alice@demo'', pi_receiverVpa = ''bob@demo'',
       pi_amount = 100, pi_pinHash = [], pi_nonce = [], pi_signedAt = 1000\<rparr>,
     job_hash = ''hash_multi_txn_'' @ dec i, job_bridge = ''bridge-1'', job_hops = 1, job_clock = clock\<rparr>"

definition phase3_jobs :: "(nat \<Rightarrow> int) \<Rightarrow> job list" where
  "phase3_jobs clock = map (phase3_job clock) [0..<10]"

text \<open>\<open>findById(...)->balance\<close>, undefined on an empty optional.\<close>

definition found_balance :: "engine \<Rightarrow> string \<Rightarrow> database \<Rightarrow> int res \<times> database" where
  "found_balance E v db =
     (case findById E v db of
        (None, db1) \<Rightarrow> (Inl (Undefined ''empty optional''), db1)
      | (Some a, db1) \<Rightarrow> (Inr (balance a), db1))"

fun settled_thread :: "thread \<Rightarrow> bool" where
  "settled_thread (Finished (Inr tx)) = True"
| "settled_thread _ = False"

text \<open>The verdict once every thread has been joined.\<close>

definition settlement_verdict :: "int \<Rightarrow> int \<Rightarrow> (job \<times> thread) list \<Rightarrow> verdict" where
  "settlement_verdict before after ts =
     verdict (length (filter (settled_thread \<circ> snd) ts) = 10 \<and> before - after = 1000)"

text \<open>
  The runs of \<open>testSettlementConcurrency\<close>, for the schedule \<open>turns\<close> the threads are given: each
  must have finished when it is joined. How the ten calls ended is kept beside the verdict.
\<close>

inductive settlement_race ::
    "engine \<Rightarrow> (nat \<Rightarrow> int) \<Rightarrow> nat list \<Rightarrow> database \<Rightarrow> (job \<times> thread) list \<Rightarrow> verdict \<Rightarrow> database \<Rightarrow> bool"
  for E clock turns where
  joined: "found_balance E ''alice@demo'' db = (Inr before, db1) \<Longrightarrow> found_balance E ''bob@demo'' db1 = (Inr bob0, db2) \<Longrightarrow>
    run_turns E turns (started_calls (phase3_jobs clock), db2) = (ts, db3) \<Longrightarrow>
    (\<forall>t \<in> set ts. \<exists>r. snd t = Finished r) \<Longrightarrow>
    found_balance E ''alice@demo'' db3 = (Inr after, db4) \<Longrightarrow> found_balance E ''bob@demo'' db4 = (Inr bob1, db5) \<Longrightarrow>
    settlement_race E clock turns db ts (settlement_verdict before after ts) db5"

text \<open>Two schedules: each call by itself, one after the other; and both reads of every call, then
  the ten commits. The numbers are the ten calls.\<close>

definition one_after_the_other :: "nat list" where
  "one_after_the_other = concat (map (replicate 3) [0..<10])"

definition all_read_first :: "nat list" where
  "all_read_first = concat (map (replicate 2) [0..<10]) @ concat (map (replicate 1) [0..<10])"

section \<open>\<open>craft_packet\<close>\<close>

text \<open>\<open>std::stol\<close> differs from \<open>std::stoi\<close> in the range and in its name.\<close>

definition stol :: "string \<Rightarrow> int res" where
  "stol str =
     (let s = dropWhile is_space (c_str str);
          neg = (s \<noteq> [] \<and> hd s = CHR ''-'');
          ds = takeWhile is_dec (if s \<noteq> [] \<and> (hd s = CHR ''-'' \<or> hd s = CHR ''+'') then tl s else s);
          v = (if neg then - dec_val ds else dec_val ds)
      in if ds = [] then Inl (Invalid_argument ''stol'')
         else if in_i64 v then Inr v else Inl (Out_of_range ''stol''))"

definition crafted_pin :: string where
  "crafted_pin = ''8d969eef6ecad3c29a3a629280e686cf0c3f5d5a86aff3ca12020c923adc6c92''"

text \<open>\<open>std::to_string\<close> of a signed number.\<close>

definition to_string_int :: "int \<Rightarrow> string" where
  "to_string_int n = (if n < 0 then CHR ''-'' # dec (nat (- n)) else dec (nat n))"

text \<open>The value is built by assignments through \<open>operator[]\<close>.\<close>

definition crafted_json :: "int \<Rightarrow> json res" where
  "crafted_json signedAt =
     res_bind (index_key ''senderVpa'' (put (JString ''alice@demo'')) JNull) (\<lambda>j.
     res_bind (index_key ''receiverVpa'' (put (JString ''bob@demo'')) j) (\<lambda>j.
     res_bind (index_key ''amount'' (put (JInt 250)) j) (\<lambda>j.
     res_bind (index_key ''pinHash'' (put (JString crafted_pin)) j) (\<lambda>j.
     res_bind (index_key ''nonce'' (put (JString (''direct-test-uuid-'' @ to_string_int signedAt))) j) (\<lambda>j.
     res_bind (index_key ''ttl'' (put (JInt 5)) j) (\<lambda>j.
       index_key ''signedAt'' (put (JInt signedAt)) j))))))"

text \<open>
  The arguments after the program's name, and \<open>d2i_PUBKEY\<close> as a parameter like the other calls
  into OpenSSL. The lines on standard output are the run's; messages on standard error are not
  kept.
\<close>

definition craft_packet ::
    "openssl \<Rightarrow> (string \<Rightarrow> string option) \<Rightarrow> (nat \<Rightarrow> string option) \<Rightarrow> nat \<Rightarrow> string list \<Rightarrow> string run" where
  "craft_packet ssl d2i_PUBKEY draw seed args =
     (case args of
        [pkB64, signedText] \<Rightarrow>
          must (stol signedText) (\<lambda>signedAt.
          must (base64DecodeTest ssl pkB64) (\<lambda>der.
            case d2i_PUBKEY der of
              None \<Rightarrow> ([], Exit 1)
            | Some pkey \<Rightarrow>
                must (crafted_json signedAt) (\<lambda>j.
                  case encrypt ssl pkey draw seed j of
                    Inr ctx \<Rightarrow> say ctx ([], Exit 0)
                  | Inl e \<Rightarrow> if is_undefined e then ([], Terminated e) else ([], Exit 1))))
      | _ \<Rightarrow> ([], Exit 1))"

section \<open>Races\<close>

text \<open>One thread takes several turns in a row; then each thread in the order of the list.\<close>

lemma turns:
  "i < length ts \<Longrightarrow> ts ! i = (j, th) \<Longrightarrow> (advance E j ^^ n) (th, db) = (th', db') \<Longrightarrow>
     run_turns E (replicate n i) (ts, db) = (ts[i := (j, th')], db')"
proof (induction n arbitrary: ts th db)
  case 0
  then show ?case using list_update_id [of ts i] by simp
next
  case (Suc n)
  obtain th1 db1 where 1: "advance E j (th, db) = (th1, db1)" by fastforce
  with Suc.prems(3) have 2: "(advance E j ^^ n) (th1, db1) = (th', db')" by (simp add: funpow_swap1)
  have "run_turns E (replicate n i) (ts[i := (j, th1)], db1) = ((ts[i := (j, th1)])[i := (j, th')], db')"
    by (rule Suc.IH [OF _ _ 2]) (use Suc.prems(1) in simp_all)
  with 1 Suc.prems(1,2) show ?case by simp
qed

lemma sweep:
  assumes "run_turns E before c = (zip js ths, db)" "length ths = length js" "I 0 db"
    and step: "\<And>i db. i < length js \<Longrightarrow> I i db \<Longrightarrow>
      \<exists>th' db'. (advance E (js ! i) ^^ n) (ths ! i, db) = (th', db') \<and> R i th' \<and> I (Suc i) db'"
  shows "\<exists>ths' db'. run_turns E (before @ concat (map (replicate n) [0..<length js])) c = (zip js ths', db') \<and>
    length ths' = length js \<and> I (length js) db' \<and> (\<forall>i < length js. R i (ths' ! i))"
proof -
  have "k \<le> length js \<Longrightarrow> \<exists>ths' db'. run_turns E (before @ concat (map (replicate n) [0..<k])) c = (zip js ths', db') \<and>
      length ths' = length js \<and> I k db' \<and> (\<forall>i < k. R i (ths' ! i)) \<and>
      (\<forall>i < length js. k \<le> i \<longrightarrow> ths' ! i = ths ! i)" for k
  proof (induction k)
    case 0
    with assms show ?case by auto
  next
    case (Suc k)
    then obtain ths1 db1 where 1: "run_turns E (before @ concat (map (replicate n) [0..<k])) c = (zip js ths1, db1)"
      "length ths1 = length js" "I k db1"
      "\<forall>i < k. R i (ths1 ! i)" "\<forall>i < length js. k \<le> i \<longrightarrow> ths1 ! i = ths ! i" by auto
    obtain th' db' where 2: "(advance E (js ! k) ^^ n) (ths ! k, db1) = (th', db')" "R k th'" "I (Suc k) db'"
      using step [of k db1] 1(3) Suc.prems by auto
    have "run_turns E (replicate n k) (zip js ths1, db1) = ((zip js ths1)[k := (js ! k, th')], db')"
      by (rule turns [OF _ _ 2(1)]) (use 1(2,5) Suc.prems in simp_all)
    also have "(zip js ths1)[k := (js ! k, th')] = zip js (ths1[k := th'])"
      using list_update_id [of js k] by (simp add: update_zip)
    finally have "run_turns E ((before @ concat (map (replicate n) [0..<k])) @ replicate n k) c =
        (zip js (ths1[k := th']), db')"
      unfolding run_turns_append [of E "before @ concat (map (replicate n) [0..<k])"] 1(1) .
    then show ?case
      using 1 2 Suc.prems by (intro exI [of _ "ths1[k := th']"] exI [of _ db']) (auto simp: nth_list_update less_Suc_eq)
  qed
  from this [of "length js"] show ?thesis by auto
qed

text \<open>A call that returned a settled transaction.\<close>

fun settled_call :: "thread \<Rightarrow> bool" where
  "settled_call (Finished (Inr tx)) \<longleftrightarrow> tx_status tx = SETTLED"
| "settled_call _ \<longleftrightarrow> False"

lemma settled_call_finished: "settled_call th \<Longrightarrow> settled_thread th \<and> (\<exists>r. th = Finished r)"
  by (cases th rule: settled_call.cases) auto

lemma zip_started: "started_calls js = zip js (replicate (length js) (Find_sender 1))"
  by (simp add: started_calls_def zip_replicate2)

text \<open>The database the program starts on, and the two rows of the race.\<close>

definition alice0 :: account where
  "alice0 = \<lparr>vpa = ''alice@demo'', holderName = ''Alice'', balance = 500000, version = 0\<rparr>"

definition bob0 :: account where
  "bob0 = \<lparr>vpa = ''bob@demo'', holderName = ''Bob'', balance = 100000, version = 0\<rparr>"

lemma phase3_simps [simp]:
  "c_str (pi_senderVpa (job_payment (phase3_job clock i))) = ''alice@demo''"
  "c_str (pi_receiverVpa (job_payment (phase3_job clock i))) = ''bob@demo''"
  "pi_amount (job_payment (phase3_job clock i)) = 100"
  "length (phase3_jobs clock) = 10"
  "i < 10 \<Longrightarrow> phase3_jobs clock ! i = phase3_job clock i"
  by (simp_all add: phase3_job_def phase3_jobs_def c_str_def)

lemma no_nul_dec: "no_nul (dec n)"
  using dec_digits [of n] by (auto simp: no_nul_def list_all_iff is_digit_def)

lemma phase3_hash: "c_str (job_hash (phase3_job clock i)) = ''hash_multi_txn_'' @ dec i"
  using no_nul_dec [of i] by (simp add: phase3_job_def no_nul_def)

lemma balance_of_healthy:
  "healthy E \<Longrightarrow> sql_select_account (c_str v) (cur db) = Some a \<Longrightarrow>
     \<exists>db'. found_balance E v db = (Inr (balance a), db') \<and> cur db' = cur db \<and> saved db' = saved db"
  by (cases "findById E v db") (auto dest!: findById_healthy simp: found_balance_def)

text \<open>Every thread reads both rows; then they commit one after the other, each the same two rows.\<close>

definition race_hash :: "nat \<Rightarrow> string" where
  "race_hash i = ''hash_multi_txn_'' @ dec i"

lemma race_hash_job: "c_str (job_hash (phase3_job clock i)) = race_hash i"
  by (simp add: phase3_hash race_hash_def)

lemma race_hash_inj: "race_hash i = race_hash k \<longleftrightarrow> i = k"
  by (simp add: race_hash_def dec_inj)

definition race_state :: "account \<Rightarrow> account \<Rightarrow> nat \<Rightarrow> database \<Rightarrow> bool" where
  "race_state a b k db \<longleftrightarrow> saved db = None \<and> seq (cur db) = int k \<and>
     ledger_hashes (cur db) = race_hash ` {..<k} \<and>
     sql_select_account ''alice@demo'' (cur db) = Some a \<and> sql_select_account ''bob@demo'' (cur db) = Some b"

lemma race_commit:
  assumes "healthy E" "race_state a b k db" "k < 10" "vpa s = ''alice@demo''" "vpa c = ''bob@demo''"
    "holderName s = ''Alice''" "holderName c = ''Bob''"
  shows "\<exists>tx db'. advance E (phase3_job clock k) (Commit_both n s c, db) = (Finished (Inr tx), db') \<and>
    tx_status tx = SETTLED \<and> race_state s c (Suc k) db'"
proof -
  have "c_str (job_hash (phase3_job clock k)) \<notin> ledger_hashes (cur db)"
    using assms(2) by (auto simp: race_state_def race_hash_job race_hash_inj)
  moreover have "saved db = None" "seq (cur db) < i64_max"
    using assms(2,3) by (simp_all add: race_state_def i64_max_def)
  ultimately obtain tx db' where a: "advance E (phase3_job clock k) (Commit_both n s c, db) = (Finished (Inr tx), db')"
    "saved db' = None" "seq (cur db') = seq (cur db) + 1"
    "ledger_hashes (cur db') = insert (c_str (job_hash (phase3_job clock k))) (ledger_hashes (cur db))"
    "tx_status tx = SETTLED"
    and acc: "accounts (cur db') = accounts (sql_upsert_account (bind_account c) (sql_upsert_account (bind_account s) (cur db)))"
    using advance_commit [OF assms(1)] by metis
  have b: "bind_account s = s" "bind_account c = c"
    using assms(4-7) by (simp_all add: bind_account_def c_str_def)
  have "sql_select_account v (cur db') = sql_select_account v (sql_upsert_account c (sql_upsert_account s (cur db)))" for v
    using select_same_accounts [OF acc] b by simp
  then have "sql_select_account ''alice@demo'' (cur db') = Some s" "sql_select_account ''bob@demo'' (cur db') = Some c"
    using assms(4,5) by (simp_all add: acc.select_upsert)
  moreover have "ledger_hashes (cur db') = race_hash ` {..<Suc k}"
    using a(4) assms(2) by (simp add: race_state_def race_hash_job lessThan_Suc)
  ultimately show ?thesis using a(1-3,5) assms(2) unfolding race_state_def by auto
qed

lemma race_reads:
  assumes "healthy E" "race_state a b k db" "in_i64 (balance a)" "100 \<le> balance a" "in_i64 (balance b + 100)"
  shows "\<exists>db'. (advance E (phase3_job clock i) ^^ 2) (Find_sender 1, db) =
      (Commit_both 1 (a\<lparr>balance := balance a - 100\<rparr>) (b\<lparr>balance := balance b + 100\<rparr>), db') \<and> race_state a b k db'"
proof -
  obtain db1 where 1: "advance E (phase3_job clock i) (Find_sender 1, db) = (Find_receiver 1 a, db1)"
    "cur db1 = cur db" "saved db1 = saved db"
    using advance_find [OF assms(1), of "phase3_job clock i" db a 1] assms(2) by (auto simp: race_state_def)
  obtain db2 where 2: "advance E (phase3_job clock i) (Find_receiver 1 a, db1) =
      (Commit_both 1 (a\<lparr>balance := balance a - 100\<rparr>) (b\<lparr>balance := balance b + 100\<rparr>), db2)"
    "cur db2 = cur db1" "saved db2 = saved db1"
    using advance_check [OF assms(1), of "phase3_job clock i" db1 b a 1] assms 1 by (auto simp: race_state_def)
  from 1 2 assms(2) show ?thesis by (auto simp: race_state_def numeral_2_eq_2 simp del: advance.simps)
qed

text \<open>Ten settled calls and the verdict: what both schedules end with.\<close>

definition race_outcome :: "(job \<times> thread) list \<Rightarrow> account \<Rightarrow> account \<Rightarrow> database \<Rightarrow> bool" where
  "race_outcome ts a b db \<longleftrightarrow> length ts = 10 \<and> (\<forall>t \<in> set ts. settled_call (snd t)) \<and> race_state a b 10 db"

lemma race_ends:
  assumes E: "healthy E" and db: "cur db = seeded_tables"
    and run: "\<And>db2. cur db2 = seeded_tables \<Longrightarrow> saved db2 = saved db \<Longrightarrow> \<exists>ts db3.
      run_turns E turns (started_calls (phase3_jobs clock), db2) = (ts, db3) \<and> race_outcome ts a b db3"
  shows "\<exists>ts db'. settlement_race E clock turns db ts (verdict (500000 - balance a = 1000)) db' \<and> race_outcome ts a b db'"
proof -
  have c: "c_str ''alice@demo'' = ''alice@demo''" "c_str ''bob@demo'' = ''bob@demo''" by (simp_all add: c_str_def)
  obtain db1 where 1: "found_balance E ''alice@demo'' db = (Inr 500000, db1)" "cur db1 = cur db" "saved db1 = saved db"
    using balance_of_healthy [OF E, of "''alice@demo''" db] db c by auto
  obtain db2 where 2: "found_balance E ''bob@demo'' db1 = (Inr 100000, db2)" "cur db2 = cur db" "saved db2 = saved db"
    using balance_of_healthy [OF E, of "''bob@demo''" db1] db c 1 by auto
  obtain ts db3 where i: "run_turns E turns (started_calls (phase3_jobs clock), db2) = (ts, db3)"
    and 3: "length ts = 10" "\<forall>t \<in> set ts. settled_call (snd t)" "race_state a b 10 db3"
    using run [of db2] 2 db by (auto simp: race_outcome_def)
  obtain db4 where 4: "found_balance E ''alice@demo'' db3 = (Inr (balance a), db4)" "cur db4 = cur db3" "saved db4 = saved db3"
    using balance_of_healthy [OF E, of "''alice@demo''" db3] 3(3) c by (auto simp: race_state_def)
  obtain db5 where 5: "found_balance E ''bob@demo'' db4 = (Inr (balance b), db5)" "cur db5 = cur db3" "saved db5 = saved db3"
    using balance_of_healthy [OF E, of "''bob@demo''" db4] 3(3) 4 c by (auto simp: race_state_def)
  have "\<forall>t \<in> set ts. \<exists>r. snd t = Finished r" using 3(2) settled_call_finished by blast
  from settlement_race.joined [OF 1(1) 2(1) i this 4(1) 5(1)]
  have "settlement_race E clock turns db ts (settlement_verdict 500000 (balance a) ts) db5" .
  moreover have "filter (settled_thread \<circ> snd) ts = ts"
    using 3(2) settled_call_finished by (auto simp: filter_id_conv)
  moreover have "race_state a b 10 db5" using 3(3) 5 by (simp add: race_state_def)
  ultimately show ?thesis using 3(1,2) by (auto simp: settlement_verdict_def race_outcome_def)
qed

lemma race_start: "cur db = seeded_tables \<Longrightarrow> saved db = None \<Longrightarrow> race_state alice0 bob0 0 db"
  by (simp add: race_state_def alice0_def bob0_def)

definition paying :: "nat \<Rightarrow> account" where
  "paying k = alice0\<lparr>balance := 500000 - 100 * int k\<rparr>"

definition paid_to :: "nat \<Rightarrow> account" where
  "paid_to k = bob0\<lparr>balance := 100000 + 100 * int k\<rparr>"

lemma race_step:
  assumes "healthy E" "race_state (paying k) (paid_to k) k db" "k < 10"
  shows "\<exists>tx db'. (advance E (phase3_job clock k) ^^ 3) (Find_sender 1, db) = (Finished (Inr tx), db') \<and>
    tx_status tx = SETTLED \<and> race_state (paying (Suc k)) (paid_to (Suc k)) (Suc k) db'"
proof -
  have "in_i64 (balance (paying k))" "100 \<le> balance (paying k)" "in_i64 (balance (paid_to k) + 100)"
    using assms(3) by (simp_all add: paying_def paid_to_def in_i64_def i64_min_def i64_max_def)
  from race_reads [OF assms(1,2) this, of clock k] obtain db1 where
    1: "(advance E (phase3_job clock k) ^^ 2) (Find_sender 1, db) =
      (Commit_both 1 ((paying k)\<lparr>balance := balance (paying k) - 100\<rparr>)
        ((paid_to k)\<lparr>balance := balance (paid_to k) + 100\<rparr>), db1)" "race_state (paying k) (paid_to k) k db1"
    by auto
  have rows: "(paying k)\<lparr>balance := balance (paying k) - 100\<rparr> = paying (Suc k)"
    "(paid_to k)\<lparr>balance := balance (paid_to k) + 100\<rparr> = paid_to (Suc k)"
    by (simp_all add: paying_def paid_to_def)
  obtain tx db' where "advance E (phase3_job clock k) (Commit_both 1 (paying (Suc k)) (paid_to (Suc k)), db1) =
      (Finished (Inr tx), db')" "tx_status tx = SETTLED" "race_state (paying (Suc k)) (paid_to (Suc k)) (Suc k) db'"
    using race_commit [OF assms(1) 1(2) assms(3), of "paying (Suc k)" "paid_to (Suc k)" clock 1]
    by (auto simp: paying_def paid_to_def alice0_def bob0_def simp del: advance.simps)
  with 1(1) show ?thesis unfolding rows by (simp add: numeral_3_eq_3 numeral_2_eq_2 del: advance.simps)
qed

lemma race_zip:
  assumes "length ths = 10" "\<forall>i < 10. settled_call (ths ! i)" "race_state a b 10 db"
  shows "race_outcome (zip (phase3_jobs clock) ths) a b db"
  using assms by (auto simp: race_outcome_def in_set_zip)

lemma race_in_turn:
  assumes "healthy E" "cur db = seeded_tables" "saved db = None"
  shows "\<exists>ts db'. run_turns E one_after_the_other (started_calls (phase3_jobs clock), db) = (ts, db') \<and>
    race_outcome ts (paying 10) (paid_to 10) db'"
proof -
  let ?js = "phase3_jobs clock"
  have first: "race_state (paying 0) (paid_to 0) 0 db"
    using race_start [OF assms(2,3)] by (simp add: paying_def paid_to_def alice0_def bob0_def)
  have start: "run_turns E [] (started_calls ?js, db) = (zip ?js (replicate 10 (Find_sender 1)), db)"
    by (simp add: zip_started)
  have "\<exists>ths db'. run_turns E ([] @ concat (map (replicate 3) [0..<length ?js])) (started_calls ?js, db) = (zip ?js ths, db') \<and>
      length ths = length ?js \<and> race_state (paying (length ?js)) (paid_to (length ?js)) (length ?js) db' \<and>
      (\<forall>i < length ?js. settled_call (ths ! i))"
  proof (rule sweep [OF start, where I = "\<lambda>k. race_state (paying k) (paid_to k) k" and R = "\<lambda>i. settled_call"])
    fix i db2 assume i: "i < length ?js" and s: "race_state (paying i) (paid_to i) i db2"
    from race_step [OF assms(1) s, of clock] i obtain tx db3 where
      "(advance E (phase3_job clock i) ^^ 3) (Find_sender 1, db2) = (Finished (Inr tx), db3)"
      "tx_status tx = SETTLED" "race_state (paying (Suc i)) (paid_to (Suc i)) (Suc i) db3" by auto
    with i show "\<exists>th' db'. (advance E (?js ! i) ^^ 3) (replicate 10 (Find_sender 1) ! i, db2) = (th', db') \<and>
        settled_call th' \<and> race_state (paying (Suc i)) (paid_to (Suc i)) (Suc i) db'"
      by (intro exI [of _ "Finished (Inr tx)"] exI [of _ db3]) (simp del: funpow.simps)
  qed (use first in simp_all)
  then show ?thesis using race_zip unfolding one_after_the_other_def by fastforce
qed

lemma race_at_once:
  assumes "healthy E" "cur db = seeded_tables" "saved db = None"
  shows "\<exists>ts db'. run_turns E all_read_first (started_calls (phase3_jobs clock), db) = (ts, db') \<and>
    race_outcome ts (paying 1) (paid_to 1) db'"
proof -
  let ?js = "phase3_jobs clock" and ?w = "Commit_both 1 (paying 1) (paid_to 1)"
  have range: "in_i64 (balance alice0)" "100 \<le> balance alice0" "in_i64 (balance bob0 + 100)"
    by (simp_all add: alice0_def bob0_def in_i64_def i64_min_def i64_max_def)
  have rows: "alice0\<lparr>balance := balance alice0 - 100\<rparr> = paying 1" "bob0\<lparr>balance := balance bob0 + 100\<rparr> = paid_to 1"
    by (simp_all add: paying_def paid_to_def alice0_def bob0_def)
  let ?reads = "[] @ concat (map (replicate 2) [0..<length ?js])"
  have start: "run_turns E [] (started_calls ?js, db) = (zip ?js (replicate 10 (Find_sender 1)), db)"
    by (simp add: zip_started)
  have "\<exists>ths db'. run_turns E ?reads (started_calls ?js, db) = (zip ?js ths, db') \<and> length ths = length ?js \<and>
      race_state alice0 bob0 0 db' \<and> (\<forall>i < length ?js. ths ! i = ?w)"
  proof (rule sweep [OF start, where I = "\<lambda>k. race_state alice0 bob0 0" and R = "\<lambda>i th. th = ?w"])
    fix i db2 assume i: "i < length ?js" and s: "race_state alice0 bob0 0 db2"
    from race_reads [OF assms(1) s range, unfolded rows] obtain db3 where
      "(advance E (phase3_job clock i) ^^ 2) (Find_sender 1, db2) = (?w, db3)" "race_state alice0 bob0 0 db3" by blast
    with i show "\<exists>th' db'. (advance E (?js ! i) ^^ 2) (replicate 10 (Find_sender 1) ! i, db2) = (th', db') \<and>
        th' = ?w \<and> race_state alice0 bob0 0 db'"
      by (intro exI [of _ ?w] exI [of _ db3]) (simp del: funpow.simps)
  qed (use race_start [OF assms(2,3)] in simp_all)
  then obtain ths db1 where 1: "run_turns E ?reads (started_calls ?js, db) = (zip ?js ths, db1)" "length ths = length ?js"
    "race_state alice0 bob0 0 db1" "\<forall>i < length ?js. ths ! i = ?w" by blast
  have "\<exists>ths' db'. run_turns E (?reads @ concat (map (replicate 1) [0..<length ?js])) (started_calls ?js, db) = (zip ?js ths', db') \<and>
      length ths' = length ?js \<and>
      race_state (if length ?js = 0 then alice0 else paying 1) (if length ?js = 0 then bob0 else paid_to 1) (length ?js) db' \<and>
      (\<forall>i < length ?js. settled_call (ths' ! i))"
  proof (rule sweep [OF 1(1,2), where I = "\<lambda>k. race_state (if k = 0 then alice0 else paying 1) (if k = 0 then bob0 else paid_to 1) k"
        and R = "\<lambda>i. settled_call"])
    fix i db2 assume i: "i < length ?js"
      and s: "race_state (if i = 0 then alice0 else paying 1) (if i = 0 then bob0 else paid_to 1) i db2"
    from race_commit [OF assms(1) s, of "paying 1" "paid_to 1" clock 1] i obtain tx db3 where
      "advance E (phase3_job clock i) (?w, db2) = (Finished (Inr tx), db3)" "tx_status tx = SETTLED"
      "race_state (paying 1) (paid_to 1) (Suc i) db3"
      by (auto simp: paying_def paid_to_def alice0_def bob0_def simp del: advance.simps)
    with 1(4) i show "\<exists>th' db'. (advance E (?js ! i) ^^ 1) (ths ! i, db2) = (th', db') \<and> settled_call th' \<and>
        race_state (if Suc i = 0 then alice0 else paying 1) (if Suc i = 0 then bob0 else paid_to 1) (Suc i) db'"
      by (intro exI [of _ "Finished (Inr tx)"] exI [of _ db3]) (simp del: advance.simps)
  qed (use 1(3) in simp)
  then show ?thesis using race_zip unfolding all_read_first_def by fastforce
qed

section \<open>Properties\<close>

text \<open>C36. Ten payments of one rupee, each from a thread of its own, while no SQLite call fails: the
  program's verdict depends on the schedule. When the calls run one after the other, ten rupees
  move and the program prints \<open>[PASS]\<close>. When each of them has read the two rows before the first
  commits, all ten return a SETTLED transaction as well and have their ten hashes in the ledger,
  but one rupee leaves Alice's account and one reaches Bob's, and the program prints \<open>[FAIL]\<close>.\<close>

theorem settlement_race_verdicts:
  assumes "healthy E" "cur db = seeded_tables" "saved db = None"
  shows "(\<exists>ts db'. settlement_race E clock one_after_the_other db ts Pass db' \<and>
      map fst ts = phase3_jobs clock \<and> (\<forall>t \<in> set ts. settled_call (snd t)) \<and>
      map_option balance (sql_select_account ''alice@demo'' (cur db')) = Some 499000 \<and>
      map_option balance (sql_select_account ''bob@demo'' (cur db')) = Some 101000) \<and>
    (\<exists>ts db'. settlement_race E clock all_read_first db ts Fail db' \<and>
      map fst ts = phase3_jobs clock \<and> (\<forall>t \<in> set ts. settled_call (snd t)) \<and>
      ledger_hashes (cur db') = (\<lambda>i. ''hash_multi_txn_'' @ dec i) ` {..<10} \<and>
      map_option balance (sql_select_account ''alice@demo'' (cur db')) = Some 499900 \<and>
      map_option balance (sql_select_account ''bob@demo'' (cur db')) = Some 100100)"
proof -
  have jobs: "map fst ts = phase3_jobs clock" if "settlement_race E clock turns db ts v db'" for turns ts v db'
    using that by (cases rule: settlement_race.cases) (metis run_turns_jobs)
  obtain ts1 d1 where d1: "settlement_race E clock one_after_the_other db ts1 (verdict (500000 - balance (paying 10) = 1000)) d1"
    "race_outcome ts1 (paying 10) (paid_to 10) d1"
    using race_ends [OF assms(1,2) race_in_turn [OF assms(1)]] assms(3) by fastforce
  obtain ts2 d2 where d2: "settlement_race E clock all_read_first db ts2 (verdict (500000 - balance (paying 1) = 1000)) d2"
    "race_outcome ts2 (paying 1) (paid_to 1) d2"
    using race_ends [OF assms(1,2) race_at_once [OF assms(1)]] assms(3) by fastforce
  have v: "settlement_race E clock one_after_the_other db ts1 Pass d1" "settlement_race E clock all_read_first db ts2 Fail d2"
    using d1(1) d2(1) by (simp_all add: verdict_def paying_def)
  have hashes: "ledger_hashes (cur d2) = (\<lambda>i. ''hash_multi_txn_'' @ dec i) ` {..<10}"
    using d2(2) by (simp add: race_outcome_def race_state_def race_hash_def [abs_def])
  show ?thesis
    by (intro conjI exI [of _ ts1] exI [of _ ts2] exI [of _ d1] exI [of _ d2] v jobs [OF v(1)] jobs [OF v(2)] hashes)
      (use d1(2) d2(2) in \<open>simp_all add: race_outcome_def race_state_def paying_def paid_to_def alice0_def bob0_def\<close>)
qed

theorem settlement_race_verdicts_witness:
  "(\<exists>ts db'. settlement_race (\<lambda>n. None) (\<lambda>k. 7) one_after_the_other demo_db ts Pass db') \<and>
   (\<exists>ts db'. settlement_race (\<lambda>n. None) (\<lambda>k. 7) all_read_first demo_db ts Fail db')"
  using settlement_race_verdicts [of "\<lambda>n. None" demo_db "\<lambda>k. 7"] by auto

text \<open>A hundred claims of one hash, admitted in any order at any times: one succeeds.\<close>

theorem idempotency_race_passes:
  assumes "length ts = 100"
  shows "idempotency_race ts = Pass"
proof -
  let ?h = "''hash_race_condition_test_123456''"
  obtain t rest where ts: "ts = t # rest" "length rest = 99" using assms by (cases ts) auto
  have held: "claim_all claim (map (\<lambda>now. (now, h)) rs) [(h, x)] = (replicate (length rs) False, [(h, x)])" for h x rs
    by (induction rs) (simp_all add: claim_def)
  have "claim_all claim (map (\<lambda>now. (now, ?h)) ts) [] = (True # replicate 99 False, [(?h, t)])"
    using held [of ?h rest t] ts by (simp add: claim_def del: replicate.simps)
  then show ?thesis
    by (simp add: idempotency_race_def verdict_def filter_replicate del: replicate.simps)
qed

theorem idempotency_race_passes_witness: "idempotency_race (replicate 100 7) = Pass"
  by (rule idempotency_race_passes) simp

text \<open>On a database that was just created, the second program prints \<open>[FAIL]\<close> for the optimistic
  locking it checks, \<open>[PASS]\<close> for everything else, and still exits with 0: the stale copy of
  Bob's row overwrites the first update.\<close>

theorem verify_phase2_report:
  assumes "healthy E" "cur db = seeded_tables"
  shows "fst (verify_phase2 E db) = ([Pass, Fail, Pass, Pass], Exit 0) \<and>
    map_option balance (sql_select_account ''bob@demo'' (cur (snd (verify_phase2 E db)))) = Some 70000"
  using assms
  by (simp add: verify_phase2_def findById_def c_str_def stale_check_def account_save_def bind_account_def
      sub_i64_def chk_i64_def in_i64_def i64_min_def i64_max_def transaction_save_def phase2_tx_def
      bind_transaction_def unique_check_def existsByPacketHash_def Let_def verdict_def
      sql_insert_transaction_def sql_upsert_account_def sql_exists_hash_def sql_select_account_def seeded_tables_def seed_rows_def)

theorem verify_phase2_report_witness: "fst (verify_phase2 (\<lambda>n. None) demo_db) = ([Pass, Fail, Pass, Pass], Exit 0)"
  using verify_phase2_report [of "\<lambda>n. None" demo_db] by simp

section \<open>What the packet crafted on the command line pays\<close>

lemma ascii_utf8: "\<forall>c \<in> set s. of_char c \<le> (0x7F :: nat) \<Longrightarrow> utf8_ok s"
  by (induction s) simp_all

lemma to_string_ascii: "c \<in> set (to_string_int n) \<Longrightarrow> of_char c \<le> (0x7F :: nat)"
proof -
  have "c \<in> set (dec m) \<Longrightarrow> of_char c \<le> (0x7F :: nat)" for m
    using dec_digits [of m] by (auto simp: list_all_iff is_digit_def)
  then show "c \<in> set (to_string_int n) \<Longrightarrow> of_char c \<le> (0x7F :: nat)"
    by (auto simp: to_string_int_def split: if_splits)
qed

definition crafted_nonce :: "int \<Rightarrow> string" where
  "crafted_nonce t = ''direct-test-uuid-'' @ to_string_int t"

lemma crafted_value: "crafted_json t = Inr (JObject
    [(''amount'', JInt 250), (''nonce'', JString (crafted_nonce t)), (''pinHash'', JString crafted_pin),
     (''receiverVpa'', JString ''bob@demo''), (''senderVpa'', JString ''alice@demo''), (''signedAt'', JInt t),
     (''ttl'', JInt 5)])"
  by (simp add: crafted_json_def put_def Let_def crafted_nonce_def)

definition crafted_payment :: "int \<Rightarrow> payment" where
  "crafted_payment t = \<lparr>pi_senderVpa = ''alice@demo'', pi_receiverVpa = ''bob@demo'', pi_amount = 25000,
     pi_pinHash = crafted_pin, pi_nonce = crafted_nonce t, pi_signedAt = t\<rparr>"

lemma crafted_utf8: "utf8_ok (crafted_nonce t)" "utf8_ok crafted_pin"
  using to_string_ascii [of _ t] by (auto intro!: ascii_utf8 simp: crafted_nonce_def crafted_pin_def)

lemma crafted_parses:
  assumes "crafted_json t = Inr j" "in_i64 t" "json_dump j = Inr text"
  shows "res_bind (json_parse text) payment_from_json = Inr (crafted_payment t)"
proof -
  have "readable j"
    using assms(1,2) crafted_utf8 by (auto simp: crafted_value obj_ok_def in_i64_def i64_min_def i64_max_def)
  from json_parse_dump [OF this assms(3)] assms(1,2) paise_of_whole_rupees [of 250]
  show ?thesis
    by (auto simp: crafted_value payment_from_json_def crafted_payment_def to_json_simps wrap_id)
qed

lemma stol_range: "stol text = Inr t \<Longrightarrow> in_i64 t"
  by (auto simp: stol_def Let_def split: if_splits)

text \<open>C35. With a library that behaves as documented, whatever \<open>craft_packet\<close> prints for the server's key
  when it exits with 0 is a packet the server opens as a payment of
  250 rupees, 25000 paise, from Alice to Bob, signed at the time given on the command line.\<close>

theorem craft_packet_pays:
  assumes "openssl_ok ssl key" "\<forall>k. draw 0 = Some k \<longrightarrow> length k = AES_KEY_BYTES"
    and "\<forall>iv. draw 1 = Some iv \<longrightarrow> length iv = GCM_IV_BYTES"
    and "b64_decode ssl pkB64 = Some der" "d2i_PUBKEY der = Some key"
    and "craft_packet ssl d2i_PUBKEY draw seed [pkB64, signedText] = (out, Exit 0)"
  shows "\<exists>ctx t. out = [ctx] \<and> stol signedText = Inr t \<and>
    res_bind (decrypt ssl key ctx) payment_from_json = Inr (crafted_payment t)"
proof -
  obtain t j where t: "stol signedText = Inr t" "crafted_json t = Inr j"
    using assms(4-6) by (cases "stol signedText") (auto simp: craft_packet_def base64DecodeTest_def crafted_value)
  obtain ctx where ctx: "encrypt ssl key draw seed j = Inr ctx" "out = [ctx]"
    using assms(4-6) t by (auto simp: craft_packet_def base64DecodeTest_def say_def split: sum.splits if_splits)
  obtain plain where "json_dump j = Inr plain" "decrypt ssl key ctx = json_parse plain"
    using decrypt_encrypt [OF assms(1) _ _ ctx(1)] assms(2,3) by (auto simp: AES_KEY_BYTES_def GCM_IV_BYTES_def)
  with crafted_parses [OF t(2) stol_range [OF t(1)]] ctx t show ?thesis by auto
qed

lemma demo_ssl_b64: "b64_decode demo_ssl = Some" by (simp add: demo_ssl_def)

theorem craft_packet_pays_witness:
  "\<exists>ctx. craft_packet demo_ssl Some demo_draw 0 [''key'', ''1700000000000''] = ([ctx], Exit 0) \<and>
     res_bind (decrypt demo_ssl ''key'' ctx) payment_from_json = Inr (crafted_payment 1700000000000)"
proof -
  have t: "stol ''1700000000000'' = Inr 1700000000000"
    by (simp add: stol_def c_str_def is_space_def is_dec_def dec_val_def in_i64_def i64_min_def i64_max_def)
  obtain j where j: "crafted_json 1700000000000 = Inr j" using crafted_value by blast
  have "readable j"
    using j crafted_utf8 by (auto simp: crafted_value obj_ok_def in_i64_def i64_min_def i64_max_def)
  then obtain plain where "json_dump j = Inr plain" using dump_readable(1) by (auto simp: json_dump_def)
  then obtain ctx where "encrypt demo_ssl ''key'' demo_draw 0 j = Inr ctx"
    by (simp add: encrypt_def aes_seal_def rsa_seal_def demo_ssl_def demo_draw_def)
  then have run: "craft_packet demo_ssl Some demo_draw 0 [''key'', ''1700000000000''] = ([ctx], Exit 0)"
    using t j by (simp add: craft_packet_def base64DecodeTest_def say_def demo_ssl_b64)
  have "\<exists>c t. [ctx] = [c] \<and> stol ''1700000000000'' = Inr t \<and>
      res_bind (decrypt demo_ssl ''key'' c) payment_from_json = Inr (crafted_payment t)"
    by (rule craft_packet_pays [OF demo_ssl_ok _ _ _ _ run])
      (simp_all add: demo_draw_def AES_KEY_BYTES_def GCM_IV_BYTES_def demo_ssl_b64)
  with run t show ?thesis by auto
qed

section \<open>Amounts as text\<close>

lemma amount_line:
  assumes "\<bar>paise\<bar> < 2 ^ 51"
  shows "\<exists>line. (\<forall>rest. testAmount paise rest = say line rest) \<and>
    res_bind (json_parse line) payment_from_json = Inr (amount_payment paise)"
proof -
  have p: "\<bar>pi_amount (amount_payment paise)\<bar> < 2 ^ 51" "in_i64 (pi_signedAt (amount_payment paise))"
    using assms by (simp_all add: amount_payment_def in_i64_def i64_min_def i64_max_def)
  obtain line where line: "json_dump (payment_to_json (amount_payment paise)) = Inr line"
    by (rule payment_prints [OF p]) (simp add: amount_payment_def)
  with printed_payment_parses [OF p line] show ?thesis
    by (intro exI [of _ line]) (simp add: testAmount_def)
qed

text \<open>The four lines \<open>test_amounts\<close> prints are JSON texts that the server reads back as the payments
  with exactly these amounts in paise.\<close>

theorem test_amounts_exact:
  "\<exists>lines. test_amounts = (lines, Exit 0) \<and>
     map (\<lambda>line. res_bind (json_parse line) payment_from_json) lines =
       map (\<lambda>paise. Inr (amount_payment paise)) [500000, 123456, 50, 999999999]"
proof -
  have small: "\<bar>500000 :: int\<bar> < 2 ^ 51" "\<bar>123456 :: int\<bar> < 2 ^ 51" "\<bar>50 :: int\<bar> < 2 ^ 51" "\<bar>999999999 :: int\<bar> < 2 ^ 51"
    by simp_all
  show ?thesis
    using amount_line [OF small(1)] amount_line [OF small(2)] amount_line [OF small(3)] amount_line [OF small(4)]
    by (auto simp: test_amounts_def say_def)
qed

section \<open>The first program\<close>

lemma phase1_value: "phase1_instruction = JObject
    [(''amount'', JInt 50000), (''nonce'', JString ''unique-nonce-123''), (''pinHash'', JString ''abcdef123456''),
     (''receiverVpa'', JString ''bob@upi''), (''senderVpa'', JString ''alice@upi''), (''signedAt'', JInt 1690000000)]"
  by (simp add: phase1_instruction_def to_json_simps)

lemma phase1_readable: "readable phase1_instruction"
  by (simp add: phase1_value obj_ok_def in_i64_def i64_min_def i64_max_def)

lemma phase1_long: "json_dump phase1_instruction = Inr t \<Longrightarrow> 2 < length t"
  by (auto simp: phase1_value json_dump_def res_bind_Inr dump_escaped_Inr)

lemma phase1_eq: "json_eq (canon phase1_instruction) phase1_instruction"
  by (simp add: phase1_value wrap_id in_i64_def i64_min_def i64_max_def)

text \<open>Flipping a bit of a byte changes it.\<close>

lemma flip_differs: "char_of (Bit_Operations.xor (of_char c) (1 :: nat)) \<noteq> c"
proof
  assume "char_of (Bit_Operations.xor (of_char c) (1 :: nat)) = c"
  then have "(of_char (char_of (Bit_Operations.xor (of_char c) (1 :: nat))) :: nat) = of_char c" by simp
  then have "even (Bit_Operations.xor (of_char c) (1 :: nat) mod 256) \<longleftrightarrow> even (of_char c :: nat)" by simp
  then show False by (simp add: even_xor_iff dvd_mod_iff)
qed

text \<open>
  A working OpenSSL, a key whose public part is encoded as an ASN.1 sequence, and a cipher that
  keeps the length and whose tag does not verify for any other ciphertext than the one it was
  made for.
\<close>

definition phase1_world :: "openssl \<Rightarrow> string \<Rightarrow> string \<Rightarrow> string \<Rightarrow> string \<Rightarrow> bool" where
  "phase1_world ssl key k iv msg \<longleftrightarrow>
     openssl_ok ssl key \<and> (\<forall>call. evp_ok ssl call) \<and> rsa_keygen ssl 2048 = Some key \<and>
     (\<exists>der. pubkey_der ssl key = Some (CHR 0x30 # der)) \<and> (\<forall>s. sha256 ssl s \<noteq> None) \<and>
     length k = 32 \<and> length iv = 12 \<and>
     (\<forall>c f tag. aes_encrypt ssl k iv msg = Some c \<longrightarrow> aes_encrypt_final ssl k iv msg = Some f \<longrightarrow>
        aes_get_tag ssl k iv msg = Some tag \<longrightarrow> length (c @ f) = length msg \<and>
        (\<forall>c'. c' \<noteq> c @ f \<longrightarrow> aes_decrypt_final ssl k iv c' tag = None))"

theorem verify_phase1_passes:
  assumes "draw 0 = Some k" "draw 1 = Some iv" "json_dump phase1_instruction = Inr msg"
    and "phase1_world ssl key k iv msg" "encrypt ssl key draw seed phase1_instruction = Inr s"
  shows "verify_phase1 ssl draw seed = ([Pass, Pass, Pass, Pass, Pass, Pass, Pass, Pass], Exit 0)"
proof -
  note W = assms(4) [unfolded phase1_world_def]
  obtain body f tag c where p: "aes_encrypt ssl k iv msg = Some body" "aes_encrypt_final ssl k iv msg = Some f"
    "aes_get_tag ssl k iv msg = Some tag" "rsa_encrypt ssl key seed k = Some c"
    "s = b64_encode ssl (c @ iv @ (body @ f) @ tag)"
    using encrypt_parts [OF assms(5)] assms(1-3) by (metis option.inject sum.inject(2))
  have ok: "openssl_ok ssl key" using W by simp
  have b64: "b64_decode ssl (b64_encode ssl bytes) = Some bytes" for bytes
    using ok by (simp add: openssl_ok_def)
  have c: "length c = 256" "rsa_decrypt_size ssl key c \<noteq> None" "rsa_decrypt ssl key c = Some k"
    using ok p(4) unfolding openssl_ok_def by blast+
  have len: "length k = 32" "length iv = 12" using W by simp_all
  have tag: "length tag = 16"
    using ok p(1-3) len unfolding openssl_ok_def by blast
  have cipher: "length (body @ f) = length msg" "\<And>c'. c' \<noteq> body @ f \<Longrightarrow> aes_decrypt_final ssl k iv c' tag = None"
    using W p(1-3) by blast+
  define raw where "raw = c @ iv @ (body @ f) @ tag"
  have raw: "b64_decode ssl s = Some raw" "length raw = 256 + 12 + length msg + 16"
    using p(5) b64 c(1) len tag cipher(1) by (simp_all add: raw_def)
  define bad where "bad = (body @ f)[2 := char_of (Bit_Operations.xor (of_char ((body @ f) ! 2)) (1 :: nat))]"
  have long: "2 < length (body @ f)" using phase1_long [OF assms(3)] cipher(1) by simp
  then have bad: "bad \<noteq> body @ f"
    using flip_differs [of "(body @ f) ! 2"] by (metis bad_def nth_list_update_eq)
  have flip: "flip_byte 270 raw = Inr (c @ iv @ bad @ tag)"
  proof -
    have n: "raw ! 270 = (body @ f) ! 2" "270 < length raw"
      using c(1) len long raw(2) cipher(1) by (simp_all add: raw_def nth_append del: append_assoc)
    have "raw[270 := x] = c @ iv @ (body @ f)[2 := x] @ tag" for x
      using c(1) len long by (simp add: raw_def list_update_append del: append_assoc)
    with n show ?thesis by (simp add: flip_byte_def bad_def)
  qed
  have opened: "decrypt ssl key s = Inr (canon phase1_instruction)"
    using decrypt_encrypt [of ssl key draw seed phase1_instruction s] W assms(1-3,5)
      json_parse_dump [OF phase1_readable assms(3)] by auto
  have "decrypt ssl key (b64_encode ssl (c @ iv @ bad @ tag)) =
      res_bind (rsa_open ssl key c) (\<lambda>aesKey. res_bind (aes_open ssl aesKey iv bad tag) json_parse)"
    by (rule decrypt_packed [OF b64 c(1) len(2) tag])
  then have tampered: "tamper_check ssl key (b64_encode ssl (c @ iv @ bad @ tag)) = Inr Pass"
    using c W bad cipher(2) len
    by (auto simp: tamper_check_def rsa_open_def aes_open_def key_bytes_def AES_KEY_BYTES_def need_some_def split: option.splits)
  obtain der hash where pub: "pubkey_der ssl key = Some (CHR 0x30 # der)"
    and hash: "sha256 ssl ''HelloWorldBase64MockString'' = Some hash" using W by (metis not_None_eq)
  have key: "ServerKeyHolder ssl = Inr key" "getPublicKeyBase64 ssl (Some key) = Inr (b64_encode ssl (CHR 0x30 # der))"
    using W pub by (simp_all add: ServerKeyHolder_def getPublicKeyBase64_def)
  show ?thesis
    using key hash assms(3,5) raw b64 opened flip tampered phase1_eq
    by (simp add: verify_phase1_def base64DecodeTest_def phase1_hash_def say_def verdict_def)
qed

text \<open>A library that behaves so on this one message.\<close>

definition phase1_msg :: string where
  "phase1_msg = (case json_dump phase1_instruction of Inl e \<Rightarrow> [] | Inr t \<Rightarrow> t)"

definition phase1_tag :: "string \<Rightarrow> string" where
  "phase1_tag m = replicate 16 (if m = phase1_msg then CHR ''a'' else CHR ''b'')"

definition phase1_ssl :: openssl where
  "phase1_ssl = demo_ssl\<lparr>aes_get_tag := (\<lambda>k iv m. Some (phase1_tag m)),
     aes_decrypt_final := (\<lambda>k iv c tag. if tag = phase1_tag c then Some [] else None),
     pubkey_der := (\<lambda>key. Some (CHR 0x30 # key))\<rparr>"

lemma phase1_ssl_ok: "openssl_ok phase1_ssl key"
  by (auto simp: openssl_ok_def phase1_ssl_def demo_ssl_def phase1_tag_def split: if_splits)

theorem verify_phase1_passes_witness: "verify_phase1 phase1_ssl demo_draw 0 = ([Pass, Pass, Pass, Pass, Pass, Pass, Pass, Pass], Exit 0)"
proof -
  obtain t where "json_dump phase1_instruction = Inr t"
    using dump_readable(1) [OF phase1_readable] by (auto simp: json_dump_def)
  then have t: "json_dump phase1_instruction = Inr phase1_msg" by (simp add: phase1_msg_def)
  then have "\<exists>s. encrypt phase1_ssl ''key'' demo_draw 0 phase1_instruction = Inr s"
    by (simp add: encrypt_def aes_seal_def rsa_seal_def phase1_ssl_def demo_ssl_def demo_draw_def)
  then obtain s where s: "encrypt phase1_ssl ''key'' demo_draw 0 phase1_instruction = Inr s" ..
  show ?thesis
    by (rule verify_phase1_passes [OF _ _ t _ s, where k = "replicate 32 (CHR ''k'')" and iv = "replicate 12 (CHR ''i'')"])
      (simp_all add: demo_draw_def phase1_world_def phase1_ssl_ok, simp_all add: phase1_ssl_def demo_ssl_def phase1_tag_def)
qed

end
