(* ===== verification/Binary.thy ===== *)
theory Binary
  imports JsonOrder JsonPointer JsonRoundTrip
begin

text \<open>
  What the binary formats of \<open>src/cpp/include/nlohmann/json.hpp\<close> share: the bytes of numbers and
  floats that \<open>binary_writer\<close> writes, and the state, the errors and the primitive reads of
  \<open>binary_reader\<close> with the DOM builder as its SAX. Bytes are characters; the machine is little
  endian, so numbers are reversed into network order.
\<close>

section \<open>Formats\<close>

datatype input_format = Json_format | Cbor | Msgpack | Ubjson | Bson | Bjdata

fun format_name :: "input_format \<Rightarrow> string" where
  "format_name Cbor = ''CBOR''"
| "format_name Msgpack = ''MessagePack''"
| "format_name Ubjson = ''UBJSON''"
| "format_name Bson = ''BSON''"
| "format_name Bjdata = ''BJData''"
| "format_name Json_format = []"

section \<open>Writing numbers\<close>

text \<open>The lowest \<open>k\<close> bytes of a number, the highest first.\<close>

fun be_bytes :: "nat \<Rightarrow> nat \<Rightarrow> string" where
  "be_bytes 0 n = []"
| "be_bytes (Suc k) n = char_of (n div 256 ^ k) # be_bytes k n"

text \<open>\<open>write_number\<close> of a number of \<open>k\<close> bytes; a negative number is its two's complement.\<close>

definition write_number :: "bool \<Rightarrow> nat \<Rightarrow> int \<Rightarrow> string" where
  "write_number little k n = (if little then rev else id) (be_bytes k (nat (n mod 2 ^ (8 * k))))"

section \<open>\<open>float\<close> and \<open>double\<close>\<close>

text \<open>
  \<open>static_cast<float>\<close> of a \<open>double\<close> no larger than the largest \<open>float\<close>, rounding to nearest even,
  and \<open>static_cast<double>\<close> of a \<open>float\<close>, on the bit patterns without their signs. A \<open>NaN\<close> becomes a
  quiet one with the leading bits of its payload.
\<close>

definition narrow_mag :: "nat \<Rightarrow> nat" where
  "narrow_mag m =
     (if 897 * 2 ^ 52 \<le> m then rne (m - 896 * 2 ^ 52) (2 ^ 29) else rne (scaled m) (2 ^ 925))"

definition widen_mag :: "nat \<Rightarrow> nat" where
  "widen_mag m =
     (if 255 * 2 ^ 23 < m then inf_mag + 2 ^ 51 + (m mod 2 ^ 22) * 2 ^ 29
      else if m = 255 * 2 ^ 23 then inf_mag
      else if 2 ^ 23 \<le> m then m * 2 ^ 29 + 896 * 2 ^ 52
      else round_mag m (2 ^ 149))"

definition to_float :: "double \<Rightarrow> 32 word" where
  "to_float x = word_of_nat ((if sign_of x then 2 ^ 31 else 0) + narrow_mag (mag_of x))"

definition of_float :: "32 word \<Rightarrow> double" where
  "of_float w = mk_double (2 ^ 31 \<le> unat w) (widen_mag (unat w mod 2 ^ 31))"

text \<open>\<open>std::numeric_limits<float>::max()\<close> as a \<open>double\<close>.\<close>

definition float_max_mag :: nat where "float_max_mag = 0x47EFFFFFE0000000"

fun float_prefix :: "input_format \<Rightarrow> nat" where
  "float_prefix Cbor = 0xFA"
| "float_prefix _ = 0xCA"

fun double_prefix :: "input_format \<Rightarrow> nat" where
  "double_prefix Cbor = 0xFB"
| "double_prefix _ = 0xCB"

definition write_compact_float :: "input_format \<Rightarrow> double \<Rightarrow> string" where
  "write_compact_float format n =
     (if mag_of n \<le> float_max_mag \<and> double_eq (of_float (to_float n)) n
      then char_of (float_prefix format) # write_number False 4 (uint (to_float n))
      else char_of (double_prefix format) # write_number False 8 (uint n))"

section \<open>The reader\<close>

text \<open>
  \<open>last_byte\<close> is \<open>current\<close>, \<open>None\<close> for the end of the input; \<open>built\<close> is the state of the DOM builder
  behind \<open>sax\<close>.
\<close>

record binary_reader =
  bytes_left :: string
  last_byte :: "nat option"
  bytes_read :: nat
  built :: dom

definition get_byte :: "binary_reader \<Rightarrow> binary_reader" where
  "get_byte r =
     (case bytes_left r of
        [] \<Rightarrow> r\<lparr>last_byte := None, bytes_read := bytes_read r + 1\<rparr>
      | c # cs \<Rightarrow> r\<lparr>bytes_left := cs, last_byte := Some (of_char c), bytes_read := bytes_read r + 1\<rparr>)"

definition hex_upper :: "nat \<Rightarrow> char" where
  "hex_upper d = ''0123456789ABCDEF'' ! d"

text \<open>\<open>"%.2hhX"\<close> of the last byte; the end of the input is -1 and prints as FF.\<close>

definition binary_token_string :: "binary_reader \<Rightarrow> string" where
  "binary_token_string r =
     (case last_byte r of None \<Rightarrow> ''FF'' | Some b \<Rightarrow> [hex_upper (b div 16 mod 16), hex_upper (b mod 16)])"

definition binary_exception_message :: "input_format \<Rightarrow> string \<Rightarrow> string \<Rightarrow> string" where
  "binary_exception_message format detail place =
     ''syntax error while parsing '' @ format_name format @ '' '' @ place @ '': '' @ detail"

text \<open>
  \<open>sax->parse_error\<close> throws the error it is given, or, when exceptions are not allowed, returns
  false, which ends the parse; either way nothing more is read.
\<close>

definition byte_error :: "nat \<Rightarrow> binary_reader \<Rightarrow> string \<Rightarrow> exn" where
  "byte_error n r msg = pointer_error n (dec n) ('' at byte '' @ dec (bytes_read r)) msg"

definition unexpect_eof :: "input_format \<Rightarrow> string \<Rightarrow> binary_reader \<Rightarrow> binary_reader res" where
  "unexpect_eof format place r =
     (if last_byte r = None
      then Inl (byte_error 110 r (binary_exception_message format ''unexpected end of input'' place))
      else Inr r)"

definition invalid_byte :: "input_format \<Rightarrow> binary_reader \<Rightarrow> exn" where
  "invalid_byte format r =
     byte_error 112 r (binary_exception_message format (''invalid byte: 0x'' @ binary_token_string r) ''value'')"

text \<open>The loops of \<open>get_number\<close>, \<open>get_string\<close> and \<open>get_binary\<close>.\<close>

fun get_bytes :: "input_format \<Rightarrow> string \<Rightarrow> nat \<Rightarrow> binary_reader \<Rightarrow> (string \<times> binary_reader) res" where
  "get_bytes format place 0 r = Inr ([], r)"
| "get_bytes format place (Suc n) r =
     res_bind (unexpect_eof format place (get_byte r)) (\<lambda>r1.
     res_bind (get_bytes format place n r1) (\<lambda>(bs, r2).
       Inr (char_of (the (last_byte r1)) # bs, r2)))"

definition bytes_value :: "string \<Rightarrow> nat" where
  "bytes_value bs = foldl (\<lambda>v c. v * 256 + of_char c) 0 bs"

definition get_number :: "input_format \<Rightarrow> bool \<Rightarrow> nat \<Rightarrow> binary_reader \<Rightarrow> (nat \<times> binary_reader) res" where
  "get_number format little k r =
     res_bind (get_bytes format ''number'' k r) (\<lambda>(bs, r1).
       Inr (bytes_value (if little \<or> format = Bjdata then rev bs else bs), r1))"

text \<open>The events of the SAX. The sizes a container may announce are those of libstdc++ for 64 bits.\<close>

definition emit :: "json \<Rightarrow> binary_reader \<Rightarrow> binary_reader res" where
  "emit v r = Inr (r\<lparr>built := handle_value v (built r)\<rparr>)"

definition no_length :: nat where "no_length = 2 ^ 64 - 1"
definition array_max_size :: nat where "array_max_size = (2 ^ 63 - 1) div 16"
definition object_max_size :: nat where "object_max_size = (2 ^ 63 - 1) div 80"

definition sax_start_array :: "nat \<Rightarrow> binary_reader \<Rightarrow> binary_reader res" where
  "sax_start_array len r =
     (if len \<noteq> no_length \<and> array_max_size < len
      then Inl (out_of_range 408 ''408'' (''excessive array size: '' @ dec len))
      else Inr (r\<lparr>built := start_array (built r)\<rparr>))"

definition sax_start_object :: "nat \<Rightarrow> binary_reader \<Rightarrow> binary_reader res" where
  "sax_start_object len r =
     (if len \<noteq> no_length \<and> object_max_size < len
      then Inl (out_of_range 408 ''408'' (''excessive object size: '' @ dec len))
      else Inr (r\<lparr>built := start_object (built r)\<rparr>))"

definition sax_key :: "string \<Rightarrow> binary_reader \<Rightarrow> binary_reader" where
  "sax_key k r = r\<lparr>built := dom_key k (built r)\<rparr>"

definition sax_end :: "binary_reader \<Rightarrow> binary_reader" where
  "sax_end r = r\<lparr>built := end_container (built r)\<rparr>"

definition new_reader :: "string \<Rightarrow> binary_reader" where
  "new_reader bytes = \<lparr>bytes_left = bytes, last_byte = None, bytes_read = 0,
     built = \<lparr>dom.root = JNull, ref_stack = []\<rparr>\<rparr>"

text \<open>
  What the switch over a control byte leads to: a value that is complete, a container of the
  given length, or another round of the switch.
\<close>

datatype action =
    Complete "binary_reader res"
  | Array_of "(nat \<times> binary_reader) res"
  | Object_of "(nat \<times> binary_reader) res"
  | Again "binary_reader res"

text \<open>The end of \<open>sax_parse\<close>: in strict mode nothing may follow the value.\<close>

definition expect_end :: "input_format \<Rightarrow> bool \<Rightarrow> binary_reader \<Rightarrow> json res" where
  "expect_end format strict r =
     (if strict then
        let r1 = get_byte r in
        if last_byte r1 = None then Inr (dom.root (built r1))
        else Inl (byte_error 110 r1 (binary_exception_message format
               (''expected end of input; last byte: 0x'' @ binary_token_string r1) ''value''))
      else Inr (dom.root (built r)))"

text \<open>\<open>from_cbor\<close> and its likes: without exceptions a parse error gives a discarded value; the
  exception for an excessive size is thrown in any case.\<close>

definition parsed :: "bool \<Rightarrow> json res \<Rightarrow> json res" where
  "parsed allow_exceptions result =
     (case result of
        Inl e \<Rightarrow> if allow_exceptions \<or> is_out_of_range e then Inl e else Inr JDiscarded
      | Inr v \<Rightarrow> Inr v)"

text \<open>The fuel of the recursive readers is never used up; this value marks where it would be.\<close>

definition out_of_fuel :: exn where "out_of_fuel = Logic_error ''out of fuel''"

section \<open>Bytes read back\<close>

text \<open>A reader stands before some bytes with a value under construction.\<close>

definition before :: "binary_reader \<Rightarrow> string \<Rightarrow> dom \<Rightarrow> bool" where
  "before r bytes d \<longleftrightarrow> bytes_left r = bytes \<and> built r = d"

lemma get_byte_simps [simp]:
  "bytes_left (get_byte r) = tl (bytes_left r)" "built (get_byte r) = built r"
  "last_byte (get_byte r) = (case bytes_left r of [] \<Rightarrow> None | c # cs \<Rightarrow> Some (of_char c))"
  by (simp_all add: get_byte_def split: list.splits)

lemma get_bytes_left:
  "before r (bs @ rest) d \<Longrightarrow>
   \<exists>r'. get_bytes format place (length bs) r = Inr (bs, r') \<and> before r' rest d"
proof (induction bs arbitrary: r)
  case Nil
  then show ?case by simp
next
  case (Cons c bs)
  then have left: "bytes_left r = c # bs @ rest" and d: "built r = d" by (simp_all add: before_def)
  then have "before (get_byte r) (bs @ rest) d" by (simp add: before_def)
  from Cons.IH [OF this] obtain r' where
    "get_bytes format place (length bs) (get_byte r) = Inr (bs, r')" "before r' rest d" by blast
  with left show ?case by (simp add: unexpect_eof_def)
qed

lemma get_bytes_before:
  assumes "before r (bs @ rest) d" "length bs = n"
  obtains r' where "get_bytes format place n r = Inr (bs, r')" "before r' rest d"
  using get_bytes_left [OF assms(1)] assms(2) by blast

lemma length_be_bytes [simp]: "length (be_bytes k n) = k"
  by (induction k) simp_all

lemma bytes_value_be: "foldl (\<lambda>v c. v * 256 + of_char c) a (be_bytes k n) = a * 256 ^ k + n mod 256 ^ k"
proof (induction k arbitrary: a)
  case 0
  then show ?case by simp
next
  case (Suc k)
  have "n mod 256 ^ Suc k = (n div 256 ^ k mod 256) * 256 ^ k + n mod 256 ^ k"
    using mod_mult2_eq [of n "256 ^ k" 256] by (simp add: mult.commute)
  with Suc [of "a * 256 + n div 256 ^ k mod 256"] show ?case by (simp add: algebra_simps)
qed

lemma length_write_number [simp]: "length (write_number little k n) = k"
  by (simp add: write_number_def)

lemma value_write_number: "bytes_value (write_number False k n) = nat (n mod 2 ^ (8 * k))"
proof -
  have p: "(256 :: nat) ^ k = 2 ^ (8 * k)" by (simp add: power_mult)
  have "nat (n mod 2 ^ (8 * k)) < 2 ^ (8 * k)" by (simp add: nat_less_iff)
  then show ?thesis by (simp add: write_number_def bytes_value_def bytes_value_be p)
qed

lemma number_reads:
  assumes "before r (write_number False k n @ rest) d" "format \<noteq> Bjdata"
  obtains r' where "get_number format False k r = Inr (nat (n mod 2 ^ (8 * k)), r')" "before r' rest d"
proof -
  obtain r' where "get_bytes format ''number'' k r = Inr (write_number False k n, r')" "before r' rest d"
    by (rule get_bytes_before [OF assms(1)]) simp
  with assms(2) that show thesis by (simp add: get_number_def value_write_number)
qed

lemma small_number: "0 \<le> n \<Longrightarrow> n < 2 ^ (8 * k) \<Longrightarrow> nat (n mod 2 ^ (8 * k)) = nat n"
  by simp

section \<open>Floats read back\<close>

lemma narrow_zero: "narrow_mag 0 = 0"
  by (simp add: narrow_mag_def scaled_def rne_def)

lemma round_mag_zero: "round_mag 0 d = 0"
  by (cases "d = 0") (simp_all add: round_mag_def rne_def Let_def)

lemma widen_zero: "widen_mag 0 = 0"
  by (simp add: widen_mag_def round_mag_zero)

text \<open>A \<open>float\<close> that compares equal to the \<open>double\<close> it was cast from widens to the same bits.\<close>

lemma float_exact:
  assumes "double_eq (of_float (to_float x)) x"
  shows "of_float (to_float x) = x"
proof (cases "mag_of x = 0")
  case True
  then have x: "x = mk_double (sign_of x) 0" using mk_double_split [of x] by simp
  have "to_float x = word_of_nat (if sign_of x then 2 ^ 31 else 0)"
    using True by (simp add: to_float_def narrow_zero)
  then have "of_float (to_float x) = mk_double (sign_of x) 0"
    by (simp add: of_float_def widen_zero)
  with x show ?thesis by simp
next
  case False
  with assms have "mag_of (of_float (to_float x)) = mag_of x" "sign_of (of_float (to_float x)) = sign_of x"
    by (auto simp: double_eq_def double_rank_def split: if_splits)
  then show ?thesis
    using mk_double_split [of x] mk_double_split [of "of_float (to_float x)"] by simp
qed

lemma compact_float_cases:
  obtains "write_compact_float format x = char_of (float_prefix format) # write_number False 4 (uint (to_float x))"
    "of_float (to_float x) = x"
  | "write_compact_float format x = char_of (double_prefix format) # write_number False 8 (uint x)"
proof (cases "mag_of x \<le> float_max_mag \<and> double_eq (of_float (to_float x)) x")
  case True
  with that(1) float_exact [of x] show thesis unfolding write_compact_float_def by presburger
next
  case False
  with that(2) show thesis unfolding write_compact_float_def by presburger
qed

section \<open>Values and containers read back\<close>

lemma byte_reads:
  assumes "before r (char_of b # bs) d" "b < 256"
  shows "last_byte (get_byte r) = Some b" "before (get_byte r) bs d"
  using assms by (simp_all add: before_def)

lemma emit_before: "before r rest d \<Longrightarrow> \<exists>r'. emit v r = Inr r' \<and> before r' rest (handle_value v d)"
  by (simp add: emit_def before_def)

lemma sax_key_before: "before r rest d \<Longrightarrow> before (sax_key k r) rest (dom_key k d)"
  by (simp add: before_def sax_key_def)

lemma low_bits: "base mod m = 0 \<Longrightarrow> k < m \<Longrightarrow> (base + k) mod m = k" for base k :: nat
  using mod_add_left_eq [of base m k] by simp

lemma same_stack: "ref_stack d = s \<Longrightarrow> d\<lparr>ref_stack := s\<rparr> = d"
  by (cases d) simp

text \<open>Reading text \<open>t\<close> adds \<open>v\<close> to the value under construction.\<close>

definition reads_value :: "(nat \<Rightarrow> binary_reader \<Rightarrow> binary_reader res) \<Rightarrow> string \<Rightarrow> json \<Rightarrow> bool" where
  "reads_value value_of t v \<longleftrightarrow> (\<forall>n r rest d. 2 * length t + 2 \<le> n \<longrightarrow> before r (t @ rest) d \<longrightarrow>
     (\<exists>r'. value_of n r = Inr r' \<and> before r' rest (handle_value v d)))"

lemma reads_valueD:
  assumes "reads_value value_of t v" "2 * length t + 2 \<le> n" "before r (t @ rest) d"
  obtains r' where "value_of n r = Inr r'" "before r' rest (handle_value v d)"
  using assms unfolding reads_value_def by blast

lemma wrap_back:
  assumes "- (2 ^ (w - 1)) \<le> n" "n < 2 ^ (w - 1)" "0 < w"
  shows "wrap w (n mod 2 ^ w) = n"
proof -
  have "(2 :: int) ^ w = 2 * 2 ^ (w - 1)" using assms(3) by (cases w) simp_all
  with assms have "(n + 2 ^ (w - 1)) mod 2 ^ w = n + 2 ^ (w - 1)" by (intro mod_pos_pos_trivial) linarith+
  then show ?thesis by (simp add: wrap_def mod_add_left_eq)
qed

text \<open>A value that is its control byte, and one that is a control byte and a number of \<open>k\<close> bytes.\<close>

lemma reads_one_byte:
  assumes "b < 256" and "\<And>n r. last_byte (get_byte r) = Some b \<Longrightarrow> value_of (Suc n) r = emit v (get_byte r)"
  shows "reads_value value_of [char_of b] v"
  unfolding reads_value_def
proof (intro allI impI)
  fix n r rest d assume n: "2 * length [char_of b] + 2 \<le> n" and "before r ([char_of b] @ rest) d"
  then have "before r (char_of b # rest) d" by simp
  note h = byte_reads [OF this assms(1)]
  obtain m where "n = Suc m" using n by (cases n) auto
  with assms(2) [OF h(1)] emit_before [OF h(2)] show "\<exists>r'. value_of n r = Inr r' \<and> before r' rest (handle_value v d)"
    by metis
qed

lemma head_number:
  assumes "before r (char_of b # write_number False k i @ rest) d" "b < 256" "format \<noteq> Bjdata"
  obtains r' where "last_byte (get_byte r) = Some b"
    "get_number format False k (get_byte r) = Inr (nat (i mod 2 ^ (8 * k)), r')" "before r' rest d"
proof -
  note h = byte_reads [OF assms(1,2)]
  show thesis by (rule number_reads [OF h(2) assms(3)]) (rule that [OF h(1)])
qed

lemma reads_fixed:
  assumes "b < 256" "format \<noteq> Bjdata" and "\<And>n r. last_byte (get_byte r) = Some b \<Longrightarrow>
    value_of (Suc n) r = res_bind (get_number format False k (get_byte r)) (\<lambda>(x, r). emit (f x) r)"
    and "f (nat (i mod 2 ^ (8 * k))) = v"
  shows "reads_value value_of (char_of b # write_number False k i) v"
  unfolding reads_value_def
proof (intro allI impI)
  fix n r rest d
  assume n: "2 * length (char_of b # write_number False k i) + 2 \<le> n"
    and "before r ((char_of b # write_number False k i) @ rest) d"
  then have "before r (char_of b # write_number False k i @ rest) d" by simp
  from head_number [OF this assms(1,2)] obtain r1 where r1: "last_byte (get_byte r) = Some b"
    "get_number format False k (get_byte r) = Inr (nat (i mod 2 ^ (8 * k)), r1)" "before r1 rest d" by blast
  obtain m where "n = Suc m" using n by (cases n) auto
  with assms(3) [OF r1(1)] r1(2) emit_before [OF r1(3), of v] assms(4)
  show "\<exists>r'. value_of n r = Inr r' \<and> before r' rest (handle_value v d)" by simp
qed

lemma float_bits: "uint w mod 4294967296 = uint w" for w :: "32 word"
  using uint_bounded [of w] by (simp add: mod_pos_pos_trivial)

lemma double_bits: "uint x mod 18446744073709551616 = uint x" for x :: double
  using uint_bounded [of x] by (simp add: mod_pos_pos_trivial)

lemma bytes_of: "list_all (\<lambda>b. b < (256 :: nat)) bs \<Longrightarrow> map of_char (map char_of bs :: string) = bs"
  by (induction bs) simp_all

lemma write_number_1: "write_number little 1 (int n) = [char_of (n mod 256)]"
  by (simp add: write_number_def nat_mod_distrib)

text \<open>
  What a binary format with counted containers promises: how it reads a value, a key, and the
  loops over elements and members, what it writes in front of a container and as a key, and
  which sizes and keys it can carry.
\<close>

locale counted_format =
  fixes value_of :: "nat \<Rightarrow> binary_reader \<Rightarrow> binary_reader res"
    and key_of :: "nat \<Rightarrow> binary_reader \<Rightarrow> (string \<times> binary_reader) res"
    and elements members :: "nat \<Rightarrow> nat \<Rightarrow> binary_reader \<Rightarrow> binary_reader res"
    and array_head object_head :: "nat \<Rightarrow> string" and key_text :: "string \<Rightarrow> string"
    and size_fits :: "nat \<Rightarrow> bool" and key_fits :: "string \<Rightarrow> bool"
  assumes elements_step: "elements (Suc n) k r =
      (if k = 0 then Inr r else res_bind (value_of n r) (elements n (k - 1)))"
    and members_step: "members (Suc n) k r =
      (if k = 0 then Inr r else res_bind (key_of n (get_byte r)) (\<lambda>(key, r2).
         res_bind (value_of n (sax_key key r2)) (members n (k - 1))))"
    and key_read: "before r (key_text key @ rest) d \<Longrightarrow> key_fits key \<Longrightarrow> 0 < n \<Longrightarrow>
      \<exists>r'. key_of n (get_byte r) = Inr (key, r') \<and> before r' rest d"
    and value_ended: "bytes_left r = [] \<Longrightarrow> \<exists>e. value_of n r = Inl e"
    and head_bytes: "size_fits k \<Longrightarrow> array_head k \<noteq> []" "size_fits k \<Longrightarrow> object_head k \<noteq> []"
    and array_read: "before r (array_head k @ rest) d \<Longrightarrow> size_fits k \<Longrightarrow> 0 < n \<Longrightarrow>
      \<exists>r1. before r1 rest d \<and> value_of (Suc n) r =
        res_bind (sax_start_array k r1) (\<lambda>r. res_bind (elements n k r) (\<lambda>r. Inr (sax_end r)))"
    and object_read: "before r (object_head k @ rest) d \<Longrightarrow> size_fits k \<Longrightarrow> 0 < n \<Longrightarrow>
      \<exists>r1. before r1 rest d \<and> value_of (Suc n) r =
        res_bind (sax_start_object k r1) (\<lambda>r. res_bind (members n k r) (\<lambda>r. Inr (sax_end r)))"
begin

lemma reads_nonempty:
  assumes "reads_value value_of t v"
  shows "t \<noteq> []"
proof
  assume t: "t = []"
  have "before (new_reader []) (t @ []) (built (new_reader []))" by (simp add: t before_def new_reader_def)
  from reads_valueD [OF assms _ this, of 2] t obtain r' where "value_of 2 (new_reader []) = Inr r'" by auto
  moreover obtain e where "value_of 2 (new_reader []) = Inl e" using value_ended [of "new_reader []" 2]
    by (auto simp: new_reader_def)
  ultimately show False by simp
qed

lemma elements_of:
  assumes "list_all2 (reads_value value_of) ts vs" "2 * length (concat ts) + 3 \<le> n"
    and "before r (concat ts @ rest) d" "ref_stack d = In_array us # fs"
  shows "\<exists>r'. elements n (length ts) r = Inr r' \<and> before r' rest (d\<lparr>ref_stack := In_array (us @ vs) # fs\<rparr>)"
  using assms
proof (induction ts arbitrary: n vs r d us)
  case Nil
  then obtain m where "n = Suc m" by (cases n) auto
  with Nil show ?case by (simp add: elements_step same_stack)
next
  case (Cons t ts)
  obtain v vs' where v: "vs = v # vs'" "reads_value value_of t v" "list_all2 (reads_value value_of) ts vs'"
    using Cons.prems(1) by (auto simp: list_all2_Cons1)
  obtain m where m: "n = Suc m" using Cons.prems(2) by (cases n) auto
  have r: "before r (t @ concat ts @ rest) d" "2 * length t + 2 \<le> m"
    and fuel: "2 * length (concat ts) + 3 \<le> m"
    using Cons.prems(2,3) m reads_nonempty [OF v(2)] by (cases t; simp)+
  obtain r1 where r1: "value_of m r = Inr r1" "before r1 (concat ts @ rest) (handle_value v d)"
    by (rule reads_valueD [OF v(2) r(2,1)])
  have "ref_stack (handle_value v d) = In_array (us @ [v]) # fs" using Cons.prems(4) by (simp add: handle_value_def)
  from Cons.IH [OF v(3) fuel r1(2) this] Cons.prems(4) m r1(1) v(1) show ?case
    by (simp add: elements_step handle_value_def)
qed

lemma array_reads_back:
  assumes "list_all2 (reads_value value_of) ts vs" "length vs \<le> array_max_size" "size_fits (length vs)"
  shows "reads_value value_of (array_head (length vs) @ concat ts) (JArray vs)"
  unfolding reads_value_def
proof (intro allI impI)
  let ?t = "array_head (length vs) @ concat ts"
  fix n r rest d
  assume n: "2 * length ?t + 2 \<le> n" and r: "before r (?t @ rest) d"
  have l: "length ts = length vs" using assms(1) by (rule list_all2_lengthD)
  obtain a where h: "length (array_head (length vs)) = Suc a" using head_bytes [OF assms(3)] by (cases "array_head (length vs)") auto
  obtain m where "n = Suc m" using n by (cases n) auto
  moreover from this n h have "0 < m" "2 * length (concat ts) + 3 \<le> m" by simp_all
  ultimately have m: "n = Suc m" "0 < m" "2 * length (concat ts) + 3 \<le> m" by blast+
  have "before r (array_head (length vs) @ concat ts @ rest) d" using r by simp
  from array_read [OF this assms(3) m(2)] obtain r1 where r1: "before r1 (concat ts @ rest) d"
    "value_of (Suc m) r = res_bind (sax_start_array (length vs) r1)
       (\<lambda>r. res_bind (elements m (length vs) r) (\<lambda>r. Inr (sax_end r)))" by blast
  let ?r2 = "r1\<lparr>built := start_array (built r1)\<rparr>"
  have r2: "before ?r2 (concat ts @ rest) (start_array d)" using r1(1) by (simp add: before_def)
  have s: "ref_stack (start_array d) = In_array [] # ref_stack d" by (simp add: start_array_def)
  from elements_of [OF assms(1) m(3) r2 s] obtain r3 where r3: "elements m (length ts) ?r2 = Inr r3"
    "before r3 rest ((start_array d)\<lparr>ref_stack := In_array vs # ref_stack d\<rparr>)" by auto
  have "value_of n r = Inr (sax_end r3)"
    using m(1) r1(2) r3(1) l assms(2) by (simp add: sax_start_array_def)
  moreover have "before (sax_end r3) rest (handle_value (JArray vs) d)"
    using r3(2) same_stack [of d] by (simp add: before_def sax_end_def end_container_def start_array_def)
  ultimately show "\<exists>r'. value_of n r = Inr r' \<and> before r' rest (handle_value (JArray vs) d)" by blast
qed

definition member_bytes :: "string \<times> string \<Rightarrow> string" where
  "member_bytes kt = key_text (fst kt) @ snd kt"

definition member_reads_back :: "string \<times> string \<Rightarrow> string \<times> json \<Rightarrow> bool" where
  "member_reads_back kt kv \<longleftrightarrow> fst kt = fst kv \<and> key_fits (fst kv) \<and> reads_value value_of (snd kt) (snd kv)"

lemma members_of:
  assumes "list_all2 member_reads_back ts ms" "2 * length (concat (map member_bytes ts)) + 3 \<le> n"
    and "before r (concat (map member_bytes ts) @ rest) d" "ref_stack d = In_object us k0 # fs"
    and "sorted_wrt str_less (map fst us @ map fst ms)"
  shows "\<exists>r' k1. members n (length ts) r = Inr r' \<and> before r' rest (d\<lparr>ref_stack := In_object (us @ ms) k1 # fs\<rparr>)"
  using assms
proof (induction ts arbitrary: n ms r d us k0)
  case Nil
  then obtain m where "n = Suc m" by (cases n) auto
  with Nil show ?case by (auto simp: members_step same_stack [OF Nil.prems(4)] intro!: exI [of _ k0])
next
  case (Cons kt ts)
  obtain kv ms' where kv: "ms = kv # ms'" "member_reads_back kt kv" "list_all2 member_reads_back ts ms'"
    using Cons.prems(1) by (auto simp: list_all2_Cons1)
  obtain k v where "kv = (k, v)" by (cases kv)
  with kv have v: "ms = (k, v) # ms'" "fst kt = k" "key_fits k" "reads_value value_of (snd kt) v"
    "list_all2 member_reads_back ts ms'" by (simp_all add: member_reads_back_def)
  obtain m where m: "n = Suc m" using Cons.prems(2) by (cases n) auto
  have less: "\<forall>x \<in> set us. str_less (fst x) k" using Cons.prems(5) v(1) by (auto simp: sorted_wrt_append)
  have r: "before r (key_text k @ snd kt @ concat (map member_bytes ts) @ rest) d"
    using Cons.prems(3) v(2) by (simp add: member_bytes_def [of kt])
  have fuel: "2 * length (snd kt) + 2 \<le> m" "2 * length (concat (map member_bytes ts)) + 3 \<le> m" "0 < m"
    using Cons.prems(2) m reads_nonempty [OF v(4)] by (cases "snd kt"; simp add: member_bytes_def [of kt])+
  obtain r1 where r1: "key_of m (get_byte r) = Inr (k, r1)"
    "before r1 (snd kt @ concat (map member_bytes ts) @ rest) d"
    using key_read [OF r v(3) fuel(3)] by blast
  let ?d = "d\<lparr>ref_stack := In_object (us @ [(k, v)]) k # fs\<rparr>"
  obtain r2 where r2: "value_of m (sax_key k r1) = Inr r2" "before r2 (concat (map member_bytes ts) @ rest) ?d"
    using reads_valueD [OF v(4) fuel(1) sax_key_before [OF r1(2)]] key_value_doms [OF Cons.prems(4) less] by metis
  have s: "ref_stack ?d = In_object (us @ [(k, v)]) k # fs" by simp
  from Cons.IH [OF v(5) fuel(2) r2(2) s] Cons.prems(5) v(1) m r1(1) r2(1) show ?case
    by (simp add: members_step)
qed

lemma object_reads_back:
  assumes "list_all2 member_reads_back ts ms" "length ms \<le> object_max_size" "obj_ok ms" "size_fits (length ms)"
  shows "reads_value value_of (object_head (length ms) @ concat (map member_bytes ts)) (JObject ms)"
  unfolding reads_value_def
proof (intro allI impI)
  let ?ts = "concat (map member_bytes ts)"
  let ?t = "object_head (length ms) @ ?ts"
  fix n r rest d
  assume n: "2 * length ?t + 2 \<le> n" and r: "before r (?t @ rest) d"
  have l: "length ts = length ms" using assms(1) by (rule list_all2_lengthD)
  obtain a where h: "length (object_head (length ms)) = Suc a" using head_bytes [OF assms(4)] by (cases "object_head (length ms)") auto
  obtain m where "n = Suc m" using n by (cases n) auto
  moreover from this n h have "0 < m" "2 * length ?ts + 3 \<le> m" by simp_all
  ultimately have m: "n = Suc m" "0 < m" "2 * length ?ts + 3 \<le> m" by blast+
  have "before r (object_head (length ms) @ ?ts @ rest) d" using r by simp
  from object_read [OF this assms(4) m(2)] obtain r1 where r1: "before r1 (?ts @ rest) d"
    "value_of (Suc m) r = res_bind (sax_start_object (length ms) r1)
       (\<lambda>r. res_bind (members m (length ms) r) (\<lambda>r. Inr (sax_end r)))" by blast
  let ?r2 = "r1\<lparr>built := start_object (built r1)\<rparr>"
  have r2: "before ?r2 (?ts @ rest) (start_object d)" using r1(1) by (simp add: before_def)
  have s: "ref_stack (start_object d) = In_object [] [] # ref_stack d" by (simp add: start_object_def)
  from members_of [OF assms(1) m(3) r2 s] assms(3) obtain r3 k1 where r3: "members m (length ts) ?r2 = Inr r3"
    "before r3 rest ((start_object d)\<lparr>ref_stack := In_object ms k1 # ref_stack d\<rparr>)" by (auto simp: obj_ok_def)
  have "value_of n r = Inr (sax_end r3)"
    using m(1) r1(2) r3(1) l assms(2) by (simp add: sax_start_object_def)
  moreover have "before (sax_end r3) rest (handle_value (JObject ms) d)"
    using r3(2) same_stack [of d] by (simp add: before_def sax_end_def end_container_def start_object_def)
  ultimately show "\<exists>r'. value_of n r = Inr r' \<and> before r' rest (handle_value (JObject ms) d)" by blast
qed

end

lemma canon_elements_map: "canon_elements vs = map canon vs"
  by (induction vs) simp_all

lemma canon_members_map: "canon_members ms = map (map_prod id canon) ms"
  by (induction ms) auto

text \<open>
  A writer for such a format: containers are their head and their parts, and the values that are
  not containers are read back.
\<close>

locale counted_writer = counted_format +
  fixes written :: "json \<Rightarrow> string" and fits :: "json \<Rightarrow> bool"
  assumes write_array: "written (JArray vs) = array_head (length vs) @ concat (map written vs)"
    and write_object: "written (JObject ms) =
      object_head (length ms) @ concat (map (\<lambda>(k, v). key_text k @ written v) ms)"
    and fits_array: "fits (JArray vs) \<Longrightarrow>
      length vs \<le> array_max_size \<and> size_fits (length vs) \<and> (\<forall>v \<in> set vs. fits v)"
    and fits_object: "fits (JObject ms) \<Longrightarrow> length ms \<le> object_max_size \<and> size_fits (length ms) \<and>
      obj_ok ms \<and> (\<forall>(k, v) \<in> set ms. key_fits k \<and> fits v)"
    and leaf_reads: "\<not> is_structured j \<Longrightarrow> fits j \<Longrightarrow> reads_value value_of (written j) (canon j)"
begin

lemma written_reads: "fits j \<Longrightarrow> reads_value value_of (written j) (canon j)"
proof (induction j rule: json_induct)
  case (object ms)
  let ?ts = "map (map_prod id written) ms"
  note f = fits_object [OF object.prems]
  have "member_reads_back (map_prod id written kv) (map_prod id canon kv)" if "kv \<in> set ms" for kv
  proof -
    obtain k v where kv: "kv = (k, v)" by (cases kv)
    with that f have "key_fits k" "fits v" by auto
    moreover from this object.IH [of k v] that kv have "reads_value value_of (written v) (canon v)" by simp
    ultimately show ?thesis using kv by (simp add: member_reads_back_def)
  qed
  then have "list_all2 member_reads_back ?ts (canon_members ms)"
    by (simp add: canon_members_map list_all2_conv_all_nth)
  moreover have parts: "map (\<lambda>(k, v). key_text k @ written v) ms = map member_bytes ?ts"
    by (auto simp: member_bytes_def)
  ultimately show ?case using object_reads_back [of ?ts "canon_members ms"] f
    unfolding write_object parts by (simp add: canon_members_map obj_ok_def)
next
  case (array vs)
  note f = fits_array [OF array.prems]
  with array.IH have "list_all2 (reads_value value_of) (map written vs) (canon_elements vs)"
    by (simp add: canon_elements_map list_all2_conv_all_nth)
  from array_reads_back [OF this] f show ?case by (simp add: write_array canon_elements_map)
next
  case (other j)
  then show ?case by (rule leaf_reads)
qed

end

section \<open>The fuel is enough\<close>

abbreviation ahead_of :: "binary_reader \<Rightarrow> nat" where
  "ahead_of r \<equiv> length (bytes_left r)"

fun pair_left :: "'a \<times> binary_reader \<Rightarrow> nat" where
  "pair_left (v, r) = ahead_of r"

text \<open>A result that is not the fuel's end and leaves at most \<open>k\<close> bytes.\<close>

definition leaves :: "('a \<Rightarrow> nat) \<Rightarrow> nat \<Rightarrow> 'a res \<Rightarrow> bool" where
  "leaves m k x \<longleftrightarrow> x \<noteq> Inl out_of_fuel \<and> (\<forall>y. x = Inr y \<longrightarrow> m y \<le> k)"

lemma leaves_simps [simp]: "leaves m k (Inr y) \<longleftrightarrow> m y \<le> k" "leaves m k (Inl e) \<longleftrightarrow> e \<noteq> out_of_fuel"
  by (auto simp: leaves_def)

lemma leaves_bind:
  assumes "leaves m k x" "\<And>y. m y \<le> k \<Longrightarrow> leaves m' k' (f y)"
  shows "leaves m' k' (res_bind x f)"
  using assms by (cases x) simp_all

lemma leaves_mono: "leaves m k x \<Longrightarrow> k \<le> k' \<Longrightarrow> leaves m k' x"
  by (auto simp: leaves_def)

lemma never_out_of_fuel [simp]: "byte_error n r msg \<noteq> out_of_fuel" "out_of_range n ns msg \<noteq> out_of_fuel"
  "invalid_byte format r \<noteq> out_of_fuel"
  by (simp_all add: byte_error_def pointer_error_def out_of_range_def out_of_fuel_def invalid_byte_def)

lemma leaves_eof: "leaves ahead_of (ahead_of r) (unexpect_eof format place r)"
  by (simp add: unexpect_eof_def)

lemma leaves_get_bytes: "leaves pair_left (ahead_of r) (get_bytes format place n r)"
proof (induction n arbitrary: r)
  case 0
  then show ?case by simp
next
  case (Suc n)
  show ?case unfolding get_bytes.simps
  proof (rule leaves_bind [OF leaves_mono [OF leaves_eof, of _ "ahead_of r"]])
    fix r1 assume r1: "ahead_of r1 \<le> ahead_of r"
    show "leaves pair_left (ahead_of r) (res_bind (get_bytes format place n r1)
        (\<lambda>(bs, r2). Inr (char_of (the (last_byte r1)) # bs, r2)))"
      by (rule leaves_bind [OF leaves_mono [OF Suc r1]]) (auto split: prod.splits)
  qed simp
qed

lemma leaves_get_number: "leaves pair_left (ahead_of r) (get_number format little k r)"
  unfolding get_number_def by (rule leaves_bind [OF leaves_get_bytes]) (auto split: prod.splits)

lemma leaves_emit: "leaves ahead_of (ahead_of r) (emit v r)"
  by (simp add: emit_def)

fun action_leaves :: "nat \<Rightarrow> action \<Rightarrow> bool" where
  "action_leaves k (Complete x) = leaves ahead_of k x"
| "action_leaves k (Array_of x) = leaves pair_left k x"
| "action_leaves k (Object_of x) = leaves pair_left k x"
| "action_leaves k (Again x) = leaves ahead_of k x"

lemma leaves_pair:
  assumes "leaves pair_left k x" "\<And>v r. ahead_of r \<le> k \<Longrightarrow> leaves m k' (f v r)"
  shows "leaves m k' (res_bind x (\<lambda>(v, r). f v r))"
  by (rule leaves_bind [OF assms(1)]) (auto intro: assms(2) split: prod.splits)

lemma leaves_emit_pair:
  assumes "leaves pair_left k x"
  shows "leaves ahead_of k (res_bind x (\<lambda>(v, r). emit (f v) r))"
  by (rule leaves_pair [OF assms]) (rule leaves_mono [OF leaves_emit])

lemma leaves_start:
  "leaves ahead_of (ahead_of r) (sax_start_array len r)" "leaves ahead_of (ahead_of r) (sax_start_object len r)"
  by (simp_all add: sax_start_array_def sax_start_object_def)

lemma leaves_container:
  assumes "leaves pair_left k sized" "\<And>len r. ahead_of r \<le> k \<Longrightarrow> leaves ahead_of (ahead_of r) (start len r)"
    and "\<And>len r. ahead_of r \<le> k \<Longrightarrow> leaves ahead_of (ahead_of r) (rest len r)"
  shows "leaves ahead_of k (res_bind sized (\<lambda>(len, r). res_bind (start len r) (\<lambda>r.
    res_bind (rest len r) (\<lambda>r. Inr (sax_end r)))))"
proof (rule leaves_pair [OF assms(1)])
  fix len and r assume r: "ahead_of r \<le> k"
  show "leaves ahead_of k (res_bind (start len r) (\<lambda>r. res_bind (rest len r) (\<lambda>r. Inr (sax_end r))))"
  proof (rule leaves_bind [OF assms(2) [OF r]])
    fix r1 assume r1: "ahead_of r1 \<le> ahead_of r"
    with r have k: "ahead_of r1 \<le> k" by simp
    show "leaves ahead_of k (res_bind (rest len r1) (\<lambda>r. Inr (sax_end r)))"
      by (rule leaves_bind [OF assms(3) [OF k]]) (use k in \<open>simp add: sax_end_def\<close>)
  qed
qed

end
