(* ===== verification/Cbor.thy ===== *)
theory Cbor
  imports Binary
begin

text \<open>
  CBOR: \<open>binary_writer::write_cbor\<close> and \<open>binary_reader::parse_cbor_internal\<close> with what it calls
  (\<open>src/cpp/include/nlohmann/json.hpp\<close>). The reader's nested loops run on fuel that is never used
  up (\<open>from_cbor_fuel\<close>).
\<close>

section \<open>Writing\<close>

text \<open>
  The control byte and the number of a length or an integer. The code repeats this switch for
  unsigned (base 0x00), negative (0x20), binary (0x40), string (0x60), array (0x80) and object
  (0xA0).
\<close>

definition cbor_head :: "nat \<Rightarrow> nat \<Rightarrow> string" where
  "cbor_head base N =
     (if N \<le> 0x17 then write_number False 1 (int (base + N))
      else if N \<le> 0xFF then char_of (base + 0x18) # write_number False 1 (int N)
      else if N \<le> 0xFFFF then char_of (base + 0x19) # write_number False 2 (int N)
      else if N \<le> 0xFFFFFFFF then char_of (base + 0x1A) # write_number False 4 (int N)
      else char_of (base + 0x1B) # write_number False 8 (int N))"

definition cbor_tag :: "nat \<Rightarrow> string" where
  "cbor_tag t =
     (if t \<le> 0xFF then char_of (0xD8 :: nat) # write_number False 1 (int t)
      else if t \<le> 0xFFFF then char_of (0xD9 :: nat) # write_number False 2 (int t)
      else if t \<le> 0xFFFFFFFF then char_of (0xDA :: nat) # write_number False 4 (int t)
      else char_of (0xDB :: nat) # write_number False 8 (int t))"

definition cbor_float :: "double \<Rightarrow> string" where
  "cbor_float x =
     (if is_nan x then [char_of (0xF9 :: nat), char_of (0x7E :: nat), char_of (0x00 :: nat)]
      else if \<not> is_finite x
      then [char_of (0xF9 :: nat), char_of (if sign_of x then 0xFC else 0x7C :: nat), char_of (0x00 :: nat)]
      else write_compact_float Cbor x)"

definition cbor_binary :: "nat list \<Rightarrow> nat option \<Rightarrow> string" where
  "cbor_binary bs t =
     (case t of None \<Rightarrow> [] | Some k \<Rightarrow> cbor_tag k) @ cbor_head 0x40 (length bs) @ map char_of bs"

fun write_cbor :: "json \<Rightarrow> string"
and write_cbor_elements :: "json list \<Rightarrow> string"
and write_cbor_members :: "(string \<times> json) list \<Rightarrow> string" where
  "write_cbor JNull = [char_of (0xF6 :: nat)]"
| "write_cbor (JBool b) = [char_of (if b then 0xF5 else 0xF4 :: nat)]"
| "write_cbor (JInt n) = (if 0 \<le> n then cbor_head 0x00 (nat n) else cbor_head 0x20 (nat (- 1 - n)))"
| "write_cbor (JUnsigned n) = cbor_head 0x00 (nat n)"
| "write_cbor (JFloat x) = cbor_float x"
| "write_cbor (JString s) = cbor_head 0x60 (length s) @ s"
| "write_cbor (JArray vs) = cbor_head 0x80 (length vs) @ write_cbor_elements vs"
| "write_cbor (JBinary bs t) = cbor_binary bs t"
| "write_cbor (JObject ms) = cbor_head 0xA0 (length ms) @ write_cbor_members ms"
| "write_cbor JDiscarded = []"
| "write_cbor_elements [] = []"
| "write_cbor_elements (v # vs) = write_cbor v @ write_cbor_elements vs"
| "write_cbor_members [] = []"
| "write_cbor_members ((k, v) # ms) = (cbor_head 0x60 (length k) @ k) @ write_cbor v @ write_cbor_members ms"

definition to_cbor :: "json \<Rightarrow> string" where
  "to_cbor j = write_cbor j"

section \<open>Reading\<close>

datatype cbor_tag_handler = Tag_error | Tag_ignore | Tag_store

text \<open>The number that goes with a control byte: its low bits, or the next 1, 2, 4 or 8 bytes.\<close>

definition cbor_length :: "nat \<Rightarrow> binary_reader \<Rightarrow> (nat \<times> binary_reader) res" where
  "cbor_length b r =
     (if b mod 32 \<le> 0x17 then Inr (b mod 32, r) else get_number Cbor False (2 ^ (b mod 32 - 0x18)) r)"

text \<open>
  \<open>get_cbor_string\<close> (base 0x60) and \<open>get_cbor_binary\<close> (base 0x40) are the same switch: a length,
  or chunks up to a break byte, each of which may again be made of chunks.
\<close>

fun cbor_bytes :: "nat \<Rightarrow> string \<Rightarrow> string \<Rightarrow> nat \<Rightarrow> binary_reader \<Rightarrow> (string \<times> binary_reader) res"
and cbor_chunks :: "nat \<Rightarrow> string \<Rightarrow> string \<Rightarrow> nat \<Rightarrow> string \<Rightarrow> binary_reader \<Rightarrow> (string \<times> binary_reader) res" where
  "cbor_bytes base place hint 0 r = Inl out_of_fuel"
| "cbor_bytes base place hint (Suc n) r =
     res_bind (unexpect_eof Cbor place r) (\<lambda>r.
       let b = the (last_byte r) in
       if base \<le> b \<and> b \<le> base + 0x1B then res_bind (cbor_length b r) (\<lambda>(len, r). get_bytes Cbor place len r)
       else if b = base + 0x1F then cbor_chunks base place hint n [] (get_byte r)
       else Inl (byte_error 113 r (binary_exception_message Cbor (hint @ ''; last byte: 0x'' @ binary_token_string r) place)))"
| "cbor_chunks base place hint 0 result r = Inl out_of_fuel"
| "cbor_chunks base place hint (Suc n) result r =
     (if last_byte r = Some 0xFF then Inr (result, r)
      else res_bind (cbor_bytes base place hint n r) (\<lambda>(chunk, r1).
             cbor_chunks base place hint n (result @ chunk) (get_byte r1)))"

definition get_cbor_string :: "nat \<Rightarrow> binary_reader \<Rightarrow> (string \<times> binary_reader) res" where
  "get_cbor_string n r = cbor_bytes 0x60 ''string''
     ''expected length specification (0x60-0x7B) or indefinite string type (0x7F)'' n r"

definition get_cbor_binary :: "nat \<Rightarrow> binary_reader \<Rightarrow> (string \<times> binary_reader) res" where
  "get_cbor_binary n r = cbor_bytes 0x40 ''binary''
     ''expected length specification (0x40-0x5B) or indefinite binary array type (0x5F)'' n r"

text \<open>The half-precision decoder of RFC 7049.\<close>

definition half_mag :: "nat \<Rightarrow> nat" where
  "half_mag half =
     (let e = half div 2 ^ 10 mod 32; mant = half mod 2 ^ 10
      in if e = 0 then round_mag mant (2 ^ 24)
         else if e = 31 then (if mant = 0 then inf_mag else inf_mag + 2 ^ 51)
         else if 25 \<le> e then round_mag ((mant + 1024) * 2 ^ (e - 25)) 1
         else round_mag (mant + 1024) (2 ^ (25 - e)))"

definition half_value :: "nat \<Rightarrow> double" where
  "half_value half = mk_double (half div 2 ^ 15 mod 2 = 1) (half_mag half)"

definition binary_value :: "nat option \<Rightarrow> string \<Rightarrow> json" where
  "binary_value subtype bs = JBinary (map of_char bs) subtype"

text \<open>A length that was announced as -1 is an indefinite one, however it was written.\<close>

definition announced :: "nat \<Rightarrow> nat option" where
  "announced len = (if len = no_length then None else Some len)"

text \<open>
  The switch of \<open>parse_cbor_internal\<close> over the byte \<open>b\<close>, one definition for each group of cases:
  integers, byte strings and strings, containers, tags, and the simple values and floats.
\<close>

definition cbor_integer :: "nat \<Rightarrow> binary_reader \<Rightarrow> action" where
  "cbor_integer b r =
     (if b \<le> 0x1B then Complete (res_bind (cbor_length b r) (\<lambda>(k, r). emit (JUnsigned (int k)) r))
      else if 0x20 \<le> b \<and> b \<le> 0x3B then
        Complete (res_bind (cbor_length b r) (\<lambda>(k, r). emit (JInt (- 1 - wrap 64 (int k))) r))
      else Complete (Inl (invalid_byte Cbor r)))"

definition cbor_text :: "nat \<Rightarrow> nat \<Rightarrow> binary_reader \<Rightarrow> action" where
  "cbor_text n b r =
     (if (0x40 \<le> b \<and> b \<le> 0x5B) \<or> b = 0x5F then
        Complete (res_bind (get_cbor_binary n r) (\<lambda>(bs, r). emit (binary_value None bs) r))
      else if (0x60 \<le> b \<and> b \<le> 0x7B) \<or> b = 0x7F then
        Complete (res_bind (get_cbor_string n r) (\<lambda>(s, r). emit (JString s) r))
      else Complete (Inl (invalid_byte Cbor r)))"

definition cbor_container :: "nat \<Rightarrow> binary_reader \<Rightarrow> action" where
  "cbor_container b r =
     (if 0x80 \<le> b \<and> b \<le> 0x9B then Array_of (cbor_length b r)
      else if b = 0x9F then Array_of (Inr (no_length, r))
      else if 0xA0 \<le> b \<and> b \<le> 0xBB then Object_of (cbor_length b r)
      else if b = 0xBF then Object_of (Inr (no_length, r))
      else Complete (Inl (invalid_byte Cbor r)))"

text \<open>
  The code does not look at what \<open>get_number\<close> returns for a tag; when the input ends there, the next
  read fails for the same reason.
\<close>

definition cbor_tagged :: "nat \<Rightarrow> cbor_tag_handler \<Rightarrow> nat \<Rightarrow> binary_reader \<Rightarrow> action" where
  "cbor_tagged n h b r =
     (case h of
        Tag_error \<Rightarrow> Complete (Inl (invalid_byte Cbor r))
      | Tag_ignore \<Rightarrow>
          Again (if 0xD8 \<le> b then res_bind (get_number Cbor False (2 ^ (b - 0xD8)) r) (\<lambda>(subtype, r). Inr r)
                 else Inr r)
      | Tag_store \<Rightarrow>
          if 0xD8 \<le> b then
            Complete (res_bind (get_number Cbor False (2 ^ (b - 0xD8)) r) (\<lambda>(subtype, r).
              res_bind (get_cbor_binary n (get_byte r)) (\<lambda>(bs, r). emit (binary_value (Some subtype) bs) r)))
          else Again (Inr r))"

definition cbor_simple :: "nat \<Rightarrow> binary_reader \<Rightarrow> action" where
  "cbor_simple b r =
     (if b = 0xF4 then Complete (emit (JBool False) r)
      else if b = 0xF5 then Complete (emit (JBool True) r)
      else if b = 0xF6 then Complete (emit JNull r)
      else if b = 0xF9 then
        Complete (res_bind (get_number Cbor False 2 r) (\<lambda>(half, r). emit (JFloat (half_value half)) r))
      else if b = 0xFA then
        Complete (res_bind (get_number Cbor False 4 r) (\<lambda>(k, r). emit (JFloat (of_float (word_of_nat k))) r))
      else if b = 0xFB then
        Complete (res_bind (get_number Cbor False 8 r) (\<lambda>(k, r). emit (JFloat (word_of_nat k)) r))
      else Complete (Inl (invalid_byte Cbor r)))"

definition cbor_switch :: "nat \<Rightarrow> cbor_tag_handler \<Rightarrow> nat \<Rightarrow> binary_reader \<Rightarrow> action" where
  "cbor_switch n h b r =
     (if b < 0x40 then cbor_integer b r
      else if b < 0x80 then cbor_text n b r
      else if b < 0xC0 then cbor_container b r
      else if (0xC6 \<le> b \<and> b \<le> 0xD4) \<or> (0xD8 \<le> b \<and> b \<le> 0xDB) then cbor_tagged n h b r
      else cbor_simple b r)"

lemmas cbor_switch_defs = cbor_switch_def cbor_integer_def cbor_text_def cbor_container_def
  cbor_tagged_def cbor_simple_def

fun parse_cbor :: "nat \<Rightarrow> cbor_tag_handler \<Rightarrow> bool \<Rightarrow> binary_reader \<Rightarrow> binary_reader res"
and cbor_elements :: "nat \<Rightarrow> cbor_tag_handler \<Rightarrow> nat option \<Rightarrow> binary_reader \<Rightarrow> binary_reader res"
and cbor_members :: "nat \<Rightarrow> cbor_tag_handler \<Rightarrow> nat option \<Rightarrow> binary_reader \<Rightarrow> binary_reader res" where
  "parse_cbor 0 h get_char r = Inl out_of_fuel"
| "parse_cbor (Suc n) h get_char r0 =
     (let r = (if get_char then get_byte r0 else r0) in
      case last_byte r of
        None \<Rightarrow> unexpect_eof Cbor ''value'' r
      | Some b \<Rightarrow>
          (case cbor_switch n h b r of
             Complete result \<Rightarrow> result
           | Array_of sized \<Rightarrow>
               res_bind sized (\<lambda>(len, r).
               res_bind (sax_start_array len r) (\<lambda>r.
               res_bind (cbor_elements n h (announced len) r) (\<lambda>r. Inr (sax_end r))))
           | Object_of sized \<Rightarrow>
               res_bind sized (\<lambda>(len, r).
               res_bind (sax_start_object len r) (\<lambda>r.
               res_bind (cbor_members n h (announced len) r) (\<lambda>r. Inr (sax_end r))))
           | Again ready \<Rightarrow> res_bind ready (\<lambda>r. parse_cbor n h True r)))"
| "cbor_elements 0 h left r = Inl out_of_fuel"
| "cbor_elements (Suc n) h left r =
     (case left of
        Some k \<Rightarrow>
          if k = 0 then Inr r
          else res_bind (parse_cbor n h True r) (\<lambda>r. cbor_elements n h (Some (k - 1)) r)
      | None \<Rightarrow>
          let r1 = get_byte r in
          if last_byte r1 = Some 0xFF then Inr r1
          else res_bind (parse_cbor n h False r1) (\<lambda>r. cbor_elements n h None r))"
| "cbor_members 0 h left r = Inl out_of_fuel"
| "cbor_members (Suc n) h left r =
     (if left = Some 0 then Inr r
      else let r1 = get_byte r in
        if left = None \<and> last_byte r1 = Some 0xFF then Inr r1
        else res_bind (get_cbor_string n r1) (\<lambda>(key, r2).
             res_bind (parse_cbor n h True (sax_key key r2)) (\<lambda>r3.
               cbor_members n h (map_option (\<lambda>k. k - 1) left) r3)))"

declare parse_cbor.simps [simp del] cbor_elements.simps [simp del] cbor_members.simps [simp del]
  cbor_bytes.simps [simp del] cbor_chunks.simps [simp del]

definition from_cbor :: "string \<Rightarrow> bool \<Rightarrow> bool \<Rightarrow> cbor_tag_handler \<Rightarrow> json res" where
  "from_cbor bytes strict allow_exceptions h =
     parsed allow_exceptions
       (res_bind (parse_cbor (2 * length bytes + 4) h True (new_reader bytes)) (expect_end Cbor strict))"

section \<open>What is written is read\<close>

lemma cbor_head_cases:
  assumes "N < 2 ^ 64" "base \<le> 0xA0"
  obtains "N \<le> 0x17" "cbor_head base N = [char_of (base + N)]"
  | k where "k < 4" "N < 2 ^ (8 * 2 ^ k)" "cbor_head base N = char_of (base + 0x18 + k) # write_number False (2 ^ k) (int N)"
proof -
  consider "N \<le> 0x17" | "0x17 < N" "N \<le> 0xFF" | "0xFF < N" "N \<le> 0xFFFF" | "0xFFFF < N" "N \<le> 0xFFFFFFFF" | "0xFFFFFFFF < N"
    by linarith
  then show thesis
  proof cases
    case 1
    have "cbor_head base N = [char_of (base + N)]"
      using 1 assms(2) write_number_1 [of False "base + N"] by (simp add: cbor_head_def del: One_nat_def of_nat_add)
    with 1 that(1) show thesis by simp
  next
    case 2
    with that(2) [of 0] show thesis by (simp add: cbor_head_def)
  next
    case 3
    with that(2) [of 1] show thesis by (simp add: cbor_head_def add.commute del: One_nat_def)
  next
    case 4
    with that(2) [of 2] show thesis by (simp add: cbor_head_def add.commute)
  next
    case 5
    with assms that(2) [of 3] show thesis by (simp add: cbor_head_def add.commute)
  qed
qed

lemma cbor_head_reads:
  assumes "before r (cbor_head base N @ rest) d" "N < 2 ^ 64" "base mod 32 = 0" "base \<le> 0xA0"
  obtains b r' where "last_byte (get_byte r) = Some b" "base \<le> b" "b \<le> base + 0x1B"
    "cbor_length b (get_byte r) = Inr (N, r')" "before r' rest d"
  using assms(2,4)
proof (cases rule: cbor_head_cases)
  case 1
  then have b: "before r (char_of (base + N) # rest) d" using assms(1) by simp
  have small: "base + N < 256" using 1 assms(4) by linarith
  have "(base + N) mod 32 = N" using 1(1) low_bits [OF assms(3), of N] by simp
  then have "cbor_length (base + N) (get_byte r) = Inr (N, get_byte r)" using 1(1) by (simp add: cbor_length_def)
  from that [OF byte_reads(1) [OF b small] _ _ this byte_reads(2) [OF b small]] show thesis using 1(1) by linarith
next
  case (2 k)
  then have "before r (char_of (base + 0x18 + k) # write_number False (2 ^ k) (int N) @ rest) d" using assms(1) by simp
  note h = byte_reads [OF this]
  obtain r' where r': "get_number Cbor False (2 ^ k) (get_byte r) = Inr (nat (int N mod 2 ^ (8 * 2 ^ k)), r')" "before r' rest d"
    by (rule number_reads [OF h(2), of Cbor]) (use 2 assms(4) in simp_all)
  have m: "(base + 0x18 + k) mod 32 = 0x18 + k" using 2(1) low_bits [OF assms(3), of "0x18 + k"] by (simp add: add.assoc)
  have "nat (int N mod 2 ^ (8 * 2 ^ k)) = N" using 2(2) by (simp add: nat_mod_distrib)
  with r' h(1) m 2(1) assms(4) show thesis by (intro that [of "base + 0x18 + k" r']) (simp_all add: cbor_length_def)
qed

definition tags_ok :: "cbor_tag_handler \<Rightarrow> nat option \<Rightarrow> bool" where
  "tags_ok h t \<longleftrightarrow> (case t of None \<Rightarrow> True | Some k \<Rightarrow> h = Tag_store \<and> k < 2 ^ 64)"

text \<open>
  The values CBOR can carry: sizes the library can announce, objects in order, integers in range,
  and byte strings with a subtype only when tags are stored. Every NaN is written as one and the
  same: \<open>one_nan\<close> is what is left of a value.
\<close>

definition text_fits :: "string \<Rightarrow> bool" where
  "text_fits s \<longleftrightarrow> length s < 2 ^ 64"

fun cbor_fits :: "cbor_tag_handler \<Rightarrow> json \<Rightarrow> bool" where
  "cbor_fits h (JObject ms) \<longleftrightarrow> obj_ok ms \<and> length ms \<le> object_max_size \<and>
     list_all (\<lambda>(k, v). text_fits k \<and> cbor_fits h v) ms"
| "cbor_fits h (JArray vs) \<longleftrightarrow> length vs \<le> array_max_size \<and> list_all (cbor_fits h) vs"
| "cbor_fits h (JInt n) \<longleftrightarrow> in_i64 n"
| "cbor_fits h (JUnsigned n) \<longleftrightarrow> 0 \<le> n \<and> n \<le> u64_max"
| "cbor_fits h (JString s) \<longleftrightarrow> text_fits s"
| "cbor_fits h (JFloat x) \<longleftrightarrow> True"
| "cbor_fits h (JBinary bs t) \<longleftrightarrow> length bs < 2 ^ 64 \<and> list_all (\<lambda>b. b < 256) bs \<and> tags_ok h t"
| "cbor_fits h (JBool b) \<longleftrightarrow> True"
| "cbor_fits h JNull \<longleftrightarrow> True"
| "cbor_fits h JDiscarded \<longleftrightarrow> False"

fun one_nan :: "json \<Rightarrow> json" where
  "one_nan (JFloat x) = JFloat (if is_nan x then the_nan else x)"
| "one_nan (JObject ms) = JObject (map (map_prod id one_nan) ms)"
| "one_nan (JArray vs) = JArray (map one_nan vs)"
| "one_nan j = j"

text \<open>Strings and byte strings of definite length.\<close>

lemma cbor_bytes_read:
  assumes "before r (cbor_head base (length s) @ s @ rest) d" "length s < 2 ^ 64" "base mod 32 = 0" "base \<le> 0xA0" "0 < n"
  obtains r' where "cbor_bytes base place hint n (get_byte r) = Inr (s, r')" "before r' rest d"
proof -
  obtain b r1 where b: "last_byte (get_byte r) = Some b" "base \<le> b" "b \<le> base + 0x1B"
    "cbor_length b (get_byte r) = Inr (length s, r1)" "before r1 (s @ rest) d"
    using cbor_head_reads [OF assms(1-4)] by blast
  obtain r2 where "get_bytes Cbor place (length s) r1 = Inr (s, r2)" "before r2 rest d"
    by (rule get_bytes_before [OF b(5) refl])
  with b assms(5) that show thesis
    by (cases n) (simp_all add: cbor_bytes.simps unexpect_eof_def Let_def)
qed

abbreviation cbor_reads :: "cbor_tag_handler \<Rightarrow> string \<Rightarrow> json \<Rightarrow> bool" where
  "cbor_reads h \<equiv> reads_value (\<lambda>n. parse_cbor n h True)"

text \<open>A value that the switch completes at once.\<close>

lemma cbor_reads_switch:
  assumes "\<And>n r rest d. 0 < n \<Longrightarrow> before r (t @ rest) d \<Longrightarrow> \<exists>b r'. last_byte (get_byte r) = Some b \<and>
    cbor_switch n h b (get_byte r) = Complete (Inr r') \<and> before r' rest (handle_value v d)"
  shows "cbor_reads h t v"
  unfolding reads_value_def
proof (intro allI impI)
  fix n r rest d assume n: "2 * length t + 2 \<le> n" and r: "before r (t @ rest) d"
  then obtain m where m: "n = Suc m" "0 < m" by (cases n) auto
  from assms [OF m(2) r] obtain b r' where "last_byte (get_byte r) = Some b"
    "cbor_switch m h b (get_byte r) = Complete (Inr r')" "before r' rest (handle_value v d)" by blast
  with m(1) show "\<exists>r'. parse_cbor n h True r = Inr r' \<and> before r' rest (handle_value v d)"
    by (simp add: parse_cbor.simps Let_def)
qed

lemma reads_number:
  assumes "N < 2 ^ 64"
  shows "cbor_reads h (cbor_head 0 N) (JUnsigned (int N))"
proof (rule cbor_reads_switch)
  fix n r rest d assume "before r (cbor_head 0 N @ rest) d"
  from cbor_head_reads [OF this assms] obtain b r1 where b: "last_byte (get_byte r) = Some b" "b \<le> 0x1B"
    "cbor_length b (get_byte r) = Inr (N, r1)" "before r1 rest d" by auto
  with emit_before [OF b(4), of "JUnsigned (int N)"] show "\<exists>b r'. last_byte (get_byte r) = Some b \<and>
      cbor_switch n h b (get_byte r) = Complete (Inr r') \<and> before r' rest (handle_value (JUnsigned (int N)) d)"
    by (auto simp: cbor_switch_defs)
qed

lemma reads_negative_number:
  assumes "N < 2 ^ 63"
  shows "cbor_reads h (cbor_head 0x20 N) (JInt (- 1 - int N))"
proof (rule cbor_reads_switch)
  fix n r rest d assume r: "before r (cbor_head 0x20 N @ rest) d"
  from cbor_head_reads [OF r] assms obtain b r1 where b: "last_byte (get_byte r) = Some b" "0x20 \<le> b" "b \<le> 0x3B"
    "cbor_length b (get_byte r) = Inr (N, r1)" "before r1 rest d" by auto
  have "wrap 64 (int N) = int N" using assms by (simp add: wrap_def)
  with b emit_before [OF b(5), of "JInt (- 1 - int N)"] show "\<exists>b r'. last_byte (get_byte r) = Some b \<and>
      cbor_switch n h b (get_byte r) = Complete (Inr r') \<and> before r' rest (handle_value (JInt (- 1 - int N)) d)"
    by (auto simp: cbor_switch_defs)
qed

lemma get_cbor_string_read:
  assumes "before r (cbor_head 0x60 (length s) @ s @ rest) d" "text_fits s" "0 < n"
  shows "\<exists>r'. get_cbor_string n (get_byte r) = Inr (s, r') \<and> before r' rest d"
  unfolding get_cbor_string_def
  by (rule cbor_bytes_read [OF assms(1) assms(2) [unfolded text_fits_def] _ _ assms(3)]) auto

lemma get_cbor_binary_read:
  assumes "before r (cbor_head 0x40 (length s) @ s @ rest) d" "length s < 2 ^ 64" "0 < n"
  shows "\<exists>r'. get_cbor_binary n (get_byte r) = Inr (s, r') \<and> before r' rest d"
  unfolding get_cbor_binary_def
  by (rule cbor_bytes_read [OF assms(1,2) _ _ assms(3)]) auto

lemma reads_string:
  assumes "text_fits s"
  shows "cbor_reads h (cbor_head 0x60 (length s) @ s) (JString s)"
  unfolding reads_value_def
proof (intro allI impI)
  fix n r rest d
  assume n: "2 * length (cbor_head 0x60 (length s) @ s) + 2 \<le> n" and r0: "before r ((cbor_head 0x60 (length s) @ s) @ rest) d"
  then have r: "before r (cbor_head 0x60 (length s) @ s @ rest) d" by simp
  obtain m where m: "n = Suc m" "0 < m" using n by (cases n) auto
  obtain b where b: "last_byte (get_byte r) = Some b" "0x60 \<le> b" "b \<le> 0x7B"
    using cbor_head_reads [OF r] assms by (auto simp: text_fits_def)
  obtain r1 where r1: "get_cbor_string m (get_byte r) = Inr (s, r1)" "before r1 rest d"
    using get_cbor_string_read [OF r assms m(2)] by blast
  from emit_before [OF r1(2), of "JString s"] r1(1) b m
  show "\<exists>r'. parse_cbor n h True r = Inr r' \<and> before r' rest (handle_value (JString s) d)"
    by (auto simp: parse_cbor.simps cbor_switch_defs)
qed

text \<open>A byte string with the tag of its subtype in front, if it has one.\<close>

lemma tag_cases:
  assumes "t < 2 ^ 64"
  obtains k where "k < 4" "t < 2 ^ (8 * 2 ^ k)" "cbor_tag t = char_of (0xD8 + k) # write_number False (2 ^ k) (int t)"
proof -
  consider "t \<le> 0xFF" | "0xFF < t" "t \<le> 0xFFFF" | "0xFFFF < t" "t \<le> 0xFFFFFFFF" | "0xFFFFFFFF < t"
    by linarith
  then show thesis
  proof cases
    case 1
    with that [of 0] show thesis by (simp add: cbor_tag_def)
  next
    case 2
    with that [of 1] show thesis by (simp add: cbor_tag_def del: One_nat_def)
  next
    case 3
    with that [of 2] show thesis by (simp add: cbor_tag_def)
  next
    case 4
    with assms that [of 3] show thesis by (simp add: cbor_tag_def)
  qed
qed

lemma reads_binary:
  assumes "length bs < 2 ^ 64" "list_all (\<lambda>b. b < 256) bs"
  shows "cbor_reads h (cbor_head 0x40 (length bs) @ map char_of bs) (JBinary bs None)"
  unfolding reads_value_def
proof (intro allI impI)
  let ?s = "map char_of bs :: string"
  fix n r rest d
  assume n: "2 * length (cbor_head 0x40 (length bs) @ ?s) + 2 \<le> n" and r0: "before r ((cbor_head 0x40 (length bs) @ ?s) @ rest) d"
  then have r: "before r (cbor_head 0x40 (length ?s) @ ?s @ rest) d" by simp
  obtain m where m: "n = Suc m" "0 < m" using n by (cases n) auto
  obtain b where b: "last_byte (get_byte r) = Some b" "0x40 \<le> b" "b \<le> 0x5B"
    using cbor_head_reads [OF r] assms by auto
  obtain r1 where r1: "get_cbor_binary m (get_byte r) = Inr (?s, r1)" "before r1 rest d"
    using get_cbor_binary_read [OF r _ m(2)] assms(1) by auto
  from emit_before [OF r1(2), of "JBinary bs None"] r1(1) b m bytes_of [OF assms(2)]
  show "\<exists>r'. parse_cbor n h True r = Inr r' \<and> before r' rest (handle_value (JBinary bs None) d)"
    by (auto simp: parse_cbor.simps cbor_switch_defs binary_value_def)
qed

lemma reads_tagged:
  assumes "length bs < 2 ^ 64" "list_all (\<lambda>b. b < 256) bs" "t < 2 ^ 64"
  shows "cbor_reads Tag_store (cbor_tag t @ cbor_head 0x40 (length bs) @ map char_of bs) (JBinary bs (Some t))"
  unfolding reads_value_def
proof (intro allI impI)
  let ?s = "map char_of bs :: string"
  let ?t = "cbor_tag t @ cbor_head 0x40 (length bs) @ ?s"
  fix n r rest d
  assume n: "2 * length ?t + 2 \<le> n" and r0: "before r (?t @ rest) d"
  obtain m where m: "n = Suc m" "0 < m" using n by (cases n) auto
  obtain k where k: "k < 4" "t < 2 ^ (8 * 2 ^ k)" "cbor_tag t = char_of (0xD8 + k) # write_number False (2 ^ k) (int t)"
    using assms(3) by (rule tag_cases)
  with r0 have "before r (char_of (0xD8 + k) # write_number False (2 ^ k) (int t) @ cbor_head 0x40 (length ?s) @ ?s @ rest) d"
    by simp
  note h = byte_reads [OF this]
  obtain r1 where r1: "get_number Cbor False (2 ^ k) (get_byte r) = Inr (nat (int t mod 2 ^ (8 * 2 ^ k)), r1)"
    "before r1 (cbor_head 0x40 (length ?s) @ ?s @ rest) d"
    by (rule number_reads [OF h(2), of Cbor]) (use k(1) in simp_all)
  have t: "nat (int t mod 2 ^ (8 * 2 ^ k)) = t" using k(2) by (simp add: nat_mod_distrib)
  obtain r2 where r2: "get_cbor_binary m (get_byte r1) = Inr (?s, r2)" "before r2 rest d"
    using get_cbor_binary_read [OF r1(2) _ m(2)] assms(1) by auto
  from emit_before [OF r2(2), of "JBinary bs (Some t)"] r1(1) r2(1) h(1) k(1) m bytes_of [OF assms(2)] t
  show "\<exists>r'. parse_cbor n Tag_store True r = Inr r' \<and> before r' rest (handle_value (JBinary bs (Some t)) d)"
    by (auto simp: parse_cbor.simps cbor_switch_defs binary_value_def)
qed

lemma half_bytes:
  assumes "b < 256"
  shows "[char_of b, char_of (0 :: nat)] = write_number False 2 (int (b * 256))"
proof -
  have "nat (int (b * 256) mod 2 ^ (8 * 2)) = b * 256" using assms by simp
  then have "write_number False 2 (int (b * 256)) = be_bytes 2 (b * 256)"
    by (simp only: write_number_def if_False id_apply)
  then show ?thesis by (simp add: numeral_2_eq_2)
qed

lemma half_values: "half_value 0x7E00 = the_nan" "half_value 0x7C00 = mk_double False inf_mag"
  "half_value 0xFC00 = mk_double True inf_mag"
  by (simp_all add: half_value_def half_mag_def the_nan_def)

lemma reads_half:
  assumes "b < 256" "half_value (b * 256) = x"
  shows "cbor_reads h [char_of (0xF9 :: nat), char_of b, char_of (0 :: nat)] (JFloat x)"
proof -
  have "nat (int (b * 256) mod 2 ^ (8 * 2)) = b * 256" using assms(1) by simp
  with assms(2) have v: "JFloat (half_value (nat (int (b * 256) mod 2 ^ (8 * 2)))) = JFloat x" by (simp only:)
  show ?thesis unfolding half_bytes [OF assms(1)]
    by (rule reads_fixed [where format = Cbor and f = "\<lambda>half. JFloat (half_value half)", OF _ _ _ v]) (simp_all add: parse_cbor.simps cbor_switch_defs)
qed

lemma reads_double:
  assumes "is_nan x \<longrightarrow> x = the_nan"
  shows "cbor_reads h (cbor_float x) (JFloat x)"
proof -
  consider "is_nan x" | "\<not> is_nan x" "\<not> is_finite x" | "is_finite x" by blast
  then show ?thesis
  proof cases
    case 1
    with assms reads_half [of "0x7E"] show ?thesis by (simp add: cbor_float_def half_values)
  next
    case 2
    then have "mag_of x = inf_mag" by (simp add: is_nan_def is_finite_def)
    then have "x = mk_double (sign_of x) inf_mag" using mk_double_split [of x] by simp
    with 2 reads_half [of "if sign_of x then 0xFC else 0x7C"] show ?thesis
      by (cases "sign_of x") (simp_all add: cbor_float_def half_values)
  next
    case 3
    then have "cbor_float x = write_compact_float Cbor x" by (simp add: cbor_float_def is_nan_def is_finite_def)
    moreover have "cbor_reads h (write_compact_float Cbor x) (JFloat x)"
    proof (cases rule: compact_float_cases [of Cbor x])
      case 1
      have "cbor_reads h (char_of (0xFA :: nat) # write_number False 4 (uint (to_float x))) (JFloat x)"
        by (rule reads_fixed [where format = Cbor and f = "\<lambda>k. JFloat (of_float (word_of_nat k))"])
          (use 1 in \<open>simp_all add: parse_cbor.simps cbor_switch_defs float_bits\<close>)
      with 1 show ?thesis by simp
    next
      case 2
      have "cbor_reads h (char_of (0xFB :: nat) # write_number False 8 (uint x)) (JFloat x)"
        by (rule reads_fixed [where format = Cbor and f = "\<lambda>k. JFloat (word_of_nat k)"]) (simp_all add: parse_cbor.simps cbor_switch_defs double_bits)
      with 2 show ?thesis by simp
    qed
    ultimately show ?thesis by simp
  qed
qed

lemma reads_literals: "cbor_reads h [char_of (0xF4 :: nat)] (JBool False)"
  "cbor_reads h [char_of (0xF5 :: nat)] (JBool True)" "cbor_reads h [char_of (0xF6 :: nat)] JNull"
  by (rule reads_one_byte; simp add: parse_cbor.simps cbor_switch_defs)+

lemma cbor_head_length: "1 \<le> length (cbor_head base N)"
  unfolding cbor_head_def by (auto split: if_splits simp del: One_nat_def)

lemma container_head:
  assumes "before r (cbor_head base N @ rest) d" "N < 2 ^ 64" "base = 0x80 \<or> base = 0xA0"
  obtains b r' where "last_byte (get_byte r) = Some b" "base \<le> b" "b \<le> base + 0x1B"
    "cbor_length b (get_byte r) = Inr (N, r')" "before r' rest d"
  by (rule cbor_head_reads [OF assms(1,2)]) (use assms(3) that in auto)


interpretation cbor_format: counted_format "\<lambda>n. parse_cbor n h True" get_cbor_string
  "\<lambda>n k. cbor_elements n h (Some k)" "\<lambda>n k. cbor_members n h (Some k)" "cbor_head 0x80" "cbor_head 0xA0"
  "\<lambda>k. cbor_head 0x60 (length k) @ k" "\<lambda>k. k \<le> array_max_size" text_fits for h
proof unfold_locales
  fix n k and r :: binary_reader
  show "cbor_elements (Suc n) h (Some k) r = (if k = 0 then Inr r
      else res_bind (parse_cbor n h True r) (cbor_elements n h (Some (k - 1))))"
    by (simp add: cbor_elements.simps)
  show "cbor_members (Suc n) h (Some k) r = (if k = 0 then Inr r
      else res_bind (get_cbor_string n (get_byte r)) (\<lambda>(key, r2).
        res_bind (parse_cbor n h True (sax_key key r2)) (cbor_members n h (Some (k - 1)))))"
    by (simp add: cbor_members.simps Let_def)
next
  fix key rest d and r :: binary_reader and n :: nat
  assume "before r ((cbor_head 0x60 (length key) @ key) @ rest) d" "text_fits key" "0 < n"
  then show "\<exists>r'. get_cbor_string n (get_byte r) = Inr (key, r') \<and> before r' rest d"
    by (intro get_cbor_string_read) simp_all
next
  fix r :: binary_reader and n assume "bytes_left r = []"
  then show "\<exists>e. parse_cbor n h True r = Inl e"
    by (cases n) (simp_all add: parse_cbor.simps unexpect_eof_def)
next
  fix k
  show "cbor_head 0x80 k \<noteq> []" "cbor_head 0xA0 k \<noteq> []"
    using cbor_head_length [of "0x80" k] cbor_head_length [of "0xA0" k] by auto
next
  fix k rest d and r :: binary_reader and n :: nat
  assume r: "before r (cbor_head 0x80 k @ rest) d" and k: "k \<le> array_max_size"
  then have big: "k < 2 ^ 64" "k \<noteq> no_length" by (simp_all add: array_max_size_def no_length_def)
  from container_head [OF r big(1)] obtain b r1 where "last_byte (get_byte r) = Some b" "0x80 \<le> b" "b \<le> 0x9B"
    "cbor_length b (get_byte r) = Inr (k, r1)" "before r1 rest d" by auto
  with big(2) show "\<exists>r1. before r1 rest d \<and> parse_cbor (Suc n) h True r =
      res_bind (sax_start_array k r1) (\<lambda>r. res_bind (cbor_elements n h (Some k) r) (\<lambda>r. Inr (sax_end r)))"
    by (intro exI [of _ r1]) (simp add: parse_cbor.simps cbor_switch_defs announced_def)
next
  fix k rest d and r :: binary_reader and n :: nat
  assume r: "before r (cbor_head 0xA0 k @ rest) d" and k: "k \<le> array_max_size"
  then have big: "k < 2 ^ 64" "k \<noteq> no_length" by (simp_all add: array_max_size_def no_length_def)
  from container_head [OF r big(1)] obtain b r1 where "last_byte (get_byte r) = Some b" "0xA0 \<le> b" "b \<le> 0xBB"
    "cbor_length b (get_byte r) = Inr (k, r1)" "before r1 rest d" by auto
  with big(2) show "\<exists>r1. before r1 rest d \<and> parse_cbor (Suc n) h True r =
      res_bind (sax_start_object k r1) (\<lambda>r. res_bind (cbor_members n h (Some k) r) (\<lambda>r. Inr (sax_end r)))"
    by (intro exI [of _ r1]) (simp add: parse_cbor.simps cbor_switch_defs announced_def)
qed

lemma cbor_elements_concat: "write_cbor_elements vs = concat (map write_cbor vs)"
  by (induction vs) simp_all

lemma cbor_members_concat:
  "write_cbor_members ms = concat (map (\<lambda>(k, v). (cbor_head 0x60 (length k) @ k) @ write_cbor v) ms)"
  by (induction ms) auto

lemma object_below_array: "object_max_size \<le> array_max_size"
  by (simp add: object_max_size_def array_max_size_def)

lemma cbor_leaf_reads:
  assumes "\<not> is_structured j" "cbor_fits h j \<and> one_nan j = j"
  shows "cbor_reads h (write_cbor j) (canon j)"
proof (cases j)
  case (JInt n)
  with assms have n: "- (2 ^ 63) \<le> n" "n < 2 ^ 63" by (simp_all add: in_i64_def i64_min_def i64_max_def)
  show ?thesis
  proof (cases "0 \<le> n")
    case True
    with n reads_number [of "nat n" h] JInt show ?thesis by simp
  next
    case False
    with n reads_negative_number [of "nat (- 1 - n)" h] JInt show ?thesis by simp
  qed
next
  case (JUnsigned n)
  with assms have "0 \<le> n" "nat n < 2 ^ 64" by (auto simp: u64_max_def)
  with reads_number [of "nat n" h] JUnsigned show ?thesis by simp
next
  case (JBinary bs t)
  with assms reads_binary [of bs h] reads_tagged [of bs "the t"] show ?thesis
    by (cases t) (auto simp: tags_ok_def cbor_binary_def)
next
  case (JFloat x)
  with assms(2) have "is_nan x \<longrightarrow> x = the_nan" by auto
  with JFloat reads_double [of x h] show ?thesis by simp
qed (use assms(1) conjunct1 [OF assms(2)] reads_literals reads_string in \<open>auto simp: type_defs\<close>)

lemma one_nan_parts:
  "one_nan (JArray vs) = JArray vs \<Longrightarrow> v \<in> set vs \<Longrightarrow> one_nan v = v"
  "one_nan (JObject ms) = JObject ms \<Longrightarrow> (k, v) \<in> set ms \<Longrightarrow> one_nan v = v"
  using map_eq_conv [of one_nan vs "\<lambda>v. v"] map_eq_conv [of "map_prod id one_nan" ms "\<lambda>m. m"] by auto

interpretation cbor_writer: counted_writer "\<lambda>n. parse_cbor n h True" get_cbor_string
  "\<lambda>n k. cbor_elements n h (Some k)" "\<lambda>n k. cbor_members n h (Some k)" "cbor_head 0x80" "cbor_head 0xA0"
  "\<lambda>k. cbor_head 0x60 (length k) @ k" "\<lambda>k. k \<le> array_max_size" text_fits write_cbor
  "\<lambda>j. cbor_fits h j \<and> one_nan j = j" for h
proof unfold_locales
  fix vs ms
  show "write_cbor (JArray vs) = cbor_head 0x80 (length vs) @ concat (map write_cbor vs)"
    by (simp add: cbor_elements_concat)
  show "write_cbor (JObject ms) = cbor_head 0xA0 (length ms) @
      concat (map (\<lambda>(k, v). (cbor_head 0x60 (length k) @ k) @ write_cbor v) ms)"
    by (simp add: cbor_members_concat)
  show "cbor_fits h (JArray vs) \<and> one_nan (JArray vs) = JArray vs \<Longrightarrow>
      length vs \<le> array_max_size \<and> length vs \<le> array_max_size \<and> (\<forall>v \<in> set vs. cbor_fits h v \<and> one_nan v = v)"
    using one_nan_parts(1) by (auto simp: list_all_iff simp del: one_nan.simps)
  show "cbor_fits h (JObject ms) \<and> one_nan (JObject ms) = JObject ms \<Longrightarrow>
      length ms \<le> object_max_size \<and> length ms \<le> array_max_size \<and>
      obj_ok ms \<and> (\<forall>(k, v) \<in> set ms. text_fits k \<and> cbor_fits h v \<and> one_nan v = v)"
    using object_below_array one_nan_parts(2) by (auto simp: list_all_iff simp del: one_nan.simps)
qed (rule cbor_leaf_reads)

text \<open>Writing does not see which NaN it writes.\<close>

lemma write_one_nan: "write_cbor (one_nan j) = write_cbor j"
proof (induction j rule: json_induct)
  case (object ms)
  then have "concat (map (\<lambda>(k, v). (cbor_head 0x60 (length k) @ k) @ write_cbor v) (map (map_prod id one_nan) ms)) =
      concat (map (\<lambda>(k, v). (cbor_head 0x60 (length k) @ k) @ write_cbor v) ms)"
    by (intro arg_cong [where f = concat]) (auto simp: o_def)
  then show ?case by (simp add: cbor_members_concat)
next
  case (array vs)
  then have "map (write_cbor \<circ> one_nan) vs = map write_cbor vs" by simp
  then show ?case by (simp only: one_nan.simps write_cbor.simps cbor_elements_concat map_map length_map)
next
  case (other j)
  then show ?case by (cases j) (auto simp: type_defs cbor_float_def the_nan_def is_nan_def)
qed

lemma one_nan_fits: "cbor_fits h j \<Longrightarrow> cbor_fits h (one_nan j) \<and> one_nan (one_nan j) = one_nan j"
proof (induction j rule: json_induct)
  case (object ms)
  have "cbor_fits h (one_nan v) \<and> one_nan (one_nan v) = one_nan v" if "(k, v) \<in> set ms" for k v
    using object that by (auto simp: list_all_iff)
  moreover have "map fst (map (map_prod id one_nan) ms) = map fst ms" by simp
  ultimately show ?case using object.prems by (auto simp: obj_ok_def list_all_iff)
next
  case (array vs)
  then show ?case by (simp add: list_all_iff)
next
  case (other j)
  then show ?case by (cases j) (auto simp: type_defs)
qed

lemma from_written_cbor:
  assumes "cbor_fits h j"
  shows "from_cbor (to_cbor j) True allow h = Inr (canon (one_nan j))"
proof -
  let ?j = "one_nan j"
  let ?r = "new_reader (write_cbor ?j)"
  let ?d = "built ?r"
  have "before ?r (write_cbor ?j @ []) ?d" by (simp add: before_def new_reader_def)
  from reads_valueD [OF cbor_writer.written_reads [OF one_nan_fits [OF assms]] _ this, of "2 * length (write_cbor ?j) + 4"]
  obtain r where "parse_cbor (2 * length (write_cbor ?j) + 4) h True ?r = Inr r"
    "before r [] (handle_value (canon ?j) ?d)" by auto
  then show ?thesis
    unfolding to_cbor_def write_one_nan [of j, symmetric]
    by (simp add: from_cbor_def expect_end_def before_def parsed_def new_reader_def handle_value_def)
qed

section \<open>The fuel is enough\<close>

lemma leaves_cbor_length: "leaves pair_left (ahead_of r) (cbor_length b r)"
  by (simp add: cbor_length_def leaves_get_number)

text \<open>A string needs twice the bytes ahead and three, or one when the input has ended.\<close>

abbreviation string_fuel :: "binary_reader \<Rightarrow> nat" where
  "string_fuel r \<equiv> (if last_byte r = None then 1 else 2 * ahead_of r + 3)"

lemma leaves_cbor_bytes:
  "string_fuel r \<le> n \<Longrightarrow> leaves pair_left (ahead_of r) (cbor_bytes base place hint n r)"
  "string_fuel r + 1 \<le> n \<Longrightarrow> leaves pair_left (ahead_of r) (cbor_chunks base place hint n result r)"
proof (induction n arbitrary: r result)
  case 0
  {
    case 1
    then show ?case by (simp split: if_splits)
  next
    case 2
    then show ?case by simp
  }
next
  case (Suc n)
  {
    case 1
    show ?case
    proof (cases "last_byte r")
      case None
      then show ?thesis by (simp add: cbor_bytes.simps unexpect_eof_def)
    next
      case (Some b)
      have "leaves pair_left (ahead_of r) (res_bind (cbor_length b r) (\<lambda>(len, r). get_bytes Cbor place len r))"
        by (rule leaves_bind [OF leaves_cbor_length])
          (auto split: prod.splits intro: leaves_mono [OF leaves_get_bytes])
      moreover have "string_fuel (get_byte r) + 1 \<le> n" using 1 Some by (auto split: list.splits)
      from Suc.IH(2) [OF this]
      have "leaves pair_left (ahead_of r) (cbor_chunks base place hint n [] (get_byte r))"
        by (rule leaves_mono) simp
      ultimately show ?thesis using Some by (simp add: cbor_bytes.simps unexpect_eof_def)
    qed
  next
    case 2
    have "string_fuel r \<le> n" using 2 by simp
    note b = Suc.IH(1) [OF this]
    have "leaves pair_left (ahead_of r) (res_bind (cbor_bytes base place hint n r)
        (\<lambda>(chunk, r1). cbor_chunks base place hint n (result @ chunk) (get_byte r1)))"
    proof (cases "last_byte r")
      case None
      then have "\<exists>e. cbor_bytes base place hint n r = Inl e \<and> e \<noteq> out_of_fuel"
        using \<open>string_fuel r \<le> n\<close> by (cases n) (simp_all add: cbor_bytes.simps unexpect_eof_def)
      then show ?thesis by auto
    next
      case (Some c)
      show ?thesis
      proof (rule leaves_bind [OF b])
        fix y :: "string \<times> binary_reader" assume "pair_left y \<le> ahead_of r"
        then have "ahead_of (snd y) \<le> ahead_of r" by (cases y) simp
        with 2 Some have "string_fuel (get_byte (snd y)) + 1 \<le> n" by (auto split: list.splits)
        from leaves_mono [OF Suc.IH(2) [OF this], of "ahead_of r"] \<open>ahead_of (snd y) \<le> ahead_of r\<close>
        show "leaves pair_left (ahead_of r)
            (case y of (chunk, r1) \<Rightarrow> cbor_chunks base place hint n (result @ chunk) (get_byte r1))"
          by (auto simp: case_prod_unfold)
      qed
    qed
    then show ?case by (simp add: cbor_chunks.simps)
  }
qed

lemma leaves_string:
  "string_fuel r \<le> n \<Longrightarrow> leaves pair_left (ahead_of r) (get_cbor_string n r)"
  "string_fuel r \<le> n \<Longrightarrow> leaves pair_left (ahead_of r) (get_cbor_binary n r)"
  unfolding get_cbor_string_def get_cbor_binary_def by (rule leaves_cbor_bytes(1); simp)+

lemma leaves_tagged:
  assumes "2 * ahead_of r + 3 \<le> n"
  shows "leaves ahead_of (ahead_of r) (res_bind (get_number Cbor False k r) (\<lambda>(subtype, r).
    res_bind (get_cbor_binary n (get_byte r)) (\<lambda>(bs, r). emit (binary_value (Some subtype) bs) r)))"
proof (rule leaves_pair [OF leaves_get_number])
  fix t and r1 :: binary_reader
  assume r1: "ahead_of r1 \<le> ahead_of r"
  with assms have "string_fuel (get_byte r1) \<le> n" by (auto split: list.splits)
  from leaves_string(2) [OF this] have "leaves pair_left (ahead_of r) (get_cbor_binary n (get_byte r1))"
    by (rule leaves_mono) (use r1 in simp)
  then show "leaves ahead_of (ahead_of r) (res_bind (get_cbor_binary n (get_byte r1))
      (\<lambda>(bs, r). emit (binary_value (Some t) bs) r))" by (rule leaves_emit_pair)
qed

lemma switch_leaves:
  assumes "2 * ahead_of r + 3 \<le> n"
  shows "action_leaves (ahead_of r) (cbor_switch n h b r)"
proof -
  have s: "string_fuel r \<le> n" using assms by simp
  have ignored: "leaves ahead_of (ahead_of r) (res_bind (get_number Cbor False k r) (\<lambda>(subtype, r). Inr r))" for k
    by (rule leaves_pair [OF leaves_get_number]) simp
  note parts = leaves_emit leaves_emit_pair [OF leaves_cbor_length] leaves_emit_pair [OF leaves_get_number]
    leaves_emit_pair [OF leaves_string(1) [OF s]] leaves_emit_pair [OF leaves_string(2) [OF s]]
    leaves_tagged [OF assms] leaves_cbor_length ignored
  show ?thesis by (simp add: cbor_switch_defs parts split: cbor_tag_handler.split)
qed

lemma parse_cbor_ended:
  assumes "0 < n" "last_byte (if g then get_byte r else r) = None"
  shows "\<exists>e. parse_cbor n h g r = Inl e \<and> e \<noteq> out_of_fuel"
  using assms by (cases n) (simp_all add: parse_cbor.simps unexpect_eof_def Let_def)

lemma get_cbor_string_ended:
  assumes "0 < n" "last_byte r = None"
  shows "\<exists>e. get_cbor_string n r = Inl e \<and> e \<noteq> out_of_fuel"
  using assms by (cases n) (simp_all add: get_cbor_string_def cbor_bytes.simps unexpect_eof_def)

text \<open>A value that is yet to be read takes a byte; a loop ends with the bytes.\<close>

lemma parse_leaves:
  "2 * ahead_of r + 2 \<le> n \<Longrightarrow> leaves ahead_of (ahead_of r - 1) (parse_cbor n h True r)"
  "last_byte r \<noteq> None \<Longrightarrow> 2 * ahead_of r + 4 \<le> n \<Longrightarrow> leaves ahead_of (ahead_of r) (parse_cbor n h False r)"
  "2 * ahead_of r + 3 \<le> n \<Longrightarrow> leaves ahead_of (ahead_of r) (cbor_elements n h left r)"
  "2 * ahead_of r + 3 \<le> n \<Longrightarrow> leaves ahead_of (ahead_of r) (cbor_members n h left r)"
proof (induction n arbitrary: r left)
  case 0
  {
    case 1 then show ?case by simp
  next
    case 2 then show ?case by simp
  next
    case 3 then show ?case by simp
  next
    case 4 then show ?case by simp
  }
next
  case (Suc n)
  have body: "leaves ahead_of (ahead_of r) (case cbor_switch n h b r of
             Complete result \<Rightarrow> result
           | Array_of sized \<Rightarrow>
               res_bind sized (\<lambda>(len, r).
               res_bind (sax_start_array len r) (\<lambda>r.
               res_bind (cbor_elements n h (announced len) r) (\<lambda>r. Inr (sax_end r))))
           | Object_of sized \<Rightarrow>
               res_bind sized (\<lambda>(len, r).
               res_bind (sax_start_object len r) (\<lambda>r.
               res_bind (cbor_members n h (announced len) r) (\<lambda>r. Inr (sax_end r))))
           | Again ready \<Rightarrow> res_bind ready (\<lambda>r. parse_cbor n h True r))"
    if n: "2 * ahead_of r + 3 \<le> n" for r b
  proof -
    note a = switch_leaves [OF n, of h b]
    show ?thesis
    proof (cases "cbor_switch n h b r")
      case (Complete x)
      with a show ?thesis by simp
    next
      case (Array_of x)
      with a have "leaves pair_left (ahead_of r) x" by simp
      from leaves_container [OF this leaves_start(1), of "\<lambda>len. cbor_elements n h (announced len)"] Suc.IH(3) n Array_of
      show ?thesis by simp
    next
      case (Object_of x)
      with a have "leaves pair_left (ahead_of r) x" by simp
      from leaves_container [OF this leaves_start(2), of "\<lambda>len. cbor_members n h (announced len)"] Suc.IH(4) n Object_of
      show ?thesis by simp
    next
      case (Again x)
      with a have "leaves ahead_of (ahead_of r) x" by simp
      then have "leaves ahead_of (ahead_of r) (res_bind x (parse_cbor n h True))"
      proof (rule leaves_bind)
        fix r1 assume "ahead_of r1 \<le> ahead_of r"
        with n Suc.IH(1) [of r1] show "leaves ahead_of (ahead_of r) (parse_cbor n h True r1)"
          by (auto elim: leaves_mono)
      qed
      with Again show ?thesis by simp
    qed
  qed
  {
    case 1
    show ?case
    proof (cases "bytes_left r")
      case Nil
      with parse_cbor_ended [of "Suc n" True r h] show ?thesis by auto
    next
      case (Cons c cs)
      with 1 body [of "get_byte r" "of_char c"] show ?thesis by (simp add: parse_cbor.simps)
    qed
  next
    case 2
    with body [of r "the (last_byte r)"] show ?case by (auto simp: parse_cbor.simps)
  next
    case 3
    have item: "leaves ahead_of (ahead_of r) (res_bind (parse_cbor n h True r) (\<lambda>r. cbor_elements n h left' r))" for left'
    proof (cases "bytes_left r")
      case Nil
      with parse_cbor_ended [of n True r h] 3 show ?thesis by auto
    next
      case (Cons c cs)
      with 3 have "2 * ahead_of r + 2 \<le> n" by simp
      from Suc.IH(1) [OF this] show ?thesis
        by (rule leaves_bind) (use 3 Cons in \<open>auto intro: leaves_mono [OF Suc.IH(3) [of _ left']]\<close>)
    qed
    have after: "leaves ahead_of (ahead_of r) (res_bind (parse_cbor n h False (get_byte r)) (\<lambda>r. cbor_elements n h None r))"
    proof (cases "bytes_left r")
      case Nil
      with parse_cbor_ended [of n False "get_byte r" h] 3 show ?thesis by auto
    next
      case (Cons c cs)
      with 3 have "last_byte (get_byte r) \<noteq> None" "2 * ahead_of (get_byte r) + 4 \<le> n" by simp_all
      from Suc.IH(2) [OF this] show ?thesis
        by (rule leaves_bind) (use 3 Cons in \<open>auto intro: leaves_mono [OF Suc.IH(3) [of _ None]]\<close>)
    qed
    from item after show ?case by (auto simp: cbor_elements.simps Let_def split: option.split)
  next
    case 4
    have "leaves ahead_of (ahead_of r) (res_bind (get_cbor_string n (get_byte r)) (\<lambda>(key, r2).
      res_bind (parse_cbor n h True (sax_key key r2)) (\<lambda>r3. cbor_members n h left' r3)))" for left'
    proof (cases "bytes_left r")
      case Nil
      with get_cbor_string_ended [of n "get_byte r"] 4 show ?thesis by auto
    next
      case (Cons c cs)
      with 4 have "string_fuel (get_byte r) \<le> n" by simp
      from leaves_string(1) [OF this] show ?thesis
      proof (rule leaves_pair)
        fix key r2 assume r2: "ahead_of r2 \<le> ahead_of (get_byte r)"
        then have "2 * ahead_of (sax_key key r2) + 2 \<le> n" using 4 Cons by (simp add: sax_key_def)
        from Suc.IH(1) [OF this] show "leaves ahead_of (ahead_of r) (res_bind (parse_cbor n h True (sax_key key r2)) (\<lambda>r3. cbor_members n h left' r3))"
          by (rule leaves_bind) (use 4 r2 Cons in \<open>auto simp: sax_key_def intro: leaves_mono [OF Suc.IH(4) [of _ left']]\<close>)
      qed
    qed
    then show ?case by (auto simp: cbor_members.simps Let_def)
  }
qed

lemma from_cbor_total: "from_cbor bytes strict allow h \<noteq> Inl out_of_fuel"
proof -
  let ?r = "new_reader bytes"
  have "leaves ahead_of (ahead_of ?r - 1) (parse_cbor (2 * length bytes + 4) h True ?r)"
    by (rule parse_leaves(1)) (simp add: new_reader_def)
  moreover have "expect_end Cbor strict r \<noteq> Inl out_of_fuel" for r
    by (simp add: expect_end_def Let_def)
  ultimately show ?thesis
    by (cases "parse_cbor (2 * length bytes + 4) h True ?r") (auto simp: from_cbor_def parsed_def split: sum.split)
qed

section \<open>Properties\<close>

lemma cbor_wraps:
  assumes "2 ^ 63 \<le> N" "N < 2 ^ 64"
  shows "from_cbor (cbor_head 0x20 N) True allow h = Inr (JInt (2 ^ 64 - 1 - int N))"
proof -
  let ?t = "cbor_head 0x20 N"
  define r where "r = new_reader ?t"
  have r: "before r (?t @ []) (built r)" by (simp add: r_def before_def new_reader_def)
  from cbor_head_reads [OF this assms(2)] obtain b r1 where b: "last_byte (get_byte r) = Some b" "0x20 \<le> b" "b \<le> 0x3B"
    "cbor_length b (get_byte r) = Inr (N, r1)" "before r1 [] (built r)" by auto
  have N: "(2 :: int) ^ 63 \<le> int N" "int N < 2 ^ 64" using assms by simp_all
  have "(int N + 2 ^ 63) mod 2 ^ 64 = (int N + 2 ^ 63 - 2 ^ 64 + 2 ^ 64) mod 2 ^ 64" by (simp add: add.commute)
  also have "\<dots> = (int N + 2 ^ 63 - 2 ^ 64) mod 2 ^ 64" by (rule mod_add_self2)
  also have "\<dots> = int N + 2 ^ 63 - 2 ^ 64"
    by (rule mod_pos_pos_trivial) (use N in simp_all)
  finally have "wrap 64 (int N) = int N - 2 ^ 64" unfolding wrap_def by simp
  then have "cbor_switch n h b (get_byte r) = Complete (emit (JInt (2 ^ 64 - 1 - int N)) r1)" for n
    using b by (simp add: cbor_switch_defs)
  with b(1) have "parse_cbor (2 * length ?t + 4) h True r = emit (JInt (2 ^ 64 - 1 - int N)) r1"
    by (simp add: parse_cbor.simps numeral_eq_Suc)
  with b(5) show ?thesis
    by (simp add: from_cbor_def r_def emit_def expect_end_def parsed_def before_def new_reader_def handle_value_def)
qed

text \<open>C37. CBOR reads back what it writes: every value with sizes the library can announce, integers of
  their types, objects in the map's order and byte strings whose subtype the reader is told to
  store comes back as it was, doubles bit for bit and at either width except that every NaN comes
  back as the one quiet NaN (\<open>one_nan\<close>), non-negative integers as unsigned ones (\<open>canon\<close>). The
  reader needs no more than its fuel for it, takes all the bytes, and nesting is of any depth.\<close>

theorem cbor_roundtrip:
  assumes "cbor_fits h j"
  shows "from_cbor (to_cbor j) True allow h = Inr (canon (one_nan j))"
  using assms by (rule from_written_cbor)

definition demo_binary :: json where
  "demo_binary = JObject [(''a'', JArray [JInt (- 500), JNull, JString ''x'']), (''b'', JBinary [1, 255] (Some 7)),
     (''c'', JUnsigned 70000), (''d'', JFloat 0x3FB999999999999A), (''e'', JBool False)]"

lemma demo_binary_fits:
  "obj_ok [(''a'', JArray [JInt (- 500), JNull, JString ''x'']), (''b'', JBinary [1, 255] (Some 7)),
     (''c'', JUnsigned 70000), (''d'', JFloat 0x3FB999999999999A), (''e'', JBool False)]"
  "\<not> is_nan 0x3FB999999999999A"
  by (simp_all add: obj_ok_def is_nan_def mag_of_def)

theorem cbor_roundtrip_witness: "from_cbor (to_cbor demo_binary) True True Tag_store = Inr demo_binary"
proof -
  have "cbor_fits Tag_store demo_binary"
    using demo_binary_fits by (simp add: demo_binary_def tags_ok_def text_fits_def in_i64_def i64_min_def i64_max_def
        u64_max_def array_max_size_def object_max_size_def)
  from cbor_roundtrip [OF this, of True] show ?thesis using demo_binary_fits(2) by (simp add: demo_binary_def)
qed

text \<open>C40. The CBOR reader always ends with the end of its input: whatever the bytes, with indefinite
  lengths, nested chunks and tags, twice the bytes and four rounds are enough.\<close>

theorem from_cbor_fuel: "from_cbor bytes strict allow h \<noteq> Inl out_of_fuel"
  by (rule from_cbor_total)

text \<open>A negative CBOR integer below the range of \<open>int64_t\<close> is not refused: it comes out as the
  non-negative number \<open>2 ^ 64\<close> above it.\<close>

theorem cbor_negative_wraps:
  assumes "2 ^ 63 \<le> N" "N < 2 ^ 64"
  shows "from_cbor (cbor_head 0x20 N) True allow h = Inr (JInt (2 ^ 64 - 1 - int N))"
  using assms by (rule cbor_wraps)

theorem cbor_negative_wraps_witness:
  "from_cbor (cbor_head 0x20 (2 ^ 64 - 1)) True True Tag_error = Inr (JInt 0)"
  using cbor_negative_wraps [of "2 ^ 64 - 1" True Tag_error] by simp

end
