(* ===== verification/Msgpack.thy ===== *)
theory Msgpack
  imports Binary
begin

text \<open>
  MessagePack: \<open>binary_writer::write_msgpack\<close> and \<open>binary_reader::parse_msgpack_internal\<close> with what
  it calls (\<open>src/cpp/include/nlohmann/json.hpp\<close>). The reader's nested loops run on fuel that is
  never used up (\<open>from_msgpack_fuel\<close>).
\<close>

section \<open>Writing\<close>

definition msgpack_unsigned :: "nat \<Rightarrow> string" where
  "msgpack_unsigned n =
     (if n < 128 then write_number False 1 (int n)
      else if n \<le> 0xFF then char_of (0xCC :: nat) # write_number False 1 (int n)
      else if n \<le> 0xFFFF then char_of (0xCD :: nat) # write_number False 2 (int n)
      else if n \<le> 0xFFFFFFFF then char_of (0xCE :: nat) # write_number False 4 (int n)
      else char_of (0xCF :: nat) # write_number False 8 (int n))"

definition msgpack_negative :: "int \<Rightarrow> string" where
  "msgpack_negative n =
     (if - 32 \<le> n then write_number False 1 n
      else if - (2 ^ 7) \<le> n then char_of (0xD0 :: nat) # write_number False 1 n
      else if - (2 ^ 15) \<le> n then char_of (0xD1 :: nat) # write_number False 2 n
      else if - (2 ^ 31) \<le> n then char_of (0xD2 :: nat) # write_number False 4 n
      else char_of (0xD3 :: nat) # write_number False 8 n)"

text \<open>What is written in front of more than \<open>2 ^ 32 - 1\<close> characters, bytes, elements or members: nothing.\<close>

definition msgpack_string_head :: "nat \<Rightarrow> string" where
  "msgpack_string_head N =
     (if N \<le> 31 then write_number False 1 (int (0xA0 + N))
      else if N \<le> 0xFF then char_of (0xD9 :: nat) # write_number False 1 (int N)
      else if N \<le> 0xFFFF then char_of (0xDA :: nat) # write_number False 2 (int N)
      else if N \<le> 0xFFFFFFFF then char_of (0xDB :: nat) # write_number False 4 (int N)
      else [])"

definition msgpack_array_head :: "nat \<Rightarrow> string" where
  "msgpack_array_head N =
     (if N \<le> 15 then write_number False 1 (int (0x90 + N))
      else if N \<le> 0xFFFF then char_of (0xDC :: nat) # write_number False 2 (int N)
      else if N \<le> 0xFFFFFFFF then char_of (0xDD :: nat) # write_number False 4 (int N)
      else [])"

definition msgpack_object_head :: "nat \<Rightarrow> string" where
  "msgpack_object_head N =
     (if N \<le> 15 then write_number False 1 (int (0x80 + N))
      else if N \<le> 0xFFFF then char_of (0xDE :: nat) # write_number False 2 (int N)
      else if N \<le> 0xFFFFFFFF then char_of (0xDF :: nat) # write_number False 4 (int N)
      else [])"

text \<open>The fixext types carry a subtype and 1, 2, 4, 8 or 16 bytes.\<close>

definition fixext :: "nat \<Rightarrow> nat option" where
  "fixext N = (if N = 1 then Some 0xD4 else if N = 2 then Some 0xD5 else if N = 4 then Some 0xD6
     else if N = 8 then Some 0xD7 else if N = 16 then Some 0xD8 else None)"

definition msgpack_binary_head :: "bool \<Rightarrow> nat \<Rightarrow> string" where
  "msgpack_binary_head use_ext N =
     (if N \<le> 0xFF then
        (if use_ext then
           (case fixext N of
              Some output_type \<Rightarrow> [char_of output_type]
            | None \<Rightarrow> char_of (0xC7 :: nat) # write_number False 1 (int N))
         else char_of (0xC4 :: nat) # write_number False 1 (int N))
      else if N \<le> 0xFFFF then char_of (if use_ext then 0xC8 else 0xC5 :: nat) # write_number False 2 (int N)
      else if N \<le> 0xFFFFFFFF then char_of (if use_ext then 0xC9 else 0xC6 :: nat) # write_number False 4 (int N)
      else [])"

definition msgpack_binary :: "nat list \<Rightarrow> nat option \<Rightarrow> string" where
  "msgpack_binary bs t = msgpack_binary_head (t \<noteq> None) (length bs) @
     (case t of None \<Rightarrow> [] | Some k \<Rightarrow> write_number False 1 (int k)) @ map char_of bs"

fun write_msgpack :: "json \<Rightarrow> string"
and write_msgpack_elements :: "json list \<Rightarrow> string"
and write_msgpack_members :: "(string \<times> json) list \<Rightarrow> string" where
  "write_msgpack JNull = [char_of (0xC0 :: nat)]"
| "write_msgpack (JBool b) = [char_of (if b then 0xC3 else 0xC2 :: nat)]"
| "write_msgpack (JInt n) = (if 0 \<le> n then msgpack_unsigned (nat n) else msgpack_negative n)"
| "write_msgpack (JUnsigned n) = msgpack_unsigned (nat n)"
| "write_msgpack (JFloat x) = write_compact_float Msgpack x"
| "write_msgpack (JString s) = msgpack_string_head (length s) @ s"
| "write_msgpack (JArray vs) = msgpack_array_head (length vs) @ write_msgpack_elements vs"
| "write_msgpack (JBinary bs t) = msgpack_binary bs t"
| "write_msgpack (JObject ms) = msgpack_object_head (length ms) @ write_msgpack_members ms"
| "write_msgpack JDiscarded = []"
| "write_msgpack_elements [] = []"
| "write_msgpack_elements (v # vs) = write_msgpack v @ write_msgpack_elements vs"
| "write_msgpack_members [] = []"
| "write_msgpack_members ((k, v) # ms) =
     (msgpack_string_head (length k) @ k) @ write_msgpack v @ write_msgpack_members ms"

definition to_msgpack :: "json \<Rightarrow> string" where
  "to_msgpack j = write_msgpack j"

section \<open>Reading\<close>

definition get_msgpack_string :: "binary_reader \<Rightarrow> (string \<times> binary_reader) res" where
  "get_msgpack_string r0 =
     res_bind (unexpect_eof Msgpack ''string'' r0) (\<lambda>r.
       let b = the (last_byte r) in
       if 0xA0 \<le> b \<and> b \<le> 0xBF then get_bytes Msgpack ''string'' (b mod 32) r
       else if 0xD9 \<le> b \<and> b \<le> 0xDB then
         res_bind (get_number Msgpack False (2 ^ (b - 0xD9)) r) (\<lambda>(len, r). get_bytes Msgpack ''string'' len r)
       else Inl (byte_error 113 r (binary_exception_message Msgpack
              (''expected length specification (0xA0-0xBF, 0xD9-0xDB); last byte: 0x'' @ binary_token_string r) ''string'')))"

text \<open>
  The switch of \<open>get_msgpack_binary\<close> over the byte \<open>b\<close>, one of C4 to C9 and D4 to D8. A subtype is read
  as a signed byte and stored as an unsigned one.
\<close>

definition msgpack_ext :: "nat \<Rightarrow> binary_reader \<Rightarrow> binary_reader res" where
  "msgpack_ext len r =
     res_bind (get_number Msgpack False 1 r) (\<lambda>(subtype, r).
     res_bind (get_bytes Msgpack ''binary'' len r) (\<lambda>(bs, r). emit (JBinary (map of_char bs) (Some subtype)) r))"

definition get_msgpack_binary :: "nat \<Rightarrow> binary_reader \<Rightarrow> binary_reader res" where
  "get_msgpack_binary b r =
     (if b \<le> 0xC6 then
        res_bind (get_number Msgpack False (2 ^ (b - 0xC4)) r) (\<lambda>(len, r).
        res_bind (get_bytes Msgpack ''binary'' len r) (\<lambda>(bs, r). emit (JBinary (map of_char bs) None) r))
      else if b \<le> 0xC9 then
        res_bind (get_number Msgpack False (2 ^ (b - 0xC7)) r) (\<lambda>(len, r). msgpack_ext len r)
      else msgpack_ext (2 ^ (b - 0xD4)) r)"

text \<open>The numbers of the switch of \<open>parse_msgpack_internal\<close>: floats, unsigned and signed integers.\<close>

definition msgpack_number :: "nat \<Rightarrow> binary_reader \<Rightarrow> binary_reader res" where
  "msgpack_number b r =
     (if b = 0xCA then
        res_bind (get_number Msgpack False 4 r) (\<lambda>(k, r). emit (JFloat (of_float (word_of_nat k))) r)
      else if b = 0xCB then
        res_bind (get_number Msgpack False 8 r) (\<lambda>(k, r). emit (JFloat (word_of_nat k)) r)
      else if b \<le> 0xCF then
        res_bind (get_number Msgpack False (2 ^ (b - 0xCC)) r) (\<lambda>(k, r). emit (JUnsigned (int k)) r)
      else
        res_bind (get_number Msgpack False (2 ^ (b - 0xD0)) r) (\<lambda>(k, r).
          emit (JInt (wrap (8 * 2 ^ (b - 0xD0)) (int k))) r))"

definition msgpack_switch :: "nat \<Rightarrow> binary_reader \<Rightarrow> action" where
  "msgpack_switch b r =
     (if b \<le> 0x7F then Complete (emit (JUnsigned (int b)) r)
      else if b \<le> 0x8F then Object_of (Inr (b mod 16, r))
      else if b \<le> 0x9F then Array_of (Inr (b mod 16, r))
      else if b \<le> 0xBF \<or> (0xD9 \<le> b \<and> b \<le> 0xDB) then
        Complete (res_bind (get_msgpack_string r) (\<lambda>(s, r). emit (JString s) r))
      else if b = 0xC0 then Complete (emit JNull r)
      else if b = 0xC2 then Complete (emit (JBool False) r)
      else if b = 0xC3 then Complete (emit (JBool True) r)
      else if (0xC4 \<le> b \<and> b \<le> 0xC9) \<or> (0xD4 \<le> b \<and> b \<le> 0xD8) then Complete (get_msgpack_binary b r)
      else if 0xCA \<le> b \<and> b \<le> 0xD3 then Complete (msgpack_number b r)
      else if b = 0xDC \<or> b = 0xDD then Array_of (get_number Msgpack False (2 ^ (b - 0xDB)) r)
      else if b = 0xDE \<or> b = 0xDF then Object_of (get_number Msgpack False (2 ^ (b - 0xDD)) r)
      else if 0xE0 \<le> b then Complete (emit (JInt (wrap 8 (int b))) r)
      else Complete (Inl (invalid_byte Msgpack r)))"

fun parse_msgpack :: "nat \<Rightarrow> binary_reader \<Rightarrow> binary_reader res"
and msgpack_elements :: "nat \<Rightarrow> nat \<Rightarrow> binary_reader \<Rightarrow> binary_reader res"
and msgpack_members :: "nat \<Rightarrow> nat \<Rightarrow> binary_reader \<Rightarrow> binary_reader res" where
  "parse_msgpack 0 r0 = Inl out_of_fuel"
| "parse_msgpack (Suc n) r0 =
     (let r = get_byte r0 in
      case last_byte r of
        None \<Rightarrow> unexpect_eof Msgpack ''value'' r
      | Some b \<Rightarrow>
          (case msgpack_switch b r of
             Complete result \<Rightarrow> result
           | Array_of sized \<Rightarrow>
               res_bind sized (\<lambda>(len, r).
               res_bind (sax_start_array len r) (\<lambda>r.
               res_bind (msgpack_elements n len r) (\<lambda>r. Inr (sax_end r))))
           | Object_of sized \<Rightarrow>
               res_bind sized (\<lambda>(len, r).
               res_bind (sax_start_object len r) (\<lambda>r.
               res_bind (msgpack_members n len r) (\<lambda>r. Inr (sax_end r))))
           | Again ready \<Rightarrow> ready))"
| "msgpack_elements 0 k r = Inl out_of_fuel"
| "msgpack_elements (Suc n) k r =
     (if k = 0 then Inr r
      else res_bind (parse_msgpack n r) (\<lambda>r. msgpack_elements n (k - 1) r))"
| "msgpack_members 0 k r = Inl out_of_fuel"
| "msgpack_members (Suc n) k r =
     (if k = 0 then Inr r
      else res_bind (get_msgpack_string (get_byte r)) (\<lambda>(key, r2).
           res_bind (parse_msgpack n (sax_key key r2)) (\<lambda>r3. msgpack_members n (k - 1) r3)))"

declare parse_msgpack.simps [simp del] msgpack_elements.simps [simp del] msgpack_members.simps [simp del]

definition from_msgpack :: "string \<Rightarrow> bool \<Rightarrow> bool \<Rightarrow> json res" where
  "from_msgpack bytes strict allow_exceptions =
     parsed allow_exceptions
       (res_bind (parse_msgpack (2 * length bytes + 4) (new_reader bytes)) (expect_end Msgpack strict))"
section \<open>What is written is read\<close>

text \<open>The values MessagePack can carry: sizes below \<open>2 ^ 32\<close>, integers in range, subtypes of a byte.\<close>

definition msgpack_text_fits :: "string \<Rightarrow> bool" where
  "msgpack_text_fits s \<longleftrightarrow> length s < 2 ^ 32"

fun msgpack_fits :: "json \<Rightarrow> bool" where
  "msgpack_fits (JObject ms) \<longleftrightarrow> obj_ok ms \<and> length ms < 2 ^ 32 \<and>
     list_all (\<lambda>(k, v). msgpack_text_fits k \<and> msgpack_fits v) ms"
| "msgpack_fits (JArray vs) \<longleftrightarrow> length vs < 2 ^ 32 \<and> list_all msgpack_fits vs"
| "msgpack_fits (JInt n) \<longleftrightarrow> in_i64 n"
| "msgpack_fits (JUnsigned n) \<longleftrightarrow> 0 \<le> n \<and> n \<le> u64_max"
| "msgpack_fits (JString s) \<longleftrightarrow> msgpack_text_fits s"
| "msgpack_fits (JFloat x) \<longleftrightarrow> True"
| "msgpack_fits (JBinary bs t) \<longleftrightarrow> length bs < 2 ^ 32 \<and> list_all (\<lambda>b. b < 256) bs \<and>
     (case t of None \<Rightarrow> True | Some k \<Rightarrow> k < 256)"
| "msgpack_fits (JBool b) \<longleftrightarrow> True"
| "msgpack_fits JNull \<longleftrightarrow> True"
| "msgpack_fits JDiscarded \<longleftrightarrow> False"

abbreviation msgpack_reads :: "string \<Rightarrow> json \<Rightarrow> bool" where
  "msgpack_reads \<equiv> reads_value parse_msgpack"

lemmas msgpack_steps = parse_msgpack.simps msgpack_switch_def msgpack_number_def

lemma msgpack_literals: "msgpack_reads [char_of (0xC0 :: nat)] JNull"
  "msgpack_reads [char_of (0xC2 :: nat)] (JBool False)" "msgpack_reads [char_of (0xC3 :: nat)] (JBool True)"
  by (rule reads_one_byte; simp add: msgpack_steps)+

lemma unsigned_cases:
  assumes "n < 2 ^ 64"
  obtains "n < 128" "msgpack_unsigned n = [char_of n]"
  | k where "k < 4" "n < 2 ^ (8 * 2 ^ k)" "msgpack_unsigned n = char_of (0xCC + k) # write_number False (2 ^ k) (int n)"
proof -
  consider "n < 128" | "128 \<le> n" "n \<le> 0xFF" | "0xFF < n" "n \<le> 0xFFFF" | "0xFFFF < n" "n \<le> 0xFFFFFFFF" | "0xFFFFFFFF < n"
    by linarith
  then show thesis
  proof cases
    case 1
    with that(1) show thesis using write_number_1 [of False n] by (simp add: msgpack_unsigned_def del: One_nat_def)
  next
    case 2
    with that(2) [of 0] show thesis by (simp add: msgpack_unsigned_def)
  next
    case 3
    with that(2) [of 1] show thesis by (simp add: msgpack_unsigned_def del: One_nat_def)
  next
    case 4
    with that(2) [of 2] show thesis by (simp add: msgpack_unsigned_def)
  next
    case 5
    with assms that(2) [of 3] show thesis by (simp add: msgpack_unsigned_def)
  qed
qed

lemma msgpack_reads_unsigned:
  assumes "n < 2 ^ 64"
  shows "msgpack_reads (msgpack_unsigned n) (JUnsigned (int n))"
  using assms
proof (cases rule: unsigned_cases)
  case 1
  show ?thesis unfolding 1(2) by (rule reads_one_byte) (use 1 in \<open>simp_all add: msgpack_steps\<close>)
next
  case (2 k)
  have "nat (int n mod 2 ^ (8 * 2 ^ k)) = n" using 2(2) by (simp add: nat_mod_distrib)
  then have v: "JUnsigned (int (nat (int n mod 2 ^ (8 * 2 ^ k)))) = JUnsigned (int n)" by (simp only:)
  show ?thesis unfolding 2(3)
    by (rule reads_fixed [where format = Msgpack and f = "\<lambda>x. JUnsigned (int x)", OF _ _ _ v])
      (use 2(1) in \<open>simp_all add: msgpack_steps\<close>)
qed

lemma negative_cases:
  assumes "- (2 ^ 63) \<le> n" "n < 0"
  obtains "- 32 \<le> n" "msgpack_negative n = [char_of (nat (256 + n))]"
  | k where "k < 4" "- (2 ^ (8 * 2 ^ k - 1)) \<le> n" "msgpack_negative n = char_of (0xD0 + k) # write_number False (2 ^ k) n"
proof -
  consider "- 32 \<le> n" | "n < - 32" "- (2 ^ 7) \<le> n" | "n < - (2 ^ 7)" "- (2 ^ 15) \<le> n"
    | "n < - (2 ^ 15)" "- (2 ^ 31) \<le> n" | "n < - (2 ^ 31)"
    by linarith
  then show thesis
  proof cases
    case 1
    have "n mod 256 = (256 + n) mod 256" by simp
    also have "\<dots> = 256 + n" by (rule mod_pos_pos_trivial) (use 1(1) assms(2) in simp_all)
    finally have "n mod 256 = 256 + n" .
    with 1 that(1) show thesis by (simp add: msgpack_negative_def write_number_def)
  next
    case 2
    with that(2) [of 0] show thesis by (simp add: msgpack_negative_def)
  next
    case 3
    with that(2) [of 1] show thesis by (simp add: msgpack_negative_def del: One_nat_def)
  next
    case 4
    with that(2) [of 2] show thesis by (simp add: msgpack_negative_def)
  next
    case 5
    with assms that(2) [of 3] show thesis by (simp add: msgpack_negative_def)
  qed
qed

lemma msgpack_reads_negative:
  assumes "- (2 ^ 63) \<le> n" "n < 0"
  shows "msgpack_reads (msgpack_negative n) (JInt n)"
  using assms
proof (cases rule: negative_cases)
  case 1
  define b where "b = nat (256 + n)"
  have b: "224 \<le> b" "b < 256" "int b = 256 + n" using 1 assms(2) by (simp_all add: b_def)
  have "(256 + n + 128) mod 256 = (n + 128 + 256) mod 256" by (simp add: add.commute)
  also have "\<dots> = (n + 128) mod 256" by (rule mod_add_self2)
  also have "\<dots> = n + 128" by (rule mod_pos_pos_trivial) (use 1(1) assms(2) in simp_all)
  finally have "wrap 8 (int b) = n" by (simp add: b(3) wrap_def)
  then show ?thesis unfolding 1(2) b_def [symmetric]
    by (intro reads_one_byte) (use b in \<open>simp_all add: msgpack_steps\<close>)
next
  case (2 k)
  let ?w = "8 * 2 ^ k :: nat"
  have "n < 2 ^ (?w - 1)" using assms(2) zero_less_power [of "2 :: int" "?w - 1"] by linarith
  then have "wrap ?w (n mod 2 ^ ?w) = n" using 2(2) by (intro wrap_back) simp_all
  then have v: "JInt (wrap ?w (int (nat (n mod 2 ^ ?w)))) = JInt n" by simp
  show ?thesis unfolding 2(3)
    by (rule reads_fixed [where format = Msgpack and f = "\<lambda>x. JInt (wrap ?w (int x))", OF _ _ _ v])
      (use 2(1) in \<open>simp_all add: msgpack_steps\<close>)
qed

lemma msgpack_reads_double: "msgpack_reads (write_compact_float Msgpack x) (JFloat x)"
proof (cases rule: compact_float_cases [of Msgpack x])
  case 1
  have "msgpack_reads (char_of (0xCA :: nat) # write_number False 4 (uint (to_float x))) (JFloat x)"
    by (rule reads_fixed [where format = Msgpack and f = "\<lambda>k. JFloat (of_float (word_of_nat k))"])
      (use 1 in \<open>simp_all add: msgpack_steps float_bits\<close>)
  with 1 show ?thesis by simp
next
  case 2
  have "msgpack_reads (char_of (0xCB :: nat) # write_number False 8 (uint x)) (JFloat x)"
    by (rule reads_fixed [where format = Msgpack and f = "\<lambda>k. JFloat (word_of_nat k)"])
      (simp_all add: msgpack_steps double_bits)
  with 2 show ?thesis by simp
qed

text \<open>A head is one byte or a control byte with the number of a size.\<close>

lemma string_head_cases:
  assumes "N < 2 ^ 32"
  obtains "N \<le> 31" "msgpack_string_head N = [char_of (0xA0 + N)]"
  | k where "k < 3" "N < 2 ^ (8 * 2 ^ k)" "msgpack_string_head N = char_of (0xD9 + k) # write_number False (2 ^ k) (int N)"
proof -
  consider "N \<le> 31" | "31 < N" "N \<le> 0xFF" | "0xFF < N" "N \<le> 0xFFFF" | "0xFFFF < N" by linarith
  then show thesis
  proof cases
    case 1
    with that(1) show thesis using write_number_1 [of False "0xA0 + N"]
      by (simp add: msgpack_string_head_def del: One_nat_def of_nat_add)
  next
    case 2
    with that(2) [of 0] show thesis by (simp add: msgpack_string_head_def)
  next
    case 3
    with that(2) [of 1] show thesis by (simp add: msgpack_string_head_def del: One_nat_def)
  next
    case 4
    with assms that(2) [of 2] show thesis by (simp add: msgpack_string_head_def)
  qed
qed

lemma array_head_cases:
  assumes "N < 2 ^ 32"
  obtains "N \<le> 15" "msgpack_array_head N = [char_of (0x90 + N)]"
  | k where "k < 2" "N < 2 ^ (8 * 2 ^ (k + 1))" "msgpack_array_head N = char_of (0xDC + k) # write_number False (2 ^ (k + 1)) (int N)"
proof -
  consider "N \<le> 15" | "15 < N" "N \<le> 0xFFFF" | "0xFFFF < N" by linarith
  then show thesis
  proof cases
    case 1
    with that(1) show thesis using write_number_1 [of False "0x90 + N"]
      by (simp add: msgpack_array_head_def del: One_nat_def of_nat_add)
  next
    case 2
    with that(2) [of 0] show thesis by (simp add: msgpack_array_head_def)
  next
    case 3
    with assms that(2) [of 1] show thesis by (simp add: msgpack_array_head_def)
  qed
qed

lemma object_head_cases:
  assumes "N < 2 ^ 32"
  obtains "N \<le> 15" "msgpack_object_head N = [char_of (0x80 + N)]"
  | k where "k < 2" "N < 2 ^ (8 * 2 ^ (k + 1))" "msgpack_object_head N = char_of (0xDE + k) # write_number False (2 ^ (k + 1)) (int N)"
proof -
  consider "N \<le> 15" | "15 < N" "N \<le> 0xFFFF" | "0xFFFF < N" by linarith
  then show thesis
  proof cases
    case 1
    with that(1) show thesis using write_number_1 [of False "0x80 + N"]
      by (simp add: msgpack_object_head_def del: One_nat_def of_nat_add)
  next
    case 2
    with that(2) [of 0] show thesis by (simp add: msgpack_object_head_def)
  next
    case 3
    with assms that(2) [of 1] show thesis by (simp add: msgpack_object_head_def)
  qed
qed

lemma get_msgpack_string_read:
  assumes "before r (msgpack_string_head (length s) @ s @ rest) d" "msgpack_text_fits s"
  shows "\<exists>b r'. last_byte (get_byte r) = Some b \<and> (0xA0 \<le> b \<and> b \<le> 0xBF \<or> 0xD9 \<le> b \<and> b \<le> 0xDB) \<and>
    get_msgpack_string (get_byte r) = Inr (s, r') \<and> before r' rest d"
proof -
  have "length s < 2 ^ 32" using assms(2) by (simp add: msgpack_text_fits_def)
  then show ?thesis
  proof (cases rule: string_head_cases)
    case 1
    with assms(1) have "before r (char_of (0xA0 + length s) # s @ rest) d" by simp
    then have h: "last_byte (get_byte r) = Some (0xA0 + length s)" "before (get_byte r) (s @ rest) d"
      by (rule byte_reads; use 1 in simp)+
    obtain r1 where r1: "get_bytes Msgpack ''string'' (length s) (get_byte r) = Inr (s, r1)" "before r1 rest d"
      by (rule get_bytes_before [OF h(2) refl])
    have "(0xA0 + length s) mod 32 = length s" using 1(1) by (intro low_bits) simp_all
    with h(1) r1 1 show ?thesis by (simp add: get_msgpack_string_def unexpect_eof_def)
  next
    case (2 k)
    with assms(1) have "before r (char_of (0xD9 + k) # write_number False (2 ^ k) (int (length s)) @ s @ rest) d" by simp
    then obtain r1 where r1: "last_byte (get_byte r) = Some (0xD9 + k)"
      "get_number Msgpack False (2 ^ k) (get_byte r) = Inr (nat (int (length s) mod 2 ^ (8 * 2 ^ k)), r1)" "before r1 (s @ rest) d"
      by (rule head_number [where format = Msgpack]) (use 2(1) in auto)
    obtain r2 where r2: "get_bytes Msgpack ''string'' (length s) r1 = Inr (s, r2)" "before r2 rest d"
      by (rule get_bytes_before [OF r1(3) refl])
    have "nat (int (length s) mod 2 ^ (8 * 2 ^ k)) = length s" using 2(2) by (simp add: nat_mod_distrib)
    with r1 r2 2(1) show ?thesis by (simp add: get_msgpack_string_def unexpect_eof_def)
  qed
qed

lemma msgpack_reads_string:
  assumes "msgpack_text_fits s"
  shows "msgpack_reads (msgpack_string_head (length s) @ s) (JString s)"
  unfolding reads_value_def
proof (intro allI impI)
  fix n r rest d
  assume n: "2 * length (msgpack_string_head (length s) @ s) + 2 \<le> n"
    and "before r ((msgpack_string_head (length s) @ s) @ rest) d"
  then have "before r (msgpack_string_head (length s) @ s @ rest) d" by simp
  from get_msgpack_string_read [OF this assms] obtain b r1 where r1: "last_byte (get_byte r) = Some b"
    "0xA0 \<le> b \<and> b \<le> 0xBF \<or> 0xD9 \<le> b \<and> b \<le> 0xDB" "get_msgpack_string (get_byte r) = Inr (s, r1)" "before r1 rest d"
    by blast
  obtain m where m: "n = Suc m" using n by (cases n) auto
  from r1(2) have "msgpack_switch b (get_byte r) =
      Complete (res_bind (get_msgpack_string (get_byte r)) (\<lambda>(s, r). emit (JString s) r))"
    by (elim disjE) (simp_all add: msgpack_switch_def)
  with r1(1,3) m emit_before [OF r1(4), of "JString s"]
  show "\<exists>r'. parse_msgpack n r = Inr r' \<and> before r' rest (handle_value (JString s) d)"
    by (simp add: parse_msgpack.simps)
qed

text \<open>Byte strings, with and without a subtype.\<close>

lemma binary_head_cases:
  assumes "N < 2 ^ 32"
  obtains k where "k < 3" "N < 2 ^ (8 * 2 ^ k)"
    "msgpack_binary_head False N = char_of (0xC4 + k) # write_number False (2 ^ k) (int N)"
proof -
  consider "N \<le> 0xFF" | "0xFF < N" "N \<le> 0xFFFF" | "0xFFFF < N" by linarith
  then show thesis
  proof cases
    case 1
    with that [of 0] show thesis by (simp add: msgpack_binary_head_def)
  next
    case 2
    with that [of 1] show thesis by (simp add: msgpack_binary_head_def del: One_nat_def)
  next
    case 3
    with assms that [of 2] show thesis by (simp add: msgpack_binary_head_def)
  qed
qed

lemma fixext_Some: "fixext N = Some t \<Longrightarrow> \<exists>k < 5. t = 0xD4 + k \<and> N = 2 ^ k"
  by (auto simp: fixext_def split: if_splits
    intro: exI [of _ 0] exI [of _ 1] exI [of _ 2] exI [of _ 3] exI [of _ 4])

lemma ext_head_cases:
  assumes "N < 2 ^ 32"
  obtains k where "k < 5" "N = 2 ^ k" "msgpack_binary_head True N = [char_of (0xD4 + k)]"
  | k where "k < 3" "N < 2 ^ (8 * 2 ^ k)"
    "msgpack_binary_head True N = char_of (0xC7 + k) # write_number False (2 ^ k) (int N)"
proof -
  consider t where "N \<le> 0xFF" "fixext N = Some t" | "N \<le> 0xFF" "fixext N = None"
    | "0xFF < N" "N \<le> 0xFFFF" | "0xFFFF < N" by fastforce
  then show thesis
  proof cases
    case 1
    with fixext_Some [OF 1(2)] that(1) show thesis by (auto simp: msgpack_binary_head_def)
  next
    case 2
    with that(2) [of 0] show thesis by (simp add: msgpack_binary_head_def)
  next
    case 3
    with that(2) [of 1] show thesis by (simp add: msgpack_binary_head_def del: One_nat_def)
  next
    case 4
    with assms that(2) [of 2] show thesis by (simp add: msgpack_binary_head_def)
  qed
qed

lemma msgpack_ext_reads:
  assumes "before r (write_number False 1 (int t) @ map char_of bs @ rest) d" "t < 256" "list_all (\<lambda>b. b < 256) bs"
    "len = length bs"
  shows "\<exists>r'. msgpack_ext len r = Inr r' \<and> before r' rest (handle_value (JBinary bs (Some t)) d)"
proof -
  obtain r1 where r1: "get_number Msgpack False 1 r = Inr (nat (int t mod 2 ^ (8 * 1)), r1)"
    "before r1 (map char_of bs @ rest) d" by (rule number_reads [OF assms(1), of Msgpack]) simp
  obtain r2 where r2: "get_bytes Msgpack ''binary'' (length bs) r1 = Inr (map char_of bs, r2)" "before r2 rest d"
    by (rule get_bytes_before [OF r1(2)]) simp
  have "nat (int t mod 2 ^ (8 * 1)) = t" using assms(2) by (simp add: nat_mod_distrib)
  with r1(1) r2(1) emit_before [OF r2(2)] bytes_of [OF assms(3)] assms(4) show ?thesis
    by (simp add: msgpack_ext_def del: One_nat_def)
qed

lemma msgpack_binary_step:
  assumes "last_byte (get_byte r) = Some b" "0xC4 \<le> b \<and> b \<le> 0xC9 \<or> 0xD4 \<le> b \<and> b \<le> 0xD8"
  shows "parse_msgpack (Suc n) r = get_msgpack_binary b (get_byte r)"
proof -
  have "msgpack_switch b (get_byte r) = Complete (get_msgpack_binary b (get_byte r))"
    using assms(2) by (elim disjE) (simp_all add: msgpack_switch_def)
  with assms(1) show ?thesis by (simp add: parse_msgpack.simps)
qed

lemma msgpack_reads_binary:
  assumes "length bs < 2 ^ 32" "list_all (\<lambda>b. b < 256) bs"
  shows "msgpack_reads (msgpack_binary_head False (length bs) @ map char_of bs) (JBinary bs None)"
  unfolding reads_value_def
proof (intro allI impI)
  let ?t = "msgpack_binary_head False (length bs) @ map char_of bs"
  fix n r rest d
  assume n: "2 * length ?t + 2 \<le> n" and r0: "before r (?t @ rest) d"
  obtain m where m: "n = Suc m" using n by (cases n) auto
  obtain k where k: "k < 3" "length bs < 2 ^ (8 * 2 ^ k)"
    "msgpack_binary_head False (length bs) = char_of (0xC4 + k) # write_number False (2 ^ k) (int (length bs))"
    using assms(1) by (rule binary_head_cases)
  with r0 have "before r (char_of (0xC4 + k) # write_number False (2 ^ k) (int (length bs)) @ map char_of bs @ rest) d"
    by simp
  then obtain r1 where r1: "last_byte (get_byte r) = Some (0xC4 + k)"
    "get_number Msgpack False (2 ^ k) (get_byte r) = Inr (nat (int (length bs) mod 2 ^ (8 * 2 ^ k)), r1)"
    "before r1 (map char_of bs @ rest) d"
    by (rule head_number [where format = Msgpack]) (use k(1) in auto)
  obtain r2 where r2: "get_bytes Msgpack ''binary'' (length bs) r1 = Inr (map char_of bs, r2)" "before r2 rest d"
    by (rule get_bytes_before [OF r1(3)]) simp
  have "nat (int (length bs) mod 2 ^ (8 * 2 ^ k)) = length bs" using k(2) by (simp add: nat_mod_distrib)
  with r1(2) r2(1) k(1) emit_before [OF r2(2), of "JBinary bs None"] bytes_of [OF assms(2)]
    msgpack_binary_step [OF r1(1), of m] m
  show "\<exists>r'. parse_msgpack n r = Inr r' \<and> before r' rest (handle_value (JBinary bs None) d)"
    by (simp add: get_msgpack_binary_def)
qed

lemma msgpack_reads_ext:
  assumes "length bs < 2 ^ 32" "list_all (\<lambda>b. b < 256) bs" "t < 256"
  shows "msgpack_reads (msgpack_binary_head True (length bs) @ write_number False 1 (int t) @ map char_of bs)
    (JBinary bs (Some t))"
  unfolding reads_value_def
proof (intro allI impI)
  let ?e = "write_number False 1 (int t) @ map char_of bs"
  let ?t = "msgpack_binary_head True (length bs) @ ?e"
  fix n r rest d
  assume n: "2 * length ?t + 2 \<le> n" and r0: "before r (?t @ rest) d"
  obtain m where m: "n = Suc m" using n by (cases n) auto
  have "\<exists>b r1. last_byte (get_byte r) = Some b \<and> (0xC4 \<le> b \<and> b \<le> 0xC9 \<or> 0xD4 \<le> b \<and> b \<le> 0xD8) \<and>
    get_msgpack_binary b (get_byte r) = msgpack_ext (length bs) r1 \<and> before r1 (?e @ rest) d"
    using assms(1)
  proof (cases rule: ext_head_cases)
    case (1 k)
    with r0 have "before r (char_of (0xD4 + k) # ?e @ rest) d" by simp
    then have h: "last_byte (get_byte r) = Some (0xD4 + k)" "before (get_byte r) (?e @ rest) d"
      by (rule byte_reads; use 1(1) in simp)+
    with 1 show ?thesis by (intro exI [of _ "0xD4 + k"] exI [of _ "get_byte r"]) (simp add: get_msgpack_binary_def)
  next
    case (2 k)
    with r0 have "before r (char_of (0xC7 + k) # write_number False (2 ^ k) (int (length bs)) @ ?e @ rest) d" by simp
    then obtain r1 where r1: "last_byte (get_byte r) = Some (0xC7 + k)"
      "get_number Msgpack False (2 ^ k) (get_byte r) = Inr (nat (int (length bs) mod 2 ^ (8 * 2 ^ k)), r1)"
      "before r1 (?e @ rest) d"
      by (rule head_number [where format = Msgpack]) (use 2(1) in auto)
    have "nat (int (length bs) mod 2 ^ (8 * 2 ^ k)) = length bs" using 2(2) by (simp add: nat_mod_distrib)
    with r1 2(1) show ?thesis by (intro exI [of _ "0xC7 + k"] exI [of _ r1]) (simp add: get_msgpack_binary_def)
  qed
  then obtain b r1 where b: "last_byte (get_byte r) = Some b" "0xC4 \<le> b \<and> b \<le> 0xC9 \<or> 0xD4 \<le> b \<and> b \<le> 0xD8"
    "get_msgpack_binary b (get_byte r) = msgpack_ext (length bs) r1"
    "before r1 (write_number False 1 (int t) @ map char_of bs @ rest) d" by auto
  from msgpack_ext_reads [OF b(4) assms(3,2) refl] msgpack_binary_step [OF b(1,2), of m] b(3) m
  show "\<exists>r'. parse_msgpack n r = Inr r' \<and> before r' rest (handle_value (JBinary bs (Some t)) d)" by simp
qed

section \<open>Containers\<close>

lemma msgpack_array_read:
  assumes "before r (msgpack_array_head k @ rest) d" "k < 2 ^ 32"
  shows "\<exists>r1. before r1 rest d \<and> parse_msgpack (Suc n) r =
    res_bind (sax_start_array k r1) (\<lambda>r. res_bind (msgpack_elements n k r) (\<lambda>r. Inr (sax_end r)))"
  using assms(2)
proof (cases rule: array_head_cases)
  case 1
  with assms(1) have "before r (char_of (0x90 + k) # rest) d" by simp
  then have h: "last_byte (get_byte r) = Some (0x90 + k)" "before (get_byte r) rest d"
    by (rule byte_reads; use 1 in simp)+
  have "(0x90 + k) mod 16 = k" using 1(1) by (intro low_bits) simp_all
  with h 1 show ?thesis by (intro exI [of _ "get_byte r"]) (simp add: msgpack_steps)
next
  case (2 i)
  with assms(1) have "before r (char_of (0xDC + i) # write_number False (2 ^ (i + 1)) (int k) @ rest) d" by simp
  then obtain r1 where r1: "last_byte (get_byte r) = Some (0xDC + i)"
    "get_number Msgpack False (2 ^ (i + 1)) (get_byte r) = Inr (nat (int k mod 2 ^ (8 * 2 ^ (i + 1))), r1)" "before r1 rest d"
    by (rule head_number [where format = Msgpack]) (use 2(1) in auto)
  have "nat (int k mod 2 ^ (8 * 2 ^ (i + 1))) = k" using 2(2) by (simp add: nat_mod_distrib)
  moreover have "i = 0 \<or> i = 1" using 2(1) by linarith
  ultimately show ?thesis using r1 by (intro exI [of _ r1]) (elim disjE; simp add: msgpack_steps del: One_nat_def)
qed

lemma msgpack_object_read:
  assumes "before r (msgpack_object_head k @ rest) d" "k < 2 ^ 32"
  shows "\<exists>r1. before r1 rest d \<and> parse_msgpack (Suc n) r =
    res_bind (sax_start_object k r1) (\<lambda>r. res_bind (msgpack_members n k r) (\<lambda>r. Inr (sax_end r)))"
  using assms(2)
proof (cases rule: object_head_cases)
  case 1
  with assms(1) have "before r (char_of (0x80 + k) # rest) d" by simp
  then have h: "last_byte (get_byte r) = Some (0x80 + k)" "before (get_byte r) rest d"
    by (rule byte_reads; use 1 in simp)+
  have "(0x80 + k) mod 16 = k" using 1(1) by (intro low_bits) simp_all
  with h 1 show ?thesis by (intro exI [of _ "get_byte r"]) (simp add: msgpack_steps)
next
  case (2 i)
  with assms(1) have "before r (char_of (0xDE + i) # write_number False (2 ^ (i + 1)) (int k) @ rest) d" by simp
  then obtain r1 where r1: "last_byte (get_byte r) = Some (0xDE + i)"
    "get_number Msgpack False (2 ^ (i + 1)) (get_byte r) = Inr (nat (int k mod 2 ^ (8 * 2 ^ (i + 1))), r1)" "before r1 rest d"
    by (rule head_number [where format = Msgpack]) (use 2(1) in auto)
  have "nat (int k mod 2 ^ (8 * 2 ^ (i + 1))) = k" using 2(2) by (simp add: nat_mod_distrib)
  moreover have "i = 0 \<or> i = 1" using 2(1) by linarith
  ultimately show ?thesis using r1 by (intro exI [of _ r1]) (elim disjE; simp add: msgpack_steps del: One_nat_def)
qed

lemma msgpack_heads:
  assumes "k < 2 ^ 32"
  shows "msgpack_array_head k \<noteq> []" "msgpack_object_head k \<noteq> []"
  using assms array_head_cases [of k "msgpack_array_head k \<noteq> []"] object_head_cases [of k "msgpack_object_head k \<noteq> []"]
  by auto

interpretation msgpack_format: counted_format parse_msgpack "\<lambda>n. get_msgpack_string" msgpack_elements msgpack_members
  msgpack_array_head msgpack_object_head "\<lambda>k. msgpack_string_head (length k) @ k" "\<lambda>k. k < 2 ^ 32" msgpack_text_fits
proof unfold_locales
  fix n k and r :: binary_reader
  show "msgpack_elements (Suc n) k r =
      (if k = 0 then Inr r else res_bind (parse_msgpack n r) (msgpack_elements n (k - 1)))"
    by (simp add: msgpack_elements.simps)
  show "msgpack_members (Suc n) k r = (if k = 0 then Inr r
      else res_bind (get_msgpack_string (get_byte r)) (\<lambda>(key, r2).
        res_bind (parse_msgpack n (sax_key key r2)) (msgpack_members n (k - 1))))"
    by (simp add: msgpack_members.simps)
next
  fix r :: binary_reader and key rest d and n :: nat
  assume "before r ((msgpack_string_head (length key) @ key) @ rest) d" "msgpack_text_fits key"
  then show "\<exists>r'. get_msgpack_string (get_byte r) = Inr (key, r') \<and> before r' rest d"
    using get_msgpack_string_read [of r key rest d] by auto
next
  fix r :: binary_reader and n assume "bytes_left r = []"
  then show "\<exists>e. parse_msgpack n r = Inl e"
    by (cases n) (simp_all add: parse_msgpack.simps unexpect_eof_def)
qed (rule msgpack_heads msgpack_array_read msgpack_object_read; assumption)+

lemma msgpack_elements_concat: "write_msgpack_elements vs = concat (map write_msgpack vs)"
  by (induction vs) simp_all

lemma msgpack_members_concat: "write_msgpack_members ms =
  concat (map (\<lambda>(k, v). (msgpack_string_head (length k) @ k) @ write_msgpack v) ms)"
  by (induction ms) auto

lemma msgpack_leaf_reads:
  assumes "\<not> is_structured j" "msgpack_fits j"
  shows "msgpack_reads (write_msgpack j) (canon j)"
proof (cases j)
  case (JInt n)
  with assms have n: "- (2 ^ 63) \<le> n" "n < 2 ^ 63" by (simp_all add: in_i64_def i64_min_def i64_max_def)
  with JInt msgpack_reads_unsigned [of "nat n"] msgpack_reads_negative [of n] show ?thesis
    by (cases "0 \<le> n") simp_all
next
  case (JUnsigned n)
  with assms have "0 \<le> n" "nat n < 2 ^ 64" by (auto simp: u64_max_def)
  with msgpack_reads_unsigned [of "nat n"] JUnsigned show ?thesis by simp
next
  case (JBinary bs t)
  with assms msgpack_reads_binary [of bs] msgpack_reads_ext [of bs "the t"] show ?thesis
    by (cases t) (simp_all add: msgpack_binary_def)
qed (use assms msgpack_literals msgpack_reads_string msgpack_reads_double in \<open>auto simp: type_defs\<close>)

interpretation msgpack_writer: counted_writer parse_msgpack "\<lambda>n. get_msgpack_string" msgpack_elements msgpack_members
  msgpack_array_head msgpack_object_head "\<lambda>k. msgpack_string_head (length k) @ k" "\<lambda>k. k < 2 ^ 32" msgpack_text_fits
  write_msgpack msgpack_fits
proof unfold_locales
  fix vs ms
  show "write_msgpack (JArray vs) = msgpack_array_head (length vs) @ concat (map write_msgpack vs)"
    by (simp add: msgpack_elements_concat)
  show "write_msgpack (JObject ms) = msgpack_object_head (length ms) @
      concat (map (\<lambda>(k, v). (msgpack_string_head (length k) @ k) @ write_msgpack v) ms)"
    by (simp add: msgpack_members_concat)
  show "msgpack_fits (JArray vs) \<Longrightarrow> length vs \<le> array_max_size \<and> length vs < 2 ^ 32 \<and> (\<forall>v \<in> set vs. msgpack_fits v)"
    by (simp add: list_all_iff array_max_size_def)
  show "msgpack_fits (JObject ms) \<Longrightarrow> length ms \<le> object_max_size \<and> length ms < 2 ^ 32 \<and>
      obj_ok ms \<and> (\<forall>(k, v) \<in> set ms. msgpack_text_fits k \<and> msgpack_fits v)"
    by (simp add: list_all_iff object_max_size_def)
qed (rule msgpack_leaf_reads)

lemma from_written_msgpack:
  assumes "msgpack_fits j"
  shows "from_msgpack (to_msgpack j) True allow = Inr (canon j)"
proof -
  let ?r = "new_reader (write_msgpack j)"
  let ?d = "built ?r"
  have "before ?r (write_msgpack j @ []) ?d" by (simp add: before_def new_reader_def)
  from reads_valueD [OF msgpack_writer.written_reads [OF assms] _ this, of "2 * length (write_msgpack j) + 4"]
  obtain r where "parse_msgpack (2 * length (write_msgpack j) + 4) ?r = Inr r"
    "before r [] (handle_value (canon j) ?d)" by auto
  then show ?thesis
    by (simp add: from_msgpack_def to_msgpack_def expect_end_def before_def parsed_def new_reader_def handle_value_def)
qed

section \<open>The fuel is enough\<close>

lemma leaves_msgpack_sized:
  "leaves pair_left (ahead_of r) (res_bind (get_number f g k r) (\<lambda>(len, r). get_bytes f place len r))"
  by (rule leaves_pair [OF leaves_get_number]) (rule leaves_mono [OF leaves_get_bytes])

lemma leaves_msgpack_string: "leaves pair_left (ahead_of r) (get_msgpack_string r)"
  by (simp add: get_msgpack_string_def unexpect_eof_def Let_def leaves_msgpack_sized leaves_get_bytes)

lemma leaves_msgpack_ext: "leaves ahead_of (ahead_of r) (msgpack_ext len r)"
  unfolding msgpack_ext_def
proof (rule leaves_pair [OF leaves_get_number])
  fix t and r1 :: binary_reader assume r1: "ahead_of r1 \<le> ahead_of r"
  then have "leaves pair_left (ahead_of r) (get_bytes Msgpack ''binary'' len r1)"
    by (rule leaves_mono [OF leaves_get_bytes])
  then show "leaves ahead_of (ahead_of r) (res_bind (get_bytes Msgpack ''binary'' len r1)
      (\<lambda>(bs, r). emit (JBinary (map of_char bs) (Some t)) r))" by (rule leaves_emit_pair)
qed

lemma leaves_msgpack_binary: "leaves ahead_of (ahead_of r) (get_msgpack_binary b r)"
proof -
  have bin: "leaves ahead_of (ahead_of r) (res_bind (get_number Msgpack False k r) (\<lambda>(len, r).
      res_bind (get_bytes Msgpack ''binary'' len r) (\<lambda>(bs, r). emit (JBinary (map of_char bs) None) r)))" for k
  proof (rule leaves_pair [OF leaves_get_number])
    fix len and r1 :: binary_reader assume r1: "ahead_of r1 \<le> ahead_of r"
    then have "leaves pair_left (ahead_of r) (get_bytes Msgpack ''binary'' len r1)"
      by (rule leaves_mono [OF leaves_get_bytes])
    then show "leaves ahead_of (ahead_of r) (res_bind (get_bytes Msgpack ''binary'' len r1)
        (\<lambda>(bs, r). emit (JBinary (map of_char bs) None) r))" by (rule leaves_emit_pair)
  qed
  have ext: "leaves ahead_of (ahead_of r) (res_bind (get_number Msgpack False k r) (\<lambda>(len, r). msgpack_ext len r))" for k
    by (rule leaves_pair [OF leaves_get_number]) (rule leaves_mono [OF leaves_msgpack_ext])
  show ?thesis by (simp add: get_msgpack_binary_def bin ext leaves_msgpack_ext)
qed

lemma msgpack_switch_leaves: "action_leaves (ahead_of r) (msgpack_switch b r)"
  by (simp add: msgpack_switch_def msgpack_number_def leaves_emit leaves_emit_pair [OF leaves_get_number]
      leaves_emit_pair [OF leaves_msgpack_string] leaves_msgpack_binary leaves_get_number)

lemma parse_msgpack_ended:
  "0 < n \<Longrightarrow> bytes_left r = [] \<Longrightarrow> \<exists>e. parse_msgpack n r = Inl e \<and> e \<noteq> out_of_fuel"
  by (cases n) (simp_all add: parse_msgpack.simps unexpect_eof_def)

lemma get_msgpack_string_ended:
  "last_byte r = None \<Longrightarrow> \<exists>e. get_msgpack_string r = Inl e \<and> e \<noteq> out_of_fuel"
  by (simp add: get_msgpack_string_def unexpect_eof_def)

lemma parse_msgpack_leaves:
  "2 * ahead_of r + 2 \<le> n \<Longrightarrow> leaves ahead_of (ahead_of r - 1) (parse_msgpack n r)"
  "2 * ahead_of r + 3 \<le> n \<Longrightarrow> leaves ahead_of (ahead_of r) (msgpack_elements n k r)"
  "2 * ahead_of r + 3 \<le> n \<Longrightarrow> leaves ahead_of (ahead_of r) (msgpack_members n k r)"
proof (induction n arbitrary: r k)
  case 0
  {
    case 1 then show ?case by simp
  next
    case 2 then show ?case by simp
  next
    case 3 then show ?case by simp
  }
next
  case (Suc n)
  {
    case 1
    show ?case
    proof (cases "bytes_left r")
      case Nil
      with parse_msgpack_ended [of "Suc n" r] show ?thesis by auto
    next
      case (Cons c cs)
      define r1 b where "r1 = get_byte r" and "b = (of_char c :: nat)"
      have n: "2 * ahead_of r1 + 3 \<le> n" and l: "last_byte r1 = Some b" "ahead_of r1 = ahead_of r - 1"
        using 1 Cons by (simp_all add: r1_def b_def)
      note a = msgpack_switch_leaves [of r1 b]
      show ?thesis
      proof (cases "msgpack_switch b r1")
        case (Complete x)
        with a l show ?thesis by (simp add: parse_msgpack.simps r1_def [symmetric])
      next
        case (Array_of x)
        with a have "leaves pair_left (ahead_of r1) x" by simp
        from leaves_container [OF this leaves_start(1), of "msgpack_elements n"] Suc.IH(2) n Array_of l
        show ?thesis by (simp add: parse_msgpack.simps r1_def [symmetric])
      next
        case (Object_of x)
        with a have "leaves pair_left (ahead_of r1) x" by simp
        from leaves_container [OF this leaves_start(2), of "msgpack_members n"] Suc.IH(3) n Object_of l
        show ?thesis by (simp add: parse_msgpack.simps r1_def [symmetric])
      next
        case (Again x)
        with a l show ?thesis by (simp add: parse_msgpack.simps r1_def [symmetric])
      qed
    qed
  next
    case 2
    have "leaves ahead_of (ahead_of r) (res_bind (parse_msgpack n r) (\<lambda>r. msgpack_elements n k' r))" for k'
    proof (cases "bytes_left r")
      case Nil
      with parse_msgpack_ended [of n r] 2 show ?thesis by auto
    next
      case (Cons c cs)
      with 2 have "2 * ahead_of r + 2 \<le> n" by simp
      from Suc.IH(1) [OF this] show ?thesis
        by (rule leaves_bind) (use 2 Cons in \<open>auto intro: leaves_mono [OF Suc.IH(2) [of _ k']]\<close>)
    qed
    then show ?case by (simp add: msgpack_elements.simps)
  next
    case 3
    have "leaves ahead_of (ahead_of r) (res_bind (get_msgpack_string (get_byte r)) (\<lambda>(key, r2).
      res_bind (parse_msgpack n (sax_key key r2)) (\<lambda>r3. msgpack_members n k' r3)))" for k'
    proof (cases "bytes_left r")
      case Nil
      with get_msgpack_string_ended [of "get_byte r"] show ?thesis by auto
    next
      case (Cons c cs)
      show ?thesis
      proof (rule leaves_pair [OF leaves_msgpack_string])
        fix key r2 assume r2: "ahead_of r2 \<le> ahead_of (get_byte r)"
        then have "2 * ahead_of (sax_key key r2) + 2 \<le> n" using 3 Cons by (simp add: sax_key_def)
        from Suc.IH(1) [OF this] show "leaves ahead_of (ahead_of r)
            (res_bind (parse_msgpack n (sax_key key r2)) (\<lambda>r3. msgpack_members n k' r3))"
          by (rule leaves_bind) (use 3 r2 Cons in \<open>auto simp: sax_key_def intro: leaves_mono [OF Suc.IH(3) [of _ k']]\<close>)
      qed
    qed
    then show ?case by (simp add: msgpack_members.simps)
  }
qed

lemma from_msgpack_total: "from_msgpack bytes strict allow \<noteq> Inl out_of_fuel"
proof -
  let ?r = "new_reader bytes"
  have "leaves ahead_of (ahead_of ?r - 1) (parse_msgpack (2 * length bytes + 4) ?r)"
    by (rule parse_msgpack_leaves(1)) (simp add: new_reader_def)
  moreover have "expect_end Msgpack strict r \<noteq> Inl out_of_fuel" for r
    by (simp add: expect_end_def Let_def)
  ultimately show ?thesis
    by (cases "parse_msgpack (2 * length bytes + 4) ?r") (auto simp: from_msgpack_def parsed_def split: sum.split)
qed

section \<open>Properties\<close>

text \<open>C38. MessagePack reads back what it writes: every value with sizes below \<open>2 ^ 32\<close>, integers of their
  types, objects in the map's order and subtypes of a byte comes back as it was, doubles bit
  for bit with every NaN, byte strings with their subtype through the fixext and ext types,
  non-negative integers as unsigned ones.\<close>

theorem msgpack_roundtrip:
  assumes "msgpack_fits j"
  shows "from_msgpack (to_msgpack j) True allow = Inr (canon j)"
  using assms by (rule from_written_msgpack)

definition demo_msgpack :: json where
  "demo_msgpack = JArray [JInt (- 500), JBinary [1, 255] (Some 7), JBinary [1, 2, 3] (Some 200), JUnsigned 70000,
     JFloat 0x3FB999999999999A, JObject [(''k'', JString ''v'')]]"

theorem msgpack_roundtrip_witness: "from_msgpack (to_msgpack demo_msgpack) True True = Inr demo_msgpack"
proof -
  have "msgpack_fits demo_msgpack"
    by (simp add: demo_msgpack_def msgpack_text_fits_def in_i64_def i64_min_def i64_max_def u64_max_def obj_ok_def)
  from msgpack_roundtrip [OF this, of True] show ?thesis by (simp add: demo_msgpack_def)
qed

text \<open>The MessagePack reader always ends with the end of its input.\<close>

theorem from_msgpack_fuel: "from_msgpack bytes strict allow \<noteq> Inl out_of_fuel"
  by (rule from_msgpack_total)

end
