(* ===== verification/Bson.thy ===== *)
theory Bson
  imports Binary
begin

text \<open>
  BSON: \<open>binary_writer::write_bson\<close> and \<open>binary_reader::parse_bson_internal\<close> with what they call
  (\<open>src/cpp/include/nlohmann/json.hpp\<close>). The reader's nested loops run on fuel that is never used
  up (\<open>from_bson_fuel\<close>).
\<close>

section \<open>Sizes\<close>

text \<open>Where a key may be refused: a NUL would end it in the output.\<close>

definition calc_bson_entry_header_size :: "string \<Rightarrow> nat res" where
  "calc_bson_entry_header_size name =
     (if CHR 0x00 \<in> set name
      then Inl (out_of_range 409 ''409'' (''BSON key cannot contain code point U+0000 (at byte '' @
             dec (length (takeWhile (\<lambda>c. c \<noteq> CHR 0x00) name)) @ '')''))
      else Inr (1 + length name + 1))"

definition calc_bson_string_size :: "string \<Rightarrow> nat" where
  "calc_bson_string_size s = 4 + length s + 1"

definition calc_bson_integer_size :: "int \<Rightarrow> nat" where
  "calc_bson_integer_size n = (if in_i32 n then 4 else 8)"

definition calc_bson_unsigned_size :: "int \<Rightarrow> nat" where
  "calc_bson_unsigned_size n = (if n \<le> 2 ^ 31 - 1 then 4 else 8)"

definition calc_bson_binary_size :: "nat list \<Rightarrow> nat" where
  "calc_bson_binary_size bs = 4 + length bs + 1"

text \<open>The elements of an array are named by their position. An assertion forbids discarded values.\<close>

fun calc_bson_element_size :: "string \<Rightarrow> json \<Rightarrow> nat res"
and calc_bson_object_size :: "(string \<times> json) list \<Rightarrow> nat res"
and calc_bson_array_size :: "nat \<Rightarrow> json list \<Rightarrow> nat res" where
  "calc_bson_element_size name (JObject ms) =
     res_bind (calc_bson_entry_header_size name) (\<lambda>h. res_bind (calc_bson_object_size ms) (\<lambda>n. Inr (h + n)))"
| "calc_bson_element_size name (JArray vs) =
     res_bind (calc_bson_entry_header_size name) (\<lambda>h. res_bind (calc_bson_array_size 0 vs) (\<lambda>n. Inr (h + n)))"
| "calc_bson_element_size name (JBinary bs t) =
     res_bind (calc_bson_entry_header_size name) (\<lambda>h. Inr (h + calc_bson_binary_size bs))"
| "calc_bson_element_size name (JBool b) = res_bind (calc_bson_entry_header_size name) (\<lambda>h. Inr (h + 1))"
| "calc_bson_element_size name (JFloat x) = res_bind (calc_bson_entry_header_size name) (\<lambda>h. Inr (h + 8))"
| "calc_bson_element_size name (JInt n) =
     res_bind (calc_bson_entry_header_size name) (\<lambda>h. Inr (h + calc_bson_integer_size n))"
| "calc_bson_element_size name (JUnsigned n) =
     res_bind (calc_bson_entry_header_size name) (\<lambda>h. Inr (h + calc_bson_unsigned_size n))"
| "calc_bson_element_size name (JString s) =
     res_bind (calc_bson_entry_header_size name) (\<lambda>h. Inr (h + calc_bson_string_size s))"
| "calc_bson_element_size name JNull = calc_bson_entry_header_size name"
| "calc_bson_element_size name JDiscarded =
     res_bind (calc_bson_entry_header_size name) (\<lambda>h. Inl (Undefined ''failed assertion''))"
| "calc_bson_object_size [] = Inr (4 + 1)"
| "calc_bson_object_size ((k, v) # ms) =
     res_bind (calc_bson_element_size k v) (\<lambda>n. res_bind (calc_bson_object_size ms) (\<lambda>m. Inr (n + m)))"
| "calc_bson_array_size i [] = Inr (4 + 1)"
| "calc_bson_array_size i (v # vs) =
     res_bind (calc_bson_element_size (dec i) v) (\<lambda>n. res_bind (calc_bson_array_size (i + 1) vs) (\<lambda>m. Inr (n + m)))"

section \<open>Writing\<close>

definition write_bson_entry_header :: "string \<Rightarrow> nat \<Rightarrow> string" where
  "write_bson_entry_header name element_type = char_of element_type # name @ [CHR 0x00]"

definition write_bson_boolean :: "string \<Rightarrow> bool \<Rightarrow> string" where
  "write_bson_boolean name b = write_bson_entry_header name 0x08 @ [char_of (if b then 1 else 0 :: nat)]"

definition write_bson_double :: "string \<Rightarrow> double \<Rightarrow> string" where
  "write_bson_double name x = write_bson_entry_header name 0x01 @ write_number True 8 (uint x)"

definition write_bson_string :: "string \<Rightarrow> string \<Rightarrow> string" where
  "write_bson_string name s =
     write_bson_entry_header name 0x02 @ write_number True 4 (int (length s + 1)) @ s @ [CHR 0x00]"

definition write_bson_null :: "string \<Rightarrow> string" where
  "write_bson_null name = write_bson_entry_header name 0x0A"

definition write_bson_integer :: "string \<Rightarrow> int \<Rightarrow> string" where
  "write_bson_integer name n =
     (if in_i32 n then write_bson_entry_header name 0x10 @ write_number True 4 n
      else write_bson_entry_header name 0x12 @ write_number True 8 n)"

definition write_bson_unsigned :: "string \<Rightarrow> int \<Rightarrow> string res" where
  "write_bson_unsigned name n =
     (if n \<le> 2 ^ 31 - 1 then Inr (write_bson_entry_header name 0x10 @ write_number True 4 n)
      else if n \<le> i64_max then Inr (write_bson_entry_header name 0x12 @ write_number True 8 n)
      else Inl (out_of_range 407 ''407'' (''integer number '' @ dec (nat n) @
             '' cannot be represented by BSON as it does not fit int64'')))"

definition write_bson_binary :: "string \<Rightarrow> nat list \<Rightarrow> nat option \<Rightarrow> string" where
  "write_bson_binary name bs t =
     write_bson_entry_header name 0x05 @ write_number True 4 (int (length bs)) @
     write_number False 1 (case t of None \<Rightarrow> 0 | Some k \<Rightarrow> int k) @ map char_of bs"

fun write_bson_element :: "string \<Rightarrow> json \<Rightarrow> string res"
and write_bson_members :: "(string \<times> json) list \<Rightarrow> string res"
and write_bson_elements :: "nat \<Rightarrow> json list \<Rightarrow> string res" where
  "write_bson_element name (JObject ms) =
     res_bind (calc_bson_object_size ms) (\<lambda>n. res_bind (write_bson_members ms) (\<lambda>t.
       Inr (write_bson_entry_header name 0x03 @ write_number True 4 (int n) @ t @ [CHR 0x00])))"
| "write_bson_element name (JArray vs) =
     res_bind (calc_bson_array_size 0 vs) (\<lambda>n. res_bind (write_bson_elements 0 vs) (\<lambda>t.
       Inr (write_bson_entry_header name 0x04 @ write_number True 4 (int n) @ t @ [CHR 0x00])))"
| "write_bson_element name (JBinary bs t) = Inr (write_bson_binary name bs t)"
| "write_bson_element name (JBool b) = Inr (write_bson_boolean name b)"
| "write_bson_element name (JFloat x) = Inr (write_bson_double name x)"
| "write_bson_element name (JInt n) = Inr (write_bson_integer name n)"
| "write_bson_element name (JUnsigned n) = write_bson_unsigned name n"
| "write_bson_element name (JString s) = Inr (write_bson_string name s)"
| "write_bson_element name JNull = Inr (write_bson_null name)"
| "write_bson_element name JDiscarded = Inl (Undefined ''failed assertion'')"
| "write_bson_members [] = Inr []"
| "write_bson_members ((k, v) # ms) =
     res_bind (write_bson_element k v) (\<lambda>t. res_bind (write_bson_members ms) (\<lambda>ts. Inr (t @ ts)))"
| "write_bson_elements i [] = Inr []"
| "write_bson_elements i (v # vs) =
     res_bind (write_bson_element (dec i) v) (\<lambda>t. res_bind (write_bson_elements (i + 1) vs) (\<lambda>ts. Inr (t @ ts)))"

definition write_bson_object :: "(string \<times> json) list \<Rightarrow> string res" where
  "write_bson_object ms =
     res_bind (calc_bson_object_size ms) (\<lambda>n. res_bind (write_bson_members ms) (\<lambda>t.
       Inr (write_number True 4 (int n) @ t @ [CHR 0x00])))"

fun write_bson :: "json \<Rightarrow> string res" where
  "write_bson (JObject ms) = write_bson_object ms"
| "write_bson j =
     Inl (type_error 317 ''317'' (''to serialize to BSON, top-level type must be object, but is '' @ type_name j))"

definition to_bson :: "json \<Rightarrow> string res" where
  "to_bson j = write_bson j"

section \<open>Reading\<close>

function get_bson_cstr :: "binary_reader \<Rightarrow> (string \<times> binary_reader) res" where
  "get_bson_cstr r0 =
     (let r = get_byte r0 in
      case last_byte r of
        None \<Rightarrow> Inl (byte_error 110 r (binary_exception_message Bson ''unexpected end of input'' ''cstring''))
      | Some b \<Rightarrow>
          if b = 0 then Inr ([], r)
          else res_bind (get_bson_cstr r) (\<lambda>(cs, r1). Inr (char_of b # cs, r1)))"
  by pat_completeness auto

termination
  by (relation "measure (\<lambda>r. length (bytes_left r))") (auto split: list.splits)

declare get_bson_cstr.simps [simp del]

text \<open>
  When the input ends where the zero of a string should be, the code returns false without
  reporting an error: nothing is thrown even when exceptions are allowed.
\<close>

definition no_exception :: exn where "no_exception = Logic_error ''no exception''"

definition get_bson_string :: "int \<Rightarrow> binary_reader \<Rightarrow> (string \<times> binary_reader) res" where
  "get_bson_string len r =
     (if len < 1
      then Inl (byte_error 112 r (binary_exception_message Bson
             (''string length must be at least 1, is '' @ dump_integer len) ''string''))
      else res_bind (get_bytes Bson ''string'' (nat (len - 1)) r) (\<lambda>(s, r1).
             let r2 = get_byte r1 in
             if last_byte r2 = None then Inl no_exception else Inr (s, r2)))"

text \<open>What \<open>get_number\<close> returns for the subtype is not looked at; when the input ends there, so does the parse.\<close>

definition get_bson_binary :: "int \<Rightarrow> binary_reader \<Rightarrow> binary_reader res" where
  "get_bson_binary len r =
     (if len < 0
      then Inl (byte_error 112 r (binary_exception_message Bson
             (''byte array length cannot be negative, is '' @ dump_integer len) ''binary''))
      else res_bind (get_number Bson False 1 r) (\<lambda>(subtype, r).
           res_bind (get_bytes Bson ''binary'' (nat len) r) (\<lambda>(bs, r). emit (JBinary (map of_char bs) (Some subtype)) r)))"

definition unsupported_record :: "nat \<Rightarrow> nat \<Rightarrow> exn" where
  "unsupported_record element_type position =
     pointer_error 114 ''114'' ('' at byte '' @ dec position)
       (''Unsupported BSON record type 0x'' @ [hex_upper (element_type div 16 mod 16), hex_upper (element_type mod 16)])"

text \<open>The switch of \<open>parse_bson_element_internal\<close>. The size of a document is read and not used.\<close>

definition bson_size :: "binary_reader \<Rightarrow> (nat \<times> binary_reader) res" where
  "bson_size r = res_bind (get_number Bson True 4 r) (\<lambda>(document_size, r). Inr (no_length, r))"

definition bson_switch :: "nat \<Rightarrow> nat \<Rightarrow> binary_reader \<Rightarrow> action" where
  "bson_switch element_type position r =
     (if element_type = 0x01 then
        Complete (res_bind (get_number Bson True 8 r) (\<lambda>(k, r). emit (JFloat (word_of_nat k)) r))
      else if element_type = 0x02 then
        Complete (res_bind (get_number Bson True 4 r) (\<lambda>(k, r).
          res_bind (get_bson_string (wrap 32 (int k)) r) (\<lambda>(s, r). emit (JString s) r)))
      else if element_type = 0x03 then Object_of (bson_size r)
      else if element_type = 0x04 then Array_of (bson_size r)
      else if element_type = 0x05 then
        Complete (res_bind (get_number Bson True 4 r) (\<lambda>(k, r). get_bson_binary (wrap 32 (int k)) r))
      else if element_type = 0x08 then
        Complete (let r1 = get_byte r in emit (JBool (last_byte r1 \<noteq> Some 0)) r1)
      else if element_type = 0x0A then Complete (emit JNull r)
      else if element_type = 0x10 then
        Complete (res_bind (get_number Bson True 4 r) (\<lambda>(k, r). emit (JInt (wrap 32 (int k))) r))
      else if element_type = 0x12 then
        Complete (res_bind (get_number Bson True 8 r) (\<lambda>(k, r). emit (JInt (wrap 64 (int k))) r))
      else Complete (Inl (unsupported_record element_type position)))"

fun parse_bson_element :: "nat \<Rightarrow> nat \<Rightarrow> nat \<Rightarrow> binary_reader \<Rightarrow> binary_reader res"
and parse_bson_element_list :: "nat \<Rightarrow> bool \<Rightarrow> binary_reader \<Rightarrow> binary_reader res" where
  "parse_bson_element 0 element_type position r = Inl out_of_fuel"
| "parse_bson_element (Suc n) element_type position r =
     (case bson_switch element_type position r of
        Complete result \<Rightarrow> result
      | Object_of sized \<Rightarrow>
          res_bind sized (\<lambda>(len, r).
          res_bind (sax_start_object len r) (\<lambda>r.
          res_bind (parse_bson_element_list n False r) (\<lambda>r. Inr (sax_end r))))
      | Array_of sized \<Rightarrow>
          res_bind sized (\<lambda>(len, r).
          res_bind (sax_start_array len r) (\<lambda>r.
          res_bind (parse_bson_element_list n True r) (\<lambda>r. Inr (sax_end r))))
      | Again ready \<Rightarrow> ready)"
| "parse_bson_element_list 0 as_array r = Inl out_of_fuel"
| "parse_bson_element_list (Suc n) as_array r0 =
     (let r = get_byte r0 in
      if last_byte r = Some 0 then Inr r
      else res_bind (unexpect_eof Bson ''element list'' r) (\<lambda>r.
           res_bind (get_bson_cstr r) (\<lambda>(key, r1).
           res_bind (parse_bson_element n (the (last_byte r)) (bytes_read r) (if as_array then r1 else sax_key key r1)) (\<lambda>r2.
             parse_bson_element_list n as_array r2))))"

declare parse_bson_element.simps [simp del] parse_bson_element_list.simps [simp del]

definition parse_bson :: "nat \<Rightarrow> binary_reader \<Rightarrow> binary_reader res" where
  "parse_bson n r =
     res_bind (bson_size r) (\<lambda>(len, r).
     res_bind (sax_start_object len r) (\<lambda>r.
     res_bind (parse_bson_element_list n False r) (\<lambda>r. Inr (sax_end r))))"

definition from_bson :: "string \<Rightarrow> bool \<Rightarrow> bool \<Rightarrow> json res" where
  "from_bson bytes strict allow_exceptions =
     (let result = res_bind (parse_bson (2 * length bytes + 2) (new_reader bytes)) (expect_end Bson strict)
      in if result = Inl no_exception then Inr JDiscarded else parsed allow_exceptions result)"

section \<open>What is written is read\<close>

text \<open>
  BSON has signed integers only and a subtype for every byte string, and reads the value it
  wrote up to these two differences.
\<close>

fun bson_canon :: "json \<Rightarrow> json" where
  "bson_canon (JObject ms) = JObject (map (map_prod id bson_canon) ms)"
| "bson_canon (JArray vs) = JArray (map bson_canon vs)"
| "bson_canon (JUnsigned n) = JInt n"
| "bson_canon (JBinary bs t) = JBinary bs (Some (case t of None \<Rightarrow> 0 | Some k \<Rightarrow> k mod 256))"
| "bson_canon (JInt n) = JInt n"
| "bson_canon (JString s) = JString s"
| "bson_canon (JBool b) = JBool b"
| "bson_canon (JFloat x) = JFloat x"
| "bson_canon JNull = JNull"
| "bson_canon JDiscarded = JDiscarded"

fun bson_fits :: "json \<Rightarrow> bool" where
  "bson_fits (JObject ms) \<longleftrightarrow> obj_ok ms \<and> list_all (\<lambda>(k, v). CHR 0x00 \<notin> set k \<and> bson_fits v) ms"
| "bson_fits (JArray vs) \<longleftrightarrow> list_all bson_fits vs"
| "bson_fits (JInt n) \<longleftrightarrow> in_i64 n"
| "bson_fits (JUnsigned n) \<longleftrightarrow> 0 \<le> n \<and> n \<le> i64_max"
| "bson_fits (JString s) \<longleftrightarrow> length s < 2 ^ 31 - 1"
| "bson_fits (JFloat x) \<longleftrightarrow> True"
| "bson_fits (JBinary bs t) \<longleftrightarrow> length bs < 2 ^ 31 \<and> list_all (\<lambda>b. b < 256) bs"
| "bson_fits (JBool b) \<longleftrightarrow> True"
| "bson_fits JNull \<longleftrightarrow> True"
| "bson_fits JDiscarded \<longleftrightarrow> False"

lemma nul_char: "CHR 0x00 = char_of (0 :: nat)"
  by (simp add: char_of_def)

lemma of_char_nul: "of_char c = (0 :: nat) \<longleftrightarrow> c = CHR 0x00"
  unfolding nul_char by (metis char_of_char of_char_of mod_0)

lemma cstr_read:
  assumes "before r (k @ CHR 0x00 # rest) d" "CHR 0x00 \<notin> set k"
  shows "\<exists>r'. get_bson_cstr r = Inr (k, r') \<and> before r' rest d"
  using assms
proof (induction k arbitrary: r)
  case Nil
  then have "before r (char_of (0 :: nat) # rest) d" by (simp add: nul_char)
  note h = byte_reads [OF this]
  then show ?case by (subst get_bson_cstr.simps) simp
next
  case (Cons c k)
  then have "before r (char_of (of_char c :: nat) # k @ CHR 0x00 # rest) d" by simp
  moreover have "of_char c < (256 :: nat)" using of_char_mod_256 [of c, where 'a = nat] by (metis mod_less_divisor zero_less_numeral)
  ultimately have h: "last_byte (get_byte r) = Some (of_char c)" "before (get_byte r) (k @ CHR 0x00 # rest) d"
    by (rule byte_reads)+
  have "of_char c \<noteq> (0 :: nat)" using Cons.prems(2) of_char_nul [of c] by auto
  moreover from Cons.IH [OF h(2)] Cons.prems(2) obtain r' where "get_bson_cstr (get_byte r) = Inr (k, r')" "before r' rest d"
    by auto
  ultimately show ?case using h(1) by (subst get_bson_cstr.simps) simp
qed

lemma little_number_reads:
  assumes "before r (write_number True k n @ rest) d"
  shows "\<exists>r'. get_number Bson True k r = Inr (nat (n mod 2 ^ (8 * k)), r') \<and> before r' rest d"
proof -
  obtain r' where r': "get_bytes Bson ''number'' k r = Inr (write_number True k n, r')" "before r' rest d"
    by (rule get_bytes_before [OF assms]) simp
  have "rev (write_number True k n) = write_number False k n" by (simp add: write_number_def)
  with r' value_write_number [of k n] show ?thesis by (simp add: get_number_def)
qed

text \<open>A payload read as a value of its type.\<close>

definition bson_payload :: "nat \<Rightarrow> string \<Rightarrow> json \<Rightarrow> bool" where
  "bson_payload ty p v \<longleftrightarrow> 0 < ty \<and> ty < 256 \<and> (\<forall>n position r rest d. 2 * length p + 1 \<le> n \<longrightarrow> before r (p @ rest) d \<longrightarrow>
     (\<exists>r'. parse_bson_element n ty position r = Inr r' \<and> before r' rest (handle_value v d)))"

lemma payload_complete:
  assumes "0 < ty" "ty < 256" and "\<And>position r rest d. before r (p @ rest) d \<Longrightarrow>
    \<exists>r'. bson_switch ty position r = Complete (Inr r') \<and> before r' rest (handle_value v d)"
  shows "bson_payload ty p v"
  unfolding bson_payload_def
proof (intro conjI allI impI)
  fix n position r rest d assume n: "2 * length p + 1 \<le> n" and r: "before r (p @ rest) d"
  obtain m where "n = Suc m" using n by (cases n) auto
  with assms(3) [OF r, of position] show "\<exists>r'. parse_bson_element n ty position r = Inr r' \<and> before r' rest (handle_value v d)"
    by (auto simp: parse_bson_element.simps)
qed (use assms in simp_all)

lemma payload_number:
  assumes "0 < ty" "ty < 256" "f (nat (i mod 2 ^ (8 * k))) = v"
    and "\<And>position r. bson_switch ty position r = Complete (res_bind (get_number Bson True k r) (\<lambda>(x, r). emit (f x) r))"
  shows "bson_payload ty (write_number True k i) v"
proof (rule payload_complete [OF assms(1,2)])
  fix position r rest d assume "before r (write_number True k i @ rest) d"
  from little_number_reads [OF this] obtain r1 where r1: "get_number Bson True k r = Inr (nat (i mod 2 ^ (8 * k)), r1)" "before r1 rest d"
    by blast
  from emit_before [OF r1(2), of v] r1(1) assms(3,4)
  show "\<exists>r'. bson_switch ty position r = Complete (Inr r') \<and> before r' rest (handle_value v d)" by auto
qed

lemma payload_int32:
  assumes "in_i32 n"
  shows "bson_payload 0x10 (write_number True 4 n) (JInt n)"
proof (rule payload_number [where f = "\<lambda>k. JInt (wrap 32 (int k))"])
  show "JInt (wrap 32 (int (nat (n mod 2 ^ (8 * 4))))) = JInt n"
    using assms wrap_back [of 32 n] by (simp add: in_i32_def)
qed (simp_all add: bson_switch_def)

lemma payload_int64:
  assumes "in_i64 n"
  shows "bson_payload 0x12 (write_number True 8 n) (JInt n)"
proof (rule payload_number [where f = "\<lambda>k. JInt (wrap 64 (int k))"])
  show "JInt (wrap 64 (int (nat (n mod 2 ^ (8 * 8))))) = JInt n"
    using assms wrap_back [of 64 n] by (simp add: in_i64_def i64_min_def i64_max_def)
qed (simp_all add: bson_switch_def)

lemma payload_double: "bson_payload 0x01 (write_number True 8 (uint x)) (JFloat x)"
  by (rule payload_number [where f = "\<lambda>k. JFloat (word_of_nat k)"]) (simp_all add: bson_switch_def double_bits)

lemma payload_bool: "bson_payload 0x08 [char_of (if b then 1 else 0 :: nat)] (JBool b)"
proof (rule payload_complete)
  fix position r rest d assume "before r ([char_of (if b then 1 else 0 :: nat)] @ rest) d"
  then have "before r (char_of (if b then 1 else 0 :: nat) # rest) d" by simp
  note h = byte_reads [OF this]
  with emit_before [of "get_byte r" rest d "JBool b"]
  show "\<exists>r'. bson_switch 0x08 position r = Complete (Inr r') \<and> before r' rest (handle_value (JBool b) d)"
    by (cases b) (simp_all add: bson_switch_def)
qed simp_all

lemma payload_null: "bson_payload 0x0A [] JNull"
  by (rule payload_complete) (use emit_before in \<open>auto simp: bson_switch_def\<close>)

lemma payload_string:
  assumes "length s < 2 ^ 31 - 1"
  shows "bson_payload 0x02 (write_number True 4 (int (length s + 1)) @ s @ [CHR 0x00]) (JString s)"
proof (rule payload_complete)
  fix position r rest d
  assume "before r ((write_number True 4 (int (length s + 1)) @ s @ [CHR 0x00]) @ rest) d"
  then have "before r (write_number True 4 (int (length s + 1)) @ s @ CHR 0x00 # rest) d" by simp
  from little_number_reads [OF this] obtain r1 where
    r1: "get_number Bson True 4 r = Inr (nat (int (length s + 1) mod 2 ^ (8 * 4)), r1)" "before r1 (s @ CHR 0x00 # rest) d" by blast
  obtain r2 where r2: "get_bytes Bson ''string'' (length s) r1 = Inr (s, r2)" "before r2 (CHR 0x00 # rest) d"
    by (rule get_bytes_before [OF r1(2) refl])
  have "before r2 (char_of (0 :: nat) # rest) d" using r2(2) by (simp add: nul_char)
  note z = byte_reads [OF this]
  have "nat (int (length s + 1) mod 2 ^ (8 * 4)) = length s + 1" using assms by (simp add: nat_mod_distrib)
  moreover have "wrap 32 (int (length s + 1)) = int (length s + 1)"
    by (rule wrap32_id) (use assms in \<open>simp add: in_i32_def\<close>)
  moreover have "get_bson_string (int (length s + 1)) r1 = Inr (s, get_byte r2)"
    using r2(1) z(1) by (simp add: get_bson_string_def)
  ultimately have "bson_switch 0x02 position r = Complete (emit (JString s) (get_byte r2))"
    using r1(1) by (simp add: bson_switch_def)
  with z(2) emit_before [of "get_byte r2" rest d "JString s"]
  show "\<exists>r'. bson_switch 0x02 position r = Complete (Inr r') \<and> before r' rest (handle_value (JString s) d)" by auto
qed simp_all

lemma payload_binary:
  assumes "length bs < 2 ^ 31" "list_all (\<lambda>b. b < 256) bs"
  shows "bson_payload 0x05 (write_number True 4 (int (length bs)) @ write_number False 1 (int t) @ map char_of bs)
    (JBinary bs (Some (t mod 256)))"
proof (rule payload_complete)
  fix position r rest d
  assume "before r ((write_number True 4 (int (length bs)) @ write_number False 1 (int t) @ map char_of bs) @ rest) d"
  then have "before r (write_number True 4 (int (length bs)) @ write_number False 1 (int t) @ map char_of bs @ rest) d" by simp
  from little_number_reads [OF this] obtain r1 where
    r1: "get_number Bson True 4 r = Inr (nat (int (length bs) mod 2 ^ (8 * 4)), r1)"
      "before r1 (write_number False 1 (int t) @ map char_of bs @ rest) d" by blast
  obtain r2 where r2: "get_number Bson False 1 r1 = Inr (nat (int t mod 2 ^ (8 * 1)), r2)" "before r2 (map char_of bs @ rest) d"
    by (rule number_reads [OF r1(2), of Bson]) simp
  obtain r3 where r3: "get_bytes Bson ''binary'' (length bs) r2 = Inr (map char_of bs, r3)" "before r3 rest d"
    by (rule get_bytes_before [OF r2(2)]) simp
  have "nat (int (length bs) mod 2 ^ (8 * 4)) = length bs" using assms(1) by (simp add: nat_mod_distrib)
  moreover have "wrap 32 (int (length bs)) = int (length bs)"
    by (rule wrap32_id) (use assms(1) in \<open>simp add: in_i32_def\<close>)
  moreover have "get_bson_binary (int (length bs)) r1 = emit (JBinary bs (Some (t mod 256))) r3"
    using r2(1) r3(1) bytes_of [OF assms(2)] by (simp add: get_bson_binary_def nat_mod_distrib del: One_nat_def)
  ultimately have "bson_switch 0x05 position r = Complete (emit (JBinary bs (Some (t mod 256))) r3)"
    using r1(1) by (simp add: bson_switch_def)
  with emit_before [OF r3(2), of "JBinary bs (Some (t mod 256))"]
  show "\<exists>r'. bson_switch 0x05 position r = Complete (Inr r') \<and> before r' rest (handle_value (JBinary bs (Some (t mod 256))) d)"
    by auto
qed simp_all

text \<open>The entries of a document: type, name, payload.\<close>

type_synonym bson_entry = "string \<times> nat \<times> string"

definition entry_text :: "bson_entry \<Rightarrow> string" where
  "entry_text e = write_bson_entry_header (fst e) (fst (snd e)) @ snd (snd e)"

definition entry_reads :: "bson_entry \<Rightarrow> json \<Rightarrow> bool" where
  "entry_reads e v \<longleftrightarrow> CHR 0x00 \<notin> set (fst e) \<and> bson_payload (fst (snd e)) (snd (snd e)) v"

text \<open>One round of the loop over a document.\<close>

lemma entry_step:
  assumes "entry_reads e v" "before r (entry_text e @ rest) d" "2 * length (snd (snd e)) + 1 \<le> n"
  shows "\<exists>r1. parse_bson_element_list (Suc n) as_array r = parse_bson_element_list n as_array r1 \<and>
    before r1 rest (handle_value v (if as_array then d else dom_key (fst e) d))"
proof -
  obtain k ty p where e: "e = (k, ty, p)" by (cases e)
  from assms(1) have k: "CHR 0x00 \<notin> set k" and p: "bson_payload ty p v" by (simp_all add: entry_reads_def e)
  then have ty: "0 < ty" "ty < 256" by (simp_all add: bson_payload_def)
  from assms(2) have "before r (char_of ty # k @ CHR 0x00 # p @ rest) d" by (simp add: entry_text_def e write_bson_entry_header_def)
  note h = byte_reads [OF this ty(2)]
  from cstr_read [OF h(2) k] obtain r1 where r1: "get_bson_cstr (get_byte r) = Inr (k, r1)" "before r1 (p @ rest) d" by blast
  let ?d = "if as_array then d else dom_key k d"
  have "before (if as_array then r1 else sax_key k r1) (p @ rest) ?d" using r1(2) sax_key_before by simp
  with p assms(3) obtain r2 where "parse_bson_element n ty (bytes_read (get_byte r)) (if as_array then r1 else sax_key k r1) = Inr r2"
    "before r2 rest (handle_value v ?d)" unfolding bson_payload_def e by fastforce
  with h(1) r1(1) ty(1) show ?thesis by (auto simp: parse_bson_element_list.simps unexpect_eof_def Let_def e)
qed

lemma list_end:
  assumes "before r (CHR 0x00 # rest) d"
  shows "\<exists>r'. parse_bson_element_list (Suc n) as_array r = Inr r' \<and> before r' rest d"
proof -
  have "before r (char_of (0 :: nat) # rest) d" using assms by (simp add: nul_char)
  note byte_reads [OF this]
  then show ?thesis by (simp add: parse_bson_element_list.simps Let_def)
qed

lemma array_entries:
  assumes "list_all2 entry_reads es vs" "2 * length (concat (map entry_text es)) + 1 \<le> n"
    and "before r (concat (map entry_text es) @ CHR 0x00 # rest) d" "ref_stack d = In_array us # fs"
  shows "\<exists>r'. parse_bson_element_list n True r = Inr r' \<and> before r' rest (d\<lparr>ref_stack := In_array (us @ vs) # fs\<rparr>)"
  using assms
proof (induction es arbitrary: n vs r d us)
  case Nil
  then obtain m where "n = Suc m" by (cases n) auto
  with Nil list_end [of r rest d m True] show ?case by (simp add: same_stack)
next
  case (Cons e es)
  obtain v vs' where v: "vs = v # vs'" "entry_reads e v" "list_all2 entry_reads es vs'"
    using Cons.prems(1) by (auto simp: list_all2_Cons1)
  obtain m where m: "n = Suc m" using Cons.prems(2) by (cases n) auto
  have "before r (entry_text e @ concat (map entry_text es) @ CHR 0x00 # rest) d" using Cons.prems(3) by simp
  moreover have fuel: "2 * length (snd (snd e)) + 1 \<le> m" "2 * length (concat (map entry_text es)) + 1 \<le> m"
    using Cons.prems(2) m by (simp_all add: entry_text_def [of e] write_bson_entry_header_def)
  ultimately obtain r1 where r1: "parse_bson_element_list n True r = parse_bson_element_list m True r1"
    "before r1 (concat (map entry_text es) @ CHR 0x00 # rest) (handle_value v d)"
    using entry_step [OF v(2), of r _ d m True] m by auto
  have "ref_stack (handle_value v d) = In_array (us @ [v]) # fs" using Cons.prems(4) by (simp add: handle_value_def)
  from Cons.IH [OF v(3) fuel(2) r1(2) this] Cons.prems(4) r1(1) v(1) show ?case by (simp add: handle_value_def)
qed

lemma object_entries:
  assumes "list_all2 entry_reads es (map snd ms)" "map fst es = map fst ms" "2 * length (concat (map entry_text es)) + 1 \<le> n"
    and "before r (concat (map entry_text es) @ CHR 0x00 # rest) d" "ref_stack d = In_object us k0 # fs"
    and "sorted_wrt str_less (map fst us @ map fst ms)"
  shows "\<exists>r' k1. parse_bson_element_list n False r = Inr r' \<and> before r' rest (d\<lparr>ref_stack := In_object (us @ ms) k1 # fs\<rparr>)"
  using assms
proof (induction es arbitrary: n ms r d us k0)
  case Nil
  then obtain m where "n = Suc m" by (cases n) auto
  with Nil list_end [of r rest d m False] show ?case by (auto simp: same_stack [OF Nil.prems(5)] intro!: exI [of _ k0])
next
  case (Cons e es)
  then obtain k v ms' where ms: "ms = (k, v) # ms'" "fst e = k" "map fst es = map fst ms'" by (cases ms) auto
  with Cons.prems(1) have v: "entry_reads e v" "list_all2 entry_reads es (map snd ms')" by simp_all
  obtain m where m: "n = Suc m" using Cons.prems(3) by (cases n) auto
  have less: "\<forall>x \<in> set us. str_less (fst x) k" using Cons.prems(6) ms(1) by (auto simp: sorted_wrt_append)
  have "before r (entry_text e @ concat (map entry_text es) @ CHR 0x00 # rest) d" using Cons.prems(4) by simp
  moreover have fuel: "2 * length (snd (snd e)) + 1 \<le> m" "2 * length (concat (map entry_text es)) + 1 \<le> m"
    using Cons.prems(3) m by (simp_all add: entry_text_def [of e] write_bson_entry_header_def)
  ultimately obtain r1 where r1: "parse_bson_element_list n False r = parse_bson_element_list m False r1"
    "before r1 (concat (map entry_text es) @ CHR 0x00 # rest) (handle_value v (dom_key k d))"
    using entry_step [OF v(1), of r _ d m False] m ms(2) by auto
  note r2 = r1(2) [unfolded key_value_doms [OF Cons.prems(5) less]]
  let ?d = "d\<lparr>ref_stack := In_object (us @ [(k, v)]) k # fs\<rparr>"
  have s: "ref_stack ?d = In_object (us @ [(k, v)]) k # fs" by simp
  from Cons.IH [OF v(2) ms(3) fuel(2) r2 s] Cons.prems(6) ms(1) r1(1) show ?case by simp
qed

lemma bson_size_read:
  assumes "before r (write_number True 4 i @ rest) d"
  shows "\<exists>r1. bson_size r = Inr (no_length, r1) \<and> before r1 rest d"
  using little_number_reads [OF assms] by (auto simp: bson_size_def)

lemma payload_array:
  assumes "list_all2 entry_reads es vs"
  shows "bson_payload 0x04 (write_number True 4 i @ concat (map entry_text es) @ [CHR 0x00]) (JArray vs)"
  unfolding bson_payload_def
proof (intro conjI allI impI)
  let ?es = "concat (map entry_text es)"
  fix n position r rest d
  assume n: "2 * length (write_number True 4 i @ ?es @ [CHR 0x00]) + 1 \<le> n"
    and "before r ((write_number True 4 i @ ?es @ [CHR 0x00]) @ rest) d"
  then have "before r (write_number True 4 i @ ?es @ CHR 0x00 # rest) d" by simp
  from bson_size_read [OF this] obtain r1 where r1: "bson_size r = Inr (no_length, r1)" "before r1 (?es @ CHR 0x00 # rest) d" by blast
  obtain m where m: "n = Suc m" "2 * length ?es + 1 \<le> m" using n by (cases n) auto
  let ?r2 = "r1\<lparr>built := start_array (built r1)\<rparr>"
  have r2: "before ?r2 (?es @ CHR 0x00 # rest) (start_array d)" using r1(2) by (simp add: before_def)
  have s: "ref_stack (start_array d) = In_array [] # ref_stack d" by (simp add: start_array_def)
  from array_entries [OF assms m(2) r2 s] obtain r3 where r3: "parse_bson_element_list m True ?r2 = Inr r3"
    "before r3 rest ((start_array d)\<lparr>ref_stack := In_array vs # ref_stack d\<rparr>)" by auto
  have "parse_bson_element n 0x04 position r = Inr (sax_end r3)"
    using m(1) r1(1) r3(1) by (simp add: parse_bson_element.simps bson_switch_def sax_start_array_def)
  moreover have "before (sax_end r3) rest (handle_value (JArray vs) d)"
    using r3(2) same_stack [of d] by (simp add: before_def sax_end_def end_container_def start_array_def)
  ultimately show "\<exists>r'. parse_bson_element n 0x04 position r = Inr r' \<and> before r' rest (handle_value (JArray vs) d)" by blast
qed simp_all

text \<open>A document: its size, its entries, a zero.\<close>

lemma document_read:
  assumes "list_all2 entry_reads es (map snd ms)" "map fst es = map fst ms" "obj_ok ms"
    and "2 * length (concat (map entry_text es)) + 1 \<le> n"
    and "before r (write_number True 4 i @ concat (map entry_text es) @ CHR 0x00 # rest) d"
  shows "\<exists>r'. parse_bson n r = Inr r' \<and> before r' rest (handle_value (JObject ms) d)"
proof -
  let ?es = "concat (map entry_text es)"
  from bson_size_read [OF assms(5)] obtain r1 where r1: "bson_size r = Inr (no_length, r1)" "before r1 (?es @ CHR 0x00 # rest) d" by blast
  let ?r2 = "r1\<lparr>built := start_object (built r1)\<rparr>"
  have r2: "before ?r2 (?es @ CHR 0x00 # rest) (start_object d)" using r1(2) by (simp add: before_def)
  have s: "ref_stack (start_object d) = In_object [] [] # ref_stack d" by (simp add: start_object_def)
  from object_entries [OF assms(1,2,4) r2 s] assms(3) obtain r3 k1 where r3: "parse_bson_element_list n False ?r2 = Inr r3"
    "before r3 rest ((start_object d)\<lparr>ref_stack := In_object ms k1 # ref_stack d\<rparr>)" by (auto simp: obj_ok_def)
  have "parse_bson n r = Inr (sax_end r3)"
    using r1(1) r3(1) by (simp add: parse_bson_def sax_start_object_def)
  moreover have "before (sax_end r3) rest (handle_value (JObject ms) d)"
    using r3(2) same_stack [of d] by (simp add: before_def sax_end_def end_container_def start_object_def)
  ultimately show ?thesis by blast
qed

lemma element_document: "parse_bson_element (Suc n) 0x03 position r = parse_bson n r"
  by (simp add: parse_bson_element.simps bson_switch_def parse_bson_def)

lemma payload_object:
  assumes "list_all2 entry_reads es (map snd ms)" "map fst es = map fst ms" "obj_ok ms"
  shows "bson_payload 0x03 (write_number True 4 i @ concat (map entry_text es) @ [CHR 0x00]) (JObject ms)"
  unfolding bson_payload_def
proof (intro conjI allI impI)
  let ?es = "concat (map entry_text es)"
  fix n position r rest d
  assume n: "2 * length (write_number True 4 i @ ?es @ [CHR 0x00]) + 1 \<le> n"
    and "before r ((write_number True 4 i @ ?es @ [CHR 0x00]) @ rest) d"
  then have r: "before r (write_number True 4 i @ ?es @ CHR 0x00 # rest) d" by simp
  obtain m where m: "n = Suc m" "2 * length ?es + 1 \<le> m" using n by (cases n) auto
  from document_read [OF assms m(2) r] m(1)
  show "\<exists>r'. parse_bson_element n 0x03 position r = Inr r' \<and> before r' rest (handle_value (JObject ms) d)"
    by (simp add: element_document)
qed simp_all

section \<open>Every fitting value is written\<close>

lemma dec_no_nul: "CHR 0x00 \<notin> set (dec n)"
proof
  assume "CHR 0x00 \<in> set (dec n)"
  with dec_digits [of n] have "is_digit (CHR 0x00)" by (auto simp: list_all_iff)
  then show False by (simp add: is_digit_def)
qed

lemma sizes_total:
  "bson_fits j \<Longrightarrow> CHR 0x00 \<notin> set name \<Longrightarrow> \<exists>n. calc_bson_element_size name j = Inr n"
  "list_all (\<lambda>(k, v). CHR 0x00 \<notin> set k \<and> bson_fits v) ms \<Longrightarrow> \<exists>n. calc_bson_object_size ms = Inr n"
  "list_all bson_fits vs \<Longrightarrow> \<exists>n. calc_bson_array_size i vs = Inr n"
proof (induction name j and ms and i vs rule: calc_bson_element_size_calc_bson_object_size_calc_bson_array_size.induct)
  case (12 k v ms)
  then show ?case by fastforce
next
  case (14 i v vs)
  then show ?case using dec_no_nul by fastforce
qed (auto simp: calc_bson_entry_header_size_def)

definition writes_entry :: "json \<Rightarrow> nat \<Rightarrow> string \<Rightarrow> bool" where
  "writes_entry j ty p \<longleftrightarrow> bson_payload ty p (bson_canon j) \<and>
     (\<forall>name. write_bson_element name j = Inr (write_bson_entry_header name ty @ p))"

lemma writes_entryI:
  assumes "bson_payload ty p (bson_canon j)"
    and "\<And>name. write_bson_element name j = Inr (write_bson_entry_header name ty @ p)"
  shows "\<exists>ty p. writes_entry j ty p"
  using assms unfolding writes_entry_def by blast

lemma entry_of:
  assumes "writes_entry v ty p" "CHR 0x00 \<notin> set name"
  shows "entry_reads (name, ty, p) (bson_canon v)" "write_bson_element name v = Inr (entry_text (name, ty, p))"
  using assms by (simp_all add: writes_entry_def entry_reads_def entry_text_def)

lemma members_entries:
  assumes "\<forall>(k, v) \<in> set ms. CHR 0x00 \<notin> set k \<and> (\<exists>ty p. writes_entry v ty p)"
  shows "\<exists>es. map fst es = map fst ms \<and> list_all2 entry_reads es (map (\<lambda>kv. bson_canon (snd kv)) ms) \<and>
    write_bson_members ms = Inr (concat (map entry_text es))"
  using assms
proof (induction ms)
  case Nil
  then show ?case by simp
next
  case (Cons kv ms)
  obtain k v where kv: "kv = (k, v)" by (cases kv)
  with Cons.prems obtain ty p where w: "CHR 0x00 \<notin> set k" "writes_entry v ty p" by auto
  from Cons obtain es where es: "map fst es = map fst ms" "list_all2 entry_reads es (map (\<lambda>kv. bson_canon (snd kv)) ms)"
    "write_bson_members ms = Inr (concat (map entry_text es))" by auto
  with entry_of [OF w(2,1)] kv show ?case by (intro exI [of _ "(k, ty, p) # es"]) simp
qed

lemma elements_entries:
  assumes "\<forall>v \<in> set vs. \<exists>ty p. writes_entry v ty p"
  shows "\<exists>es. list_all2 entry_reads es (map bson_canon vs) \<and> write_bson_elements i vs = Inr (concat (map entry_text es))"
  using assms
proof (induction vs arbitrary: i)
  case Nil
  then show ?case by simp
next
  case (Cons v vs)
  from Cons.prems obtain ty p where w: "writes_entry v ty p" by auto
  from Cons.prems Cons.IH [of "i + 1"] obtain es where es: "list_all2 entry_reads es (map bson_canon vs)"
    "write_bson_elements (i + 1) vs = Inr (concat (map entry_text es))" by auto
  with entry_of [OF w dec_no_nul [of i]] show ?case by (intro exI [of _ "(dec i, ty, p) # es"]) simp
qed

lemma bson_leaf_written:
  assumes "\<not> is_structured j" "bson_fits j"
  shows "\<exists>ty p. writes_entry j ty p"
proof (cases j)
  case (JInt n)
  show ?thesis
  proof (cases "in_i32 n")
    case True
    with JInt payload_int32 [of n] show ?thesis by (intro writes_entryI) (simp_all add: write_bson_integer_def)
  next
    case False
    with JInt payload_int64 [of n] assms(2) show ?thesis by (intro writes_entryI) (simp_all add: write_bson_integer_def)
  qed
next
  case (JUnsigned n)
  with assms(2) have n: "0 \<le> n" "n \<le> i64_max" by simp_all
  show ?thesis
  proof (cases "n \<le> 2 ^ 31 - 1")
    case True
    with n have "in_i32 n" by (simp add: in_i32_def)
    from payload_int32 [OF this] JUnsigned True show ?thesis
      by (intro writes_entryI) (simp_all add: write_bson_unsigned_def)
  next
    case False
    from n have "in_i64 n" by (simp add: in_i64_def i64_min_def)
    from payload_int64 [OF this] JUnsigned False n show ?thesis
      by (intro writes_entryI) (simp_all add: write_bson_unsigned_def)
  qed
next
  case (JString s)
  with assms(2) payload_string [of s] show ?thesis by (intro writes_entryI) (simp_all add: write_bson_string_def)
next
  case (JBinary bs t)
  define k where "k = (case t of None \<Rightarrow> 0 | Some k \<Rightarrow> k)"
  have k: "(case t of None \<Rightarrow> 0 | Some k \<Rightarrow> int k) = int k" "(case t of None \<Rightarrow> 0 | Some k \<Rightarrow> k mod 256) = k mod 256"
    by (simp_all add: k_def split: option.split)
  with JBinary assms(2) payload_binary [of bs k] show ?thesis
    by (intro writes_entryI) (simp_all add: write_bson_binary_def)
next
  case (JBool b)
  with payload_bool [of b] show ?thesis by (intro writes_entryI) (simp_all only: bson_canon.simps write_bson_element.simps write_bson_boolean_def)
next
  case (JFloat x)
  with payload_double [of x] show ?thesis by (intro writes_entryI) (simp_all add: write_bson_double_def)
next
  case JNull
  with payload_null show ?thesis by (intro writes_entryI [where p = "[]"]) (simp_all add: write_bson_null_def)
qed (use assms in \<open>simp_all add: type_defs\<close>)

lemma bson_written: "bson_fits j \<Longrightarrow> \<exists>ty p. writes_entry j ty p"
proof (induction j rule: json_induct)
  case (object ms)
  then have fits: "list_all (\<lambda>(k, v). CHR 0x00 \<notin> set k \<and> bson_fits v) ms" "obj_ok ms" by simp_all
  have "\<forall>(k, v) \<in> set ms. CHR 0x00 \<notin> set k \<and> (\<exists>ty p. writes_entry v ty p)"
    using object.IH fits(1) unfolding list_all_iff by blast
  then obtain es where es: "map fst es = map fst ms" "list_all2 entry_reads es (map (\<lambda>kv. bson_canon (snd kv)) ms)"
    "write_bson_members ms = Inr (concat (map entry_text es))"
    using members_entries [of ms] by blast
  obtain n where n: "calc_bson_object_size ms = Inr n" using sizes_total(2) [OF fits(1)] by blast
  have "bson_payload 0x03 (write_number True 4 (int n) @ concat (map entry_text es) @ [CHR 0x00]) (bson_canon (JObject ms))"
    using payload_object [of es "map (map_prod id bson_canon) ms"] es(1,2) fits(2) by (simp add: obj_ok_def comp_def)
  with es(3) n show ?case by (intro writes_entryI) simp_all
next
  case (array vs)
  then have "\<forall>v \<in> set vs. \<exists>ty p. writes_entry v ty p" by (simp add: list_all_iff)
  then obtain es where es: "list_all2 entry_reads es (map bson_canon vs)" "write_bson_elements 0 vs = Inr (concat (map entry_text es))"
    using elements_entries [of vs 0] by blast
  obtain n where n: "calc_bson_array_size 0 vs = Inr n" using sizes_total(3) array.prems by auto
  with payload_array [OF es(1), of "int n"] es(2) show ?case by (intro writes_entryI) simp_all
next
  case (other j)
  then show ?case by (rule bson_leaf_written)
qed

lemma bson_document_written:
  assumes "bson_fits (JObject ms)"
  shows "\<exists>t. to_bson (JObject ms) = Inr t \<and> from_bson t True allow = Inr (bson_canon (JObject ms))"
proof -
  from assms have fits: "list_all (\<lambda>(k, v). CHR 0x00 \<notin> set k \<and> bson_fits v) ms" "obj_ok ms" by simp_all
  have "\<forall>(k, v) \<in> set ms. CHR 0x00 \<notin> set k \<and> (\<exists>ty p. writes_entry v ty p)"
    using bson_written fits(1) unfolding list_all_iff by blast
  then obtain es where es: "map fst es = map fst ms" "list_all2 entry_reads es (map (\<lambda>kv. bson_canon (snd kv)) ms)"
    "write_bson_members ms = Inr (concat (map entry_text es))"
    using members_entries [of ms] by blast
  obtain n where n: "calc_bson_object_size ms = Inr n" using sizes_total(2) [OF fits(1)] by blast
  let ?t = "write_number True 4 (int n) @ concat (map entry_text es) @ [CHR 0x00]"
  let ?vs = "map (map_prod id bson_canon) ms"
  have w: "to_bson (JObject ms) = Inr ?t" using n es(3) by (simp add: to_bson_def write_bson_object_def)
  let ?r = "new_reader ?t"
  have r: "before ?r (write_number True 4 (int n) @ concat (map entry_text es) @ CHR 0x00 # []) (built ?r)"
    by (simp add: before_def new_reader_def)
  have "obj_ok ?vs" "map fst es = map fst ?vs" "list_all2 entry_reads es (map snd ?vs)"
    using fits(2) es(1,2) by (simp_all add: obj_ok_def comp_def)
  moreover have "2 * length (concat (map entry_text es)) + 1 \<le> 2 * length ?t + 2" by simp
  ultimately obtain r1 where r1: "parse_bson (2 * length ?t + 2) ?r = Inr r1" "before r1 [] (handle_value (JObject ?vs) (built ?r))"
    using document_read [OF _ _ _ _ r] by blast
  then have "from_bson ?t True allow = Inr (JObject ?vs)"
    by (simp add: from_bson_def expect_end_def before_def parsed_def new_reader_def handle_value_def Let_def)
  with w show ?thesis by auto
qed

section \<open>The fuel is enough\<close>

lemma leaves_cstr: "leaves pair_left (ahead_of r) (get_bson_cstr r)"
proof (induction r rule: get_bson_cstr.induct)
  case (1 r)
  show ?case
  proof (cases "last_byte (get_byte r)")
    case None
    then show ?thesis by (subst get_bson_cstr.simps) simp
  next
    case (Some b)
    have end_zero: "leaves pair_left (ahead_of r) (Inr ([], get_byte r))" by simp
    have more: "leaves pair_left (ahead_of r) (res_bind (get_bson_cstr (get_byte r)) (\<lambda>(cs, r1). Inr (char_of b # cs, r1)))"
      if "b \<noteq> 0"
    proof (rule leaves_pair [OF leaves_mono [OF 1 [OF refl Some that]]])
      show "ahead_of (get_byte r) \<le> ahead_of r" by simp
    qed simp
    show ?thesis
    proof (cases "b = 0")
      case True
      with Some end_zero show ?thesis by (subst get_bson_cstr.simps) (simp only: Let_def option.case simp_thms if_True)
    next
      case False
      with Some more show ?thesis by (subst get_bson_cstr.simps) (simp only: Let_def option.case simp_thms if_False)
    qed
  qed
qed

lemma no_exception_fuel [simp]: "no_exception \<noteq> out_of_fuel" "unsupported_record t p \<noteq> out_of_fuel"
  by (simp_all add: no_exception_def out_of_fuel_def unsupported_record_def pointer_error_def)

lemma leaves_bson_string: "leaves pair_left (ahead_of r) (get_bson_string len r)"
proof -
  have "leaves pair_left (ahead_of r) (res_bind (get_bytes Bson ''string'' k r) (\<lambda>(s, r1).
      let r2 = get_byte r1 in if last_byte r2 = None then Inl no_exception else Inr (s, r2)))" for k
    by (rule leaves_pair [OF leaves_get_bytes]) (auto simp: Let_def split: list.splits)
  then show ?thesis by (simp add: get_bson_string_def)
qed

lemma leaves_bson_binary: "leaves ahead_of (ahead_of r) (get_bson_binary len r)"
proof -
  have "leaves ahead_of (ahead_of r) (res_bind (get_number Bson False 1 r) (\<lambda>(subtype, r).
      res_bind (get_bytes Bson ''binary'' k r) (\<lambda>(bs, r). emit (JBinary (map of_char bs) (Some subtype)) r)))" for k
  proof (rule leaves_pair [OF leaves_get_number])
    fix t and r1 :: binary_reader assume r1: "ahead_of r1 \<le> ahead_of r"
    then have "leaves pair_left (ahead_of r) (get_bytes Bson ''binary'' k r1)"
      by (rule leaves_mono [OF leaves_get_bytes])
    then show "leaves ahead_of (ahead_of r) (res_bind (get_bytes Bson ''binary'' k r1)
        (\<lambda>(bs, r). emit (JBinary (map of_char bs) (Some t)) r))" by (rule leaves_emit_pair)
  qed
  then show ?thesis by (simp add: get_bson_binary_def)
qed

lemma leaves_bson_size: "leaves pair_left (ahead_of r) (bson_size r)"
  unfolding bson_size_def by (rule leaves_pair [OF leaves_get_number]) simp

lemma bson_switch_leaves: "action_leaves (ahead_of r) (bson_switch ty position r)"
proof -
  have str: "leaves ahead_of (ahead_of r) (res_bind (get_number Bson True 4 r) (\<lambda>(k, r).
      res_bind (get_bson_string (wrap 32 (int k)) r) (\<lambda>(s, r). emit (JString s) r)))"
  proof (rule leaves_pair [OF leaves_get_number])
    fix k and r1 :: binary_reader assume r1: "ahead_of r1 \<le> ahead_of r"
    show "leaves ahead_of (ahead_of r) (res_bind (get_bson_string (wrap 32 (int k)) r1) (\<lambda>(s, r). emit (JString s) r))"
      by (rule leaves_emit_pair [OF leaves_mono [OF leaves_bson_string r1]])
  qed
  have bin: "leaves ahead_of (ahead_of r) (res_bind (get_number Bson True 4 r) (\<lambda>(k, r). get_bson_binary (wrap 32 (int k)) r))"
    by (rule leaves_pair [OF leaves_get_number]) (rule leaves_mono [OF leaves_bson_binary])
  have b: "leaves ahead_of (ahead_of r) (emit v (get_byte r))" for v
    by (rule leaves_mono [OF leaves_emit]) simp
  show ?thesis
    by (simp add: bson_switch_def Let_def str bin b leaves_emit leaves_emit_pair [OF leaves_get_number] leaves_bson_size)
qed

lemma leaves_document:
  assumes "\<And>r1. ahead_of r1 \<le> ahead_of r \<Longrightarrow> leaves ahead_of (ahead_of r1) (parse_bson_element_list n False r1)"
  shows "leaves ahead_of (ahead_of r) (parse_bson n r)"
  unfolding parse_bson_def by (rule leaves_container [OF leaves_bson_size leaves_start(2) assms])

lemma parse_bson_leaves:
  "2 * ahead_of r + 3 \<le> n \<Longrightarrow> leaves ahead_of (ahead_of r) (parse_bson_element n ty position r)"
  "2 * ahead_of r + 2 \<le> n \<Longrightarrow> leaves ahead_of (ahead_of r) (parse_bson_element_list n as_array r)"
proof (induction n arbitrary: r ty position as_array)
  case 0
  {
    case 1 then show ?case by simp
  next
    case 2 then show ?case by simp
  }
next
  case (Suc n)
  {
    case 1
    note a = bson_switch_leaves [of r ty position]
    have inner: "leaves ahead_of (ahead_of r1) (parse_bson_element_list n b r1)" if "ahead_of r1 \<le> ahead_of r" for b r1
      using Suc.IH(2) [of r1 b] that 1 by simp
    show ?case
    proof (cases "bson_switch ty position r")
      case (Array_of x)
      with a have "leaves pair_left (ahead_of r) x" by simp
      from leaves_container [OF this leaves_start(1), of "\<lambda>len. parse_bson_element_list n True"] inner Array_of
      show ?thesis by (simp add: parse_bson_element.simps)
    next
      case (Object_of x)
      with a have "leaves pair_left (ahead_of r) x" by simp
      from leaves_container [OF this leaves_start(2), of "\<lambda>len. parse_bson_element_list n False"] inner Object_of
      show ?thesis by (simp add: parse_bson_element.simps)
    qed (use a in \<open>simp_all add: parse_bson_element.simps\<close>)
  next
    case 2
    show ?case
    proof (cases "bytes_left r")
      case Nil
      then show ?thesis by (simp add: parse_bson_element_list.simps Let_def unexpect_eof_def)
    next
      case (Cons c cs)
      let ?r = "get_byte r"
      have round: "leaves ahead_of (ahead_of r) (res_bind (get_bson_cstr ?r) (\<lambda>(key, r1).
        res_bind (parse_bson_element n (of_char c) (bytes_read ?r) (if as_array then r1 else sax_key key r1)) (\<lambda>r2.
          parse_bson_element_list n as_array r2)))"
      proof (rule leaves_pair [OF leaves_cstr])
        fix key r1 assume r1: "ahead_of r1 \<le> ahead_of ?r"
        let ?k = "if as_array then r1 else sax_key key r1"
        have k: "ahead_of ?k = ahead_of r1" by (simp add: sax_key_def)
        then have "2 * ahead_of ?k + 3 \<le> n" using r1 2 Cons by simp
        from Suc.IH(1) [OF this] show "leaves ahead_of (ahead_of r) (res_bind
            (parse_bson_element n (of_char c) (bytes_read ?r) ?k) (\<lambda>r2. parse_bson_element_list n as_array r2))"
        proof (rule leaves_bind)
          fix r2 assume "ahead_of r2 \<le> ahead_of ?k"
          with k r1 2 Cons have "2 * ahead_of r2 + 2 \<le> n" "ahead_of r2 \<le> ahead_of r" by simp_all
          then show "leaves ahead_of (ahead_of r) (parse_bson_element_list n as_array r2)"
            by (intro leaves_mono [OF Suc.IH(2)])
        qed
      qed
      from round Cons show ?thesis by (simp add: parse_bson_element_list.simps Let_def unexpect_eof_def)
    qed
  }
qed

lemma from_bson_total: "from_bson bytes strict allow \<noteq> Inl out_of_fuel"
proof -
  let ?r = "new_reader bytes"
  have "leaves ahead_of (ahead_of ?r) (parse_bson (2 * length bytes + 2) ?r)"
    by (rule leaves_document) (rule parse_bson_leaves(2), simp add: new_reader_def)
  moreover have "expect_end Bson strict r \<noteq> Inl out_of_fuel" for r
    by (simp add: expect_end_def Let_def)
  ultimately show ?thesis
    by (cases "parse_bson (2 * length bytes + 2) ?r") (auto simp: from_bson_def parsed_def Let_def split: sum.split)
qed

lemma cut_string:
  assumes "CHR 0x00 \<notin> set k" "length s < 2 ^ 31 - 1"
  shows "from_bson (write_number True 4 i @ write_bson_entry_header k 0x02 @ write_number True 4 (int (length s + 1)) @ s)
    strict allow = Inr JDiscarded"
proof -
  let ?w = "write_number True 4 (int (length s + 1))"
  let ?t = "write_number True 4 i @ write_bson_entry_header k 0x02 @ ?w @ s"
  define r n where "r = new_reader ?t" and "n = 2 * length ?t"
  have "before r (write_number True 4 i @ (char_of (2 :: nat) # k @ CHR 0x00 # ?w @ s)) (built r)"
    by (simp add: r_def before_def new_reader_def write_bson_entry_header_def)
  from bson_size_read [OF this] obtain r1 where r1: "bson_size r = Inr (no_length, r1)"
    "before r1 (char_of (2 :: nat) # k @ CHR 0x00 # ?w @ s) (built r)" by blast
  let ?r1 = "r1\<lparr>built := start_object (built r1)\<rparr>"
  have "before ?r1 (char_of (2 :: nat) # k @ CHR 0x00 # ?w @ s) (start_object (built r))"
    using r1(2) by (simp add: before_def)
  note h = byte_reads [OF this]
  from h(2) cstr_read [OF _ assms(1)] obtain r2 where r2: "get_bson_cstr (get_byte ?r1) = Inr (k, r2)"
    "before r2 (?w @ s) (start_object (built r))" by (metis numeral_less_iff semiring_norm(76,78,81))
  have "before (sax_key k r2) (?w @ s) (dom_key k (start_object (built r)))" using sax_key_before [OF r2(2)] .
  from little_number_reads [OF this] obtain r3 where r3: "get_number Bson True 4 (sax_key k r2) =
      Inr (nat (int (length s + 1) mod 2 ^ (8 * 4)), r3)" "before r3 (s @ []) (dom_key k (start_object (built r)))"
    by auto
  obtain r4 where r4: "get_bytes Bson ''string'' (length s) r3 = Inr (s, r4)"
    "before r4 [] (dom_key k (start_object (built r)))" by (rule get_bytes_before [OF r3(2) refl])
  have len: "nat (int (length s + 1) mod 2 ^ (8 * 4)) = length s + 1" using assms(2) by (simp add: nat_mod_distrib)
  have "wrap 32 (int (length s + 1)) = int (length s + 1)"
    by (rule wrap32_id) (use assms(2) in \<open>simp add: in_i32_def\<close>)
  moreover have "get_bson_string (int (length s + 1)) r3 = Inl no_exception"
    using r4 by (simp add: get_bson_string_def before_def)
  ultimately have "parse_bson_element (Suc n) 2 p (sax_key k r2) = Inl no_exception" for p
    using r3(1) len by (simp add: parse_bson_element.simps bson_switch_def)
  then have "parse_bson_element_list (Suc (Suc n)) False ?r1 = Inl no_exception"
    using h(1) r2(1) by (simp add: parse_bson_element_list.simps unexpect_eof_def Let_def)
  then have "parse_bson (n + 2) r = Inl no_exception"
    using r1(1) by (simp add: parse_bson_def sax_start_object_def)
  then show ?thesis by (simp add: from_bson_def r_def n_def Let_def)
qed

section \<open>Properties\<close>

text \<open>C39. BSON reads back what it writes: every object with keys free of NUL, integers within \<open>int64_t\<close>,
  strings and byte strings within the 32-bit lengths is written, and what is written is read as
  the same value, doubles bit for bit, unsigned integers as signed ones, and every byte string
  with the low byte of its subtype, 0 when it had none.\<close>

theorem bson_roundtrip:
  assumes "bson_fits (JObject ms)"
  shows "\<exists>t. to_bson (JObject ms) = Inr t \<and> from_bson t True allow = Inr (bson_canon (JObject ms))"
  using assms by (rule bson_document_written)

theorem bson_roundtrip_witness:
  "\<exists>t. to_bson (JObject [(''a'', JArray [JInt (- 5), JUnsigned 7]), (''b'', JBinary [1, 255] None)]) = Inr t \<and>
     from_bson t True True = Inr (JObject [(''a'', JArray [JInt (- 5), JInt 7]), (''b'', JBinary [1, 255] (Some 0))])"
  using bson_roundtrip [of "[(''a'', JArray [JInt (- 5), JUnsigned 7]), (''b'', JBinary [1, 255] None)]" True]
  by (simp add: obj_ok_def in_i64_def i64_min_def i64_max_def)

text \<open>A key that holds a NUL is refused before anything is written, wherever in the value it stands
  first: the exception names the byte.\<close>

theorem bson_nul_key_refused:
  assumes "CHR 0x00 \<in> set k"
  shows "to_bson (JObject ((k, v) # ms)) = Inl (out_of_range 409 ''409''
    (''BSON key cannot contain code point U+0000 (at byte '' @ dec (length (takeWhile (\<lambda>c. c \<noteq> CHR 0x00) k)) @ '')''))"
  using assms by (cases v) (simp_all add: to_bson_def write_bson_object_def calc_bson_entry_header_size_def)

theorem bson_nul_key_refused_witness:
  "to_bson (JObject [([CHR 0x00], JNull)]) = Inl (out_of_range 409 ''409''
    (''BSON key cannot contain code point U+0000 (at byte '' @ dec 0 @ '')''))"
  using bson_nul_key_refused [of "[CHR 0x00]" JNull "[]"] by simp

text \<open>The BSON reader always ends with the end of its input.\<close>

theorem from_bson_fuel: "from_bson bytes strict allow \<noteq> Inl out_of_fuel"
  by (rule from_bson_total)

text \<open>A document cut off where the zero of a string should be is not reported: with exceptions
  allowed the reader still returns a discarded value, and no exception.\<close>

theorem bson_cut_string_silent:
  assumes "CHR 0x00 \<notin> set k" "length s < 2 ^ 31 - 1"
  shows "from_bson (write_number True 4 i @ write_bson_entry_header k 0x02 @ write_number True 4 (int (length s + 1)) @ s)
    strict allow = Inr JDiscarded"
  using assms by (rule cut_string)

theorem bson_cut_string_silent_witness:
  "from_bson (write_number True 4 0 @ write_bson_entry_header ''k'' 0x02 @ write_number True 4 2 @ ''x'') True True = Inr JDiscarded"
  using bson_cut_string_silent [of "''k''" "''x''" 0 True True] by simp

end
